(* ===== verification/Prelude.thy ===== *)
theory Prelude
  imports Main "HOL-Library.Word" "HOL-Library.Multiset" "HOL-Library.Monad_Syntax"
    "HOL-Library.Mapping"
begin

text \<open>
  The shared vocabulary of the development: machine integer types, the outcome type for code that
  can panic, vectors of bounded capacity, positional search, sorting by a key, and the generic
  lemmas on lists, options and words that the component theories use.

  \<^item> Panics. A Rust function that can panic (a failed \<open>expect\<close>, an out-of-range index, an
    arithmetic overflow of a checked build, an \<open>unreachable!\<close>) is modelled with result type
    \<open>'a option\<close>, and \<open>None\<close> is the panic; functions are composed with the option monad. A Rust
    \<open>Option<T>\<close> that is data keeps its own \<open>option\<close> inside.
  \<^item> Time. \<open>Instant\<close> and \<open>Duration\<close> are natural numbers of some fixed unit; a function that reads
    the clock takes the reading as an argument.
\<close>

unbundle bit_operations_syntax

type_synonym u8 = "8 word"
type_synonym u16 = "16 word"
type_synonym u32 = "32 word"
type_synonym u64 = "64 word"
type_synonym u256 = "256 word"
type_synonym bytes = "8 word list"
type_synonym instant = nat
type_synonym duration = nat

named_theorems panic_simps \<open>unfolding of the operations that can panic\<close>

text \<open>The bytes of a string literal.\<close>

definition ascii :: "string \<Rightarrow> bytes" where
  "ascii = map of_char"

section \<open>Checked arithmetic and vectors\<close>

definition checked_sub :: "nat \<Rightarrow> nat \<Rightarrow> nat option" where
  "checked_sub a b = (if b \<le> a then Some (a - b) else None)"

definition vec_index :: "'a list \<Rightarrow> nat \<Rightarrow> 'a option" where
  "vec_index xs i = (if i < length xs then Some (xs ! i) else None)"

definition vec_remove :: "'a list \<Rightarrow> nat \<Rightarrow> ('a \<times> 'a list) option" where
  "vec_remove xs i =
     (if i < length xs then Some (xs ! i, take i xs @ drop (Suc i) xs) else None)"

definition vec_insert :: "nat \<Rightarrow> 'a list \<Rightarrow> nat \<Rightarrow> 'a \<Rightarrow> 'a list option" where
  "vec_insert cap xs i x =
     (if i \<le> length xs \<and> length xs < cap then Some (take i xs @ x # drop i xs) else None)"

definition vec_push :: "nat \<Rightarrow> 'a list \<Rightarrow> 'a \<Rightarrow> 'a list option" where
  "vec_push cap xs x = (if length xs < cap then Some (xs @ [x]) else None)"

text \<open>The position of the first element that satisfies a predicate, Rust's \<open>Iterator::position\<close>.\<close>

fun position_of :: "('a \<Rightarrow> bool) \<Rightarrow> 'a list \<Rightarrow> nat option" where
  "position_of P [] = None"
| "position_of P (x # xs) = (if P x then Some 0 else map_option Suc (position_of P xs))"

lemma checked_sub_Some [simp]: "checked_sub a b = Some c \<longleftrightarrow> b \<le> a \<and> c = a - b"
  by (auto simp: checked_sub_def)

lemma checked_sub_le [simp]: "b \<le> a \<Longrightarrow> checked_sub a b = Some (a - b)"
  by (simp add: checked_sub_def)

lemma position_of_Some:
  "position_of P xs = Some i \<longleftrightarrow> i < length xs \<and> P (xs ! i) \<and> (\<forall>j < i. \<not> P (xs ! j))"
proof (induction xs arbitrary: i)
  case (Cons x xs)
  show ?case
  proof (cases i)
    case (Suc k)
    then show ?thesis
      using Cons.IH [of k] by (auto simp: less_Suc_eq_0_disj)
  qed auto
qed simp

lemma position_of_None: "position_of P xs = None \<longleftrightarrow> (\<forall>x \<in> set xs. \<not> P x)"
  by (induction xs) auto

lemma position_of_bound: "position_of P xs = Some i \<Longrightarrow> i < length xs"
  by (simp add: position_of_Some)

lemma position_of_append:
  "position_of P (xs @ ys) =
     (case position_of P xs of Some i \<Rightarrow> Some i
      | None \<Rightarrow> map_option (\<lambda>i. length xs + i) (position_of P ys))"
proof (induction xs)
  case Nil
  show ?case by (cases "position_of P ys") auto
qed (auto split: option.splits simp: option.map_comp comp_def intro!: option.map_cong)

lemma upt_split: "a \<le> i \<Longrightarrow> i < b \<Longrightarrow> [a..<b] = [a..<i] @ i # [Suc i..<b]"
  by (metis less_imp_Suc_add upt_add_eq_append upt_conv_Cons add_Suc_right)

lemma find_SomeD: "find P xs = Some x \<Longrightarrow> x \<in> set xs \<and> P x"
  by (auto simp: find_Some_iff)

lemma vec_remove_Some [panic_simps]:
  "i < length xs \<Longrightarrow> vec_remove xs i = Some (xs ! i, take i xs @ drop (Suc i) xs)"
  by (simp add: vec_remove_def)

lemma vec_insert_Some [panic_simps]:
  "i \<le> length xs \<Longrightarrow> length xs < cap \<Longrightarrow> vec_insert cap xs i x = Some (take i xs @ x # drop i xs)"
  by (simp add: vec_insert_def)

lemma vec_push_Some [panic_simps]:
  "length xs < cap \<Longrightarrow> vec_push cap xs x = Some (xs @ [x])"
  by (simp add: vec_push_def)

lemma vec_index_Some [panic_simps]: "i < length xs \<Longrightarrow> vec_index xs i = Some (xs ! i)"
  by (simp add: vec_index_def)

lemma mset_take_drop_Suc:
  "i < length xs \<Longrightarrow> mset xs = add_mset (xs ! i) (mset (take i xs @ drop (Suc i) xs))"
  by (metis add_mset_add_single id_take_nth_drop mset.simps(2) mset_append union_mset_add_mset_right)

lemma mset_take_Cons_drop: "mset (take i xs @ x # drop i xs) = add_mset x (mset xs)"
  by (metis add_mset_add_single append_take_drop_id mset.simps(2) mset_append union_mset_add_mset_right)

section \<open>Hash maps\<close>

text \<open>A hash map is a \<open>mapping\<close>; what the library does not say of it as an equation.\<close>

lemma in_keys_lookup: "k \<in> Mapping.keys m \<longleftrightarrow> Mapping.lookup m k \<noteq> None"
  by (simp add: Mapping.keys_dom_lookup domIff)

lemma lookup_delete_if:
  "Mapping.lookup (Mapping.delete k m) k' = (if k = k' then None else Mapping.lookup m k')"
  by (cases "k = k'") simp_all

section \<open>Words compared by their highest differing bit\<close>

lemma word_less_by_bit:
  fixes a b :: "'a::len word"
  assumes b: "bit b k" and a: "\<not> bit a k" and above: "\<And>l. k < l \<Longrightarrow> bit a l = bit b l"
  shows "a < b"
proof -
  have up: "drop_bit (Suc k) a = drop_bit (Suc k) b"
    by (rule bit_eqI) (simp add: bit_drop_bit_eq above)
  have split: "uint w div 2 ^ k = 2 * uint (drop_bit (Suc k) w) + of_bool (bit w k)" for w :: "'a word"
  proof -
    have "uint w div 2 ^ k = 2 * (uint w div 2 ^ k div 2) + of_bool (odd (uint w div 2 ^ k))"
      by (simp add: of_bool_odd_eq_mod_2)
    moreover have "odd (uint w div 2 ^ k) \<longleftrightarrow> bit w k"
      by (metis bit_iff_odd bit_uint_iff bit_imp_le_length)
    moreover have "uint w div 2 ^ k div 2 = uint (drop_bit (Suc k) w)"
    proof -
      have "uint (drop_bit (Suc k) w) = drop_bit (Suc k) (uint w)"
        by (metis unsigned_drop_bit_eq bintr_uint order_refl)
      then show ?thesis
        by (metis drop_bit_eq_div div_mult2_eq' power_Suc2 zdiv_zmult2_eq zero_le_numeral)
    qed
    ultimately show ?thesis by simp
  qed
  have "uint a div 2 ^ k < uint b div 2 ^ k"
    using a b up by (simp add: split)
  then have "uint a < uint b"
    by (meson zdiv_mono1 leD leI zero_less_numeral zero_less_power)
  then show ?thesis by (simp add: word_less_def)
qed

end
