(* ===== verification/Kad_Key.thy ===== *)
theory Kad_Key
  imports Prelude
begin

text \<open>
  Keys of the Kademlia key space and the buckets they fall into:
  \<open>protocols/kad/src/kbucket/key.rs\<close> and the type \<open>BucketIndex\<close> of
  \<open>protocols/kad/src/kbucket.rs\<close>.

  The 32 bytes of a key are held as the 256-bit integer that every operation of the code first turns
  them into (\<open>U256::from\<close>, big-endian). SHA-256 is a parameter, as are the random number
  generator and the byte-to-integer conversion where the code builds an integer from single bytes.
\<close>

section \<open>Definitions\<close>

definition K_VALUE :: nat where
  "K_VALUE = 20"

definition ALPHA_VALUE :: nat where
  "ALPHA_VALUE = 3"

record 'p key =
  key_preimage :: 'p
  key_bytes :: u256

definition KeyBytes_new :: "(bytes \<Rightarrow> u256) \<Rightarrow> bytes \<Rightarrow> u256" where
  "KeyBytes_new sha256 v = sha256 v"

definition Key_new :: "(bytes \<Rightarrow> u256) \<Rightarrow> ('p \<Rightarrow> bytes) \<Rightarrow> 'p \<Rightarrow> 'p key" where
  "Key_new sha256 borrow p = \<lparr>key_preimage = p, key_bytes = KeyBytes_new sha256 (borrow p)\<rparr>"

definition Key_from :: "('p \<Rightarrow> u256) \<Rightarrow> 'p \<Rightarrow> 'p key" where
  "Key_from digest p = \<lparr>key_preimage = p, key_bytes = digest p\<rparr>"

text \<open>Keys are equal when their digests are, whatever the preimages.\<close>

definition Key_eq :: "'p key \<Rightarrow> 'q key \<Rightarrow> bool" where
  "Key_eq a b \<longleftrightarrow> key_bytes a = key_bytes b"

definition KeyBytes_distance :: "u256 \<Rightarrow> u256 \<Rightarrow> u256" where
  "KeyBytes_distance a b = a XOR b"

definition KeyBytes_for_distance :: "u256 \<Rightarrow> u256 \<Rightarrow> u256" where
  "KeyBytes_for_distance a d = a XOR d"

definition Key_distance :: "'p key \<Rightarrow> u256 \<Rightarrow> u256" where
  "Key_distance a b = KeyBytes_distance (key_bytes a) b"

definition Key_for_distance :: "'p key \<Rightarrow> u256 \<Rightarrow> u256" where
  "Key_for_distance a d = KeyBytes_for_distance (key_bytes a) d"

text \<open>The number of zero bits above the highest set bit of a 256-bit integer.\<close>

definition leading_zeros :: "u256 \<Rightarrow> nat" where
  "leading_zeros w = length (takeWhile (\<lambda>i. \<not> bit w i) (rev [0..<256]))"

definition Distance_ilog2 :: "u256 \<Rightarrow> nat option" where
  "Distance_ilog2 d = checked_sub (256 - leading_zeros d) 1"

definition NUM_BUCKETS :: nat where
  "NUM_BUCKETS = 256"

definition BucketIndex_new :: "u256 \<Rightarrow> nat option" where
  "BucketIndex_new d = map_option (\<lambda>i. i) (Distance_ilog2 d)"

definition BucketIndex_range :: "nat \<Rightarrow> u256 \<times> u256" where
  "BucketIndex_range i =
     (let mn = 2 ^ i
      in if i = 255 then (mn, - 1) else (mn, 2 ^ (i + 1) - 1))"

text \<open>
  \<open>rand_distance\<close>: the loop fills the low \<open>quot\<close> bytes with random bytes (\<open>gen k\<close> is the
  \<open>k\<close>-th draw), then one more byte is drawn from \<open>[2 ^ rem, 2 ^ (rem + 1))\<close>.
\<close>

fun fill_random :: "(nat \<Rightarrow> u8) \<Rightarrow> nat \<Rightarrow> bytes \<Rightarrow> bytes" where
  "fill_random gen 0 bs = bs"
| "fill_random gen (Suc k) bs = (fill_random gen k bs)[31 - k := gen k]"

definition BucketIndex_rand_distance ::
    "(bytes \<Rightarrow> u256) \<Rightarrow> (nat \<Rightarrow> u8) \<Rightarrow> (nat \<Rightarrow> nat \<Rightarrow> nat) \<Rightarrow> nat \<Rightarrow> u256" where
  "BucketIndex_rand_distance from_bytes gen gen_range i =
     (let quot = i div 8;
          bs = fill_random gen quot (replicate 32 0);
          rm = i mod 8;
          lower = 2 ^ rm;
          upper = 2 ^ (rm + 1)
      in from_bytes (bs[31 - quot := of_nat (gen_range lower upper)]))"

section \<open>The highest set bit\<close>

lemma leading_zeros_le: "leading_zeros w \<le> 256"
  unfolding leading_zeros_def
  using length_takeWhile_le [of "\<lambda>i. \<not> bit w i" "rev [0..<256]"] by simp

lemma leading_zeros_zero: "leading_zeros 0 = 256"
  by (simp add: leading_zeros_def takeWhile_eq_all_conv [THEN iffD2])

lemma rev_upt_nth: "k < n \<Longrightarrow> rev [0..<n] ! k = n - Suc k"
  by (simp add: rev_nth)

lemma leading_zeros_highest:
  assumes "bit w i" and "\<And>l. i < l \<Longrightarrow> \<not> bit w l"
  shows "leading_zeros w = 255 - i"
proof -
  have i: "i < 256" using assms(1) by (auto dest: bit_imp_le_length)
  let ?xs = "rev [0..<256::nat]"
  have "takeWhile (\<lambda>i. \<not> bit w i) ?xs = take (255 - i) ?xs"
  proof (rule takeWhile_eq_take_P_nth)
    fix k assume "k < 255 - i" "k < length ?xs"
    then have "?xs ! k = 255 - k" and "i < 255 - k"
      by (simp_all add: rev_upt_nth)
    then show "\<not> bit w (?xs ! k)" using assms(2) by simp
  next
    assume "255 - i < length ?xs"
    moreover have "?xs ! (255 - i) = i" using i by (simp add: rev_upt_nth)
    ultimately show "\<not> \<not> bit w (?xs ! (255 - i))" using assms(1) by simp
  qed
  then show ?thesis by (simp add: leading_zeros_def)
qed

lemma highest_bit_exists:
  assumes "(w :: u256) \<noteq> 0"
  obtains i where "bit w i" and "\<And>l. i < l \<Longrightarrow> \<not> bit w l" and "i < 256"
proof -
  let ?S = "{i. bit w i}"
  have fin: "finite ?S"
    by (rule finite_subset [of _ "{..<256}"]) (auto dest: bit_imp_le_length)
  have ne: "?S \<noteq> {}"
    using assms by (auto simp: bit_eq_iff)
  have "bit w (Max ?S)" using Max_in [OF fin ne] by simp
  moreover have "\<not> bit w l" if "Max ?S < l" for l
    using Max_ge [OF fin, of l] that by (meson leD mem_Collect_eq)
  moreover have "Max ?S < 256"
    using Max_in [OF fin ne] by (auto dest: bit_imp_le_length)
  ultimately show ?thesis using that by blast
qed

lemma Distance_ilog2_highest:
  "bit w i \<Longrightarrow> (\<And>l. i < l \<Longrightarrow> \<not> bit w l) \<Longrightarrow> Distance_ilog2 w = Some i"
  using bit_imp_le_length [of w i] leading_zeros_highest [of w i]
  by (simp add: Distance_ilog2_def)

lemma Distance_ilog2_zero: "Distance_ilog2 0 = None"
  by (simp add: Distance_ilog2_def leading_zeros_zero checked_sub_def)

lemma Distance_ilog2_Some:
  "Distance_ilog2 w = Some i \<longleftrightarrow> bit w i \<and> (\<forall>l > i. \<not> bit w l)"
proof (cases "w = 0")
  case False
  then obtain j where "bit w j" "\<And>l. j < l \<Longrightarrow> \<not> bit w l"
    by (rule highest_bit_exists) blast
  then show ?thesis
    using Distance_ilog2_highest [of w j] by (auto, metis linorder_neqE_nat)
qed (simp add: Distance_ilog2_zero)

lemma Distance_ilog2_None: "Distance_ilog2 w = None \<longleftrightarrow> w = 0"
  by (metis Distance_ilog2_highest Distance_ilog2_zero highest_bit_exists option.distinct(1))

lemma BucketIndex_new_Some:
  "BucketIndex_new w = Some i \<longleftrightarrow> bit w i \<and> (\<forall>l > i. \<not> bit w l)"
  by (simp add: BucketIndex_new_def option.map_ident Distance_ilog2_Some)

lemma BucketIndex_new_None: "BucketIndex_new w = None \<longleftrightarrow> w = 0"
  by (simp add: BucketIndex_new_def Distance_ilog2_None)

lemma BucketIndex_new_bound: "BucketIndex_new w = Some i \<Longrightarrow> i < NUM_BUCKETS"
  by (auto simp: BucketIndex_new_Some NUM_BUCKETS_def dest: bit_imp_le_length)


section \<open>The XOR metric\<close>

lemma xor_nat_le: "m XOR n \<le> m + (n :: nat)"
proof (induction m arbitrary: n rule: less_induct)
  case (less m)
  show ?case
  proof (cases "m = 0")
    case False
    then have "m div 2 XOR n div 2 \<le> m div 2 + n div 2"
      by (intro less.IH) simp
    moreover have "m XOR n = of_bool (odd m \<noteq> odd n) + 2 * (m div 2 XOR n div 2)"
      by (rule xor_rec)
    moreover have "m = of_bool (odd m) + 2 * (m div 2)" "n = of_bool (odd n) + 2 * (n div 2)"
      by (simp_all add: of_bool_odd_eq_mod_2)
    moreover have "of_bool (odd m \<noteq> odd n) \<le> of_bool (odd m) + (of_bool (odd n) :: nat)"
      by auto
    ultimately show ?thesis by linarith
  qed simp
qed

lemma unat_xor_le: "unat (a XOR b) \<le> unat a + unat (b :: 'a::len word)"
  by (simp add: unsigned_xor_eq xor_nat_le)

lemma xor_eq_0_iff: "a XOR b = 0 \<longleftrightarrow> a = (b :: 'a::len word)"
  by (auto simp: bit_eq_iff bit_xor_iff)

lemma xor_cancel: "a XOR (a XOR b) = (b :: 'a::len word)"
  by (simp add: xor.assoc [symmetric])

text \<open>
  \<open>distance\<close> is a metric on the key space that determines the other end: it is zero exactly
  for equal keys, symmetric, satisfies the triangle inequality over the integers (the sum is not
  taken modulo \<open>2 ^ 256\<close>), and for every distance \<open>for_distance\<close> gives the unique key at
  that distance.
\<close>
theorem distance_metric:
  "(KeyBytes_distance a b = 0 \<longleftrightarrow> a = b) \<and>
   KeyBytes_distance a b = KeyBytes_distance b a \<and>
   unat (KeyBytes_distance a c) \<le> unat (KeyBytes_distance a b) + unat (KeyBytes_distance b c) \<and>
   (KeyBytes_distance a b = d \<longleftrightarrow> b = KeyBytes_for_distance a d)"
proof -
  have "a XOR c = (a XOR b) XOR (b XOR c)"
    by (auto simp: bit_eq_iff bit_xor_iff)
  then show ?thesis
    using unat_xor_le [of "a XOR b" "b XOR c"] xor_cancel
    by (auto simp: KeyBytes_distance_def KeyBytes_for_distance_def xor_eq_0_iff xor.commute)
qed

section \<open>Buckets partition the distances\<close>

lemma highest_bit_bounds:
  fixes w :: u256
  assumes "bit w i" and "\<And>l. i < l \<Longrightarrow> \<not> bit w l"
  shows "2 ^ i \<le> unat w" and "unat w < 2 ^ Suc i"
proof -
  have "bit (unat w) i" using assms(1) by (simp add: bit_unsigned_iff)
  then have "odd (unat w div 2 ^ i)" by (simp add: bit_iff_odd)
  then have "unat w div 2 ^ i \<noteq> 0" by (metis even_zero)
  then show "2 ^ i \<le> unat w" by (meson div_less linorder_not_le)
  have "take_bit (Suc i) w = w"
    by (rule bit_eqI) (use assms(2) not_less_eq in \<open>auto simp: bit_take_bit_iff\<close>)
  then have "unat w = take_bit (Suc i) (unat w)"
    by (metis unsigned_take_bit_eq)
  then show "unat w < 2 ^ Suc i"
    by (metis take_bit_nat_less_exp)
qed

lemma BucketIndex_new_iff_bounds:
  "BucketIndex_new d = Some i \<longleftrightarrow> 2 ^ i \<le> unat d \<and> unat d < 2 ^ Suc i"
proof
  assume "BucketIndex_new d = Some i"
  then show "2 ^ i \<le> unat d \<and> unat d < 2 ^ Suc i"
    using highest_bit_bounds [of d i] by (auto simp: BucketIndex_new_Some)
next
  assume b: "2 ^ i \<le> unat d \<and> unat d < 2 ^ Suc i"
  then have "d \<noteq> 0" by auto
  then obtain j where j: "BucketIndex_new d = Some j"
    using BucketIndex_new_None by (cases "BucketIndex_new d") auto
  then have "2 ^ j \<le> unat d" "unat d < 2 ^ Suc j"
    using highest_bit_bounds [of d j] by (auto simp: BucketIndex_new_Some)
  with b have "(2::nat) ^ i < 2 ^ Suc j" "(2::nat) ^ j < 2 ^ Suc i" by linarith+
  then have "i < Suc j" "j < Suc i" by (simp_all only: power_strict_increasing_iff one_less_numeral_iff semiring_norm)
  then show "BucketIndex_new d = Some i" using j by simp
qed

lemma unat_power2_u256: "i < 256 \<Longrightarrow> unat (2 ^ i :: u256) = 2 ^ i"
proof -
  assume "i < 256"
  then have "(2::nat) ^ i < 2 ^ 256" by (rule power_strict_increasing) simp
  then have "unat (word_of_nat (2 ^ i) :: u256) = 2 ^ i" by (simp add: unat_of_nat del: of_nat_power)
  then show ?thesis by simp
qed

text \<open>
  The buckets partition the non-zero distances: distance \<open>d\<close> is put into bucket \<open>i\<close>
  (\<open>BucketIndex::new\<close>, through the position of the highest set bit) exactly when \<open>i\<close> is a bucket
  and \<open>d\<close> lies within the inclusive bounds that \<open>BucketIndex::range\<close> reports for it, and only
  distance zero has no bucket.
\<close>
theorem bucket_index_range:
  "(BucketIndex_new d = Some i \<longleftrightarrow>
      i < NUM_BUCKETS \<and> fst (BucketIndex_range i) \<le> d \<and> d \<le> snd (BucketIndex_range i)) \<and>
   (BucketIndex_new d = None \<longleftrightarrow> d = 0)"
proof -
  have "fst (BucketIndex_range i) \<le> d \<and> d \<le> snd (BucketIndex_range i)
        \<longleftrightarrow> 2 ^ i \<le> unat d \<and> unat d < 2 ^ Suc i" if "i < 256"
  proof (cases "i = 255")
    case True
    moreover have "unat d < 2 ^ 256" using unsigned_less [of d] by simp
    moreover have "unat d \<le> unat (- 1 :: u256)"
      using word_n1_ge [of d] by (simp only: word_le_nat_alt)
    ultimately show ?thesis
      using unat_power2_u256 [of 255] by (simp add: BucketIndex_range_def word_le_nat_alt)
  next
    case False
    with that have "Suc i < 256" by simp
    then have "unat (2 ^ Suc i - 1 :: u256) = 2 ^ Suc i - 1"
      by (subst unat_minus_one) (use unat_power2_u256 [of "Suc i"] in \<open>auto simp del: power_Suc\<close>)
    moreover have "m \<le> 2 ^ Suc i - 1 \<longleftrightarrow> m < 2 ^ Suc i" for m :: nat
      using zero_less_power [of "2::nat" "Suc i"] by linarith
    ultimately show ?thesis
      using that False unat_power2_u256 [of i]
      by (simp add: BucketIndex_range_def word_le_nat_alt del: power_Suc One_nat_def flip: Suc_eq_plus1)
  qed
  then show ?thesis
    using BucketIndex_new_iff_bounds [of d i] BucketIndex_new_bound [of d i] BucketIndex_new_None [of d]
    by (auto simp: NUM_BUCKETS_def)
qed


section \<open>Random distances\<close>

lemma fill_random_length [simp]: "length (fill_random gen k bs) = length bs"
  by (induction k) auto

lemma fill_random_other:
  "k \<le> 32 \<Longrightarrow> i < 32 - k \<Longrightarrow> fill_random gen k bs ! i = bs ! i"
  by (induction k) auto

lemma horner_bytes_bound: "horner_sum uint 256 (bs :: bytes) < 256 ^ length bs"
proof (induction bs)
  case (Cons b bs)
  have "uint b < 256" using uint_lt2p [of b] by simp
  with Cons show ?case by simp
qed simp

lemma horner_bytes_nonneg: "0 \<le> horner_sum uint 256 (bs :: bytes)"
  by (induction bs) auto

lemma horner_zeros: "horner_sum uint 256 (replicate n (0 :: u8)) = (0::int)"
  by (induction n) auto

lemma rev_random_bytes:
  assumes "q < 32" and "bs = (fill_random gen q (replicate 32 0))[31 - q := t]"
  shows "rev bs = take q (rev bs) @ t # replicate (31 - q) 0"
proof (rule nth_equalityI)
  show "length (rev bs) = length (take q (rev bs) @ t # replicate (31 - q) 0)"
    using assms by simp
  fix k assume "k < length (rev bs)"
  then have "k < 32" using assms by simp
  then show "rev bs ! k = (take q (rev bs) @ t # replicate (31 - q) 0) ! k"
    using assms by (auto simp: nth_append rev_nth nth_Cons' fill_random_other)
qed

lemma random_bytes_value:
  assumes "q < 32" and "bs = (fill_random gen q (replicate 32 0))[31 - q := of_nat t]"
    and "t < 256"
  obtains lo where "horner_sum uint 256 (rev bs) = lo + 256 ^ q * int t" and "0 \<le> lo" and "lo < 256 ^ q"
proof -
  have ut: "uint (of_nat t :: u8) = int t"
    using assms(3) by (simp add: unsigned_of_nat take_bit_nat_eq_self)
  let ?lo = "horner_sum uint 256 (take q (rev bs))"
  have "horner_sum uint 256 (rev bs) = ?lo + 256 ^ q * int t"
    using assms(1,2) by (subst rev_random_bytes [OF assms(1,2)]) (simp add: horner_sum_append horner_zeros ut)
  moreover have "0 \<le> ?lo" "?lo < 256 ^ q"
    using horner_bytes_nonneg [of "take q (rev bs)"] horner_bytes_bound [of "take q (rev bs)"] assms(1,2)
    by simp_all
  ultimately show ?thesis by (rule that)
qed

text \<open>
  \<open>rand_distance\<close> draws from its own bucket: if the byte-to-integer conversion is big-endian
  and \<open>gen_range lower upper\<close> returns a value of \<open>[lower, upper)\<close>, then for every bucket \<open>i\<close>
  and every sequence of random bytes the distance it returns has bucket index \<open>i\<close>.
\<close>
theorem rand_distance_in_bucket:
  assumes big_endian: "\<And>bs. length bs = 32 \<Longrightarrow> uint (from_bytes bs) = horner_sum uint 256 (rev bs)"
    and range: "\<And>l u. l < u \<Longrightarrow> l \<le> gen_range l u \<and> gen_range l u < u"
    and i: "i < NUM_BUCKETS"
  shows "BucketIndex_new (BucketIndex_rand_distance from_bytes gen gen_range i) = Some i"
proof -
  let ?q = "i div 8" and ?r = "i mod 8"
  let ?top = "gen_range (2 ^ ?r) (2 ^ (?r + 1))"
  let ?bs = "(fill_random gen ?q (replicate 32 0))[31 - ?q := of_nat ?top]"
  let ?d = "BucketIndex_rand_distance from_bytes gen gen_range i"
  have q: "?q < 32" using i by (simp add: NUM_BUCKETS_def)
  have top: "2 ^ ?r \<le> ?top" "?top < 2 ^ (?r + 1)"
    using range [of "2 ^ ?r" "2 ^ (?r + 1)"] by simp_all
  have "(2::nat) ^ (?r + 1) \<le> 2 ^ 8" by (rule power_increasing) auto
  with top(2) have "?top < 256" by simp
  with q obtain lo where val: "horner_sum uint 256 (rev ?bs) = lo + 256 ^ ?q * int ?top"
    and lo: "0 \<le> lo" "lo < 256 ^ ?q"
    by (rule random_bytes_value [OF _ refl])
  have d: "uint ?d = lo + 256 ^ ?q * int ?top"
    unfolding BucketIndex_rand_distance_def Let_def val [symmetric] by (rule big_endian) simp
  have "(2::int) ^ i = 2 ^ (8 * ?q + ?r)" by simp
  then have pow: "(2::int) ^ i = 256 ^ ?q * 2 ^ ?r"
    by (simp only: power_add power_mult) simp
  have "int (2 ^ ?r) \<le> int ?top" "int ?top + 1 \<le> int (2 ^ (?r + 1))"
    using top by linarith+
  then have "256 ^ ?q * int (2 ^ ?r) \<le> (256::int) ^ ?q * int ?top"
    "(256::int) ^ ?q * (int ?top + 1) \<le> 256 ^ ?q * int (2 ^ (?r + 1))"
    by (simp_all only: mult_left_mono zero_le_numeral zero_le_power)
  then have "256 ^ ?q * 2 ^ ?r \<le> uint ?d" "uint ?d < 256 ^ ?q * (2 ^ ?r * 2)"
    using d lo by (simp_all only: distrib_left of_nat_power of_nat_mult of_nat_numeral power_add power_one_right)
  then have "2 ^ i \<le> uint ?d" "uint ?d < 2 ^ Suc i"
    by (simp_all add: pow algebra_simps)
  then have "2 ^ i \<le> unat ?d" "unat ?d < 2 ^ Suc i"
    by (simp_all only: uint_nat numeral_power_le_of_nat_cancel_iff of_nat_less_numeral_power_cancel_iff)
  then show ?thesis by (simp add: BucketIndex_new_iff_bounds)
qed


theorem rand_distance_in_bucket_witness:
  "BucketIndex_new (BucketIndex_rand_distance word_rcat (\<lambda>k. of_nat (7 * k)) (\<lambda>l u. u - 1) 77) = Some 77"
proof (rule rand_distance_in_bucket)
  fix bs :: bytes assume "length bs = 32"
  then have "horner_sum uint 256 (rev bs) < (2::int) ^ 256"
    using horner_bytes_bound [of "rev bs"] by simp
  then show "uint (word_rcat bs :: u256) = horner_sum uint 256 (rev bs)"
    using horner_bytes_nonneg [of "rev bs"]
    by (simp add: word_rcat_def uint_word_of_int_eq take_bit_int_eq_self)
qed (auto simp: NUM_BUCKETS_def)

end
