(* ===== verification/Kad_Bucket.thy ===== *)
theory Kad_Bucket
  imports Kad_Key
begin

text \<open>
  A single k-bucket, \<open>protocols/kad/src/kbucket/bucket.rs\<close>.

  The first part translates the operations on the flat vector \<open>nodes\<close> with the index
  \<open>first_connected_pos\<close>; \<open>None\<close> as a result is a panic. The second part specifies what a bucket
  is: two queues, disconnected and connected, each from least to most recently changed, and at most
  one node waiting for a slot. The third part is the contract between the two as a locale, with the
  consequences for arbitrary sequences of operations proved in it once, and its interpretation on
  the operations of the code.
\<close>

section \<open>Definitions\<close>

datatype NodeStatus = Connected | Disconnected

record ('p, 'v) Node =
  node_key :: "'p key"
  node_value :: 'v

record ('p, 'v) PendingNode =
  pn_node :: "('p, 'v) Node"
  pn_status :: NodeStatus
  pn_replace :: instant

record ('p, 'v) KBucket =
  nodes :: "('p, 'v) Node list"
  first_connected_pos :: "nat option"
  pending :: "('p, 'v) PendingNode option"
  pending_timeout :: duration

datatype 'p InsertResult = Inserted | InsertPending "'p key" | InsertFull

record ('p, 'v) AppliedPending =
  ap_inserted :: "('p, 'v) Node"
  ap_evicted :: "('p, 'v) Node option"

abbreviation node_bytes :: "('p, 'v) Node \<Rightarrow> u256" where
  "node_bytes n \<equiv> key_bytes (node_key n)"

definition KBucket_new :: "duration \<Rightarrow> ('p, 'v) KBucket" where
  "KBucket_new timeout =
     \<lparr>nodes = [], first_connected_pos = None, pending = None, pending_timeout = timeout\<rparr>"

definition PendingNode_is_ready :: "instant \<Rightarrow> ('p, 'v) PendingNode \<Rightarrow> bool" where
  "PendingNode_is_ready now p \<longleftrightarrow> pn_replace p \<le> now"

definition PendingNode_set_ready_at :: "('p, 'v) PendingNode \<Rightarrow> instant \<Rightarrow> ('p, 'v) PendingNode" where
  "PendingNode_set_ready_at p t = p\<lparr>pn_replace := t\<rparr>"

definition nodes_is_full :: "('p, 'v) KBucket \<Rightarrow> bool" where
  "nodes_is_full b \<longleftrightarrow> length (nodes b) = K_VALUE"

definition KBucket_as_pending :: "('p, 'v) KBucket \<Rightarrow> 'p key \<Rightarrow> ('p, 'v) PendingNode option" where
  "KBucket_as_pending b k =
     (case pending b of
        Some p \<Rightarrow> if node_bytes (pn_node p) = key_bytes k then Some p else None
      | None \<Rightarrow> None)"

definition KBucket_status :: "('p, 'v) KBucket \<Rightarrow> nat \<Rightarrow> NodeStatus" where
  "KBucket_status b pos =
     (if (case first_connected_pos b of Some i \<Rightarrow> i \<le> pos | None \<Rightarrow> False)
      then Connected else Disconnected)"

definition KBucket_is_connected :: "('p, 'v) KBucket \<Rightarrow> nat \<Rightarrow> bool" where
  "KBucket_is_connected b pos \<longleftrightarrow> KBucket_status b pos = Connected"

definition KBucket_position :: "('p, 'v) KBucket \<Rightarrow> 'p key \<Rightarrow> nat option" where
  "KBucket_position b k = position_of (\<lambda>n. node_bytes n = key_bytes k) (nodes b)"

definition KBucket_get :: "('p, 'v) KBucket \<Rightarrow> 'p key \<Rightarrow> ('p, 'v) Node option" where
  "KBucket_get b k = map_option (\<lambda>i. nodes b ! i) (KBucket_position b k)"

text \<open>\<open>get_mut\<close> hands out a mutable reference to the node; the model applies the caller's change.\<close>

definition KBucket_get_mut ::
    "('p, 'v) KBucket \<Rightarrow> 'p key \<Rightarrow> ('v \<Rightarrow> 'v) \<Rightarrow> ('p, 'v) KBucket option" where
  "KBucket_get_mut b k f =
     map_option (\<lambda>i. b\<lparr>nodes := (nodes b)[i := (nodes b ! i)\<lparr>node_value := f (node_value (nodes b ! i))\<rparr>]\<rparr>)
       (KBucket_position b k)"

definition KBucket_iter :: "('p, 'v) KBucket \<Rightarrow> (('p, 'v) Node \<times> NodeStatus) list" where
  "KBucket_iter b = map (\<lambda>(p, n). (n, KBucket_status b p)) (List.enumerate 0 (nodes b))"

definition KBucket_num_entries :: "('p, 'v) KBucket \<Rightarrow> nat" where
  "KBucket_num_entries b = length (nodes b)"

definition KBucket_num_connected :: "('p, 'v) KBucket \<Rightarrow> nat option" where
  "KBucket_num_connected b =
     (case first_connected_pos b of None \<Rightarrow> Some 0 | Some i \<Rightarrow> checked_sub (length (nodes b)) i)"

definition KBucket_num_disconnected :: "('p, 'v) KBucket \<Rightarrow> nat option" where
  "KBucket_num_disconnected b =
     do { c \<leftarrow> KBucket_num_connected b; checked_sub (length (nodes b)) c }"

definition KBucket_insert ::
    "instant \<Rightarrow> ('p, 'v) KBucket \<Rightarrow> ('p, 'v) Node \<Rightarrow> NodeStatus
       \<Rightarrow> ('p InsertResult \<times> ('p, 'v) KBucket) option" where
  "KBucket_insert now b node status =
     (case status of
        Connected \<Rightarrow>
          if nodes_is_full b then
            if first_connected_pos b = Some 0 \<or> pending b \<noteq> None then Some (InsertFull, b)
            else do {
              let b' = b\<lparr>pending := Some \<lparr>pn_node = node, pn_status = Connected,
                                        pn_replace = now + pending_timeout b\<rparr>\<rparr>;
              n0 \<leftarrow> vec_index (nodes b) 0;
              Some (InsertPending (node_key n0), b')
            }
          else do {
            let pos = length (nodes b);
            ns \<leftarrow> vec_push K_VALUE (nodes b) node;
            Some (Inserted, b\<lparr>nodes := ns, first_connected_pos :=
                    (case first_connected_pos b of None \<Rightarrow> Some pos | Some p \<Rightarrow> Some p)\<rparr>)
          }
      | Disconnected \<Rightarrow>
          if nodes_is_full b then Some (InsertFull, b)
          else case first_connected_pos b of
            Some p \<Rightarrow> do {
              ns \<leftarrow> vec_insert K_VALUE (nodes b) p node;
              Some (Inserted, b\<lparr>nodes := ns, first_connected_pos := Some (p + 1)\<rparr>)
            }
          | None \<Rightarrow> do {
              ns \<leftarrow> vec_push K_VALUE (nodes b) node;
              Some (Inserted, b\<lparr>nodes := ns\<rparr>)
            })"

definition KBucket_remove ::
    "('p, 'v) KBucket \<Rightarrow> 'p key
       \<Rightarrow> ((('p, 'v) Node \<times> NodeStatus \<times> nat) option \<times> ('p, 'v) KBucket) option" where
  "KBucket_remove b k =
     (case KBucket_position b k of
        None \<Rightarrow> Some (None, b)
      | Some pos \<Rightarrow> do {
          let status = KBucket_status b pos;
          (node, ns) \<leftarrow> vec_remove (nodes b) pos;
          fcp \<leftarrow> (case status of
                   Connected \<Rightarrow>
                     Some (if first_connected_pos b = Some pos \<and> pos = length ns then None
                           else first_connected_pos b)
                 | Disconnected \<Rightarrow>
                     (case first_connected_pos b of
                        Some p \<Rightarrow> do { p' \<leftarrow> checked_sub p 1; Some (Some p') }
                      | None \<Rightarrow> Some None));
          Some (Some (node, status, pos), b\<lparr>nodes := ns, first_connected_pos := fcp\<rparr>)
        })"

definition KBucket_update ::
    "instant \<Rightarrow> ('p, 'v) KBucket \<Rightarrow> 'p key \<Rightarrow> NodeStatus \<Rightarrow> ('p, 'v) KBucket option" where
  "KBucket_update now b k status =
     do {
       (removed, b1) \<leftarrow> KBucket_remove b k;
       case removed of
         None \<Rightarrow> Some b1
       | Some (node, old_status, pos) \<Rightarrow> do {
           let b2 = (if pos = 0 \<and> status = Connected then b1\<lparr>pending := None\<rparr> else b1);
           (r, b3) \<leftarrow> KBucket_insert now b2 node status;
           if r = Inserted then Some b3 else None
         }
     }"

definition KBucket_update_pending :: "('p, 'v) KBucket \<Rightarrow> NodeStatus \<Rightarrow> ('p, 'v) KBucket" where
  "KBucket_update_pending b status =
     b\<lparr>pending := map_option (\<lambda>p. p\<lparr>pn_status := status\<rparr>) (pending b)\<rparr>"

definition KBucket_remove_pending ::
    "('p, 'v) KBucket \<Rightarrow> ('p, 'v) PendingNode option \<times> ('p, 'v) KBucket" where
  "KBucket_remove_pending b = (pending b, b\<lparr>pending := None\<rparr>)"

definition KBucket_apply_pending ::
    "instant \<Rightarrow> ('p, 'v) KBucket \<Rightarrow> (('p, 'v) AppliedPending option \<times> ('p, 'v) KBucket) option" where
  "KBucket_apply_pending now b0 =
     (case pending b0 of
        None \<Rightarrow> Some (None, b0)
      | Some p \<Rightarrow>
          let b = b0\<lparr>pending := None\<rparr> in
          if pn_replace p \<le> now then
            if nodes_is_full b then
              if KBucket_status b 0 = Connected then Some (None, b)
              else if \<not> (case first_connected_pos b of None \<Rightarrow> True | Some q \<Rightarrow> 0 < q) then None
              else if pn_status p = Connected then do {
                (ev, ns) \<leftarrow> vec_remove (nodes b) 0;
                let fcp = (case first_connected_pos b of
                             None \<Rightarrow> Some (length ns)
                           | Some q \<Rightarrow> checked_sub q 1);
                ns' \<leftarrow> vec_push K_VALUE ns (pn_node p);
                Some (Some \<lparr>ap_inserted = pn_node p, ap_evicted = Some ev\<rparr>,
                      b\<lparr>nodes := ns', first_connected_pos := fcp\<rparr>)
              }
              else (case first_connected_pos b of
                Some q \<Rightarrow> do {
                  insert_pos \<leftarrow> checked_sub q 1;
                  (ev, ns) \<leftarrow> vec_remove (nodes b) 0;
                  ns' \<leftarrow> vec_insert K_VALUE ns insert_pos (pn_node p);
                  Some (Some \<lparr>ap_inserted = pn_node p, ap_evicted = Some ev\<rparr>, b\<lparr>nodes := ns'\<rparr>)
                }
              | None \<Rightarrow> do {
                  (ev, ns) \<leftarrow> vec_remove (nodes b) 0;
                  ns' \<leftarrow> vec_push K_VALUE ns (pn_node p);
                  Some (Some \<lparr>ap_inserted = pn_node p, ap_evicted = Some ev\<rparr>, b\<lparr>nodes := ns'\<rparr>)
                })
            else do {
              (r, b') \<leftarrow> KBucket_insert now b (pn_node p) (pn_status p);
              if r = Inserted
              then Some (Some \<lparr>ap_inserted = pn_node p, ap_evicted = None\<rparr>, b')
              else None
            }
          else Some (None, b\<lparr>pending := Some p\<rparr>))"


section \<open>The specification: two queues and a waiting node\<close>

record ('p, 'v) lru =
  disconnected :: "('p, 'v) Node list"
  connected :: "('p, 'v) Node list"
  waiting :: "('p, 'v) PendingNode option"
  timeout :: duration

definition lru_full :: "('p, 'v) lru \<Rightarrow> bool" where
  "lru_full l \<longleftrightarrow> length (disconnected l) + length (connected l) = K_VALUE"

definition lru_add :: "('p, 'v) lru \<Rightarrow> ('p, 'v) Node \<Rightarrow> NodeStatus \<Rightarrow> ('p, 'v) lru" where
  "lru_add l n st =
     (case st of Connected \<Rightarrow> l\<lparr>connected := connected l @ [n]\<rparr>
               | Disconnected \<Rightarrow> l\<lparr>disconnected := disconnected l @ [n]\<rparr>)"

definition lru_insert ::
    "instant \<Rightarrow> ('p, 'v) lru \<Rightarrow> ('p, 'v) Node \<Rightarrow> NodeStatus \<Rightarrow> 'p InsertResult \<times> ('p, 'v) lru" where
  "lru_insert now l n st =
     (if \<not> lru_full l then (Inserted, lru_add l n st)
      else if st = Connected \<and> disconnected l \<noteq> [] \<and> waiting l = None
      then (InsertPending (node_key (hd (disconnected l))),
            l\<lparr>waiting := Some \<lparr>pn_node = n, pn_status = Connected, pn_replace = now + timeout l\<rparr>\<rparr>)
      else (InsertFull, l))"

definition lru_delete :: "('p, 'v) lru \<Rightarrow> u256 \<Rightarrow> ('p, 'v) lru" where
  "lru_delete l k =
     l\<lparr>disconnected := filter (\<lambda>n. node_bytes n \<noteq> k) (disconnected l),
       connected := filter (\<lambda>n. node_bytes n \<noteq> k) (connected l)\<rparr>"

definition lru_find :: "('p, 'v) lru \<Rightarrow> u256 \<Rightarrow> (('p, 'v) Node \<times> NodeStatus) option" where
  "lru_find l k =
     (case find (\<lambda>n. node_bytes n = k) (disconnected l) of
        Some n \<Rightarrow> Some (n, Disconnected)
      | None \<Rightarrow> map_option (\<lambda>n. (n, Connected)) (find (\<lambda>n. node_bytes n = k) (connected l)))"

definition lru_update :: "('p, 'v) lru \<Rightarrow> u256 \<Rightarrow> NodeStatus \<Rightarrow> ('p, 'v) lru" where
  "lru_update l k st =
     (case lru_find l k of
        None \<Rightarrow> l
      | Some (n, _) \<Rightarrow>
          let oldest = node_bytes (hd (disconnected l @ connected l)) = k;
              l' = lru_add (lru_delete l k) n st
          in if oldest \<and> st = Connected then l'\<lparr>waiting := None\<rparr> else l')"

definition lru_apply ::
    "instant \<Rightarrow> ('p, 'v) lru \<Rightarrow> ('p, 'v) AppliedPending option \<times> ('p, 'v) lru" where
  "lru_apply now l =
     (case waiting l of
        None \<Rightarrow> (None, l)
      | Some p \<Rightarrow>
          if now < pn_replace p then (None, l)
          else let l' = l\<lparr>waiting := None\<rparr> in
            if \<not> lru_full l
            then (Some \<lparr>ap_inserted = pn_node p, ap_evicted = None\<rparr>, lru_add l' (pn_node p) (pn_status p))
            else case disconnected l of
              [] \<Rightarrow> (None, l')
            | d # ds \<Rightarrow> (Some \<lparr>ap_inserted = pn_node p, ap_evicted = Some d\<rparr>,
                         lru_add (l'\<lparr>disconnected := ds\<rparr>) (pn_node p) (pn_status p)))"

section \<open>Invariant and abstraction\<close>

definition lru_of :: "('p, 'v) KBucket \<Rightarrow> ('p, 'v) lru" where
  "lru_of b =
     (let p = (case first_connected_pos b of None \<Rightarrow> length (nodes b) | Some p \<Rightarrow> p)
      in \<lparr>disconnected = take p (nodes b), connected = drop p (nodes b),
          waiting = pending b, timeout = pending_timeout b\<rparr>)"

definition bucket_keys :: "('p, 'v) KBucket \<Rightarrow> u256 list" where
  "bucket_keys b = map node_bytes (nodes b)"

definition pending_keys :: "('p, 'v) KBucket \<Rightarrow> u256 list" where
  "pending_keys b = (case pending b of None \<Rightarrow> [] | Some p \<Rightarrow> [node_bytes (pn_node p)])"

definition kb_inv :: "('p, 'v) KBucket \<Rightarrow> bool" where
  "kb_inv b \<longleftrightarrow>
     length (nodes b) \<le> K_VALUE \<and>
     (case first_connected_pos b of None \<Rightarrow> True | Some p \<Rightarrow> p < length (nodes b)) \<and>
     distinct (bucket_keys b @ pending_keys b)"

lemma bucket_keys_upd [simp]:
  "bucket_keys (b\<lparr>nodes := ns\<rparr>) = map node_bytes ns"
  "bucket_keys (b\<lparr>first_connected_pos := f\<rparr>) = bucket_keys b"
  "bucket_keys (b\<lparr>pending := w\<rparr>) = bucket_keys b"
  by (simp_all add: bucket_keys_def)

lemma pending_keys_upd [simp]:
  "pending_keys (b\<lparr>nodes := ns\<rparr>) = pending_keys b"
  "pending_keys (b\<lparr>first_connected_pos := f\<rparr>) = pending_keys b"
  "pending_keys (b\<lparr>pending := None\<rparr>) = []"
  "pending_keys (b\<lparr>pending := Some p\<rparr>) = [node_bytes (pn_node p)]"
  by (simp_all add: pending_keys_def)

lemma kb_inv_new: "kb_inv (KBucket_new t)"
  by (simp add: kb_inv_def KBucket_new_def bucket_keys_def pending_keys_def)

lemma lru_of_simps [simp]:
  "waiting (lru_of b) = pending b" "timeout (lru_of b) = pending_timeout b"
  "disconnected (lru_of b) @ connected (lru_of b) = nodes b"
  by (simp_all add: lru_of_def Let_def)

lemma lru_full_of [simp]: "lru_full (lru_of b) \<longleftrightarrow> nodes_is_full b"
  unfolding lru_full_def nodes_is_full_def
  by (metis length_append lru_of_simps(3))

lemma lru_of_new: "lru_of (KBucket_new t) = \<lparr>disconnected = [], connected = [], waiting = None, timeout = t\<rparr>"
  by (simp add: lru_of_def KBucket_new_def)

lemma disconnected_empty_iff:
  "kb_inv b \<Longrightarrow> nodes b \<noteq> [] \<Longrightarrow> disconnected (lru_of b) = [] \<longleftrightarrow> first_connected_pos b = Some 0"
  by (auto simp: lru_of_def kb_inv_def Let_def split: option.splits)

lemma hd_disconnected:
  "disconnected (lru_of b) \<noteq> [] \<Longrightarrow> hd (disconnected (lru_of b)) = nodes b ! 0"
  by (auto simp: lru_of_def Let_def hd_conv_nth split: option.splits)

lemma lru_of_pending [simp]: "lru_of (b\<lparr>pending := w\<rparr>) = (lru_of b)\<lparr>waiting := w\<rparr>"
  by (cases "first_connected_pos b") (simp_all add: lru_of_def Let_def)

lemma lru_of_push_connected:
  "kb_inv b \<Longrightarrow>
   lru_of (b\<lparr>nodes := nodes b @ [n],
            first_connected_pos := (case first_connected_pos b of None \<Rightarrow> Some (length (nodes b)) | Some p \<Rightarrow> Some p)\<rparr>)
     = lru_add (lru_of b) n Connected"
  by (auto simp: lru_of_def lru_add_def kb_inv_def Let_def split: option.splits)

lemma lru_of_insert_disconnected:
  "kb_inv b \<Longrightarrow> first_connected_pos b = Some p \<Longrightarrow>
   lru_of (b\<lparr>nodes := take p (nodes b) @ n # drop p (nodes b), first_connected_pos := Some (Suc p)\<rparr>)
     = lru_add (lru_of b) n Disconnected"
  by (auto simp: lru_of_def lru_add_def kb_inv_def)

lemma lru_of_push_disconnected:
  "first_connected_pos b = None \<Longrightarrow>
   lru_of (b\<lparr>nodes := nodes b @ [n]\<rparr>) = lru_add (lru_of b) n Disconnected"
  by (simp add: lru_of_def lru_add_def)

lemmas lru_of_add = lru_of_push_connected lru_of_insert_disconnected lru_of_push_disconnected

lemma distinct_insert_nodes:
  assumes "distinct (map f xs @ ys)" and "f x \<notin> set (map f xs @ ys)"
  shows "distinct (map f (take p xs @ x # drop p xs) @ ys)"
proof -
  have "mset (map f xs) = mset (map f (take p xs)) + mset (map f (drop p xs))"
    by (metis append_take_drop_id map_append mset_append)
  then have "mset (map f (take p xs @ x # drop p xs) @ ys) = mset (f x # map f xs @ ys)"
    by simp
  moreover have "distinct (f x # map f xs @ ys)" using assms by simp
  ultimately show ?thesis by (metis mset_eq_imp_distinct_iff)
qed

section \<open>The operations refine the specification\<close>

lemma KBucket_insert_spec:
  assumes "kb_inv b" and "node_bytes n \<notin> set (bucket_keys b @ pending_keys b)"
  shows "\<exists>r b'. KBucket_insert now b n st = Some (r, b') \<and> kb_inv b' \<and>
                (r, lru_of b') = lru_insert now (lru_of b) n st"
proof (cases "nodes_is_full b")
  case True
  then have ne: "nodes b \<noteq> []" and "0 < length (nodes b)"
    by (auto simp: nodes_is_full_def K_VALUE_def)
  then show ?thesis
    using assms True disconnected_empty_iff [OF assms(1) ne] hd_disconnected [of b]
    by (cases st; cases "pending b"; cases "first_connected_pos b = Some 0")
       (auto simp: KBucket_insert_def lru_insert_def panic_simps kb_inv_def bucket_keys_def pending_keys_def
          cong: option.case_cong)
next
  case False
  with assms(1) have room: "length (nodes b) < K_VALUE"
    by (simp add: nodes_is_full_def kb_inv_def)
  have "\<exists>b'. KBucket_insert now b n st = Some (Inserted, b') \<and> lru_of b' = lru_add (lru_of b) n st \<and> kb_inv b'"
  proof (cases st; cases "first_connected_pos b")
    fix p assume st: "st = Disconnected" and p: "first_connected_pos b = Some p"
    then have "p < length (nodes b)" using assms(1) by (simp add: kb_inv_def)
    then show ?thesis
      using assms False room st p distinct_insert_nodes [of node_bytes "nodes b" "pending_keys b" n p]
      by (auto simp: KBucket_insert_def panic_simps lru_of_add kb_inv_def bucket_keys_def)
  qed (use assms False room lru_of_push_connected [OF assms(1), of n] lru_of_push_disconnected [of b n] in
        \<open>auto simp: KBucket_insert_def panic_simps kb_inv_def bucket_keys_def split: option.splits\<close>)
  then show ?thesis using False by (auto simp: lru_insert_def)
qed


text \<open>A bucket that satisfies the invariant is determined by its two queues.\<close>

definition repr :: "('p, 'v) KBucket \<Rightarrow> ('p, 'v) Node list \<Rightarrow> ('p, 'v) Node list \<Rightarrow> bool" where
  "repr b D C \<longleftrightarrow>
     nodes b = D @ C \<and> first_connected_pos b = (if C = [] then None else Some (length D))"

lemma repr_lru:
  "repr b D C \<Longrightarrow>
   lru_of b = \<lparr>disconnected = D, connected = C, waiting = pending b, timeout = pending_timeout b\<rparr>"
  by (auto simp: repr_def lru_of_def)

lemma kb_inv_repr: "kb_inv b \<Longrightarrow> repr b (disconnected (lru_of b)) (connected (lru_of b))"
  by (auto simp: repr_def lru_of_def kb_inv_def Let_def split: option.splits)

lemma repr_inv:
  "repr b D C \<Longrightarrow> kb_inv b \<longleftrightarrow>
     length D + length C \<le> K_VALUE \<and> distinct (map node_bytes (D @ C) @ pending_keys b)"
  by (auto simp: repr_def kb_inv_def bucket_keys_def)

lemma find_position: "find P xs = map_option (\<lambda>i. xs ! i) (position_of P xs)"
  by (induction xs) (auto simp: option.map_comp comp_def)

lemma filter_remove_nth:
  "distinct (map f xs) \<Longrightarrow> i < length xs \<Longrightarrow>
   filter (\<lambda>x. f x \<noteq> f (xs ! i)) xs = take i xs @ drop (Suc i) xs"
proof (induction xs arbitrary: i)
  case (Cons x xs)
  show ?case
  proof (cases i)
    case 0
    have "filter (\<lambda>y. f y \<noteq> f x) xs = xs"
      using Cons.prems(1) by (auto simp: filter_id_conv image_iff)
    then show ?thesis using 0 by simp
  next
    case (Suc k)
    with Cons show ?thesis by (auto simp: image_iff)
  qed
qed simp

lemma KBucket_remove_absent:
  "KBucket_position b k = None \<Longrightarrow>
   KBucket_remove b k = Some (None, b) \<and> lru_delete (lru_of b) (key_bytes k) = lru_of b \<and>
   lru_find (lru_of b) (key_bytes k) = None"
proof -
  assume absent: "KBucket_position b k = None"
  let ?D = "disconnected (lru_of b)" and ?C = "connected (lru_of b)"
  have "set (nodes b) = set ?D \<union> set ?C" by (metis lru_of_simps(3) set_append)
  with absent have "\<forall>n \<in> set ?D \<union> set ?C. node_bytes n \<noteq> key_bytes k"
    by (simp add: KBucket_position_def position_of_None)
  then have "filter (\<lambda>n. node_bytes n \<noteq> key_bytes k) ?D = ?D"
    and "filter (\<lambda>n. node_bytes n \<noteq> key_bytes k) ?C = ?C"
    and "find (\<lambda>n. node_bytes n = key_bytes k) ?D = None"
    and "find (\<lambda>n. node_bytes n = key_bytes k) ?C = None"
    by (auto simp: filter_id_conv find_None_iff)
  with absent show ?thesis
    by (simp add: KBucket_remove_def lru_delete_def lru_find_def)
qed

text \<open>Removing from either queue.\<close>

lemma KBucket_remove_disconnected:
  assumes "repr b D C" and "distinct (map node_bytes (D @ C))"
    and "position_of (\<lambda>n. node_bytes n = key_bytes k) D = Some i"
  shows "\<exists>b'. KBucket_remove b k = Some (Some (D ! i, Disconnected, i), b') \<and>
           repr b' (filter (\<lambda>n. node_bytes n \<noteq> key_bytes k) D) C \<and>
           filter (\<lambda>n. node_bytes n \<noteq> key_bytes k) C = C \<and>
           pending b' = pending b \<and> pending_timeout b' = pending_timeout b"
proof -
  have i: "i < length D" and k: "node_bytes (D ! i) = key_bytes k"
    using assms(3) by (simp_all add: position_of_Some)
  have D': "filter (\<lambda>n. node_bytes n \<noteq> key_bytes k) D = take i D @ drop (Suc i) D"
    using filter_remove_nth [of node_bytes D i] assms(2) i k by simp
  have "node_bytes (D ! i) \<in> node_bytes ` set D" using i by simp
  then have "filter (\<lambda>n. node_bytes n \<noteq> key_bytes k) C = C"
    using assms(2) k by (auto simp: filter_id_conv) (metis IntI empty_iff image_eqI)
  then show ?thesis
    using assms(1,3) i
    by (auto simp: KBucket_remove_def KBucket_position_def KBucket_status_def repr_def position_of_append
        panic_simps nth_append D')
qed

lemma KBucket_remove_connected:
  assumes "repr b D C" and "distinct (map node_bytes (D @ C))"
    and "position_of (\<lambda>n. node_bytes n = key_bytes k) D = None"
    and "position_of (\<lambda>n. node_bytes n = key_bytes k) C = Some i"
  shows "\<exists>b'. KBucket_remove b k = Some (Some (C ! i, Connected, length D + i), b') \<and>
           repr b' D (filter (\<lambda>n. node_bytes n \<noteq> key_bytes k) C) \<and>
           filter (\<lambda>n. node_bytes n \<noteq> key_bytes k) D = D \<and>
           pending b' = pending b \<and> pending_timeout b' = pending_timeout b"
proof -
  have i: "i < length C" and k: "node_bytes (C ! i) = key_bytes k"
    using assms(4) by (simp_all add: position_of_Some)
  have C': "filter (\<lambda>n. node_bytes n \<noteq> key_bytes k) C = take i C @ drop (Suc i) C"
    using filter_remove_nth [of node_bytes C i] assms(2) i k by simp
  have "C \<noteq> []" using i by auto
  moreover have "filter (\<lambda>n. node_bytes n \<noteq> key_bytes k) D = D"
    using assms(3) by (auto simp: position_of_None filter_id_conv)
  moreover have "take i C @ drop (Suc i) C = [] \<longleftrightarrow> i = 0 \<and> length C = 1"
    using i by (cases C) auto
  ultimately show ?thesis
    using assms(1,3,4) i
    by (auto simp: KBucket_remove_def KBucket_position_def KBucket_status_def repr_def position_of_append
        panic_simps nth_append C' Suc_diff_le)
qed


lemma KBucket_remove_spec:
  assumes "kb_inv b"
  shows "\<exists>r b'. KBucket_remove b k = Some (r, b') \<and> kb_inv b' \<and>
           lru_of b' = lru_delete (lru_of b) (key_bytes k) \<and>
           map_option (\<lambda>(n, st, pos). (n, st)) r = lru_find (lru_of b) (key_bytes k) \<and>
           (\<forall>n st pos. r = Some (n, st, pos) \<longrightarrow> length (nodes b') < K_VALUE \<and>
              node_bytes n = key_bytes k \<and>
              (pos = 0 \<longleftrightarrow> node_bytes (hd (disconnected (lru_of b) @ connected (lru_of b))) = key_bytes k))"
proof (cases "KBucket_position b k")
  case None
  then show ?thesis using assms KBucket_remove_absent [OF None] by simp
next
  case (Some pos)
  let ?P = "\<lambda>n. node_bytes n = key_bytes k"
  obtain D C where r: "repr b D C" using kb_inv_repr [OF assms] by blast
  note l = repr_lru [OF r]
  have d: "distinct (map node_bytes (D @ C))" and len: "length D + length C \<le> K_VALUE"
    and dp: "distinct (map node_bytes (D @ C) @ pending_keys b)"
    using assms repr_inv [OF r] by auto
  have pos: "position_of ?P (D @ C) = Some pos"
    using Some r by (simp add: KBucket_position_def repr_def)
  then have hd0: "pos = 0 \<longleftrightarrow> ?P (hd (D @ C))"
    by (cases "D @ C") (auto split: if_splits)
  have keep: "distinct (map node_bytes (filter Q D @ filter Q C) @ pending_keys b)" for Q
    using dp by (auto simp: distinct_map_filter)
  show ?thesis
  proof (cases "position_of ?P D")
    case (Some i)
    from KBucket_remove_disconnected [OF r d Some] obtain b' where
      b': "KBucket_remove b k = Some (Some (D ! i, Disconnected, i), b')"
        "repr b' (filter (\<lambda>n. \<not> ?P n) D) C" "filter (\<lambda>n. \<not> ?P n) C = C"
        "pending b' = pending b" "pending_timeout b' = pending_timeout b" by blast
    have "i < length D" "?P (D ! i)" using Some by (simp_all add: position_of_Some)
    then have shorter: "length (filter (\<lambda>n. \<not> ?P n) D) < length D"
      by (intro length_filter_less [of "D ! i"]) auto
    have "pos = i" using pos Some by (simp add: position_of_append)
    moreover have "kb_inv b'"
      using keep [of "\<lambda>n. \<not> ?P n"] len shorter b'(3,4) by (simp add: repr_inv [OF b'(2)] pending_keys_def)
    moreover have "lru_of b' = lru_delete (lru_of b) (key_bytes k)"
      using b'(3-5) by (simp add: l repr_lru [OF b'(2)] lru_delete_def)
    moreover have "lru_find (lru_of b) (key_bytes k) = Some (D ! i, Disconnected)"
      using Some by (simp add: l lru_find_def find_position)
    moreover have "length (nodes b') < K_VALUE"
      using b'(2) len shorter by (simp add: repr_def)
    ultimately show ?thesis using b'(1) hd0 \<open>?P (D ! i)\<close> by (simp add: l)
  next
    case None
    with pos obtain i where i: "position_of ?P C = Some i" "pos = length D + i"
      by (auto simp: position_of_append)
    from KBucket_remove_connected [OF r d None i(1)] obtain b' where
      b': "KBucket_remove b k = Some (Some (C ! i, Connected, length D + i), b')"
        "repr b' D (filter (\<lambda>n. \<not> ?P n) C)" "filter (\<lambda>n. \<not> ?P n) D = D"
        "pending b' = pending b" "pending_timeout b' = pending_timeout b" by blast
    have "i < length C" "?P (C ! i)" using i by (simp_all add: position_of_Some)
    then have shorter: "length (filter (\<lambda>n. \<not> ?P n) C) < length C"
      by (intro length_filter_less [of "C ! i"]) auto
    have "kb_inv b'"
      using keep [of "\<lambda>n. \<not> ?P n"] len shorter b'(3,4) by (simp add: repr_inv [OF b'(2)] pending_keys_def)
    moreover have "lru_of b' = lru_delete (lru_of b) (key_bytes k)"
      using b'(3-5) by (simp add: l repr_lru [OF b'(2)] lru_delete_def)
    moreover have "lru_find (lru_of b) (key_bytes k) = Some (C ! i, Connected)"
      using None i by (simp add: l lru_find_def find_position)
    moreover have "length (nodes b') < K_VALUE"
      using b'(2) len shorter by (simp add: repr_def)
    ultimately show ?thesis using b'(1) hd0 i(2) \<open>?P (C ! i)\<close> by (simp add: l)
  qed
qed


lemma lru_find_mem:
  "lru_find l k = Some (n, st) \<Longrightarrow>
   n \<in> set (case st of Disconnected \<Rightarrow> disconnected l | Connected \<Rightarrow> connected l) \<and> node_bytes n = k"
  by (auto simp: lru_find_def find_Some_iff split: option.splits)

lemma lru_delete_keys:
  "node_bytes ` set (disconnected (lru_delete l k) @ connected (lru_delete l k)) =
   node_bytes ` set (disconnected l @ connected l) - {k}"
  by (auto simp: lru_delete_def)

lemma bucket_keys_lru:
  "set (bucket_keys b) = node_bytes ` set (disconnected (lru_of b) @ connected (lru_of b))"
  by (simp add: bucket_keys_def del: set_append)

lemma lru_delete_absent: "lru_find l k = None \<Longrightarrow> lru_delete l k = l"
proof -
  assume "lru_find l k = None"
  then have "find (\<lambda>n. node_bytes n = k) (disconnected l) = None"
    and "find (\<lambda>n. node_bytes n = k) (connected l) = None"
    by (auto simp: lru_find_def split: option.splits)
  then have "filter (\<lambda>n. node_bytes n \<noteq> k) (disconnected l) = disconnected l"
    and "filter (\<lambda>n. node_bytes n \<noteq> k) (connected l) = connected l"
    by (simp_all add: find_None_iff filter_id_conv)
  then show ?thesis by (simp add: lru_delete_def)
qed

lemma lru_delete_waiting [simp]: "waiting (lru_delete l k) = waiting l"
  by (simp add: lru_delete_def)

lemma KBucket_update_spec:
  assumes "kb_inv b"
  shows "\<exists>b'. KBucket_update now b k st = Some b' \<and> kb_inv b' \<and>
           lru_of b' = lru_update (lru_of b) (key_bytes k) st"
proof -
  from KBucket_remove_spec [OF assms, of k] obtain r b1 where
    rem: "KBucket_remove b k = Some (r, b1)" "kb_inv b1"
      "lru_of b1 = lru_delete (lru_of b) (key_bytes k)"
      "map_option (\<lambda>(n, st, pos). (n, st)) r = lru_find (lru_of b) (key_bytes k)"
    and found: "\<And>n st pos. r = Some (n, st, pos) \<Longrightarrow> length (nodes b1) < K_VALUE \<and>
              node_bytes n = key_bytes k \<and>
              (pos = 0 \<longleftrightarrow> node_bytes (hd (disconnected (lru_of b) @ connected (lru_of b))) = key_bytes k)"
    by blast
  show ?thesis
  proof (cases r)
    case None
    with rem show ?thesis
      by (simp add: KBucket_update_def lru_update_def lru_delete_absent)
  next
    case (Some x)
    then obtain n old pos where x: "r = Some (n, old, pos)" by (cases x) auto
    note found = found [OF x]
    define b2 where "b2 = (if pos = 0 \<and> st = Connected then b1\<lparr>pending := None\<rparr> else b1)"
    have inv2: "kb_inv b2"
      using rem(2) by (auto simp: b2_def kb_inv_def cong: option.case_cong)
    have pend: "set (pending_keys b2) \<subseteq> set (pending_keys b)"
    proof -
      have "pending b1 = pending b"
        by (metis lru_delete_waiting lru_of_simps(1) rem(3))
      then show ?thesis by (simp add: b2_def pending_keys_def)
    qed
    have "key_bytes k \<in> set (bucket_keys b)"
      using lru_find_mem [OF rem(4) [symmetric, unfolded x, simplified]]
      by (force simp: bucket_keys_lru simp del: lru_of_simps split: NodeStatus.splits)
    then have "key_bytes k \<notin> set (pending_keys b2)"
      using assms pend by (auto simp: kb_inv_def)
    moreover have "key_bytes k \<notin> set (bucket_keys b2)"
    proof -
      have "set (bucket_keys b2) = set (bucket_keys b1)" by (simp add: b2_def)
      also have "\<dots> = set (bucket_keys b) - {key_bytes k}"
        by (simp only: bucket_keys_lru rem(3) lru_delete_keys)
      finally show ?thesis by simp
    qed
    ultimately obtain r3 b3 where ins: "KBucket_insert now b2 n st = Some (r3, b3)" "kb_inv b3"
        "(r3, lru_of b3) = lru_insert now (lru_of b2) n st"
      using KBucket_insert_spec [OF inv2, of n now st] found by auto
    have "\<not> lru_full (lru_of b2)" using found by (auto simp: nodes_is_full_def b2_def)
    with ins(3) have r3: "r3 = Inserted" "lru_of b3 = lru_add (lru_of b2) n st"
      by (simp_all add: lru_insert_def)
    have "lru_of b2 = (if pos = 0 \<and> st = Connected then (lru_delete (lru_of b) (key_bytes k))\<lparr>waiting := None\<rparr>
                       else lru_delete (lru_of b) (key_bytes k))"
      using rem(3) by (simp add: b2_def)
    moreover have "lru_find (lru_of b) (key_bytes k) = Some (n, old)"
      using rem(4) x by simp
    ultimately have "lru_of b3 = lru_update (lru_of b) (key_bytes k) st"
      using found r3(2) by (auto simp: lru_update_def lru_add_def Let_def split: NodeStatus.splits)
    then show ?thesis
      using rem(1) x ins(1,2) r3(1) by (simp add: KBucket_update_def b2_def [symmetric])
  qed
qed


text \<open>Applying a pending node to a full bucket: the head of the disconnected queue is evicted.\<close>

lemma KBucket_apply_pending_full:
  assumes r: "repr b (d # D) C" and full: "length (d # D) + length C = K_VALUE"
    and p: "pending b = Some p" "pn_replace p \<le> now"
  shows "\<exists>b'. KBucket_apply_pending now b
                = Some (Some \<lparr>ap_inserted = pn_node p, ap_evicted = Some d\<rparr>, b') \<and>
              pending b' = None \<and> pending_timeout b' = pending_timeout b \<and>
              (case pn_status p of Connected \<Rightarrow> repr b' D (C @ [pn_node p])
               | Disconnected \<Rightarrow> repr b' (D @ [pn_node p]) C)"
proof -
  have is_full: "nodes_is_full (b\<lparr>pending := None\<rparr>)" and st: "KBucket_status (b\<lparr>pending := None\<rparr>) 0 = Disconnected"
    using r full by (auto simp: nodes_is_full_def KBucket_status_def repr_def)
  have room: "length D + length C < K_VALUE" using full by simp
  show ?thesis
    using r p is_full st room
    by (cases "pn_status p"; cases "C = []")
       (auto simp: KBucket_apply_pending_def repr_def panic_simps Let_def)
qed

lemma KBucket_apply_pending_spec:
  assumes inv: "kb_inv b"
  shows "\<exists>a b'. KBucket_apply_pending now b = Some (a, b') \<and> kb_inv b' \<and>
           (a, lru_of b') = lru_apply now (lru_of b)"
proof (cases "pending b")
  case None
  then show ?thesis using inv by (simp add: KBucket_apply_pending_def lru_apply_def)
next
  case p: (Some p)
  obtain D C where r: "repr b D C" using kb_inv_repr [OF inv] by blast
  note l = repr_lru [OF r]
  have len: "length D + length C \<le> K_VALUE"
    and dis: "distinct (map node_bytes (D @ C) @ [node_bytes (pn_node p)])"
    using inv repr_inv [OF r] p by (simp_all add: pending_keys_def)
  let ?b = "b\<lparr>pending := None\<rparr>"
  have inv0: "kb_inv ?b" using inv by (auto simp: kb_inv_def cong: option.case_cong)
  consider (early) "now < pn_replace p" | (room) "pn_replace p \<le> now" "\<not> nodes_is_full b"
    | (evict) d D' where "pn_replace p \<le> now" "nodes_is_full b" "D = d # D'"
    | (drop) "pn_replace p \<le> now" "nodes_is_full b" "D = []"
    by (cases "now < pn_replace p"; cases "nodes_is_full b"; cases D) auto
  then show ?thesis
  proof cases
    case early
    moreover have "kb_inv (b\<lparr>pending := Some p\<rparr>)" using p inv by (cases b) simp
    ultimately show ?thesis using p inv by (simp add: KBucket_apply_pending_def lru_apply_def Let_def)
  next
    case room
    have "node_bytes (pn_node p) \<notin> set (bucket_keys ?b @ pending_keys ?b)"
      using dis r by (auto simp: bucket_keys_def repr_def)
    from KBucket_insert_spec [OF inv0 this, of now "pn_status p"] obtain rs b' where
      "KBucket_insert now ?b (pn_node p) (pn_status p) = Some (rs, b')" "kb_inv b'"
      "(rs, lru_of b') = lru_insert now (lru_of ?b) (pn_node p) (pn_status p)" by blast
    moreover have "\<not> nodes_is_full ?b" using room by (simp add: nodes_is_full_def)
    ultimately show ?thesis
      using p room by (auto simp: KBucket_apply_pending_def lru_apply_def lru_insert_def lru_full_of [of ?b]
          simp del: lru_of_pending) (simp_all add: lru_full_of)
  next
    case (evict d D')
    then have "length (d # D') + length C = K_VALUE"
      using r by (simp add: nodes_is_full_def repr_def)
    from KBucket_apply_pending_full [OF r [unfolded evict(3)] this p evict(1)] obtain b' where
      b': "KBucket_apply_pending now b = Some (Some \<lparr>ap_inserted = pn_node p, ap_evicted = Some d\<rparr>, b')"
        "pending b' = None" "pending_timeout b' = pending_timeout b"
      and cs: "case pn_status p of Connected \<Rightarrow> repr b' D' (C @ [pn_node p])
               | Disconnected \<Rightarrow> repr b' (D' @ [pn_node p]) C" by blast
    then show ?thesis
      using p evict l dis len
      by (cases "pn_status p")
         (auto simp: lru_apply_def lru_add_def repr_inv repr_lru pending_keys_def simp flip: lru_full_of)
  next
    case drop
    then have "C \<noteq> []" using r by (auto simp: repr_def nodes_is_full_def K_VALUE_def)
    then have "KBucket_apply_pending now b = Some (None, ?b)"
      using drop r p by (simp add: KBucket_apply_pending_def KBucket_status_def repr_def nodes_is_full_def Let_def)
    then show ?thesis
      using drop p inv0 l lru_full_of [of b] by (simp add: lru_apply_def)
  qed
qed


section \<open>Sequences of operations\<close>

text \<open>
  What a client of a bucket can do to it, as the \<open>Entry\<close> API exposes it: insertion is offered
  only for a key that is neither present nor pending.
\<close>

datatype ('p, 'v) bucket_op =
    OpInsert instant "('p, 'v) Node" NodeStatus
  | OpUpdate instant "'p key" NodeStatus
  | OpRemove "'p key"
  | OpApply instant
  | OpUpdatePending NodeStatus
  | OpRemovePending

fun bucket_step :: "('p, 'v) KBucket \<Rightarrow> ('p, 'v) bucket_op \<Rightarrow> ('p, 'v) KBucket option" where
  "bucket_step b (OpInsert now n st) =
     (if KBucket_position b (node_key n) = None \<and> KBucket_as_pending b (node_key n) = None
      then map_option snd (KBucket_insert now b n st) else Some b)"
| "bucket_step b (OpUpdate now k st) = KBucket_update now b k st"
| "bucket_step b (OpRemove k) = map_option snd (KBucket_remove b k)"
| "bucket_step b (OpApply now) = map_option snd (KBucket_apply_pending now b)"
| "bucket_step b (OpUpdatePending st) = Some (KBucket_update_pending b st)"
| "bucket_step b OpRemovePending = Some (snd (KBucket_remove_pending b))"

fun lru_step :: "('p, 'v) lru \<Rightarrow> ('p, 'v) bucket_op \<Rightarrow> ('p, 'v) lru" where
  "lru_step l (OpInsert now n st) =
     (if lru_find l (node_bytes n) = None \<and>
         (case waiting l of None \<Rightarrow> True | Some p \<Rightarrow> node_bytes (pn_node p) \<noteq> node_bytes n)
      then snd (lru_insert now l n st) else l)"
| "lru_step l (OpUpdate now k st) = lru_update l (key_bytes k) st"
| "lru_step l (OpRemove k) = lru_delete l (key_bytes k)"
| "lru_step l (OpApply now) = snd (lru_apply now l)"
| "lru_step l (OpUpdatePending st) = l\<lparr>waiting := map_option (\<lambda>p. p\<lparr>pn_status := st\<rparr>) (waiting l)\<rparr>"
| "lru_step l OpRemovePending = l\<lparr>waiting := None\<rparr>"

fun run_ops :: "('b \<Rightarrow> 'op \<Rightarrow> 'b option) \<Rightarrow> 'b \<Rightarrow> 'op list \<Rightarrow> 'b option" where
  "run_ops step b [] = Some b"
| "run_ops step b (x # xs) = do { b' \<leftarrow> step b x; run_ops step b' xs }"

locale bucket_contract =
  fixes inv :: "'b \<Rightarrow> bool"
    and lru :: "'b \<Rightarrow> ('p, 'v) lru"
    and step :: "'b \<Rightarrow> ('p, 'v) bucket_op \<Rightarrow> 'b option"
  assumes step_ok: "inv b \<Longrightarrow> \<exists>b'. step b x = Some b' \<and> inv b' \<and> lru b' = lru_step (lru b) x"
    and capacity: "inv b \<Longrightarrow> length (disconnected (lru b)) + length (connected (lru b)) \<le> K_VALUE"
    and unique: "inv b \<Longrightarrow> distinct (map node_bytes (disconnected (lru b) @ connected (lru b)))"
begin

lemma run_ok:
  "inv b \<Longrightarrow> \<exists>b'. run_ops step b xs = Some b' \<and> inv b' \<and> lru b' = foldl lru_step (lru b) xs"
proof (induction xs arbitrary: b)
  case (Cons x xs)
  from step_ok [OF Cons.prems, of x] obtain b1 where
    "step b x = Some b1" "inv b1" "lru b1 = lru_step (lru b) x" by blast
  with Cons.IH [of b1] show ?case by auto
qed simp

lemma run_capacity:
  "inv b \<Longrightarrow> run_ops step b xs = Some b' \<Longrightarrow>
   length (disconnected (lru b')) + length (connected (lru b')) \<le> K_VALUE \<and>
   distinct (map node_bytes (disconnected (lru b') @ connected (lru b')))"
  using run_ok [of b xs] capacity [of b'] unique [of b'] by auto

end

lemma position_none_iff: "KBucket_position b k = None \<longleftrightarrow> lru_find (lru_of b) (key_bytes k) = None"
proof
  assume "lru_find (lru_of b) (key_bytes k) = None"
  then have "find (\<lambda>n. node_bytes n = key_bytes k) (disconnected (lru_of b)) = None"
    "find (\<lambda>n. node_bytes n = key_bytes k) (connected (lru_of b)) = None"
    by (auto simp: lru_find_def split: option.splits)
  then have "\<forall>n \<in> set (disconnected (lru_of b) @ connected (lru_of b)). node_bytes n \<noteq> key_bytes k"
    by (simp add: find_None_iff ball_Un del: lru_of_simps)
  then show "KBucket_position b k = None" by (simp add: KBucket_position_def position_of_None)
qed (use KBucket_remove_absent in blast)

lemma bucket_step_ok:
  assumes "kb_inv b"
  shows "\<exists>b'. bucket_step b x = Some b' \<and> kb_inv b' \<and> lru_of b' = lru_step (lru_of b) x"
proof (cases x)
  case (OpInsert now n st)
  show ?thesis
  proof (cases "KBucket_position b (node_key n) = None \<and> KBucket_as_pending b (node_key n) = None")
    case True
    then have "node_bytes n \<notin> set (bucket_keys b @ pending_keys b)"
      by (auto simp: KBucket_position_def position_of_None bucket_keys_def KBucket_as_pending_def
          pending_keys_def split: option.splits if_splits)
    from KBucket_insert_spec [OF assms this, of now st] obtain r b' where
      "KBucket_insert now b n st = Some (r, b')" "kb_inv b'"
      "(r, lru_of b') = lru_insert now (lru_of b) n st" by blast
    with True OpInsert show ?thesis
      by (cases "pending b")
         (auto simp: position_none_iff KBucket_as_pending_def split: if_splits dest: arg_cong [of _ _ snd])
  next
    case False
    with OpInsert assms show ?thesis
      by (auto simp: position_none_iff KBucket_as_pending_def split: if_splits option.splits)
  qed
next
  case (OpUpdate now k st)
  then show ?thesis using KBucket_update_spec [OF assms, of now k st] by auto
next
  case (OpRemove k)
  then show ?thesis using KBucket_remove_spec [OF assms, of k] by auto
next
  case (OpApply now)
  from KBucket_apply_pending_spec [OF assms, of now] obtain a b' where
    "KBucket_apply_pending now b = Some (a, b')" "kb_inv b'" "(a, lru_of b') = lru_apply now (lru_of b)" by blast
  with OpApply show ?thesis by (auto dest: arg_cong [of _ _ snd])
next
  case (OpUpdatePending st)
  then show ?thesis
    using assms
    by (cases "pending b") (auto simp: KBucket_update_pending_def kb_inv_def pending_keys_def cong: option.case_cong)
next
  case OpRemovePending
  then show ?thesis
    using assms by (auto simp: KBucket_remove_pending_def kb_inv_def cong: option.case_cong)
qed

interpretation kbucket: bucket_contract kb_inv lru_of bucket_step
proof
  fix b :: "('p, 'v) KBucket"
  assume inv: "kb_inv b"
  then show "\<exists>b'. bucket_step b x = Some b' \<and> kb_inv b' \<and> lru_of b' = lru_step (lru_of b) x" for x
    by (rule bucket_step_ok)
  from inv show "length (disconnected (lru_of b)) + length (connected (lru_of b)) \<le> K_VALUE"
    by (metis kb_inv_def length_append lru_of_simps(3))
  from inv show "distinct (map node_bytes (disconnected (lru_of b) @ connected (lru_of b)))"
    by (simp add: kb_inv_def bucket_keys_def)
qed


section \<open>Properties of a bucket\<close>

lemma KBucket_iter_repr:
  "repr b D C \<Longrightarrow>
   KBucket_iter b = map (\<lambda>n. (n, Disconnected)) D @ map (\<lambda>n. (n, Connected)) C"
  by (rule nth_equalityI)
     (auto simp: KBucket_iter_def repr_def nth_append nth_enumerate_eq KBucket_status_def)

lemma KBucket_iter_lru:
  "kb_inv b \<Longrightarrow>
   KBucket_iter b = map (\<lambda>n. (n, Disconnected)) (disconnected (lru_of b)) @
                    map (\<lambda>n. (n, Connected)) (connected (lru_of b))"
  by (rule KBucket_iter_repr) (rule kb_inv_repr)

text \<open>
  C8. Buckets refine their specification: starting from a new bucket, every sequence of insertions,
  status updates, removals, and applications, updates or removals of the pending node runs without
  a panic, keeps the invariant (at most \<open>K_VALUE\<close> nodes, a valid \<open>first_connected_pos\<close>, no key
  twice among nodes and pending node), and ends in the two queues and the waiting node that the
  specification computes.
\<close>
theorem bucket_run_refines:
  "\<exists>b'. run_ops bucket_step (KBucket_new t) xs = Some b' \<and> kb_inv b' \<and>
        lru_of b' = foldl lru_step \<lparr>disconnected = [], connected = [], waiting = None, timeout = t\<rparr> xs"
  using kbucket.run_ok [OF kb_inv_new, of t xs] by (simp add: lru_of_new)

text \<open>
  Eviction policy: a node is evicted only from a full bucket by a pending node whose timeout has
  elapsed; the evicted node is the first entry and disconnected, so a connected node is never
  evicted; the pending node joins the end of the queue of its status and no other entry moves.
\<close>
theorem apply_pending_evicts:
  assumes inv: "kb_inv b" and ap: "KBucket_apply_pending now b = Some (Some a, b')"
    and ev: "ap_evicted a = Some d"
  shows "\<exists>p rest. pending b = Some p \<and> pn_replace p \<le> now \<and> ap_inserted a = pn_node p \<and>
           length (nodes b) = K_VALUE \<and> KBucket_iter b = (d, Disconnected) # rest \<and>
           pending b' = None \<and>
           KBucket_iter b' = filter (\<lambda>e. snd e = Disconnected) rest @
             (if pn_status p = Disconnected then [(pn_node p, Disconnected)] else []) @
             filter (\<lambda>e. snd e = Connected) rest @
             (if pn_status p = Connected then [(pn_node p, Connected)] else [])"
proof -
  let ?D = "disconnected (lru_of b)" and ?C = "connected (lru_of b)"
  from KBucket_apply_pending_spec [OF inv, of now] ap
  have inv': "kb_inv b'" and step: "(Some a, lru_of b') = lru_apply now (lru_of b)" by auto
  from step ev obtain p D where p: "pending b = Some p" "pn_replace p \<le> now" and full: "nodes_is_full b"
    and D: "?D = d # D" and a: "ap_inserted a = pn_node p"
    and l': "lru_of b' = lru_add ((lru_of b)\<lparr>waiting := None, disconnected := D\<rparr>) (pn_node p) (pn_status p)"
    by (auto simp: lru_apply_def Let_def split: option.splits if_splits list.splits)
  have "pending b' = None" using arg_cong [OF l', of waiting] by (auto simp: lru_add_def split: NodeStatus.splits)
  moreover have "KBucket_iter b = (d, Disconnected) # map (\<lambda>n. (n, Disconnected)) D @ map (\<lambda>n. (n, Connected)) ?C"
    by (simp add: KBucket_iter_lru [OF inv] D)
  moreover have "filter (\<lambda>e. snd e = s) (map (\<lambda>n. (n, s')) xs) = (if s = s' then map (\<lambda>n. (n, s')) xs else [])"
    for s s' and xs :: "('a, 'b) Node list"
    by (induction xs) auto
  ultimately show ?thesis
    using p full a l'
    by (cases "pn_status p") (auto simp: KBucket_iter_lru [OF inv'] lru_add_def nodes_is_full_def)
qed

text \<open>
  A status update of an entry makes it the most recent of the queue of its new status and leaves
  the order and status of every other entry unchanged; if the entry was the first one and becomes
  connected, the pending node is dropped.
\<close>
theorem bucket_update_moves:
  assumes inv: "kb_inv b" and e: "(n, old) \<in> set (KBucket_iter b)"
  shows "\<exists>b'. KBucket_update now b (node_key n) st = Some b' \<and>
           (let others = filter (\<lambda>e. node_bytes (fst e) \<noteq> node_bytes n) (KBucket_iter b);
                moved = filter (\<lambda>e. snd e = Disconnected) others @
                        (if st = Disconnected then [(n, Disconnected)] else []) @
                        filter (\<lambda>e. snd e = Connected) others @
                        (if st = Connected then [(n, Connected)] else [])
            in KBucket_iter b' = moved) \<and>
           pending b' = (if fst (hd (KBucket_iter b)) = n \<and> st = Connected then None else pending b)"
proof -
  let ?l = "lru_of b"
  obtain D C where r: "repr b D C" using kb_inv_repr [OF inv] by blast
  note l = repr_lru [OF r]
  have dist: "distinct (map node_bytes (D @ C))" using inv repr_inv [OF r] by auto
  have mem: "n \<in> set (D @ C)" using e by (auto simp: KBucket_iter_repr [OF r])
  have inj: "m = n" if "m \<in> set (D @ C)" "node_bytes m = node_bytes n" for m
    using dist mem that by (auto simp: distinct_map dest: inj_onD)
  obtain s where found: "lru_find ?l (node_bytes n) = Some (n, s)"
  proof (cases "lru_find ?l (node_bytes n)")
    case None
    then show ?thesis using mem by (auto simp: l lru_find_def find_None_iff split: option.splits)
  next
    case (Some x)
    then obtain m s where x: "x = (m, s)" by (cases x)
    with lru_find_mem [of ?l "node_bytes n" m s] Some have "m \<in> set (D @ C)" "node_bytes m = node_bytes n"
      by (auto simp: l split: NodeStatus.splits)
    with inj Some x that show ?thesis by auto
  qed
  have oldest: "node_bytes (hd (D @ C)) = node_bytes n \<longleftrightarrow> hd (D @ C) = n"
    using inj [of "hd (D @ C)"] mem by (metis empty_iff empty_set hd_in_set)
  from KBucket_update_spec [OF inv, of now "node_key n" st] obtain b' where
    b': "KBucket_update now b (node_key n) st = Some b'" "kb_inv b'"
      "lru_of b' = lru_update ?l (node_bytes n) st" by blast
  let ?f = "filter (\<lambda>m. node_bytes m \<noteq> node_bytes n)"
  have lb': "lru_of b' = \<lparr>disconnected = ?f D @ (if st = Disconnected then [n] else []),
      connected = ?f C @ (if st = Connected then [n] else []),
      waiting = (if hd (D @ C) = n \<and> st = Connected then None else pending b), timeout = pending_timeout b\<rparr>"
    unfolding b'(3) lru_update_def found option.case prod.case Let_def
    using oldest by (cases st) (simp_all add: l lru_add_def lru_delete_def)
  have W': "pending b' = (if hd (D @ C) = n \<and> st = Connected then None else pending b)"
    using arg_cong [OF lb', of waiting] unfolding lru_of_simps by simp
  have "fst (hd (KBucket_iter b)) = hd (D @ C)"
    using mem by (cases D; cases C; auto simp: KBucket_iter_repr [OF r])
  then show ?thesis
    using b'(1) by (simp add: KBucket_iter_lru [OF b'(2)] KBucket_iter_repr [OF r] lb' W' filter_map comp_def)
qed


text \<open>Concrete buckets for the witnesses: \<open>n\<close> nodes with keys \<open>1, 2, \<dots>\<close>, the last one connected.\<close>

definition sample_node :: "nat \<Rightarrow> (nat, unit) Node" where
  "sample_node i = \<lparr>node_key = \<lparr>key_preimage = i, key_bytes = of_nat i\<rparr>, node_value = ()\<rparr>"

definition sample_bucket :: "nat \<Rightarrow> (nat, unit) KBucket" where
  "sample_bucket n =
     \<lparr>nodes = map sample_node [1..<Suc n], first_connected_pos = Some (n - 1),
      pending = Some \<lparr>pn_node = sample_node 100, pn_status = Connected, pn_replace = 5\<rparr>, pending_timeout = 5\<rparr>"

lemma sample_bucket_inv: "kb_inv (sample_bucket 20)" "kb_inv (sample_bucket 3)"
  by code_simp+

theorem apply_pending_evicts_witness:
  "\<exists>a b' d p rest. KBucket_apply_pending 7 (sample_bucket 20) = Some (Some a, b') \<and> ap_evicted a = Some d \<and>
     d = sample_node 1 \<and> pending (sample_bucket 20) = Some p \<and>
     KBucket_iter (sample_bucket 20) = (d, Disconnected) # rest"
proof -
  obtain a b' where ap: "KBucket_apply_pending 7 (sample_bucket 20) = Some (Some a, b')"
    and ev: "ap_evicted a = Some (sample_node 1)"
  proof -
    have "(case KBucket_apply_pending 7 (sample_bucket 20) of Some (Some a, b') \<Rightarrow> ap_evicted a = Some (sample_node 1) | _ \<Rightarrow> False)"
      by code_simp
    then show ?thesis using that by (auto split: option.splits)
  qed
  show ?thesis
    using apply_pending_evicts [OF sample_bucket_inv(1) ap ev] ap ev by blast
qed

theorem bucket_update_moves_witness:
  "\<exists>b'. KBucket_update 7 (sample_bucket 3) (node_key (sample_node 1)) Connected = Some b' \<and> pending b' = None \<and>
        map (key_preimage \<circ> node_key \<circ> fst) (KBucket_iter b') = [2, 3, 1]"
proof -
  have e: "(sample_node 1, Disconnected) \<in> set (KBucket_iter (sample_bucket 3))"
    by code_simp
  have "fst (hd (KBucket_iter (sample_bucket 3))) = sample_node 1" by code_simp
  with bucket_update_moves [OF sample_bucket_inv(2) e, of 7 Connected] obtain b' where
    b': "KBucket_update 7 (sample_bucket 3) (node_key (sample_node 1)) Connected = Some b'" "pending b' = None"
    by auto
  moreover have "(case KBucket_update 7 (sample_bucket 3) (node_key (sample_node 1)) Connected of
      Some b' \<Rightarrow> map (key_preimage \<circ> node_key \<circ> fst) (KBucket_iter b') = [2, 3, 1] | None \<Rightarrow> False)"
    by code_simp
  ultimately show ?thesis by simp
qed

end
