(* ===== verification/Kad_Table.thy ===== *)
theory Kad_Table
  imports Kad_Bucket
begin

text \<open>
  The Kademlia routing table: \<open>KBucketsTable\<close>, its iterators and \<open>KBucketRef\<close> of
  \<open>protocols/kad/src/kbucket.rs\<close>, and the \<open>Entry\<close> API of \<open>protocols/kad/src/kbucket/entry.rs\<close>.

  A mutable borrow of a bucket is the bucket's index with the whole table threaded through. Every
  access applies the pending node of the bucket it touches and so reads the clock; iterators that
  touch several buckets take the clock as a function of the number of buckets touched so far.
\<close>

section \<open>The table and its entries\<close>

record ('p, 'v) KBucketsTable =
  local_key :: "'p key"
  buckets :: "('p, 'v) KBucket list"
  applied_pending :: "('p, 'v) AppliedPending list"

definition Table_new :: "'p key \<Rightarrow> duration \<Rightarrow> ('p, 'v) KBucketsTable" where
  "Table_new lk pt =
     \<lparr>local_key = lk, buckets = map (\<lambda>_. KBucket_new pt) [0..<NUM_BUCKETS], applied_pending = []\<rparr>"

text \<open>Borrow bucket \<open>i\<close>, apply its pending node and record what was applied.\<close>

definition touch :: "instant \<Rightarrow> ('p, 'v) KBucketsTable \<Rightarrow> nat
    \<Rightarrow> (('p, 'v) KBucket \<times> ('p, 'v) KBucketsTable) option" where
  "touch now t i = do {
     b \<leftarrow> vec_index (buckets t) i;
     (applied, b') \<leftarrow> KBucket_apply_pending now b;
     Some (b', t\<lparr>buckets := (buckets t)[i := b'],
                 applied_pending := (case applied of Some a \<Rightarrow> applied_pending t @ [a]
                                                   | None \<Rightarrow> applied_pending t)\<rparr>)
   }"

datatype Entry = PresentEntry NodeStatus | PendingEntry NodeStatus | AbsentEntry | SelfEntry

definition Entry_new :: "('p, 'v) KBucket \<Rightarrow> 'p key \<Rightarrow> Entry" where
  "Entry_new b k =
     (case KBucket_position b k of
        Some pos \<Rightarrow> PresentEntry (KBucket_status b pos)
      | None \<Rightarrow> (case KBucket_as_pending b k of
                   Some p \<Rightarrow> PendingEntry (pn_status p)
                 | None \<Rightarrow> AbsentEntry))"

definition Table_entry :: "instant \<Rightarrow> ('p, 'v) KBucketsTable \<Rightarrow> 'p key
    \<Rightarrow> (Entry \<times> ('p, 'v) KBucketsTable) option" where
  "Table_entry now t k =
     (case BucketIndex_new (Key_distance (local_key t) (key_bytes k)) of
        Some i \<Rightarrow> do { (b, t') \<leftarrow> touch now t i; Some (Entry_new b k, t') }
      | None \<Rightarrow> Some (SelfEntry, t))"

text \<open>The bucket an entry for \<open>k\<close> refers to, and an update through that reference.\<close>

definition entry_bucket :: "('p, 'v) KBucketsTable \<Rightarrow> 'p key \<Rightarrow> nat option" where
  "entry_bucket t k = BucketIndex_new (Key_distance (local_key t) (key_bytes k))"

definition through_entry :: "('p, 'v) KBucketsTable \<Rightarrow> 'p key
    \<Rightarrow> (('p, 'v) KBucket \<Rightarrow> ('r \<times> ('p, 'v) KBucket) option) \<Rightarrow> ('r \<times> ('p, 'v) KBucketsTable) option" where
  "through_entry t k f = do {
     i \<leftarrow> entry_bucket t k;
     b \<leftarrow> vec_index (buckets t) i;
     (r, b') \<leftarrow> f b;
     Some (r, t\<lparr>buckets := (buckets t)[i := b']\<rparr>)
   }"

record ('p, 'v) EntryView =
  ev_node :: "('p, 'v) Node"
  ev_status :: NodeStatus

definition PresentEntry_value :: "('p, 'v) KBucketsTable \<Rightarrow> 'p key \<Rightarrow> ('v \<Rightarrow> 'v)
    \<Rightarrow> (unit \<times> ('p, 'v) KBucketsTable) option" where
  "PresentEntry_value t k f =
     through_entry t k (\<lambda>b. do { b' \<leftarrow> KBucket_get_mut b k f; Some ((), b') })"

definition PresentEntry_update :: "instant \<Rightarrow> ('p, 'v) KBucketsTable \<Rightarrow> 'p key \<Rightarrow> NodeStatus
    \<Rightarrow> (unit \<times> ('p, 'v) KBucketsTable) option" where
  "PresentEntry_update now t k st =
     through_entry t k (\<lambda>b. do { b' \<leftarrow> KBucket_update now b k st; Some ((), b') })"

definition PresentEntry_remove :: "('p, 'v) KBucketsTable \<Rightarrow> 'p key
    \<Rightarrow> (('p, 'v) EntryView \<times> ('p, 'v) KBucketsTable) option" where
  "PresentEntry_remove t k =
     through_entry t k (\<lambda>b. do {
       (r, b') \<leftarrow> KBucket_remove b k;
       case r of None \<Rightarrow> None
       | Some (node, status, pos) \<Rightarrow> Some (\<lparr>ev_node = node, ev_status = status\<rparr>, b') })"

definition PendingEntry_value :: "('p, 'v) KBucketsTable \<Rightarrow> 'p key \<Rightarrow> ('v \<Rightarrow> 'v)
    \<Rightarrow> (unit \<times> ('p, 'v) KBucketsTable) option" where
  "PendingEntry_value t k f =
     through_entry t k (\<lambda>b. case pending b of
         None \<Rightarrow> None
       | Some p \<Rightarrow> Some ((), b\<lparr>pending := Some (p\<lparr>pn_node := (pn_node p)\<lparr>node_value := f (node_value (pn_node p))\<rparr>\<rparr>)\<rparr>))"

definition PendingEntry_update :: "('p, 'v) KBucketsTable \<Rightarrow> 'p key \<Rightarrow> NodeStatus
    \<Rightarrow> (unit \<times> ('p, 'v) KBucketsTable) option" where
  "PendingEntry_update t k st =
     through_entry t k (\<lambda>b. Some ((), KBucket_update_pending b st))"

definition PendingEntry_remove :: "('p, 'v) KBucketsTable \<Rightarrow> 'p key
    \<Rightarrow> (('p, 'v) EntryView \<times> ('p, 'v) KBucketsTable) option" where
  "PendingEntry_remove t k =
     through_entry t k (\<lambda>b. case KBucket_remove_pending b of
         (None, _) \<Rightarrow> None
       | (Some p, b') \<Rightarrow> Some (\<lparr>ev_node = pn_node p, ev_status = pn_status p\<rparr>, b'))"

definition AbsentEntry_insert :: "instant \<Rightarrow> ('p, 'v) KBucketsTable \<Rightarrow> 'p key \<Rightarrow> 'v \<Rightarrow> NodeStatus
    \<Rightarrow> ('p InsertResult \<times> ('p, 'v) KBucketsTable) option" where
  "AbsentEntry_insert now t k v st =
     through_entry t k (\<lambda>b. KBucket_insert now b \<lparr>node_key = k, node_value = v\<rparr> st)"

section \<open>Access to whole buckets\<close>

fun touch_all :: "(nat \<Rightarrow> instant) \<Rightarrow> ('p, 'v) KBucketsTable \<Rightarrow> nat list
    \<Rightarrow> ((nat \<times> ('p, 'v) KBucket) list \<times> ('p, 'v) KBucketsTable) option" where
  "touch_all clock t [] = Some ([], t)"
| "touch_all clock t (i # is) = do {
     (b, t1) \<leftarrow> touch (clock i) t i;
     (bs, t2) \<leftarrow> touch_all clock t1 is;
     Some ((i, b) # bs, t2)
   }"

definition Table_iter :: "(nat \<Rightarrow> instant) \<Rightarrow> ('p, 'v) KBucketsTable
    \<Rightarrow> ((nat \<times> ('p, 'v) KBucket) list \<times> ('p, 'v) KBucketsTable) option" where
  "Table_iter clock t = touch_all clock t [0..<length (buckets t)]"

definition Table_bucket :: "instant \<Rightarrow> ('p, 'v) KBucketsTable \<Rightarrow> u256
    \<Rightarrow> ((nat \<times> ('p, 'v) KBucket) option \<times> ('p, 'v) KBucketsTable) option" where
  "Table_bucket now t k =
     (case BucketIndex_new (Key_distance (local_key t) k) of
        Some i \<Rightarrow> do { (b, t') \<leftarrow> touch now t i; Some (Some (i, b), t') }
      | None \<Rightarrow> Some (None, t))"

definition take_applied_pending ::
    "('p, 'v) KBucketsTable \<Rightarrow> ('p, 'v) AppliedPending option \<times> ('p, 'v) KBucketsTable" where
  "take_applied_pending t =
     (case applied_pending t of
        [] \<Rightarrow> (None, t)
      | a # as \<Rightarrow> (Some a, t\<lparr>applied_pending := as\<rparr>))"

definition KBucketRef_has_pending :: "instant \<Rightarrow> ('p, 'v) KBucket \<Rightarrow> bool" where
  "KBucketRef_has_pending now b \<longleftrightarrow>
     (case pending b of None \<Rightarrow> False | Some n \<Rightarrow> \<not> PendingNode_is_ready now n)"

definition KBucketRef_contains :: "nat \<Rightarrow> u256 \<Rightarrow> bool" where
  "KBucketRef_contains index d \<longleftrightarrow>
     (case BucketIndex_new d of None \<Rightarrow> False | Some i \<Rightarrow> i = index)"

section \<open>Iteration by distance\<close>

datatype ClosestBucketsIterState = Start nat | ZoomIn nat | ZoomOut nat | Done

record ClosestBucketsIter =
  cb_distance :: u256
  cb_state :: ClosestBucketsIterState

definition ClosestBucketsIter_new :: "u256 \<Rightarrow> ClosestBucketsIter" where
  "ClosestBucketsIter_new d =
     \<lparr>cb_distance = d,
      cb_state = (case BucketIndex_new d of Some i \<Rightarrow> Start i | None \<Rightarrow> Start 0)\<rparr>"

definition next_in :: "u256 \<Rightarrow> nat \<Rightarrow> nat option" where
  "next_in d i = find (\<lambda>j. bit d j) (rev [0..<i])"

definition next_out :: "u256 \<Rightarrow> nat \<Rightarrow> nat option" where
  "next_out d i = find (\<lambda>j. \<not> bit d j) [i + 1..<NUM_BUCKETS]"

definition ClosestBucketsIter_next :: "ClosestBucketsIter \<Rightarrow> nat option \<times> ClosestBucketsIter" where
  "ClosestBucketsIter_next s =
     (case cb_state s of
        Start i \<Rightarrow> (Some i, s\<lparr>cb_state := ZoomIn i\<rparr>)
      | ZoomIn i \<Rightarrow>
          (case next_in (cb_distance s) i of
             Some j \<Rightarrow> (Some j, s\<lparr>cb_state := ZoomIn j\<rparr>)
           | None \<Rightarrow> (Some 0, s\<lparr>cb_state := ZoomOut 0\<rparr>))
      | ZoomOut i \<Rightarrow>
          (case next_out (cb_distance s) i of
             Some j \<Rightarrow> (Some j, s\<lparr>cb_state := ZoomOut j\<rparr>)
           | None \<Rightarrow> (None, s\<lparr>cb_state := Done\<rparr>))
      | Done \<Rightarrow> (None, s))"

text \<open>An upper bound on the calls of \<open>next\<close> that still yield an index.\<close>

fun cb_measure :: "ClosestBucketsIterState \<Rightarrow> nat" where
  "cb_measure (Start i) = NUM_BUCKETS + i + 3"
| "cb_measure (ZoomIn i) = NUM_BUCKETS + i + 2"
| "cb_measure (ZoomOut i) = NUM_BUCKETS - i + 1"
| "cb_measure Done = 0"

lemma next_in_Some: "next_in d i = Some j \<Longrightarrow> j < i \<and> bit d j"
  by (auto simp: next_in_def dest: find_SomeD)

lemma next_out_Some: "next_out d i = Some j \<Longrightarrow> i < j \<and> j < NUM_BUCKETS \<and> \<not> bit d j"
  by (auto simp: next_out_def dest: find_SomeD)

lemma ClosestBucketsIter_next_measure:
  "ClosestBucketsIter_next s = (Some i, s') \<Longrightarrow> cb_measure (cb_state s') < cb_measure (cb_state s)"
  by (auto simp: ClosestBucketsIter_next_def split: ClosestBucketsIterState.splits option.splits
      dest: next_in_Some next_out_Some)

text \<open>The indices a run of the iterator yields.\<close>

function buckets_order :: "ClosestBucketsIter \<Rightarrow> nat list" where
  "buckets_order s =
     (case ClosestBucketsIter_next s of
        (Some i, s') \<Rightarrow> i # buckets_order s'
      | (None, s') \<Rightarrow> [])"
  by pat_completeness auto
termination
  by (relation "measure (\<lambda>s. cb_measure (cb_state s))") (auto dest: sym [THEN ClosestBucketsIter_next_measure])

declare buckets_order.simps [simp del]


record ('p, 'v, 'o) ClosestIter =
  ci_target :: u256
  ci_table :: "('p, 'v) KBucketsTable"
  ci_buckets :: ClosestBucketsIter
  ci_iter :: "'o list option"
  ci_visits :: nat

definition ci_measure :: "('p, 'v, 'o) ClosestIter \<Rightarrow> nat" where
  "ci_measure s = 2 * cb_measure (cb_state (ci_buckets s)) + (case ci_iter s of None \<Rightarrow> 0 | Some _ \<Rightarrow> 1)"

text \<open>
  The \<open>loop\<close> of \<open>ClosestIter::next\<close>: \<open>fmap\<close> projects a bucket to its items, \<open>as_ref\<close> is the key
  of an item, \<open>sort_by\<close> is the stable sort by distance to the target.
\<close>

function ClosestIter_next :: "(nat \<Rightarrow> instant) \<Rightarrow> (('p, 'v) KBucket \<Rightarrow> 'o list) \<Rightarrow> ('o \<Rightarrow> u256)
    \<Rightarrow> ('p, 'v, 'o) ClosestIter \<Rightarrow> ('o option \<times> ('p, 'v, 'o) ClosestIter) option" where
  "ClosestIter_next clock fmap as_ref s =
     (case ci_iter s of
        Some (k # ks) \<Rightarrow> Some (Some k, s\<lparr>ci_iter := Some ks\<rparr>)
      | Some [] \<Rightarrow> ClosestIter_next clock fmap as_ref (s\<lparr>ci_iter := None\<rparr>)
      | None \<Rightarrow>
          (case ClosestBucketsIter_next (ci_buckets s) of
             (Some i, bi) \<Rightarrow>
               (case touch (clock (ci_visits s)) (ci_table s) i of
                  None \<Rightarrow> None
                | Some (b, t) \<Rightarrow>
                    ClosestIter_next clock fmap as_ref
                      (s\<lparr>ci_buckets := bi, ci_table := t, ci_visits := Suc (ci_visits s),
                         ci_iter := Some (sort_key (\<lambda>o'. KeyBytes_distance (ci_target s) (as_ref o')) (fmap b))\<rparr>))
           | (None, bi) \<Rightarrow> Some (None, s\<lparr>ci_buckets := bi\<rparr>)))"
  by pat_completeness auto
termination
  by (relation "measure (\<lambda>(clock, fmap, as_ref, s). ci_measure s)")
     (auto simp: ci_measure_def dest!: sym [THEN ClosestBucketsIter_next_measure])

declare ClosestIter_next.simps [simp del]

text \<open>Draining the iterator.\<close>

definition ci_rest :: "('p, 'v, 'o) ClosestIter \<Rightarrow> nat" where
  "ci_rest s = (case ci_iter s of None \<Rightarrow> 0 | Some ks \<Rightarrow> length ks)"

lemma ClosestIter_next_decreases:
  "ClosestIter_next clock fmap as_ref s = Some (Some k, s') \<Longrightarrow>
   ci_measure s' < ci_measure s \<or> ci_measure s' = ci_measure s \<and> ci_rest s' < ci_rest s"
proof (induction clock fmap as_ref s rule: ClosestIter_next.induct)
  case (1 clock fmap as_ref s)
  show ?case
  proof (cases "ci_iter s")
    case None
    with "1.prems" obtain i bi b t where
      nx: "ClosestBucketsIter_next (ci_buckets s) = (Some i, bi)"
      and t: "touch (clock (ci_visits s)) (ci_table s) i = Some (b, t)"
      by (subst (asm) ClosestIter_next.simps) (auto split: prod.splits option.splits)
    have "cb_measure (cb_state bi) < cb_measure (cb_state (ci_buckets s))"
      using nx by (rule ClosestBucketsIter_next_measure)
    moreover have "ClosestIter_next clock fmap as_ref s = ClosestIter_next clock fmap as_ref
        (s\<lparr>ci_buckets := bi, ci_table := t, ci_visits := Suc (ci_visits s),
           ci_iter := Some (sort_key (\<lambda>o'. KeyBytes_distance (ci_target s) (as_ref o')) (fmap b))\<rparr>)"
      using None nx t by (subst ClosestIter_next.simps) simp
    ultimately show ?thesis
      using "1.IH"(1) [OF None nx [symmetric] refl t] "1.prems" by (fastforce simp: ci_measure_def None)
  next
    case (Some ks)
    with "1.IH"(2) [OF Some] "1.prems" show ?thesis
      by (cases ks) (auto simp: ClosestIter_next.simps [of clock fmap as_ref s] ci_measure_def ci_rest_def)
  qed
qed

function ClosestIter_collect :: "(nat \<Rightarrow> instant) \<Rightarrow> (('p, 'v) KBucket \<Rightarrow> 'o list) \<Rightarrow> ('o \<Rightarrow> u256)
    \<Rightarrow> ('p, 'v, 'o) ClosestIter \<Rightarrow> ('o list \<times> ('p, 'v, 'o) ClosestIter) option" where
  "ClosestIter_collect clock fmap as_ref s =
     (case ClosestIter_next clock fmap as_ref s of
        None \<Rightarrow> None
      | Some (None, s') \<Rightarrow> Some ([], s')
      | Some (Some k, s') \<Rightarrow> map_option (\<lambda>(ks, s''). (k # ks, s'')) (ClosestIter_collect clock fmap as_ref s'))"
  by pat_completeness auto
termination
  by (relation "measures [\<lambda>(clock, fmap, as_ref, s). ci_measure s, \<lambda>(clock, fmap, as_ref, s). ci_rest s]")
     (auto dest: ClosestIter_next_decreases)

declare ClosestIter_collect.simps [simp del]

definition ClosestIter_new :: "('p, 'v) KBucketsTable \<Rightarrow> u256 \<Rightarrow> ('p, 'v, 'o) ClosestIter" where
  "ClosestIter_new t target =
     \<lparr>ci_target = target, ci_table = t,
      ci_buckets = ClosestBucketsIter_new (Key_distance (local_key t) target),
      ci_iter = None, ci_visits = 0\<rparr>"

definition Table_closest_keys :: "(nat \<Rightarrow> instant) \<Rightarrow> ('p, 'v) KBucketsTable \<Rightarrow> u256
    \<Rightarrow> ('p key list \<times> ('p, 'v, 'p key) ClosestIter) option" where
  "Table_closest_keys clock t target =
     ClosestIter_collect clock (\<lambda>b. map (\<lambda>(n, _). node_key n) (KBucket_iter b)) key_bytes (ClosestIter_new t target)"

definition Table_closest :: "(nat \<Rightarrow> instant) \<Rightarrow> ('p, 'v) KBucketsTable \<Rightarrow> u256
    \<Rightarrow> (('p, 'v) EntryView list \<times> ('p, 'v, ('p, 'v) EntryView) ClosestIter) option" where
  "Table_closest clock t target =
     ClosestIter_collect clock
       (\<lambda>b. map (\<lambda>(n, status). \<lparr>ev_node = n, ev_status = status\<rparr>) (KBucket_iter b))
       (\<lambda>v. node_bytes (ev_node v)) (ClosestIter_new t target)"

text \<open>\<open>count_nodes_between\<close> reads the buckets without applying pending nodes.\<close>

definition Table_count_nodes_between :: "('p, 'v) KBucketsTable \<Rightarrow> u256 \<Rightarrow> nat option" where
  "Table_count_nodes_between t target =
     (let d = KeyBytes_distance target (key_bytes (local_key t));
          indices = takeWhile (\<lambda>i. i \<noteq> 0) (buckets_order (ClosestBucketsIter_new d))
      in case indices of
           [] \<Rightarrow> Some 0
         | i # rest \<Rightarrow> do {
             b \<leftarrow> vec_index (buckets t) i;
             let num_first = length (filter (\<lambda>(n, _). KeyBytes_distance (node_bytes n) (key_bytes (local_key t)) \<le> d)
                                       (KBucket_iter b));
             bs \<leftarrow> those (map (vec_index (buckets t)) rest);
             Some (num_first + sum_list (map KBucket_num_entries bs))
           })"


section \<open>The order of the buckets\<close>

lemma next_in_0: "next_in d 0 = None"
  by (simp add: next_in_def)

lemma next_in_Suc: "next_in d (Suc i) = (if bit d i then Some i else next_in d i)"
  by (simp add: next_in_def)

lemma next_out_step:
  "i + 1 < NUM_BUCKETS \<Longrightarrow> next_out d i = (if bit d (i + 1) then next_out d (i + 1) else Some (i + 1))"
  unfolding next_out_def by (subst upt_conv_Cons) (auto simp: NUM_BUCKETS_def)

lemma next_out_end: "NUM_BUCKETS \<le> i + 1 \<Longrightarrow> next_out d i = None"
  by (simp add: next_out_def)

lemma order_zoom_out:
  "buckets_order \<lparr>cb_distance = d, cb_state = ZoomOut i\<rparr> = filter (\<lambda>j. \<not> bit d j) [i + 1..<NUM_BUCKETS]"
proof (induction "NUM_BUCKETS - i" arbitrary: i rule: less_induct)
  case less
  show ?case
  proof (cases "i + 1 < NUM_BUCKETS")
    case True
    then have up: "[i + 1..<NUM_BUCKETS] = (i + 1) # [i + 1 + 1..<NUM_BUCKETS]"
      by (subst upt_conv_Cons) auto
    have IH: "buckets_order \<lparr>cb_distance = d, cb_state = ZoomOut (i + 1)\<rparr>
                = filter (\<lambda>j. \<not> bit d j) [i + 1 + 1..<NUM_BUCKETS]"
      using True by (intro less) simp
    show ?thesis
    proof (cases "bit d (i + 1)")
      case False
      then show ?thesis
        using IH up True by (subst buckets_order.simps) (simp add: ClosestBucketsIter_next_def next_out_step)
    next
      case skip: True
      have "buckets_order \<lparr>cb_distance = d, cb_state = ZoomOut i\<rparr>
              = buckets_order \<lparr>cb_distance = d, cb_state = ZoomOut (i + 1)\<rparr>"
        using skip True next_out_step [OF True, of d]
        by (subst (1 2) buckets_order.simps) (simp add: ClosestBucketsIter_next_def split: option.split)
      then show ?thesis using IH up skip by simp
    qed
  next
    case False
    then show ?thesis
      by (subst buckets_order.simps) (simp add: ClosestBucketsIter_next_def next_out_end)
  qed
qed

lemma order_zoom_in:
  "buckets_order \<lparr>cb_distance = d, cb_state = ZoomIn i\<rparr> =
     rev (filter (bit d) [0..<i]) @ 0 # filter (\<lambda>j. \<not> bit d j) [1..<NUM_BUCKETS]"
proof (induction i)
  case 0
  show ?case
    by (subst buckets_order.simps) (simp add: ClosestBucketsIter_next_def next_in_0 order_zoom_out)
next
  case (Suc i)
  show ?case
  proof (cases "bit d i")
    case True
    then show ?thesis
      using Suc by (subst buckets_order.simps) (simp add: ClosestBucketsIter_next_def next_in_Suc)
  next
    case False
    have "buckets_order \<lparr>cb_distance = d, cb_state = ZoomIn (Suc i)\<rparr>
            = buckets_order \<lparr>cb_distance = d, cb_state = ZoomIn i\<rparr>"
      using False by (subst (1 2) buckets_order.simps) (simp add: ClosestBucketsIter_next_def next_in_Suc split: option.split)
    then show ?thesis using Suc False by simp
  qed
qed

lemma order_new:
  "buckets_order (ClosestBucketsIter_new d) =
     (if d = 0 then [0] else rev (filter (bit d) [0..<NUM_BUCKETS])) @ 0 # filter (\<lambda>j. \<not> bit d j) [1..<NUM_BUCKETS]"
proof (cases "BucketIndex_new d")
  case None
  then have "d = 0" by (simp add: BucketIndex_new_None)
  then show ?thesis
    using None by (subst buckets_order.simps) (simp add: ClosestBucketsIter_new_def ClosestBucketsIter_next_def order_zoom_in)
next
  case (Some i)
  then have b: "bit d i" "\<And>l. i < l \<Longrightarrow> \<not> bit d l" and i: "i < NUM_BUCKETS" and "d \<noteq> 0"
    using BucketIndex_new_Some [of d i] BucketIndex_new_bound [of d i] by auto
  have "[0..<NUM_BUCKETS] = [0..<Suc i] @ [Suc i..<NUM_BUCKETS]"
    using i by (metis Suc_leI le0 upt_add_eq_append le_Suc_ex)
  moreover have "filter (bit d) [Suc i..<NUM_BUCKETS] = []"
    using b(2) by (auto simp: filter_empty_conv)
  ultimately have "filter (bit d) [0..<NUM_BUCKETS] = filter (bit d) [0..<i] @ [i]"
    using b(1) by simp
  then show ?thesis
    using Some \<open>d \<noteq> 0\<close>
    by (subst buckets_order.simps) (simp add: ClosestBucketsIter_new_def ClosestBucketsIter_next_def order_zoom_in)
qed

lemma order_bound: "i \<in> set (buckets_order (ClosestBucketsIter_new d)) \<Longrightarrow> i < NUM_BUCKETS"
  by (auto simp: order_new NUM_BUCKETS_def split: if_splits)

lemma count_list_filter_upt:
  "count_list (filter P [a..<b]) i = (if a \<le> i \<and> i < b \<and> P i then 1 else 0)"
  by (induction b) (auto simp: count_list_append less_Suc_eq)

text \<open>
  Every run of the bucket iterator visits every bucket, and every bucket other than bucket 0
  exactly once; bucket 0 is visited once or twice: twice exactly when the target is the local key or
  its distance to the local key is odd.
\<close>
theorem buckets_order_visits:
  "i < NUM_BUCKETS \<Longrightarrow>
   count_list (buckets_order (ClosestBucketsIter_new d)) i =
     (if i = 0 \<and> (d = 0 \<or> bit d 0) then 2 else 1)"
  by (auto simp: order_new count_list_append count_list_rev count_list_filter_upt NUM_BUCKETS_def)

theorem buckets_order_visits_witness:
  "count_list (buckets_order (ClosestBucketsIter_new 5)) 0 = 2 \<and>
   count_list (buckets_order (ClosestBucketsIter_new 5)) 7 = 1"
  using buckets_order_visits [of 0 5] buckets_order_visits [of 7 5] by (simp add: NUM_BUCKETS_def)

text \<open>Buckets earlier in the order hold keys closer to the target.\<close>

definition bucket_before :: "u256 \<Rightarrow> nat \<Rightarrow> nat \<Rightarrow> bool" where
  "bucket_before d i j \<longleftrightarrow>
     (\<forall>x y. BucketIndex_new x = Some i \<longrightarrow> BucketIndex_new y = Some j \<longrightarrow> d XOR x \<le> d XOR y)"

lemma xor_bucket_bits:
  assumes "BucketIndex_new x = Some i"
  shows "bit (d XOR x) i \<longleftrightarrow> \<not> bit d i" and "i < l \<Longrightarrow> bit (d XOR x) l \<longleftrightarrow> bit d l"
  using assms BucketIndex_new_bound [OF assms]
  by (auto simp: BucketIndex_new_Some bit_xor_iff NUM_BUCKETS_def)

lemma xor_less_set: "BucketIndex_new x = Some i \<Longrightarrow> bit d i \<Longrightarrow> d XOR x < d"
  by (rule word_less_by_bit [of _ i]) (auto simp: xor_bucket_bits)

lemma xor_less_unset: "BucketIndex_new x = Some i \<Longrightarrow> \<not> bit d i \<Longrightarrow> d < d XOR x"
  by (rule word_less_by_bit [of _ i]) (auto simp: xor_bucket_bits)

lemma before_set: "bit d j \<Longrightarrow> i < j \<Longrightarrow> bucket_before d j i"
  unfolding bucket_before_def
  by (intro allI impI order.strict_implies_order word_less_by_bit [of _ j]) (auto simp: xor_bucket_bits)

lemma before_unset: "\<not> bit d j \<Longrightarrow> i < j \<Longrightarrow> bucket_before d i j"
  unfolding bucket_before_def
  by (intro allI impI order.strict_implies_order word_less_by_bit [of _ j]) (auto simp: xor_bucket_bits)

lemma before_set_unset: "bit d i \<Longrightarrow> \<not> bit d j \<Longrightarrow> bucket_before d i j"
  unfolding bucket_before_def
  by (meson xor_less_set xor_less_unset order.strict_implies_order order.strict_trans)

lemma before_0_0: "bucket_before d 0 0"
proof -
  have "x = 1" if "BucketIndex_new x = Some 0" for x
  proof -
    have "unat x = 1" using that by (simp add: BucketIndex_new_iff_bounds)
    then show ?thesis by (metis unsigned_1 word_unat_eq_iff)
  qed
  then show ?thesis by (auto simp: bucket_before_def)
qed

lemma order_sorted: "sorted_wrt (bucket_before d) (buckets_order (ClosestBucketsIter_new d))"
proof -
  let ?S = "filter (bit d) [0..<NUM_BUCKETS]" and ?U = "filter (\<lambda>j. \<not> bit d j) [1..<NUM_BUCKETS]"
  have "sorted_wrt (\<lambda>i j. bucket_before d j i) ?S"
    by (rule sorted_wrt_mono_rel [of _ "(<)"]) (auto intro: before_set sorted_wrt_filter)
  moreover have "sorted_wrt (bucket_before d) ?U"
    by (rule sorted_wrt_mono_rel [of _ "(<)"]) (auto intro: before_unset sorted_wrt_filter)
  moreover have "bucket_before d i 0" if "i \<in> set ?S" for i
    using that before_set [of d i 0] before_0_0 [of d] by (cases "i = 0") auto
  moreover have "bucket_before d 0 j" if "j \<in> set ?U" for j
    using that before_unset [of d j 0] by auto
  moreover have "bucket_before d i j" if "i \<in> set ?S" "j \<in> set ?U" for i j
    using that before_set_unset by auto
  ultimately show ?thesis
    using before_0_0 [of d] by (auto simp: order_new sorted_wrt_append sorted_wrt_rev)
qed


section \<open>The invariant of the table\<close>

definition local_distance :: "('p, 'v) KBucketsTable \<Rightarrow> u256 \<Rightarrow> u256" where
  "local_distance t k = KeyBytes_distance (key_bytes (local_key t)) k"

definition table_inv :: "('p, 'v) KBucketsTable \<Rightarrow> bool" where
  "table_inv t \<longleftrightarrow>
     length (buckets t) = NUM_BUCKETS \<and>
     (\<forall>i < NUM_BUCKETS. kb_inv (buckets t ! i) \<and>
        (\<forall>k \<in> set (bucket_keys (buckets t ! i) @ pending_keys (buckets t ! i)).
           BucketIndex_new (local_distance t k) = Some i))"

definition table_keys :: "('p, 'v) KBucketsTable \<Rightarrow> u256 set" where
  "table_keys t = (\<Union>b \<in> set (buckets t). set (bucket_keys b))"

definition lru_keys :: "('p, 'v) lru \<Rightarrow> u256 set" where
  "lru_keys l = node_bytes ` set (disconnected l @ connected l) \<union>
     (case waiting l of None \<Rightarrow> {} | Some p \<Rightarrow> {node_bytes (pn_node p)})"

lemma lru_keys_of: "lru_keys (lru_of b) = set (bucket_keys b @ pending_keys b)"
  by (auto simp: lru_keys_def bucket_keys_lru pending_keys_def simp del: lru_of_simps(3) split: option.splits)

lemma table_inv_new: "table_inv (Table_new lk pt)"
  by (simp add: table_inv_def Table_new_def kb_inv_new) (simp add: KBucket_new_def bucket_keys_def pending_keys_def)

lemma lru_keys_add: "lru_keys (lru_add l n st) = insert (node_bytes n) (lru_keys l)"
  by (cases st) (auto simp: lru_keys_def lru_add_def)

lemma lru_keys_apply: "lru_keys (snd (lru_apply now l)) \<subseteq> lru_keys l"
  by (auto simp: lru_apply_def Let_def lru_keys_add split: option.splits list.splits)
     (auto simp: lru_keys_def)

lemma table_inv_upd:
  assumes "table_inv t" and "i < NUM_BUCKETS" and "kb_inv b"
    and "\<And>k. k \<in> set (bucket_keys b @ pending_keys b) \<Longrightarrow> BucketIndex_new (local_distance t k) = Some i"
  shows "table_inv (t\<lparr>buckets := (buckets t)[i := b]\<rparr>)"
  using assms by (auto simp: table_inv_def local_distance_def nth_list_update)

lemma table_inv_applied [simp]: "table_inv (t\<lparr>applied_pending := as\<rparr>) = table_inv t"
  by (simp add: table_inv_def local_distance_def)

lemma touch_ok:
  assumes inv: "table_inv t" and i: "i < NUM_BUCKETS"
  shows "\<exists>a b t'. touch now t i = Some (b, t') \<and> table_inv t' \<and> local_key t' = local_key t \<and>
           buckets t' = (buckets t)[i := b] \<and> kb_inv b \<and>
           (a, lru_of b) = lru_apply now (lru_of (buckets t ! i))"
proof -
  have kb: "kb_inv (buckets t ! i)" and len: "length (buckets t) = NUM_BUCKETS"
    and keys: "\<And>k. k \<in> lru_keys (lru_of (buckets t ! i)) \<Longrightarrow> BucketIndex_new (local_distance t k) = Some i"
    using inv i by (auto simp: table_inv_def lru_keys_of)
  from KBucket_apply_pending_spec [OF kb, of now] obtain a b where
    b: "KBucket_apply_pending now (buckets t ! i) = Some (a, b)" "kb_inv b"
      "(a, lru_of b) = lru_apply now (lru_of (buckets t ! i))" by blast
  have sub: "lru_keys (lru_of b) \<subseteq> lru_keys (lru_of (buckets t ! i))"
    using lru_keys_apply [of now "lru_of (buckets t ! i)"] b(3) by (metis snd_conv)
  have "table_inv (t\<lparr>buckets := (buckets t)[i := b]\<rparr>)"
    using inv i b(2) by (rule table_inv_upd) (use keys sub lru_keys_of in blast)
  then show ?thesis
    using b i len by (auto simp: touch_def panic_simps)
qed

section \<open>Draining the iterator\<close>

fun visit :: "(nat \<Rightarrow> instant) \<Rightarrow> (('p, 'v) KBucket \<Rightarrow> 'o list) \<Rightarrow> ('o \<Rightarrow> u256) \<Rightarrow> u256
    \<Rightarrow> nat \<Rightarrow> ('p, 'v) KBucketsTable \<Rightarrow> nat list \<Rightarrow> ('o list \<times> ('p, 'v) KBucketsTable) option" where
  "visit clock fmap as_ref target n t [] = Some ([], t)"
| "visit clock fmap as_ref target n t (i # is) = do {
     (b, t1) \<leftarrow> touch (clock n) t i;
     (os, t2) \<leftarrow> visit clock fmap as_ref target (Suc n) t1 is;
     Some (sort_key (\<lambda>o'. KeyBytes_distance target (as_ref o')) (fmap b) @ os, t2)
   }"

lemma collect_Cons:
  "ci_iter s = Some (k # ks) \<Longrightarrow>
   ClosestIter_collect clock fmap as_ref s =
     map_option (\<lambda>(ks, s''). (k # ks, s'')) (ClosestIter_collect clock fmap as_ref (s\<lparr>ci_iter := Some ks\<rparr>))"
  by (subst ClosestIter_collect.simps, subst ClosestIter_next.simps) simp

lemma collect_Nil:
  "ci_iter s = Some [] \<Longrightarrow>
   ClosestIter_collect clock fmap as_ref s = ClosestIter_collect clock fmap as_ref (s\<lparr>ci_iter := None\<rparr>)"
  by (subst (1 2) ClosestIter_collect.simps, subst ClosestIter_next.simps) simp

lemma collect_None:
  "ci_iter s = None \<Longrightarrow>
   ClosestIter_collect clock fmap as_ref s =
     (case ClosestBucketsIter_next (ci_buckets s) of
        (Some i, bi) \<Rightarrow>
          (case touch (clock (ci_visits s)) (ci_table s) i of
             None \<Rightarrow> None
           | Some (b, t) \<Rightarrow>
               ClosestIter_collect clock fmap as_ref
                 (s\<lparr>ci_buckets := bi, ci_table := t, ci_visits := Suc (ci_visits s),
                    ci_iter := Some (sort_key (\<lambda>o'. KeyBytes_distance (ci_target s) (as_ref o')) (fmap b))\<rparr>))
      | (None, bi) \<Rightarrow> Some ([], s\<lparr>ci_buckets := bi\<rparr>))"
  by (subst (1) ClosestIter_collect.simps, subst ClosestIter_next.simps)
     (auto split: prod.split option.split simp: ClosestIter_collect.simps)

lemma collect_items:
  "ci_iter s = Some ks \<Longrightarrow>
   ClosestIter_collect clock fmap as_ref s =
     map_option (\<lambda>(ks', s'). (ks @ ks', s')) (ClosestIter_collect clock fmap as_ref (s\<lparr>ci_iter := None\<rparr>))"
proof (induction ks arbitrary: s)
  case Nil
  then show ?case by (simp add: collect_Nil option.map_ident case_prod_beta)
next
  case (Cons k ks)
  have "ClosestIter_collect clock fmap as_ref (s\<lparr>ci_iter := Some ks\<rparr>) =
     map_option (\<lambda>(ks', s'). (ks @ ks', s')) (ClosestIter_collect clock fmap as_ref (s\<lparr>ci_iter := None\<rparr>))"
    using Cons.IH [of "s\<lparr>ci_iter := Some ks\<rparr>"] by simp
  then show ?case
    using Cons.prems by (simp add: collect_Cons option.map_comp comp_def case_prod_beta)
qed

lemma collect_visit:
  "ci_iter s = None \<Longrightarrow>
   map_option (\<lambda>(ks, s'). (ks, ci_table s')) (ClosestIter_collect clock fmap as_ref s) =
   visit clock fmap as_ref (ci_target s) (ci_visits s) (ci_table s) (buckets_order (ci_buckets s))"
proof (induction "cb_measure (cb_state (ci_buckets s))" arbitrary: s rule: less_induct)
  case less
  obtain r bi where nx: "ClosestBucketsIter_next (ci_buckets s) = (r, bi)" by fastforce
  show ?case
  proof (cases r)
    case None
    then show ?thesis
      using less.prems nx by (simp add: collect_None buckets_order.simps [of "ci_buckets s"])
  next
    case (Some i)
    show ?thesis
    proof (cases "touch (clock (ci_visits s)) (ci_table s) i")
      case None
      then show ?thesis
        using less.prems nx Some by (simp add: collect_None buckets_order.simps [of "ci_buckets s"])
    next
      case t: (Some bt)
      obtain b t where bt: "bt = (b, t)" by fastforce
      let ?s = "s\<lparr>ci_buckets := bi, ci_table := t, ci_visits := Suc (ci_visits s), ci_iter := None\<rparr>"
      let ?ks = "sort_key (\<lambda>o'. KeyBytes_distance (ci_target s) (as_ref o')) (fmap b)"
      have IH: "map_option (\<lambda>(ks, s'). (ks, ci_table s')) (ClosestIter_collect clock fmap as_ref ?s) =
            visit clock fmap as_ref (ci_target s) (Suc (ci_visits s)) t (buckets_order bi)"
        using less.hyps [of ?s] ClosestBucketsIter_next_measure [of "ci_buckets s" i bi] nx Some by simp
      have "ClosestIter_collect clock fmap as_ref s = ClosestIter_collect clock fmap as_ref (?s\<lparr>ci_iter := Some ?ks\<rparr>)"
        using less.prems nx Some t bt by (subst collect_None) simp_all
      also have "\<dots> = map_option (\<lambda>(ks', s'). (?ks @ ks', s')) (ClosestIter_collect clock fmap as_ref ?s)"
        using collect_items [of "?s\<lparr>ci_iter := Some ?ks\<rparr>" ?ks] by simp
      finally have "map_option (\<lambda>(ks, s'). (ks, ci_table s')) (ClosestIter_collect clock fmap as_ref s) =
        map_option (\<lambda>(ks, t'). (?ks @ ks, t'))
          (map_option (\<lambda>(ks, s'). (ks, ci_table s')) (ClosestIter_collect clock fmap as_ref ?s))"
        by (simp add: option.map_comp comp_def case_prod_beta)
      moreover have "buckets_order (ci_buckets s) = i # buckets_order bi"
        using nx Some by (simp add: buckets_order.simps [of "ci_buckets s"])
      ultimately show ?thesis
        using t bt by (simp only: IH)
          (cases "visit clock fmap as_ref (ci_target s) (Suc (ci_visits s)) t (buckets_order bi)", auto)
    qed
  qed
qed


text \<open>The contract of the projections that \<open>closest_keys\<close> and \<open>closest\<close> iterate with.\<close>

lemma distance_local: "local_distance t target XOR local_distance t k = KeyBytes_distance target k"
  by (auto simp: local_distance_def KeyBytes_distance_def bit_eq_iff bit_xor_iff)

lemma local_distance_cong: "local_key t' = local_key t \<Longrightarrow> local_distance t' = local_distance t"
  by (simp add: local_distance_def fun_eq_iff)

lemma bucket_0_not_full:
  assumes "table_inv t"
  shows "\<not> nodes_is_full (buckets t ! 0)"
proof -
  let ?b = "buckets t ! 0"
  have kb: "kb_inv ?b" and keys: "\<And>k. k \<in> set (bucket_keys ?b) \<Longrightarrow> BucketIndex_new (local_distance t k) = Some 0"
    using assms by (auto simp: table_inv_def NUM_BUCKETS_def)
  have "unat (local_distance t k) = 1" if "k \<in> set (bucket_keys ?b)" for k
    using keys [OF that] by (simp add: BucketIndex_new_iff_bounds)
  then have "k = k'" if "k \<in> set (bucket_keys ?b)" "k' \<in> set (bucket_keys ?b)" for k k'
    using that by (metis KeyBytes_distance_def local_distance_def word_unat_eq_iff xor_cancel)
  then have "card (set (bucket_keys ?b)) \<le> 1"
    by (metis One_nat_def card_le_Suc0_iff_eq finite_set)
  moreover have "distinct (bucket_keys ?b)" using kb by (simp add: kb_inv_def)
  ultimately have "length (bucket_keys ?b) \<le> 1" by (metis distinct_card)
  then show ?thesis by (simp add: bucket_keys_def nodes_is_full_def K_VALUE_def)
qed

lemma touch_bucket_0_grows:
  assumes "table_inv t" and "touch now t 0 = Some (b, t')"
  shows "set (bucket_keys (buckets t ! 0)) \<subseteq> set (bucket_keys b)"
proof -
  obtain a where "(a, lru_of b) = lru_apply now (lru_of (buckets t ! 0))"
    using touch_ok [OF assms(1), of 0 now] assms(2) by (auto simp: NUM_BUCKETS_def)
  then show ?thesis
    using bucket_0_not_full [OF assms(1)]
    by (cases "pending (buckets t ! 0)")
       (auto simp: bucket_keys_lru lru_apply_def lru_add_def Let_def simp del: lru_of_simps(3)
          split: NodeStatus.splits if_splits)
qed

locale bucket_projection =
  fixes fmap :: "('p, 'v) KBucket \<Rightarrow> 'o list" and as_ref :: "'o \<Rightarrow> u256"
  assumes items: "map as_ref (fmap b) = bucket_keys b"
begin

abbreviation dist :: "u256 \<Rightarrow> 'o \<Rightarrow> u256" where
  "dist target x \<equiv> KeyBytes_distance target (as_ref x)"

lemma items_keys: "as_ref ` set (fmap b) = set (bucket_keys b)"
  by (metis items list.set_map)

lemma visit_ok:
  assumes "table_inv t" and "\<And>i. i \<in> set is \<Longrightarrow> i < NUM_BUCKETS"
    and "sorted_wrt (bucket_before (local_distance t target)) is"
  shows "\<exists>os t'. visit clock fmap as_ref target n t is = Some (os, t') \<and> table_inv t' \<and>
           local_key t' = local_key t \<and> sorted (map (dist target) os) \<and>
           (\<forall>x \<in> set os. \<exists>i \<in> set is. BucketIndex_new (local_distance t (as_ref x)) = Some i) \<and>
           (\<forall>j. j \<notin> set is \<longrightarrow> buckets t' ! j = buckets t ! j)"
  using assms
proof (induction "is" arbitrary: t n)
  case (Cons i "is")
  from touch_ok [OF Cons.prems(1), of i "clock n"] Cons.prems(2) obtain b t1 where
    t1: "touch (clock n) t i = Some (b, t1)" "table_inv t1" "local_key t1 = local_key t"
      "buckets t1 = (buckets t)[i := b]" by auto
  note ld = local_distance_cong [OF t1(3)]
  from Cons.IH [OF t1(2), of "Suc n"] Cons.prems(2,3) obtain os t2 where
    t2: "visit clock fmap as_ref target (Suc n) t1 is = Some (os, t2)" "table_inv t2"
      "local_key t2 = local_key t1" "sorted (map (dist target) os)"
      "\<And>x. x \<in> set os \<Longrightarrow> \<exists>i \<in> set is. BucketIndex_new (local_distance t (as_ref x)) = Some i"
      "\<And>j. j \<notin> set is \<Longrightarrow> buckets t2 ! j = buckets t1 ! j"
    by (auto simp: ld)
  have "i < NUM_BUCKETS" using Cons.prems(2) by simp
  then have "buckets t1 ! i = b" using t1(4) Cons.prems(1) by (simp add: table_inv_def)
  then have mine: "BucketIndex_new (local_distance t (as_ref x)) = Some i" if "x \<in> set (fmap b)" for x
    using t1(2) \<open>i < NUM_BUCKETS\<close> that items_keys [of b] ld by (auto simp: table_inv_def)
  have "dist target x \<le> dist target y" if "x \<in> set (fmap b)" "y \<in> set os" for x y
  proof -
    from t2(5) [OF that(2)] obtain j where "j \<in> set is" "BucketIndex_new (local_distance t (as_ref y)) = Some j"
      by blast
    moreover from this(1) have "bucket_before (local_distance t target) i j" using Cons.prems(3) by simp
    ultimately show ?thesis
      using mine [OF that(1)] by (auto simp: bucket_before_def distance_local [symmetric, of target _ t])
  qed
  then have "sorted (map (dist target) (sort_key (dist target) (fmap b) @ os))"
    using t2(4) by (simp add: sorted_append)
  then show ?case
    using t1 t2 mine by (force simp: nth_list_update)
qed simp

lemma visit_bucket_0_grows:
  "table_inv t \<Longrightarrow> \<forall>i \<in> set is. i < NUM_BUCKETS \<Longrightarrow>
   visit clock fmap as_ref target n t is = Some (os, t') \<Longrightarrow>
   set (bucket_keys (buckets t ! 0)) \<subseteq> set (bucket_keys (buckets t' ! 0))"
proof (induction "is" arbitrary: t n os)
  case (Cons i "is")
  from touch_ok [OF Cons.prems(1), of i "clock n"] Cons.prems(2) obtain b t1 where
    t1: "touch (clock n) t i = Some (b, t1)" "table_inv t1" "buckets t1 = (buckets t)[i := b]" by auto
  from Cons.prems(3) t1(1) obtain os' where "visit clock fmap as_ref target (Suc n) t1 is = Some (os', t')"
    by (auto split: bind_splits)
  with Cons.IH [OF t1(2)] Cons.prems(2) have "set (bucket_keys (buckets t1 ! 0)) \<subseteq> set (bucket_keys (buckets t' ! 0))"
    by auto
  moreover have "set (bucket_keys (buckets t ! 0)) \<subseteq> set (bucket_keys (buckets t1 ! 0))"
    using t1 touch_bucket_0_grows [OF Cons.prems(1), of "clock n" b t1] Cons.prems(1)
    by (cases "i = 0") (auto simp: table_inv_def NUM_BUCKETS_def nth_list_update)
  ultimately show ?case by blast
qed simp

lemma visit_bucket_0_repeats:
  "table_inv t \<Longrightarrow> \<forall>i \<in> set is. i < NUM_BUCKETS \<Longrightarrow> k \<in> set (bucket_keys (buckets t ! 0)) \<Longrightarrow>
   visit clock fmap as_ref target n t is = Some (os, t') \<Longrightarrow>
   count_list is 0 \<le> count_list (map as_ref os) k"
proof (induction "is" arbitrary: t n os)
  case (Cons i "is")
  from touch_ok [OF Cons.prems(1), of i "clock n"] Cons.prems(2) obtain b t1 where
    t1: "touch (clock n) t i = Some (b, t1)" "table_inv t1" "buckets t1 = (buckets t)[i := b]" by auto
  from Cons.prems(4) t1(1) obtain os' where
    os': "visit clock fmap as_ref target (Suc n) t1 is = Some (os', t')" "os = sort_key (dist target) (fmap b) @ os'"
    by (auto split: bind_splits)
  have k: "k \<in> set (bucket_keys (buckets t1 ! 0))" "i = 0 \<Longrightarrow> k \<in> set (bucket_keys b)"
    using t1 touch_bucket_0_grows [OF Cons.prems(1), of "clock n" b t1] Cons.prems(1,3)
    by (cases "i = 0", auto simp: table_inv_def NUM_BUCKETS_def nth_list_update)
  have "count_list is 0 \<le> count_list (map as_ref os') k"
    using Cons.IH [OF t1(2) _ k(1) os'(1)] Cons.prems(2) by simp
  moreover have "i = 0 \<Longrightarrow> count_list (map as_ref (sort_key (dist target) (fmap b))) k \<noteq> 0"
    using k(2) items_keys [of b] by (auto simp: count_list_0_iff)
  ultimately show ?case
    using os'(2) by (cases "i = 0") (auto simp: count_list_append)
qed simp

lemma visit_keys:
  "table_inv t \<Longrightarrow> \<forall>i \<in> set is. i < NUM_BUCKETS \<Longrightarrow> \<forall>i. i \<noteq> 0 \<longrightarrow> count_list is i \<le> 1 \<Longrightarrow>
   sorted_wrt (bucket_before (local_distance t target)) is \<Longrightarrow>
   visit clock fmap as_ref target n t is = Some (os, t') \<Longrightarrow>
   as_ref ` set os = (\<Union>i \<in> set is. set (bucket_keys (buckets t' ! i)))"
proof (induction "is" arbitrary: t n os)
  case (Cons i "is")
  from touch_ok [OF Cons.prems(1), of i "clock n"] Cons.prems(2) obtain b t1 where
    t1: "touch (clock n) t i = Some (b, t1)" "table_inv t1" "buckets t1 = (buckets t)[i := b]"
      "local_key t1 = local_key t" by auto
  have srt: "sorted_wrt (bucket_before (local_distance t1 target)) is"
    using Cons.prems(4) local_distance_cong [OF t1(4)] by simp
  from Cons.prems(5) t1(1) obtain os' where
    v: "visit clock fmap as_ref target (Suc n) t1 is = Some (os', t')"
    and os: "os = sort_key (dist target) (fmap b) @ os'"
    by (auto split: bind_splits)
  have cnt: "count_list is j \<le> 1" if "j \<noteq> 0" for j
    using spec [OF Cons.prems(3), of j] that by (cases "i = j") auto
  have IH: "as_ref ` set os' = (\<Union>i \<in> set is. set (bucket_keys (buckets t' ! i)))"
    using Cons.prems(2) cnt by (intro Cons.IH [OF t1(2) _ _ srt v]) auto
  have bi: "buckets t1 ! i = b"
    using t1(3) Cons.prems(1,2) by (simp add: table_inv_def)
  have "set (bucket_keys b) \<subseteq> (\<Union>i \<in> set (i # is). set (bucket_keys (buckets t' ! i)))"
    "i \<notin> set is \<Longrightarrow> set (bucket_keys (buckets t' ! i)) = set (bucket_keys b)"
  proof -
    show keep: "i \<notin> set is \<Longrightarrow> set (bucket_keys (buckets t' ! i)) = set (bucket_keys b)"
      using visit_ok [OF t1(2) _ srt, of clock "Suc n"] v Cons.prems(2) bi by auto
    show "set (bucket_keys b) \<subseteq> (\<Union>i \<in> set (i # is). set (bucket_keys (buckets t' ! i)))"
    proof (cases "i \<in> set is")
      case True
      then have "\<not> count_list (i # is) i \<le> 1" by (simp add: count_list_0_iff)
      then have "i = 0" using Cons.prems(3) by metis
      then show ?thesis
        using visit_bucket_0_grows [OF t1(2) _ v] Cons.prems(2) bi by auto
    qed (use keep in auto)
  qed
  then show ?case using os IH items_keys [of b] by (auto simp: image_Un)
qed simp

lemma visit_distinct:
  "table_inv t \<Longrightarrow> \<forall>i \<in> set is. i < NUM_BUCKETS \<Longrightarrow> distinct is \<Longrightarrow>
   sorted_wrt (bucket_before (local_distance t target)) is \<Longrightarrow>
   visit clock fmap as_ref target n t is = Some (os, t') \<Longrightarrow> distinct (map as_ref os)"
proof (induction "is" arbitrary: t n os)
  case (Cons i "is")
  from touch_ok [OF Cons.prems(1), of i "clock n"] Cons.prems(2) obtain b t1 where
    t1: "touch (clock n) t i = Some (b, t1)" "table_inv t1" "buckets t1 = (buckets t)[i := b]"
      "local_key t1 = local_key t" "kb_inv b" by auto
  have srt: "sorted_wrt (bucket_before (local_distance t1 target)) is"
    using Cons.prems(4) local_distance_cong [OF t1(4)] by simp
  from Cons.prems(5) t1(1) obtain os' where
    v: "visit clock fmap as_ref target (Suc n) t1 is = Some (os', t')"
    and os: "os = sort_key (dist target) (fmap b) @ os'"
    by (auto split: bind_splits)
  have IH: "distinct (map as_ref os')"
    using Cons.prems(2,3) by (intro Cons.IH [OF t1(2) _ _ srt v]) auto
  have i: "i < NUM_BUCKETS" using Cons.prems(2) by simp
  then have bi: "buckets t1 ! i = b"
    using t1(3) Cons.prems(1) by (simp add: table_inv_def)
  have mine: "BucketIndex_new (local_distance t1 k) = Some i" if "k \<in> as_ref ` set (fmap b)" for k
    using t1(2) i bi that items_keys [of b] by (auto simp: table_inv_def)
  have "\<exists>j \<in> set is. BucketIndex_new (local_distance t1 k) = Some j" if "k \<in> as_ref ` set os'" for k
    using visit_ok [OF t1(2) _ srt, of clock "Suc n"] v Cons.prems(2) that by auto
  with mine Cons.prems(3) have "as_ref ` set (fmap b) \<inter> as_ref ` set os' = {}"
    by fastforce
  moreover have "distinct (map as_ref (fmap b))"
    using t1(5) by (simp add: items kb_inv_def)
  moreover have "mset (map as_ref (sort_key (dist target) (fmap b))) = mset (map as_ref (fmap b))"
    by simp
  ultimately show ?case
    using os IH by (simp add: mset_eq_imp_distinct_iff [of "map as_ref (sort_key (dist target) (fmap b))" "map as_ref (fmap b)"])
qed simp

end


text \<open>Draining an iterator over the whole table.\<close>

context bucket_projection
begin

lemma collect_ok:
  fixes t :: "('p, 'v) KBucketsTable"
  assumes inv: "table_inv t"
  shows "\<exists>ks s'. ClosestIter_collect clock fmap as_ref (ClosestIter_new t target) = Some (ks, s') \<and>
           table_inv (ci_table s') \<and> local_key (ci_table s') = local_key t \<and>
           sorted (map (dist target) ks) \<and>
           set (map as_ref ks) = table_keys (ci_table s') \<and>
           (local_distance t target \<noteq> 0 \<and> \<not> bit (local_distance t target) 0 \<longrightarrow> distinct (map as_ref ks))"
proof -
  let ?d = "local_distance t target"
  let ?is = "buckets_order (ClosestBucketsIter_new ?d)"
  let ?s = "ClosestIter_new t target :: ('p, 'v, 'o) ClosestIter"
  have fields: "ci_iter ?s = None" "ci_target ?s = target" "ci_visits ?s = 0" "ci_table ?s = t"
    "ci_buckets ?s = ClosestBucketsIter_new ?d"
    by (simp_all add: ClosestIter_new_def Key_distance_def local_distance_def)
  have all: "set ?is = {..<NUM_BUCKETS}"
    by (auto simp: order_new NUM_BUCKETS_def)
  have cnt: "\<forall>i. i \<noteq> 0 \<longrightarrow> count_list ?is i \<le> 1"
    by (auto simp: order_new count_list_append count_list_rev count_list_filter_upt)
  have dist: "distinct ?is" if "?d \<noteq> 0 \<and> \<not> bit ?d 0"
    using that by (auto simp: order_new)
  from visit_ok [OF inv _ order_sorted, where clock = clock and n = 0 and target = target] all obtain os t' where
    v: "visit clock fmap as_ref target 0 t ?is = Some (os, t')" and
    t': "table_inv t'" "local_key t' = local_key t" "sorted (map (dist target) os)" by auto
  have "map_option (\<lambda>(ks, s'). (ks, ci_table s')) (ClosestIter_collect clock fmap as_ref ?s) = Some (os, t')"
    using collect_visit [OF fields(1), of clock fmap as_ref] v by (simp add: fields)
  then obtain s' where s': "ClosestIter_collect clock fmap as_ref ?s = Some (os, s')" "ci_table s' = t'" by auto
  have "as_ref ` set os = (\<Union>i \<in> set ?is. set (bucket_keys (buckets t' ! i)))"
    using all by (intro visit_keys [OF inv _ cnt order_sorted v]) auto
  also have "\<dots> = table_keys t'"
  proof -
    have "set (buckets t') = (\<lambda>i. buckets t' ! i) ` {..<NUM_BUCKETS}"
      using t'(1) by (auto simp: table_inv_def set_conv_nth)
    then show ?thesis by (simp add: all table_keys_def)
  qed
  finally have "set (map as_ref os) = table_keys t'" by simp
  moreover have "distinct (map as_ref os)" if "?d \<noteq> 0 \<and> \<not> bit ?d 0"
    using visit_distinct [OF inv _ dist [OF that] order_sorted v] all by auto
  ultimately show ?thesis using s' t' by auto
qed

lemma collect_repeats:
  fixes t :: "('p, 'v) KBucketsTable"
  assumes inv: "table_inv t" and k: "k \<in> set (bucket_keys (buckets t ! 0))"
    and d: "local_distance t target = 0 \<or> bit (local_distance t target) 0"
    and c: "ClosestIter_collect clock fmap as_ref (ClosestIter_new t target) = Some (ks, s')"
  shows "2 \<le> count_list (map as_ref ks) k"
proof -
  let ?s = "ClosestIter_new t target :: ('p, 'v, 'o) ClosestIter"
  let ?is = "buckets_order (ClosestBucketsIter_new (local_distance t target))"
  have fields: "ci_iter ?s = None" "ci_target ?s = target" "ci_visits ?s = 0" "ci_table ?s = t"
    "ci_buckets ?s = ClosestBucketsIter_new (local_distance t target)"
    by (simp_all add: ClosestIter_new_def Key_distance_def local_distance_def)
  have "visit clock fmap as_ref target 0 t ?is = Some (ks, ci_table s')"
    using collect_visit [OF fields(1), of clock fmap as_ref] c by (simp add: fields)
  then have "count_list ?is 0 \<le> count_list (map as_ref ks) k"
    using visit_bucket_0_repeats [OF inv _ k, of ?is] order_bound by blast
  moreover have "count_list ?is 0 = 2"
    using d by (auto simp: order_new count_list_append count_list_rev count_list_filter_upt NUM_BUCKETS_def)
  ultimately show ?thesis by simp
qed

end

lemma map_fst_iter: "map fst (KBucket_iter b) = nodes b"
  by (rule nth_equalityI) (auto simp: KBucket_iter_def nth_enumerate_eq)

interpretation keys_proj: bucket_projection "\<lambda>b. map (\<lambda>(n, _). node_key n) (KBucket_iter b)" key_bytes
proof
  fix b :: "('a, 'b) KBucket"
  have "map key_bytes (map (\<lambda>(n, _). node_key n) (KBucket_iter b)) = map node_bytes (map fst (KBucket_iter b))"
    by (simp add: comp_def case_prod_beta)
  then show "map key_bytes (map (\<lambda>(n, _). node_key n) (KBucket_iter b)) = bucket_keys b"
    by (simp only: map_fst_iter bucket_keys_def)
qed

interpretation views_proj: bucket_projection
  "\<lambda>b. map (\<lambda>(n, status). \<lparr>ev_node = n, ev_status = status\<rparr>) (KBucket_iter b)" "\<lambda>v. node_bytes (ev_node v)"
proof
  fix b :: "('a, 'b) KBucket"
  have "map (\<lambda>v. node_bytes (ev_node v)) (map (\<lambda>(n, status). \<lparr>ev_node = n, ev_status = status\<rparr>) (KBucket_iter b))
      = map node_bytes (map fst (KBucket_iter b))"
    by (simp add: comp_def case_prod_beta)
  then show "map (\<lambda>v. node_bytes (ev_node v)) (map (\<lambda>(n, status). \<lparr>ev_node = n, ev_status = status\<rparr>) (KBucket_iter b))
      = bucket_keys b"
    by (simp only: map_fst_iter bucket_keys_def)
qed

text \<open>A small table for the witnesses: local key 0, one connected node in bucket 0, one in bucket 2.\<close>

definition sample_kbucket :: "u256 \<Rightarrow> (nat, unit) KBucket" where
  "sample_kbucket k = \<lparr>nodes = [\<lparr>node_key = \<lparr>key_preimage = 0, key_bytes = k\<rparr>, node_value = ()\<rparr>],
     first_connected_pos = Some 0, pending = None, pending_timeout = 60\<rparr>"

definition sample_table :: "(nat, unit) KBucketsTable" where
  "sample_table =
     (let t = Table_new \<lparr>key_preimage = 0, key_bytes = 0\<rparr> 60;
          t1 = t\<lparr>buckets := (buckets t)[0 := sample_kbucket 1]\<rparr>
      in t1\<lparr>buckets := (buckets t1)[2 := sample_kbucket 6]\<rparr>)"

lemma sample_kbucket_ok: "kb_inv (sample_kbucket k)" "bucket_keys (sample_kbucket k) = [k]"
  "pending_keys (sample_kbucket k) = []"
  by (simp_all add: sample_kbucket_def kb_inv_def bucket_keys_def pending_keys_def K_VALUE_def)

lemma sample_table_inv: "table_inv sample_table"
  unfolding sample_table_def Let_def
  by (intro table_inv_upd table_inv_new)
     (auto simp: NUM_BUCKETS_def sample_kbucket_ok Table_new_def
        local_distance_def KeyBytes_distance_def BucketIndex_new_iff_bounds)

lemma sample_table_keys: "1 \<in> set (bucket_keys (buckets sample_table ! 0))" "6 \<in> table_keys sample_table"
proof -
  show "1 \<in> set (bucket_keys (buckets sample_table ! 0))"
    by (simp add: sample_table_def Let_def Table_new_def NUM_BUCKETS_def sample_kbucket_ok)
  have "sample_kbucket 6 \<in> set (buckets sample_table)"
    by (simp add: sample_table_def Let_def Table_new_def NUM_BUCKETS_def set_update_memI)
  then show "6 \<in> table_keys sample_table"
    by (force simp: table_keys_def sample_kbucket_ok)
qed

lemma sample_table_distance: "local_distance sample_table k = k"
  by (simp add: sample_table_def local_distance_def KeyBytes_distance_def Table_new_def Let_def)

text \<open>
  C16. \<open>closest_keys\<close> is correct: on a well-formed table, for every target and whatever the clock
  reads during the iteration, draining the iterator never panics, leaves a well-formed table, yields
  the keys in order of non-decreasing distance to the target, and yields exactly the keys of the
  table (with the pending nodes applied on the way); if the distance of target and local key is
  non-zero and even, no key is repeated.
\<close>
theorem closest_keys_correct:
  assumes "table_inv t"
  shows "\<exists>ks s'. Table_closest_keys clock t target = Some (ks, s') \<and> table_inv (ci_table s') \<and>
           sorted (map (\<lambda>k. KeyBytes_distance target (key_bytes k)) ks) \<and>
           set (map key_bytes ks) = table_keys (ci_table s') \<and>
           (local_distance t target \<noteq> 0 \<and> \<not> bit (local_distance t target) 0 \<longrightarrow> distinct (map key_bytes ks))"
  using keys_proj.collect_ok [OF assms, of clock target] by (auto simp: Table_closest_keys_def)

theorem closest_keys_correct_witness:
  "\<exists>ks s'. Table_closest_keys (\<lambda>_. 0) sample_table 4 = Some (ks, s') \<and>
     sorted (map (\<lambda>k. KeyBytes_distance 4 (key_bytes k)) ks) \<and> distinct (map key_bytes ks)"
  using closest_keys_correct [OF sample_table_inv, of "\<lambda>_. 0" 4]
  by (auto simp: sample_table_distance bit_numeral_rec)

text \<open>
  C38. The repeated visit shows in the result of \<open>closest_keys\<close>: if bucket 0 has an entry and the
  target is the local key or at an odd distance from it, draining the iterator yields that entry at
  least twice.
\<close>
theorem closest_keys_repeats:
  assumes "table_inv t" and "k \<in> set (bucket_keys (buckets t ! 0))"
    and "local_distance t target = 0 \<or> bit (local_distance t target) 0"
  shows "\<exists>ks s'. Table_closest_keys clock t target = Some (ks, s') \<and> 2 \<le> count_list (map key_bytes ks) k"
  using keys_proj.collect_ok [OF assms(1), of clock target] keys_proj.collect_repeats [OF assms, of clock]
  by (auto simp: Table_closest_keys_def)

theorem closest_keys_repeats_witness:
  "\<exists>ks s'. Table_closest_keys (\<lambda>_. 0) sample_table 7 = Some (ks, s') \<and> 2 \<le> count_list (map key_bytes ks) 1"
  using closest_keys_repeats [OF sample_table_inv sample_table_keys(1), of 7]
  by (auto simp: sample_table_distance bit_numeral_rec)

section \<open>Sequences of table operations\<close>

datatype ('p, 'v) table_op =
    TInsert instant "'p key" 'v NodeStatus
  | TUpdate instant "'p key" NodeStatus
  | TRemove instant "'p key"
  | TValue instant "'p key" "'v \<Rightarrow> 'v"
  | TTakeApplied

text \<open>
  What \<open>table.entry(key)\<close> followed by a match on the entry can do: insert an absent node, update or
  remove a present or pending node or change its value, or consume an applied pending node.
\<close>

fun table_step :: "('p, 'v) KBucketsTable \<Rightarrow> ('p, 'v) table_op \<Rightarrow> ('p, 'v) KBucketsTable option" where
  "table_step t (TInsert now k v st) = do {
     (e, t1) \<leftarrow> Table_entry now t k;
     case e of AbsentEntry \<Rightarrow> map_option snd (AbsentEntry_insert now t1 k v st)
     | _ \<Rightarrow> Some t1 }"
| "table_step t (TUpdate now k st) = do {
     (e, t1) \<leftarrow> Table_entry now t k;
     case e of PresentEntry _ \<Rightarrow> map_option snd (PresentEntry_update now t1 k st)
     | PendingEntry _ \<Rightarrow> map_option snd (PendingEntry_update t1 k st)
     | _ \<Rightarrow> Some t1 }"
| "table_step t (TRemove now k) = do {
     (e, t1) \<leftarrow> Table_entry now t k;
     case e of PresentEntry _ \<Rightarrow> map_option snd (PresentEntry_remove t1 k)
     | PendingEntry _ \<Rightarrow> map_option snd (PendingEntry_remove t1 k)
     | _ \<Rightarrow> Some t1 }"
| "table_step t (TValue now k f) = do {
     (e, t1) \<leftarrow> Table_entry now t k;
     case e of PresentEntry _ \<Rightarrow> map_option snd (PresentEntry_value t1 k f)
     | PendingEntry _ \<Rightarrow> map_option snd (PendingEntry_value t1 k f)
     | _ \<Rightarrow> Some t1 }"
| "table_step t TTakeApplied = Some (snd (take_applied_pending t))"

lemma lru_keys_delete: "lru_keys (lru_delete l k) \<subseteq> lru_keys l"
  by (auto simp: lru_keys_def lru_delete_def split: option.splits)

lemma lru_keys_waiting: "lru_keys (l\<lparr>waiting := None\<rparr>) \<subseteq> lru_keys l"
  by (auto simp: lru_keys_def)

lemma lru_keys_step:
  "lru_keys (lru_step l x) \<subseteq> lru_keys l \<union> (case x of OpInsert _ n _ \<Rightarrow> {node_bytes n} | _ \<Rightarrow> {})"
proof (cases x)
  case (OpInsert now n st)
  then show ?thesis
    by (auto simp: lru_insert_def lru_keys_add split: if_splits option.splits) (auto simp: lru_keys_def)
next
  case (OpUpdate now k st)
  show ?thesis
  proof (cases "lru_find l (key_bytes k)")
    case (Some e)
    then obtain n s where n: "lru_find l (key_bytes k) = Some (n, s)" by (cases e) auto
    then have "node_bytes n \<in> lru_keys l"
      using lru_find_mem [OF n] by (force simp: lru_keys_def split: NodeStatus.splits)
    then show ?thesis
      using OpUpdate n lru_keys_delete [of l "key_bytes k"]
        lru_keys_waiting [of "lru_add (lru_delete l (key_bytes k)) n st"]
      by (auto simp: lru_update_def Let_def lru_keys_add split: if_splits)
  qed (use OpUpdate in \<open>simp add: lru_update_def\<close>)
next
  case (OpRemove k)
  then show ?thesis using lru_keys_delete by auto
next
  case (OpApply now)
  then show ?thesis using lru_keys_apply by auto
qed (auto simp: lru_keys_def split: option.splits)

lemma through_entry_inv:
  assumes inv: "table_inv t" and i: "entry_bucket t k = Some i"
    and f: "f (buckets t ! i) = Some (r, b')" and kb': "kb_inv b'"
    and sub: "lru_keys (lru_of b') \<subseteq> insert (key_bytes k) (lru_keys (lru_of (buckets t ! i)))"
  shows "through_entry t k f = Some (r, t\<lparr>buckets := (buckets t)[i := b']\<rparr>) \<and>
         table_inv (t\<lparr>buckets := (buckets t)[i := b']\<rparr>)"
proof -
  have idx: "BucketIndex_new (local_distance t (key_bytes k)) = Some i"
    using i by (simp add: entry_bucket_def Key_distance_def local_distance_def)
  then have lt: "i < NUM_BUCKETS" by (rule BucketIndex_new_bound)
  have len: "length (buckets t) = NUM_BUCKETS"
    and keys: "\<And>k. k \<in> lru_keys (lru_of (buckets t ! i)) \<Longrightarrow> BucketIndex_new (local_distance t k) = Some i"
    using inv lt by (auto simp: table_inv_def lru_keys_of)
  have "table_inv (t\<lparr>buckets := (buckets t)[i := b']\<rparr>)"
    using keys idx sub by (intro table_inv_upd [OF inv lt kb']) (auto simp: lru_keys_of)
  then show ?thesis using i lt len f by (simp add: through_entry_def panic_simps)
qed

lemma through_entry_step:
  assumes inv: "table_inv t" and i: "entry_bucket t k = Some i"
    and f: "\<And>b'. bucket_step (buckets t ! i) x = Some b' \<Longrightarrow> \<exists>r. f (buckets t ! i) = Some (r, b')"
    and x: "(case x of OpInsert _ n _ \<Rightarrow> {node_bytes n} | _ \<Rightarrow> {}) \<subseteq> {key_bytes k}"
  shows "\<exists>t'. map_option snd (through_entry t k f) = Some t' \<and> table_inv t' \<and> local_key t' = local_key t"
proof -
  have "i < NUM_BUCKETS" using i unfolding entry_bucket_def by (rule BucketIndex_new_bound)
  then have kb: "kb_inv (buckets t ! i)" using inv by (simp add: table_inv_def)
  from bucket_step_ok [OF kb, of x] obtain b' where
    b': "bucket_step (buckets t ! i) x = Some b'" "kb_inv b'" "lru_of b' = lru_step (lru_of (buckets t ! i)) x"
    by blast
  then have "lru_keys (lru_of b') \<subseteq> insert (key_bytes k) (lru_keys (lru_of (buckets t ! i)))"
    using lru_keys_step [of "lru_of (buckets t ! i)" x] x by auto
  with f [OF b'(1)] b'(2) show ?thesis
    using through_entry_inv [OF inv i] by fastforce
qed

lemma Table_entry_ok:
  assumes inv: "table_inv t"
  shows "\<exists>e t'. Table_entry now t k = Some (e, t') \<and> table_inv t' \<and> local_key t' = local_key t \<and>
           entry_bucket t' k = entry_bucket t k \<and>
           (case entry_bucket t k of
              None \<Rightarrow> e = SelfEntry \<and> t' = t
            | Some i \<Rightarrow> i < NUM_BUCKETS \<and> e = Entry_new (buckets t' ! i) k \<and>
                        (\<exists>b. touch now t i = Some (b, t') \<and> buckets t' ! i = b))"
proof (cases "entry_bucket t k")
  case None
  then show ?thesis using inv by (simp add: Table_entry_def entry_bucket_def)
next
  case (Some i)
  then have i: "i < NUM_BUCKETS" unfolding entry_bucket_def by (rule BucketIndex_new_bound)
  from touch_ok [OF inv i, of now] obtain b t' where
    t': "touch now t i = Some (b, t')" "table_inv t'" "local_key t' = local_key t"
      "buckets t' = (buckets t)[i := b]" by blast
  then show ?thesis
    using Some i inv by (auto simp: Table_entry_def entry_bucket_def table_inv_def)
qed


lemma Entry_new_cases:
  "Entry_new b k = PresentEntry s \<Longrightarrow> KBucket_position b k \<noteq> None"
  "Entry_new b k = PendingEntry s \<Longrightarrow> pending b \<noteq> None"
  "Entry_new b k = AbsentEntry \<Longrightarrow> KBucket_position b k = None \<and> KBucket_as_pending b k = None"
  "Entry_new b k \<noteq> SelfEntry"
  by (auto simp: Entry_new_def KBucket_as_pending_def split: option.splits if_splits)

lemma KBucket_remove_present:
  assumes "kb_inv b" and "KBucket_position b k \<noteq> None" and "bucket_step b (OpRemove k) = Some b'"
  shows "\<exists>n st pos. KBucket_remove b k = Some (Some (n, st, pos), b')"
  using KBucket_remove_spec [OF assms(1), of k] assms(2,3) by (auto simp: position_none_iff)

lemma KBucket_get_mut_ok:
  assumes "kb_inv b" and "KBucket_position b k \<noteq> None"
  shows "\<exists>b'. KBucket_get_mut b k f = Some b' \<and> kb_inv b' \<and> bucket_keys b' = bucket_keys b \<and> pending_keys b' = pending_keys b"
proof -
  obtain i where i: "KBucket_position b k = Some i" using assms(2) by auto
  let ?n = "(nodes b ! i)\<lparr>node_value := f (node_value (nodes b ! i))\<rparr>"
  have "map node_bytes ((nodes b)[i := ?n]) = map node_bytes (nodes b)"
    by (simp add: map_update) (metis list_update_id map_update)
  then have "bucket_keys (b\<lparr>nodes := (nodes b)[i := ?n]\<rparr>) = bucket_keys b"
    by (simp add: bucket_keys_def)
  then show ?thesis
    using assms i by (simp add: KBucket_get_mut_def kb_inv_def cong: option.case_cong)
qed

text \<open>Each operation through an entry succeeds and keeps the table well-formed.\<close>

definition stays_ok :: "('p, 'v) KBucketsTable \<Rightarrow> ('r \<times> ('p, 'v) KBucketsTable) option \<Rightarrow> bool" where
  "stays_ok t r \<longleftrightarrow> (\<exists>t'. map_option snd r = Some t' \<and> table_inv t' \<and> local_key t' = local_key t)"

lemma through_entry_stays:
  assumes "table_inv t" and "entry_bucket t k = Some i"
    and "f (buckets t ! i) = Some (r, b')" and "kb_inv b'"
    and "lru_keys (lru_of b') \<subseteq> insert (key_bytes k) (lru_keys (lru_of (buckets t ! i)))"
  shows "stays_ok t (through_entry t k f)"
  using through_entry_inv [where f = f, OF assms] by (simp add: stays_ok_def)

lemmas through_entry_step_stays = through_entry_step [folded stays_ok_def]

lemma entry_ops_stay:
  assumes inv: "table_inv t" and i: "entry_bucket t k = Some i"
  shows "Entry_new (buckets t ! i) k = AbsentEntry \<Longrightarrow> stays_ok t (AbsentEntry_insert now t k v st)"
    and "stays_ok t (PresentEntry_update now t k st)"
    and "stays_ok t (PendingEntry_update t k st)"
    and "Entry_new (buckets t ! i) k = PresentEntry s \<Longrightarrow> stays_ok t (PresentEntry_remove t k)"
    and "Entry_new (buckets t ! i) k = PendingEntry s \<Longrightarrow> stays_ok t (PendingEntry_remove t k)"
proof -
  have kb: "kb_inv (buckets t ! i)"
    using inv i by (auto simp: table_inv_def entry_bucket_def dest: BucketIndex_new_bound)
  show "stays_ok t (AbsentEntry_insert now t k v st)" if "Entry_new (buckets t ! i) k = AbsentEntry"
    unfolding AbsentEntry_insert_def
    by (rule through_entry_step_stays [OF inv i, of "OpInsert now \<lparr>node_key = k, node_value = v\<rparr> st"])
       (use Entry_new_cases(3) [OF that] in auto)
  show "stays_ok t (PresentEntry_update now t k st)"
    unfolding PresentEntry_update_def
    by (rule through_entry_step_stays [OF inv i, of "OpUpdate now k st"]) auto
  show "stays_ok t (PendingEntry_update t k st)"
    unfolding PendingEntry_update_def
    by (rule through_entry_step_stays [OF inv i, of "OpUpdatePending st"]) auto
  show "stays_ok t (PresentEntry_remove t k)" if "Entry_new (buckets t ! i) k = PresentEntry s"
    unfolding PresentEntry_remove_def
    by (rule through_entry_step_stays [OF inv i, of "OpRemove k"])
       (use KBucket_remove_present [OF kb Entry_new_cases(1) [OF that]] in fastforce)+
  show "stays_ok t (PendingEntry_remove t k)" if "Entry_new (buckets t ! i) k = PendingEntry s"
    unfolding PendingEntry_remove_def
    by (rule through_entry_step_stays [OF inv i, of OpRemovePending])
       (use Entry_new_cases(2) [OF that] in \<open>auto simp: KBucket_remove_pending_def\<close>)
qed

lemma entry_values_stay:
  assumes inv: "table_inv t" and i: "entry_bucket t k = Some i"
  shows "Entry_new (buckets t ! i) k = PresentEntry s \<Longrightarrow> stays_ok t (PresentEntry_value t k f)"
    and "Entry_new (buckets t ! i) k = PendingEntry s \<Longrightarrow> stays_ok t (PendingEntry_value t k f)"
proof -
  let ?b = "buckets t ! i"
  have kb: "kb_inv ?b"
    using inv i by (auto simp: table_inv_def entry_bucket_def dest: BucketIndex_new_bound)
  {
    assume "Entry_new ?b k = PresentEntry s"
    from KBucket_get_mut_ok [OF kb Entry_new_cases(1) [OF this], of f] obtain b' where
      "KBucket_get_mut ?b k f = Some b'" "kb_inv b'" "lru_keys (lru_of b') = lru_keys (lru_of ?b)"
      by (auto simp: lru_keys_of)
    then show "stays_ok t (PresentEntry_value t k f)"
      unfolding PresentEntry_value_def
      by (intro through_entry_stays [OF inv i, of _ "()" b']) auto
  }
  assume "Entry_new ?b k = PendingEntry s"
  then obtain p where p: "pending ?b = Some p" using Entry_new_cases(2) by blast
  let ?b' = "?b\<lparr>pending := Some (p\<lparr>pn_node := (pn_node p)\<lparr>node_value := f (node_value (pn_node p))\<rparr>\<rparr>)\<rparr>"
  have "kb_inv ?b'" using kb p by (auto simp: kb_inv_def pending_keys_def cong: option.case_cong)
  moreover have "lru_keys (lru_of ?b') = lru_keys (lru_of ?b)"
    using p by (simp add: lru_keys_of pending_keys_def del: lru_of_pending)
  ultimately show "stays_ok t (PendingEntry_value t k f)"
    unfolding PendingEntry_value_def
    by (intro through_entry_stays [OF inv i, of _ "()" ?b']) (use p in auto)
qed

lemma table_step_entry:
  assumes inv: "table_inv t"
  obtains e t1 where "Table_entry now t k = Some (e, t1)" "table_inv t1" "local_key t1 = local_key t"
    and "e = AbsentEntry \<Longrightarrow> stays_ok t1 (AbsentEntry_insert now t1 k v st)"
    and "\<And>s. e = PresentEntry s \<Longrightarrow> stays_ok t1 (PresentEntry_update now t1 k st) \<and>
              stays_ok t1 (PresentEntry_remove t1 k) \<and> stays_ok t1 (PresentEntry_value t1 k f)"
    and "\<And>s. e = PendingEntry s \<Longrightarrow> stays_ok t1 (PendingEntry_update t1 k st) \<and>
              stays_ok t1 (PendingEntry_remove t1 k) \<and> stays_ok t1 (PendingEntry_value t1 k f)"
proof -
  from Table_entry_ok [OF inv, of now k] obtain e t1 where
    e: "Table_entry now t k = Some (e, t1)" "table_inv t1" "local_key t1 = local_key t"
      "entry_bucket t1 k = entry_bucket t k"
    and cs: "case entry_bucket t k of None \<Rightarrow> e = SelfEntry \<and> t1 = t
       | Some i \<Rightarrow> i < NUM_BUCKETS \<and> e = Entry_new (buckets t1 ! i) k \<and>
                   (\<exists>b. touch now t i = Some (b, t1) \<and> buckets t1 ! i = b)" by blast
  show ?thesis
  proof (cases "entry_bucket t k")
    case None
    with cs have "e = SelfEntry" by simp
    with e show ?thesis by (intro that [of e t1]) auto
  next
    case (Some i)
    with cs e(4) have i: "entry_bucket t1 k = Some i" "e = Entry_new (buckets t1 ! i) k" by auto
    show ?thesis
      using e(1-3) entry_ops_stay [OF e(2) i(1)] entry_values_stay [OF e(2) i(1)] i(2)
      by (intro that [of e t1]) metis+
  qed
qed

lemma table_step_ok:
  fixes t :: "('p, 'v) KBucketsTable"
  assumes inv: "table_inv t"
  shows "\<exists>t'. table_step t x = Some t' \<and> table_inv t' \<and> local_key t' = local_key t"
proof (cases x)
  case (TInsert now k v st)
  obtain e t1 where e: "Table_entry now t k = Some (e, t1)" "table_inv t1" "local_key t1 = local_key t"
    "e = AbsentEntry \<Longrightarrow> stays_ok t1 (AbsentEntry_insert now t1 k v st)"
    by (rule table_step_entry [OF inv, of now k v st id]) blast
  then show ?thesis using TInsert by (cases e) (auto simp: stays_ok_def)
next
  case (TUpdate now k st)
  obtain e t1 where e: "Table_entry now t k = Some (e, t1)" "table_inv t1" "local_key t1 = local_key t"
    "\<And>s. e = PresentEntry s \<Longrightarrow> stays_ok t1 (PresentEntry_update now t1 k st)"
    "\<And>s. e = PendingEntry s \<Longrightarrow> stays_ok t1 (PendingEntry_update t1 k st)"
    by (rule table_step_entry [OF inv, of now k undefined st id]) blast
  then show ?thesis using TUpdate by (cases e) (auto simp: stays_ok_def)
next
  case (TRemove now k)
  obtain e t1 where e: "Table_entry now t k = Some (e, t1)" "table_inv t1" "local_key t1 = local_key t"
    "\<And>s. e = PresentEntry s \<Longrightarrow> stays_ok t1 (PresentEntry_remove t1 k)"
    "\<And>s. e = PendingEntry s \<Longrightarrow> stays_ok t1 (PendingEntry_remove t1 k)"
    by (rule table_step_entry [OF inv, of now k undefined Connected id]) blast
  then show ?thesis using TRemove by (cases e) (auto simp: stays_ok_def)
next
  case (TValue now k f)
  obtain e t1 where e: "Table_entry now t k = Some (e, t1)" "table_inv t1" "local_key t1 = local_key t"
    "\<And>s. e = PresentEntry s \<Longrightarrow> stays_ok t1 (PresentEntry_value t1 k f)"
    "\<And>s. e = PendingEntry s \<Longrightarrow> stays_ok t1 (PendingEntry_value t1 k f)"
    by (rule table_step_entry [OF inv, of now k undefined Connected f]) blast
  then show ?thesis using TValue by (cases e) (auto simp: stays_ok_def)
next
  case TTakeApplied
  then show ?thesis using inv by (auto simp: take_applied_pending_def split: list.splits)
qed

lemma table_run_ok:
  "table_inv t \<Longrightarrow> \<exists>t'. run_ops table_step t xs = Some t' \<and> table_inv t' \<and> local_key t' = local_key t"
proof (induction xs arbitrary: t)
  case (Cons x xs)
  from table_step_ok [OF Cons.prems, of x] obtain t1 where
    "table_step t x = Some t1" "table_inv t1" "local_key t1 = local_key t" by blast
  with Cons.IH [of t1] show ?case by auto
qed simp


section \<open>Properties of the table\<close>

lemma distinct_concat_nth:
  assumes "\<And>i. i < length xs \<Longrightarrow> distinct (xs ! i)"
    and "\<And>i j. i < j \<Longrightarrow> j < length xs \<Longrightarrow> set (xs ! i) \<inter> set (xs ! j) = {}"
  shows "distinct (concat xs)"
  using assms
proof (induction xs)
  case (Cons x xs)
  have "distinct (concat xs)"
  proof (rule Cons.IH)
    show "distinct (xs ! i)" if "i < length xs" for i
      using Cons.prems(1) [of "Suc i"] that by simp
    show "set (xs ! i) \<inter> set (xs ! j) = {}" if "i < j" "j < length xs" for i j
      using Cons.prems(2) [of "Suc i" "Suc j"] that by simp
  qed
  moreover have "set x \<inter> set ys = {}" if "ys \<in> set xs" for ys
  proof -
    from that obtain j where "j < length xs" "ys = xs ! j" by (auto simp: in_set_conv_nth)
    then show ?thesis using Cons.prems(2) [of 0 "Suc j"] by simp
  qed
  ultimately show ?case using Cons.prems(1) [of 0] by auto
qed simp

lemma table_keys_unique:
  assumes "table_inv t"
  shows "distinct (concat (map bucket_keys (buckets t)))" and "key_bytes (local_key t) \<notin> table_keys t"
proof -
  have len: "length (buckets t) = NUM_BUCKETS" using assms by (simp add: table_inv_def)
  have kb: "distinct (bucket_keys (buckets t ! i))" if "i < NUM_BUCKETS" for i
    using assms that by (auto simp: table_inv_def kb_inv_def)
  have idx: "BucketIndex_new (local_distance t k) = Some i"
    if "i < NUM_BUCKETS" "k \<in> set (bucket_keys (buckets t ! i))" for i k
    using assms that by (auto simp: table_inv_def)
  show "distinct (concat (map bucket_keys (buckets t)))"
  proof (rule distinct_concat_nth)
    fix i j assume "i < j" "j < length (map bucket_keys (buckets t))"
    then show "set (map bucket_keys (buckets t) ! i) \<inter> set (map bucket_keys (buckets t) ! j) = {}"
      using idx [of i] idx [of j] len by fastforce
  qed (use kb len in simp)
  have "BucketIndex_new (local_distance t (key_bytes (local_key t))) = None"
    by (simp add: BucketIndex_new_None local_distance_def KeyBytes_distance_def)
  then show "key_bytes (local_key t) \<notin> table_keys t"
    using idx len by (fastforce simp: table_keys_def in_set_conv_nth)
qed

text \<open>
  C24. Every table built from \<open>KBucketsTable::new\<close> by any sequence of operations through the
  \<open>Entry\<close> API is well-formed, and no operation on it panics: it has \<open>NUM_BUCKETS\<close> buckets, each a
  valid bucket whose keys (pending one included) have exactly that bucket's index by their distance
  to the local key; no key occurs twice in the whole table; the local key does not occur.
\<close>
theorem table_run_well_formed:
  "\<exists>t'. run_ops table_step (Table_new lk pt) xs = Some t' \<and> table_inv t' \<and> local_key t' = lk \<and>
        distinct (concat (map bucket_keys (buckets t'))) \<and> key_bytes lk \<notin> table_keys t'"
proof -
  have "local_key (Table_new lk pt) = lk" by (simp add: Table_new_def)
  with table_run_ok [OF table_inv_new, of lk pt xs] show ?thesis
    using table_keys_unique by fastforce
qed


lemma Entry_new_lru:
  assumes "kb_inv b"
  shows "Entry_new b k =
     (case lru_find (lru_of b) (key_bytes k) of
        Some (n, s) \<Rightarrow> PresentEntry s
      | None \<Rightarrow> (case pending b of
          Some p \<Rightarrow> if node_bytes (pn_node p) = key_bytes k then PendingEntry (pn_status p) else AbsentEntry
        | None \<Rightarrow> AbsentEntry))"
proof -
  let ?P = "\<lambda>n. node_bytes n = key_bytes k"
  obtain D C where r: "repr b D C" using kb_inv_repr [OF assms] by blast
  have pos: "KBucket_position b k = position_of ?P (D @ C)"
    using r by (simp add: KBucket_position_def repr_def)
  show ?thesis
  proof (cases "position_of ?P D")
    case (Some i)
    then have "i < length D" by (rule position_of_bound)
    then have "KBucket_status b i = Disconnected" using r by (auto simp: KBucket_status_def repr_def)
    then show ?thesis
      using pos Some by (simp add: Entry_new_def position_of_append lru_find_def repr_lru [OF r] find_position)
  next
    case D: None
    show ?thesis
    proof (cases "position_of ?P C")
      case (Some i)
      then have "C \<noteq> []" by auto
      then have "KBucket_status b (length D + i) = Connected" using r by (simp add: KBucket_status_def repr_def)
      then show ?thesis
        using pos D Some by (simp add: Entry_new_def position_of_append lru_find_def repr_lru [OF r] find_position)
    next
      case None
      then show ?thesis
        using pos D
        by (auto simp: Entry_new_def position_of_append lru_find_def repr_lru [OF r] find_position
            KBucket_as_pending_def split: option.splits)
    qed
  qed
qed

definition not_due :: "instant \<Rightarrow> ('p, 'v) KBucket \<Rightarrow> bool" where
  "not_due now b \<longleftrightarrow> (case pending b of None \<Rightarrow> True | Some p \<Rightarrow> now < pn_replace p)"

lemma touch_not_due:
  assumes "i < length (buckets t)" and "not_due now (buckets t ! i)"
  shows "touch now t i = Some (buckets t ! i, t)"
proof -
  have "KBucket_apply_pending now (buckets t ! i) = Some (None, buckets t ! i)"
    using assms(2)
    by (cases "buckets t ! i"; cases "pending (buckets t ! i)")
       (auto simp: not_due_def KBucket_apply_pending_def)
  then show ?thesis using assms(1) by (simp add: touch_def panic_simps)
qed

lemma lru_apply_not_due:
  "(a, l') = lru_apply now l \<Longrightarrow> (case waiting l' of None \<Rightarrow> True | Some p \<Rightarrow> now < pn_replace p)"
  by (auto simp: lru_apply_def lru_add_def Let_def split: option.splits if_splits list.splits NodeStatus.splits)

lemma find_append_case: "find P (xs @ ys) = (case find P xs of None \<Rightarrow> find P ys | Some x \<Rightarrow> Some x)"
  by (induction xs) auto

lemma lru_find_add:
  "lru_find l (node_bytes n) = None \<Longrightarrow> lru_find (lru_add l n st) (node_bytes n) = Some (n, st)"
proof -
  assume "lru_find l (node_bytes n) = None"
  then have "find (\<lambda>m. node_bytes m = node_bytes n) (disconnected l) = None"
    "find (\<lambda>m. node_bytes m = node_bytes n) (connected l) = None"
    by (auto simp: lru_find_def split: option.splits)
  then show ?thesis
    by (cases st) (auto simp: lru_find_def lru_add_def find_append_case)
qed

lemma KBucket_get_lru:
  assumes "kb_inv b"
  shows "KBucket_get b k = map_option fst (lru_find (lru_of b) (key_bytes k))"
proof -
  obtain D C where r: "repr b D C" using kb_inv_repr [OF assms] by blast
  then show ?thesis
    by (auto simp: KBucket_get_def KBucket_position_def lru_find_def find_position position_of_append
        repr_lru repr_def nth_append option.map_comp comp_def dest: position_of_bound split: option.splits)
qed

lemma absent_fresh:
  "Entry_new b k = AbsentEntry \<Longrightarrow>
   key_bytes k \<notin> set (bucket_keys b @ pending_keys b) \<and> lru_find (lru_of b) (key_bytes k) = None"
  using Entry_new_cases(3) [of b k]
  by (auto simp: KBucket_position_def position_of_None bucket_keys_def KBucket_as_pending_def
      pending_keys_def simp flip: position_none_iff split: option.splits if_splits)

lemma bucket_insert_entry:
  assumes kb: "kb_inv b" and abs: "Entry_new b k = AbsentEntry"
    and ins: "KBucket_insert now b \<lparr>node_key = k, node_value = v\<rparr> st = Some (r, b')"
  shows "Entry_new b' k = (case r of Inserted \<Rightarrow> PresentEntry st | InsertPending _ \<Rightarrow> PendingEntry Connected
                                   | InsertFull \<Rightarrow> AbsentEntry)"
    and "r = Inserted \<Longrightarrow> KBucket_get b' k = Some \<lparr>node_key = k, node_value = v\<rparr>"
    and "r = InsertFull \<Longrightarrow> b' = b"
    and "not_due now b \<Longrightarrow> 0 < pending_timeout b \<Longrightarrow> not_due now b'"
proof -
  let ?n = "\<lparr>node_key = k, node_value = v\<rparr>"
  have nofind: "lru_find (lru_of b) (key_bytes k) = None" using absent_fresh [OF abs] by blast
  have b': "kb_inv b'" "(r, lru_of b') = lru_insert now (lru_of b) ?n st"
    using KBucket_insert_spec [OF kb, of ?n now st] absent_fresh [OF abs] ins by auto
  have wait: "pending b' = waiting (snd (lru_insert now (lru_of b) ?n st))"
    by (metis b'(2) lru_of_simps(1) snd_conv)
  show full: "b' = b" if "r = InsertFull"
    using ins that by (auto simp: KBucket_insert_def split: NodeStatus.splits if_splits option.splits bind_splits)
  show "not_due now b'" if "not_due now b" "0 < pending_timeout b"
    using that by (auto simp: not_due_def wait lru_insert_def lru_add_def split: NodeStatus.splits)
  have found: "lru_find (lru_of b') (key_bytes k) = Some (?n, st)" if "r = Inserted"
    using b'(2) that lru_find_add [of "lru_of b" ?n st] nofind by (auto simp: lru_insert_def split: if_splits)
  then show "KBucket_get b' k = Some ?n" if "r = Inserted"
    using that by (simp add: KBucket_get_lru [OF b'(1)])
  show "Entry_new b' k = (case r of Inserted \<Rightarrow> PresentEntry st | InsertPending _ \<Rightarrow> PendingEntry Connected
                                   | InsertFull \<Rightarrow> AbsentEntry)"
  proof (cases r)
    case (InsertPending d)
    then have "pending b' = Some \<lparr>pn_node = ?n, pn_status = Connected, pn_replace = now + pending_timeout b\<rparr>"
      "lru_find (lru_of b') (key_bytes k) = lru_find (lru_of b) (key_bytes k)"
      using b'(2) wait by (auto simp: lru_insert_def lru_find_def cong: option.case_cong split: if_splits)
    with nofind InsertPending show ?thesis by (simp add: Entry_new_lru [OF b'(1)])
  qed (use found full abs Entry_new_lru [OF b'(1), of k] in auto)
qed

text \<open>
  Looking an entry up right after inserting it: if \<open>entry(k)\<close> was absent and \<open>insert\<close>
  reported \<open>Inserted\<close>, \<open>entry(k)\<close> is present with the given status and holds the given value; if it
  reported \<open>Pending\<close> the entry is pending with status connected; if it reported \<open>Full\<close> the table is
  unchanged and the entry is still absent.
\<close>
theorem entry_after_insert:
  assumes inv: "table_inv t" and ent: "Table_entry now t k = Some (AbsentEntry, t1)"
    and ins: "AbsentEntry_insert now t1 k v st = Some (r, t2)"
    and i: "entry_bucket t1 k = Some i" and pt: "0 < pending_timeout (buckets t1 ! i)"
  shows "Table_entry now t2 k =
           Some (case r of Inserted \<Rightarrow> PresentEntry st | InsertPending _ \<Rightarrow> PendingEntry Connected
                         | InsertFull \<Rightarrow> AbsentEntry, t2) \<and>
         (case r of Inserted \<Rightarrow> KBucket_get (buckets t2 ! i) k = Some \<lparr>node_key = k, node_value = v\<rparr>
                  | InsertPending _ \<Rightarrow> True | InsertFull \<Rightarrow> t2 = t1)"
proof -
  let ?b = "buckets t1 ! i"
  from Table_entry_ok [OF inv, of now k] ent i
  have inv1: "table_inv t1" and lt: "i < NUM_BUCKETS" and abs: "Entry_new ?b k = AbsentEntry"
    and tch: "touch now t i = Some (?b, t1)" by (auto split: option.splits)
  have len: "length (buckets t1) = NUM_BUCKETS" and kb: "kb_inv ?b"
    using inv1 lt by (auto simp: table_inv_def)
  obtain a where "(a, lru_of ?b) = lru_apply now (lru_of (buckets t ! i))"
    using touch_ok [OF inv lt, of now] tch by auto
  then have due: "not_due now ?b" using lru_apply_not_due by (fastforce simp: not_due_def)
  obtain b' where b': "KBucket_insert now ?b \<lparr>node_key = k, node_value = v\<rparr> st = Some (r, b')"
    and t2: "t2 = t1\<lparr>buckets := (buckets t1)[i := b']\<rparr>"
    using ins i lt len by (auto simp: AbsentEntry_insert_def through_entry_def panic_simps split: bind_splits)
  note b'_props = bucket_insert_entry [OF kb abs b']
  have b2: "buckets t2 ! i = b'" "length (buckets t2) = NUM_BUCKETS" "entry_bucket t2 k = Some i"
    using t2 lt len i by (simp_all add: entry_bucket_def)
  have "Table_entry now t2 k = Some (Entry_new b' k, t2)"
    using touch_not_due [of i t2 now] b2 lt b'_props(4) due pt by (simp add: Table_entry_def entry_bucket_def)
  moreover have "t2 = t1" if "r = InsertFull"
    using t2 b'_props(3) [OF that] by simp
  ultimately show ?thesis
    using b'_props(1,2) b2(1) by (simp split: InsertResult.split)
qed


definition sample_key :: "nat key" where
  "sample_key = \<lparr>key_preimage = 5, key_bytes = 5\<rparr>"

lemma sample_entry:
  "Table_entry 0 sample_table sample_key = Some (AbsentEntry, sample_table)"
  "entry_bucket sample_table sample_key = Some 2"
  "buckets sample_table ! 2 = sample_kbucket 6"
proof -
  have i: "BucketIndex_new (5 :: u256) = Some 2" by (simp add: BucketIndex_new_iff_bounds)
  show b: "buckets sample_table ! 2 = sample_kbucket 6"
    by (simp add: sample_table_def Let_def Table_new_def NUM_BUCKETS_def)
  have l: "length (buckets sample_table) = 256" "local_key sample_table = \<lparr>key_preimage = 0, key_bytes = 0\<rparr>"
    by (simp_all add: sample_table_def Let_def Table_new_def NUM_BUCKETS_def)
  have a: "KBucket_apply_pending 0 (sample_kbucket 6) = Some (None, sample_kbucket 6)"
    by (simp add: KBucket_apply_pending_def sample_kbucket_def)
  have t: "touch 0 sample_table 2 = Some (sample_kbucket 6, sample_table)"
    using b l by (simp add: touch_def panic_simps a list_update_same_conv)
  show "entry_bucket sample_table sample_key = Some 2"
    by (simp add: entry_bucket_def l Key_distance_def KeyBytes_distance_def sample_key_def i)
  show "Table_entry 0 sample_table sample_key = Some (AbsentEntry, sample_table)"
    by (simp add: Table_entry_def l Key_distance_def KeyBytes_distance_def sample_key_def i t)
       (simp add: Entry_new_def KBucket_position_def KBucket_as_pending_def sample_kbucket_def Key_eq_def)
qed

theorem entry_after_insert_witness:
  "\<exists>t2. AbsentEntry_insert 0 sample_table sample_key () Connected = Some (Inserted, t2) \<and>
        Table_entry 0 t2 sample_key = Some (PresentEntry Connected, t2)"
proof -
  have ins: "\<exists>t2. AbsentEntry_insert 0 sample_table sample_key () Connected = Some (Inserted, t2)"
    using sample_entry(2,3) sample_table_inv
    by (simp add: AbsentEntry_insert_def through_entry_def panic_simps table_inv_def NUM_BUCKETS_def
        KBucket_insert_def sample_kbucket_def nodes_is_full_def K_VALUE_def)
  then show ?thesis
    using entry_after_insert [OF sample_table_inv sample_entry(1) _ sample_entry(2), of "()" Connected Inserted] sample_entry(3)
    by (auto simp: sample_kbucket_def)
qed

lemma takeWhile_order:
  "takeWhile (\<lambda>i. i \<noteq> 0) (buckets_order (ClosestBucketsIter_new d)) = rev (filter (bit d) [1..<NUM_BUCKETS])"
proof (cases "d = 0")
  case False
  have "[0..<NUM_BUCKETS] = 0 # [1..<NUM_BUCKETS]"
    by (subst upt_conv_Cons) (auto simp: NUM_BUCKETS_def)
  then have "buckets_order (ClosestBucketsIter_new d) =
      rev (filter (bit d) [1..<NUM_BUCKETS]) @ (if bit d 0 then [0] else []) @ 0 # filter (\<lambda>j. \<not> bit d j) [1..<NUM_BUCKETS]"
    using False by (simp add: order_new)
  then show ?thesis by (auto simp: takeWhile_append2 takeWhile_append)
qed (simp add: order_new)

lemma distinct_concat_map:
  "distinct is \<Longrightarrow> (\<And>i. i \<in> set is \<Longrightarrow> distinct (f i)) \<Longrightarrow>
   (\<And>i j. i \<in> set is \<Longrightarrow> j \<in> set is \<Longrightarrow> i \<noteq> j \<Longrightarrow> set (f i) \<inter> set (f j) = {}) \<Longrightarrow>
   distinct (concat (map f is))"
proof (induction "is")
  case (Cons i "is")
  have "set (f i) \<inter> set (f j) = {}" if "j \<in> set is" for j
    using Cons.prems(1) by (intro Cons.prems(3)) (use that in auto)
  then show ?case using Cons by auto
qed simp

text \<open>The keys strictly between the local key and the target, bucket 0 left out.\<close>

definition between_keys :: "('p, 'v) KBucketsTable \<Rightarrow> u256 \<Rightarrow> u256 set" where
  "between_keys t target =
     {k \<in> table_keys t. BucketIndex_new (local_distance t k) \<noteq> Some 0 \<and>
        KeyBytes_distance target k < local_distance t target \<and> local_distance t k \<le> local_distance t target}"

lemma count_first_bucket:
  "length (filter (\<lambda>(n, _). Q (node_bytes n)) (KBucket_iter b)) = length (filter Q (bucket_keys b))"
proof -
  have "filter (\<lambda>(n, _). Q (node_bytes n)) (KBucket_iter b) = filter (Q \<circ> node_bytes \<circ> fst) (KBucket_iter b)"
    by (rule filter_cong) auto
  then have "length (filter (\<lambda>(n, _). Q (node_bytes n)) (KBucket_iter b))
           = length (filter Q (map node_bytes (map fst (KBucket_iter b))))"
    by (simp only: filter_map length_map comp_assoc)
  then show ?thesis by (simp only: map_fst_iter bucket_keys_def)
qed

lemma rev_filter_highest:
  assumes "BucketIndex_new d = Some i" and "0 < i"
  shows "rev (filter (bit d) [1..<NUM_BUCKETS]) = i # rev (filter (bit d) [1..<i])"
proof -
  have b: "bit d i" "\<And>l. i < l \<Longrightarrow> \<not> bit d l" "i < NUM_BUCKETS"
    using assms(1) BucketIndex_new_bound by (auto simp: BucketIndex_new_Some)
  have "[1..<NUM_BUCKETS] = [1..<i] @ i # [Suc i..<NUM_BUCKETS]"
    using assms(2) b(3) by (intro upt_split) auto
  moreover have "filter (bit d) [Suc i..<NUM_BUCKETS] = []"
    using b(2) by (auto simp: filter_empty_conv)
  ultimately show ?thesis using b(1) by simp
qed

lemma between_keys_concat:
  assumes inv: "table_inv t"
  shows "between_keys t target =
    set (filter (\<lambda>k. local_distance t k \<le> local_distance t target)
      (concat (map (\<lambda>j. bucket_keys (buckets t ! j)) (rev (filter (bit (local_distance t target)) [1..<NUM_BUCKETS])))))"
proof -
  let ?d = "local_distance t target"
  have len: "length (buckets t) = NUM_BUCKETS" using inv by (simp add: table_inv_def)
  have idx: "BucketIndex_new (local_distance t k) = Some j"
    if "j < NUM_BUCKETS" "k \<in> set (bucket_keys (buckets t ! j))" for j k
    using inv that by (auto simp: table_inv_def)
  have closer: "KeyBytes_distance target k < ?d \<longleftrightarrow> bit ?d j" if "BucketIndex_new (local_distance t k) = Some j" for k j
    using xor_less_set [OF that, of ?d] xor_less_unset [OF that, of ?d]
    by (cases "bit ?d j") (auto simp: distance_local)
  have keys: "k \<in> table_keys t \<longleftrightarrow> (\<exists>j < NUM_BUCKETS. k \<in> set (bucket_keys (buckets t ! j)))" for k
    by (auto simp: table_keys_def set_conv_nth [of "buckets t"] len)
  have "k \<in> between_keys t target \<longleftrightarrow>
      (\<exists>j. 1 \<le> j \<and> j < NUM_BUCKETS \<and> bit ?d j \<and> k \<in> set (bucket_keys (buckets t ! j))) \<and> local_distance t k \<le> ?d" for k
    unfolding between_keys_def mem_Collect_eq keys
    using idx [of _ k] closer [of k] by (metis Suc_leI One_nat_def gr0I not_one_le_zero option.inject)
  then show ?thesis by auto
qed

lemma those_vec_index:
  "(\<And>j. j \<in> set is \<Longrightarrow> j < length xs) \<Longrightarrow> those (map (vec_index xs) is) = Some (map (\<lambda>j. xs ! j) is)"
  by (induction "is") (auto simp: panic_simps)

text \<open>
  \<open>count_nodes_between\<close> counts, without panicking, exactly the nodes of the table that are
  strictly closer to the target than the local node is and no further from the local node than the
  target is, leaving out the node of bucket 0.
\<close>
theorem count_nodes_between_correct:
  assumes inv: "table_inv t"
  shows "Table_count_nodes_between t target = Some (card (between_keys t target))"
proof -
  let ?d = "local_distance t target"
  let ?is = "rev (filter (bit ?d) [1..<NUM_BUCKETS])"
  let ?f = "\<lambda>j. bucket_keys (buckets t ! j)" and ?Q = "\<lambda>k. local_distance t k \<le> ?d"
  have d: "KeyBytes_distance target (key_bytes (local_key t)) = ?d"
    "KeyBytes_distance k (key_bytes (local_key t)) = local_distance t k" for k
    by (simp_all add: local_distance_def KeyBytes_distance_def xor.commute)
  have len: "length (buckets t) = NUM_BUCKETS" using inv by (simp add: table_inv_def)
  have idx: "BucketIndex_new (local_distance t k) = Some j" if "j < NUM_BUCKETS" "k \<in> set (?f j)" for j k
    using inv that by (auto simp: table_inv_def)
  have "distinct (concat (map ?f ?is))"
    using inv idx by (intro distinct_concat_map) (fastforce simp: table_inv_def kb_inv_def)+
  then have "card (between_keys t target) = length (filter ?Q (concat (map ?f ?is)))"
    by (simp only: between_keys_concat [OF inv] distinct_card distinct_filter)
  moreover have "Table_count_nodes_between t target = Some (length (filter ?Q (concat (map ?f ?is))))"
  proof (cases ?is)
    case Nil
    then show ?thesis unfolding Table_count_nodes_between_def Let_def d takeWhile_order by simp
  next
    case (Cons i rest)
    obtain i' where i': "BucketIndex_new ?d = Some i'"
      using Cons by (cases "BucketIndex_new ?d") (auto simp: BucketIndex_new_None)
    have "0 < i'"
      using Cons i' by (cases i') (auto simp: BucketIndex_new_Some filter_empty_conv)
    then have ix: "i = i'" "rest = rev (filter (bit ?d) [1..<i'])" "i < NUM_BUCKETS"
      using rev_filter_highest [OF i'] Cons i' BucketIndex_new_bound by auto
    have small: "?Q k" if "j < i" "k \<in> set (?f j)" for j k
    proof -
      have "BucketIndex_new (local_distance t k) = Some j" using idx that ix(3) by simp
      then have "unat (local_distance t k) < 2 ^ Suc j" "2 ^ i \<le> unat ?d"
        using i' ix(1) by (simp_all only: BucketIndex_new_iff_bounds)
      moreover have "(2::nat) ^ Suc j \<le> 2 ^ i" using that(1) by (intro power_increasing) auto
      ultimately show ?thesis unfolding word_le_nat_alt by linarith
    qed
    have "those (map (vec_index (buckets t)) rest) = Some (map (\<lambda>j. buckets t ! j) rest)"
      using ix len by (intro those_vec_index) auto
    moreover have "filter ?Q (concat (map ?f rest)) = concat (map ?f rest)"
      using small ix by (auto simp: filter_id_conv)
    moreover have "length (concat (map ?f rest)) = sum_list (map KBucket_num_entries (map (\<lambda>j. buckets t ! j) rest))"
      by (simp add: length_concat comp_def KBucket_num_entries_def bucket_keys_def)
    ultimately show ?thesis
      using ix(3) len count_first_bucket [of ?Q "buckets t ! i"]
      unfolding Table_count_nodes_between_def Let_def d takeWhile_order Cons by (simp add: panic_simps)
  qed
  ultimately show ?thesis by simp
qed

lemma between_sample: "between_keys sample_table 7 = {6}"
proof -
  have "table_keys sample_table \<subseteq> {1, 6}"
    by (auto simp: table_keys_def sample_table_def Let_def Table_new_def sample_kbucket_def KBucket_new_def bucket_keys_def
        dest!: set_update_subset_insert [THEN subsetD])
  then show ?thesis
    using sample_table_keys(2)
    by (auto simp: between_keys_def sample_table_distance BucketIndex_new_iff_bounds KeyBytes_distance_def)
qed

theorem count_nodes_between_correct_witness: "Table_count_nodes_between sample_table 7 = Some 1"
  using count_nodes_between_correct [OF sample_table_inv, of 7] 
  by (simp add: between_sample)

end
