(* ===== verification/BTreeMap.thy ===== *)
theory BTreeMap
  imports Prelude
begin

text \<open>
  The part of \<open>std::collections::BTreeMap\<close> the program uses: a map as the list of its entries in
  ascending order of the keys. \<open>bt_inv\<close> is the representation invariant; lookup is \<open>map_of\<close>.
\<close>

definition bt_inv :: "('k::linorder \<times> 'v) list \<Rightarrow> bool" where
  "bt_inv m \<longleftrightarrow> sorted_wrt (<) (map fst m)"

fun bt_insert :: "'k::linorder \<Rightarrow> 'v \<Rightarrow> ('k \<times> 'v) list \<Rightarrow> ('k \<times> 'v) list" where
  "bt_insert k v [] = [(k, v)]"
| "bt_insert k v ((k', v') # m) =
     (if k < k' then (k, v) # (k', v') # m
      else if k = k' then (k, v) # m
      else (k', v') # bt_insert k v m)"

text \<open>\<open>entry(k).or_insert(v)\<close>\<close>

definition bt_or_insert :: "'k::linorder \<Rightarrow> 'v \<Rightarrow> ('k \<times> 'v) list \<Rightarrow> ('k \<times> 'v) list" where
  "bt_or_insert k v m = (case map_of m k of None \<Rightarrow> bt_insert k v m | Some _ \<Rightarrow> m)"

text \<open>Writing through an occupied entry.\<close>

definition bt_modify :: "'k \<Rightarrow> ('v \<Rightarrow> 'v) \<Rightarrow> ('k \<times> 'v) list \<Rightarrow> ('k \<times> 'v) list" where
  "bt_modify k f m = map (\<lambda>(k', v). (k', if k' = k then f v else v)) m"

definition bt_remove :: "'k \<Rightarrow> ('k \<times> 'v) list \<Rightarrow> ('k \<times> 'v) list" where
  "bt_remove k m = filter (\<lambda>(k', v). k' \<noteq> k) m"

definition bt_from_list :: "('k::linorder \<times> 'v) list \<Rightarrow> ('k \<times> 'v) list" where
  "bt_from_list kvs = fold (\<lambda>(k, v). bt_insert k v) kvs []"

lemma bt_inv_Nil [simp]: "bt_inv []"
  by (simp add: bt_inv_def)

lemma bt_inv_Cons [simp]: "bt_inv ((k, v) # m) \<longleftrightarrow> (\<forall>k' \<in> fst ` set m. k < k') \<and> bt_inv m"
  by (auto simp: bt_inv_def)

lemma bt_inv_distinct: "bt_inv m \<Longrightarrow> distinct (map fst m)"
  by (simp add: bt_inv_def strict_sorted_iff)

lemma bt_insert_dom [simp]: "fst ` set (bt_insert k v m) = insert k (fst ` set m)"
  by (induction k v m rule: bt_insert.induct) auto

lemma bt_insert_inv: "bt_inv m \<Longrightarrow> bt_inv (bt_insert k v m)"
  by (induction k v m rule: bt_insert.induct) (auto dest: order.strict_trans)

lemma bt_insert_map_of: "map_of (bt_insert k v m) = (map_of m)(k \<mapsto> v)"
  by (induction k v m rule: bt_insert.induct) auto

lemma bt_insert_set: "bt_inv m \<Longrightarrow> set (bt_insert k v m) = insert (k, v) {e \<in> set m. fst e \<noteq> k}"
  by (induction k v m rule: bt_insert.induct) (auto dest: order.strict_trans)

lemma bt_insert_fresh:
  "map_of m k = None \<Longrightarrow> \<exists>a b. m = a @ b \<and> bt_insert k v m = a @ (k, v) # b"
proof (induction k v m rule: bt_insert.induct)
  case (2 k v k' v' m)
  show ?case
  proof (cases "k < k'")
    case True
    then have "(k', v') # m = [] @ (k', v') # m \<and> bt_insert k v ((k', v') # m) = [] @ (k, v) # (k', v') # m" by simp
    then show ?thesis by blast
  next
    case False
    moreover have "k \<noteq> k'" using 2(2) by auto
    moreover from this 2 False obtain a b where "m = a @ b" "bt_insert k v m = a @ (k, v) # b" by auto
    ultimately have "(k', v') # m = ((k', v') # a) @ b \<and> bt_insert k v ((k', v') # m) = ((k', v') # a) @ (k, v) # b"
      by simp
    then show ?thesis by blast
  qed
qed simp

lemma bt_or_insert_inv: "bt_inv m \<Longrightarrow> bt_inv (bt_or_insert k v m)"
  by (simp add: bt_or_insert_def bt_insert_inv split: option.splits)

lemma bt_or_insert_map_of:
  "map_of (bt_or_insert k v m) = (case map_of m k of None \<Rightarrow> (map_of m)(k \<mapsto> v) | Some _ \<Rightarrow> map_of m)"
  by (simp add: bt_or_insert_def bt_insert_map_of split: option.splits)

lemma bt_or_insert_set:
  "bt_inv m \<Longrightarrow> set (bt_or_insert k v m) = (if k \<in> fst ` set m then set m else insert (k, v) (set m))"
  by (auto simp: bt_or_insert_def bt_insert_set map_of_eq_None_iff split: option.splits dest: map_of_SomeD)
     (force dest: map_of_SomeD)+

lemma bt_modify_fst [simp]: "map fst (bt_modify k f m) = map fst m"
  by (simp add: bt_modify_def comp_def case_prod_beta)

lemma bt_modify_inv [simp]: "bt_inv (bt_modify k f m) = bt_inv m"
  by (simp add: bt_inv_def)

lemma bt_modify_map_of:
  "map_of (bt_modify k f m) = (\<lambda>k'. if k' = k then map_option f (map_of m k) else map_of m k')"
  by (induction m) (auto simp: bt_modify_def)

lemma bt_remove_inv: "bt_inv m \<Longrightarrow> bt_inv (bt_remove k m)"
  by (auto simp: bt_inv_def bt_remove_def sorted_wrt_map intro: sorted_wrt_filter)

lemma bt_remove_map_of: "map_of (bt_remove k m) = (map_of m)(k := None)"
  by (induction m) (auto simp: bt_remove_def)

lemma bt_from_list_inv: "bt_inv (bt_from_list kvs)"
proof -
  have "bt_inv m \<Longrightarrow> bt_inv (fold (\<lambda>(k, v). bt_insert k v) kvs m)" for m
    by (induction kvs arbitrary: m) (auto simp: bt_insert_inv)
  then show ?thesis by (simp add: bt_from_list_def)
qed

lemma bt_from_list_set: "set (bt_from_list kvs) \<subseteq> set kvs"
proof -
  have "bt_inv m \<Longrightarrow> set (fold (\<lambda>(k, v). bt_insert k v) kvs m) \<subseteq> set kvs \<union> set m" for m
  proof (induction kvs arbitrary: m)
    case (Cons kv kvs)
    obtain k v where kv: "kv = (k, v)" by fastforce
    show ?case
      using Cons.IH [OF bt_insert_inv [OF Cons.prems, of k v]] bt_insert_set [OF Cons.prems, of k v] kv by auto
  qed simp
  then show ?thesis by (force simp: bt_from_list_def)
qed

lemma bt_from_list_dom: "fst ` set (bt_from_list kvs) = fst ` set kvs"
proof -
  have "fst ` set (fold (\<lambda>(k, v). bt_insert k v) kvs m) = fst ` set kvs \<union> fst ` set m" for m
    by (induction kvs arbitrary: m) (simp_all add: case_prod_beta)
  then show ?thesis by (simp add: bt_from_list_def)
qed

lemma bt_map_of_iff: "bt_inv m \<Longrightarrow> map_of m k = Some v \<longleftrightarrow> (k, v) \<in> set m"
  by (simp add: bt_inv_distinct map_of_eq_Some_iff)

end
