(* ===== verification/Kad_Peers.thy ===== *)
theory Kad_Peers
  imports Kad_Key BTreeMap
begin

text \<open>
  Peer iterators of Kademlia queries: the state they report (\<open>protocols/kad/src/query/peers.rs\<close>),
  the contract every iterator keeps as a locale, and the iterator over a fixed set of peers
  (\<open>protocols/kad/src/query/peers/fixed.rs\<close>).
\<close>

section \<open>What a peer iterator reports\<close>

datatype 'p PeersIterState = IterWaiting "'p option" | IterWaitingAtCapacity | IterFinished

text \<open>
  The calls a query makes on its iterator, and what of a call the outside world sees: a peer to
  contact, or a result of a peer that was taken into account.
\<close>

datatype 'p iter_op = INext instant | ISuccess 'p "'p list" | IFailure 'p | IFinish

datatype 'p iter_event = Yield 'p | Accept 'p

fun yields :: "'p iter_event list \<Rightarrow> 'p list" where
  "yields [] = []"
| "yields (Yield p # es) = p # yields es"
| "yields (Accept p # es) = yields es"

fun accepts :: "'p iter_event list \<Rightarrow> 'p list" where
  "accepts [] = []"
| "accepts (Yield p # es) = accepts es"
| "accepts (Accept p # es) = p # accepts es"

lemma yields_append [simp]: "yields (xs @ ys) = yields xs @ yields ys"
  by (induction xs rule: yields.induct) auto

lemma accepts_append [simp]: "accepts (xs @ ys) = accepts xs @ accepts ys"
  by (induction xs rule: accepts.induct) auto

fun iter_step :: "(instant \<Rightarrow> 's \<Rightarrow> ('p PeersIterState \<times> 's) option)
    \<Rightarrow> ('p \<Rightarrow> 'p list \<Rightarrow> 's \<Rightarrow> (bool \<times> 's) option) \<Rightarrow> ('p \<Rightarrow> 's \<Rightarrow> (bool \<times> 's) option) \<Rightarrow> ('s \<Rightarrow> 's)
    \<Rightarrow> 's \<Rightarrow> 'p iter_op \<Rightarrow> ('p iter_event list \<times> 's) option" where
  "iter_step nxt succ fail fin s (INext now) =
     map_option (\<lambda>(r, s'). ((case r of IterWaiting (Some p) \<Rightarrow> [Yield p] | _ \<Rightarrow> []), s')) (nxt now s)"
| "iter_step nxt succ fail fin s (ISuccess p ps) =
     map_option (\<lambda>(b, s'). (if b then [Accept p] else [], s')) (succ p ps s)"
| "iter_step nxt succ fail fin s (IFailure p) =
     map_option (\<lambda>(b, s'). (if b then [Accept p] else [], s')) (fail p s)"
| "iter_step nxt succ fail fin s IFinish = Some ([], fin s)"

fun iter_run :: "(instant \<Rightarrow> 's \<Rightarrow> ('p PeersIterState \<times> 's) option)
    \<Rightarrow> ('p \<Rightarrow> 'p list \<Rightarrow> 's \<Rightarrow> (bool \<times> 's) option) \<Rightarrow> ('p \<Rightarrow> 's \<Rightarrow> (bool \<times> 's) option) \<Rightarrow> ('s \<Rightarrow> 's)
    \<Rightarrow> 's \<Rightarrow> 'p iter_op list \<Rightarrow> ('p iter_event list \<times> 's) option" where
  "iter_run nxt succ fail fin s [] = Some ([], s)"
| "iter_run nxt succ fail fin s (x # xs) = do {
     (es, s1) \<leftarrow> iter_step nxt succ fail fin s x;
     (es', s2) \<leftarrow> iter_run nxt succ fail fin s1 xs;
     Some (es @ es', s2)
   }"

lemma iter_run_keeps:
  assumes "\<And>s x es s'. iter_step nxt succ fail fin s x = Some (es, s') \<Longrightarrow> f s' = f s"
  shows "iter_run nxt succ fail fin s xs = Some (es, s') \<Longrightarrow> f s' = f s"
proof (induction xs arbitrary: s es)
  case (Cons x xs)
  then obtain es1 s1 es2 where s1: "iter_step nxt succ fail fin s x = Some (es1, s1)"
      "iter_run nxt succ fail fin s1 xs = Some (es2, s')"
    by (auto split: bind_splits)
  show ?case using assms [OF s1(1)] Cons.IH [OF s1(2)] by simp
qed simp

text \<open>
  The contract of a peer iterator, which tells peers apart by \<open>ident\<close>: no call panics; \<open>next\<close> yields only peers that were not
  contacted before; a result is accepted only from a peer with an open request, whose request it
  closes.
\<close>

locale peers_iter =
  fixes ident :: "'p \<Rightarrow> 'k"
    and inv :: "'s \<Rightarrow> bool" and contacted :: "'s \<Rightarrow> 'k set" and open_reqs :: "'s \<Rightarrow> 'k set"
    and nxt :: "instant \<Rightarrow> 's \<Rightarrow> ('p PeersIterState \<times> 's) option"
    and succ :: "'p \<Rightarrow> 'p list \<Rightarrow> 's \<Rightarrow> (bool \<times> 's) option"
    and fail :: "'p \<Rightarrow> 's \<Rightarrow> (bool \<times> 's) option"
    and fin :: "'s \<Rightarrow> 's"
  assumes open_contacted: "inv s \<Longrightarrow> finite (open_reqs s) \<and> open_reqs s \<subseteq> contacted s"
    and next_ok: "inv s \<Longrightarrow> \<exists>r s'. nxt now s = Some (r, s') \<and> inv s' \<and>
      (case r of
         IterWaiting (Some p) \<Rightarrow> ident p \<notin> contacted s \<and> contacted s' = insert (ident p) (contacted s) \<and>
           open_reqs s' \<subseteq> insert (ident p) (open_reqs s)
       | _ \<Rightarrow> contacted s' = contacted s \<and> open_reqs s' \<subseteq> open_reqs s)"
    and success_ok: "inv s \<Longrightarrow> \<exists>b s'. succ p ps s = Some (b, s') \<and> inv s' \<and> contacted s' = contacted s \<and>
      (if b then ident p \<in> open_reqs s \<and> open_reqs s' \<subseteq> open_reqs s - {ident p} else open_reqs s' \<subseteq> open_reqs s)"
    and failure_ok: "inv s \<Longrightarrow> \<exists>b s'. fail p s = Some (b, s') \<and> inv s' \<and> contacted s' = contacted s \<and>
      (if b then ident p \<in> open_reqs s \<and> open_reqs s' \<subseteq> open_reqs s - {ident p} else open_reqs s' \<subseteq> open_reqs s)"
    and finish_ok: "inv s \<Longrightarrow> inv (fin s) \<and> contacted (fin s) = contacted s \<and> open_reqs (fin s) \<subseteq> open_reqs s"
begin

abbreviation step :: "'s \<Rightarrow> 'p iter_op \<Rightarrow> ('p iter_event list \<times> 's) option" where
  "step \<equiv> iter_step nxt succ fail fin"

abbreviation run :: "'s \<Rightarrow> 'p iter_op list \<Rightarrow> ('p iter_event list \<times> 's) option" where
  "run \<equiv> iter_run nxt succ fail fin"

text \<open>One call: nothing visible, a fresh peer yielded, or the result of an open request accepted.\<close>

definition call_effect :: "'s \<Rightarrow> 'p iter_event list \<Rightarrow> 's \<Rightarrow> bool" where
  "call_effect s es s' \<longleftrightarrow>
     es = [] \<and> contacted s' = contacted s \<and> open_reqs s' \<subseteq> open_reqs s \<or>
     (\<exists>p. es = [Yield p] \<and> ident p \<notin> contacted s \<and> contacted s' = insert (ident p) (contacted s) \<and>
          open_reqs s' \<subseteq> insert (ident p) (open_reqs s)) \<or>
     (\<exists>p. es = [Accept p] \<and> contacted s' = contacted s \<and> ident p \<in> open_reqs s \<and>
          open_reqs s' \<subseteq> open_reqs s - {ident p})"

lemma step_ok:
  assumes "inv s"
  shows "\<exists>es s'. step s x = Some (es, s') \<and> inv s' \<and> call_effect s es s'"
proof (cases x)
  case (INext now)
  from next_ok [OF assms, of now] obtain r s' where
    "nxt now s = Some (r, s')" "inv s'" and
    "(case r of
         IterWaiting (Some p) \<Rightarrow> ident p \<notin> contacted s \<and> contacted s' = insert (ident p) (contacted s) \<and>
           open_reqs s' \<subseteq> insert (ident p) (open_reqs s)
       | _ \<Rightarrow> contacted s' = contacted s \<and> open_reqs s' \<subseteq> open_reqs s)" by blast
  then show ?thesis using INext by (auto simp: call_effect_def split: PeersIterState.splits option.splits)
next
  case (ISuccess p ps)
  from success_ok [OF assms, of p ps] ISuccess show ?thesis by (force simp: call_effect_def split: if_splits)
next
  case (IFailure p)
  from failure_ok [OF assms, of p] IFailure show ?thesis by (force simp: call_effect_def split: if_splits)
next
  case IFinish
  then show ?thesis using finish_ok [OF assms] by (auto simp: call_effect_def)
qed

lemma run_ok:
  assumes "inv s"
  shows "\<exists>es s'. run s xs = Some (es, s') \<and> inv s' \<and>
     distinct (map ident (yields es)) \<and> set (map ident (yields es)) \<inter> contacted s = {} \<and> contacted s' = contacted s \<union> set (map ident (yields es)) \<and>
     distinct (map ident (accepts es)) \<and> set (map ident (accepts es)) \<subseteq> open_reqs s \<union> set (map ident (yields es)) \<and>
     open_reqs s' \<subseteq> (open_reqs s \<union> set (map ident (yields es))) - set (map ident (accepts es))"
  using assms
proof (induction xs arbitrary: s)
  case (Cons x xs)
  from step_ok [OF Cons.prems, of x] obtain es1 s1 where
    s1: "step s x = Some (es1, s1)" "inv s1" and eff: "call_effect s es1 s1" by blast
  from Cons.IH [OF s1(2)] obtain es s' where
    s': "run s1 xs = Some (es, s')" "inv s'" "distinct (map ident (yields es))"
      "set (map ident (yields es)) \<inter> contacted s1 = {}" "contacted s' = contacted s1 \<union> set (map ident (yields es))"
      "distinct (map ident (accepts es))" "set (map ident (accepts es)) \<subseteq> open_reqs s1 \<union> set (map ident (yields es))"
      "open_reqs s' \<subseteq> (open_reqs s1 \<union> set (map ident (yields es))) - set (map ident (accepts es))" by blast
  have sub: "open_reqs s \<subseteq> contacted s" using open_contacted [OF Cons.prems] by blast
  have "run s (x # xs) = Some (es1 @ es, s')" using s1 s' by simp
  moreover from eff consider
      "es1 = []" "contacted s1 = contacted s" "open_reqs s1 \<subseteq> open_reqs s"
    | p where "es1 = [Yield p]" "ident p \<notin> contacted s" "contacted s1 = insert (ident p) (contacted s)"
        "open_reqs s1 \<subseteq> insert (ident p) (open_reqs s)"
    | p where "es1 = [Accept p]" "contacted s1 = contacted s" "ident p \<in> open_reqs s" "open_reqs s1 \<subseteq> open_reqs s - {ident p}"
    by (auto simp: call_effect_def)
  then have "distinct (map ident (yields (es1 @ es))) \<and> set (map ident (yields (es1 @ es))) \<inter> contacted s = {} \<and>
     contacted s' = contacted s \<union> set (map ident (yields (es1 @ es))) \<and>
     distinct (map ident (accepts (es1 @ es))) \<and> set (map ident (accepts (es1 @ es))) \<subseteq> open_reqs s \<union> set (map ident (yields (es1 @ es))) \<and>
     open_reqs s' \<subseteq> (open_reqs s \<union> set (map ident (yields (es1 @ es)))) - set (map ident (accepts (es1 @ es)))"
  proof cases
    case 1
    then show ?thesis using s' by auto
  next
    case 2
    then show ?thesis using s' by auto
  next
    case 3
    moreover have "ident p \<notin> set (map ident (yields es))" using 3 s'(4) sub by auto
    ultimately show ?thesis using s'(3-) by auto
  qed
  ultimately show ?case using s'(2) by blast
qed auto

text \<open>The results accepted never outnumber the requests made.\<close>

lemma accepts_le_yields:
  assumes "inv s" and "open_reqs s = {}" and "run s xs = Some (es, s')"
  shows "length (accepts es) + card (open_reqs s') \<le> length (yields es)"
proof -
  from run_ok [OF assms(1), of xs] assms(2,3) have
    d: "inv s'" "distinct (map ident (yields es))" "distinct (map ident (accepts es))" "set (map ident (accepts es)) \<subseteq> set (map ident (yields es))"
      "open_reqs s' \<subseteq> set (map ident (yields es)) - set (map ident (accepts es))" by auto
  have "length (map ident (accepts es)) + card (open_reqs s') = card (set (map ident (accepts es)) \<union> open_reqs s')"
    using d distinct_card [OF d(3)] by (subst card_Un_disjoint) (auto simp: open_contacted)
  also have "\<dots> \<le> card (set (map ident (yields es)))" using d by (intro card_mono) auto
  finally show ?thesis using distinct_card [OF d(2)] by simp
qed

end

section \<open>A fixed set of peers\<close>

datatype FixedState = FWaiting nat | FFinished

datatype FixedPeerState = FPeerWaiting | FPeerFailed | FPeerSucceeded

record 'p FixedPeersIter =
  fx_parallelism :: nat
  fx_peers :: "'p \<rightharpoonup> FixedPeerState"
  fx_iter :: "'p list"
  fx_state :: FixedState

definition Fixed_new :: "'p list \<Rightarrow> nat \<Rightarrow> 'p FixedPeersIter" where
  "Fixed_new ps par = \<lparr>fx_parallelism = par, fx_peers = Map.empty, fx_iter = ps, fx_state = FWaiting 0\<rparr>"

definition Fixed_on_success :: "'p \<Rightarrow> 'p FixedPeersIter \<Rightarrow> (bool \<times> 'p FixedPeersIter) option" where
  "Fixed_on_success p s =
     (case fx_state s of
        FWaiting n \<Rightarrow>
          (if fx_peers s p = Some FPeerWaiting then do {
             n' \<leftarrow> checked_sub n 1;
             Some (True, s\<lparr>fx_peers := (fx_peers s)(p \<mapsto> FPeerSucceeded), fx_state := FWaiting n'\<rparr>)
           } else Some (False, s))
      | FFinished \<Rightarrow> Some (False, s))"

definition Fixed_on_failure :: "'p \<Rightarrow> 'p FixedPeersIter \<Rightarrow> (bool \<times> 'p FixedPeersIter) option" where
  "Fixed_on_failure p s =
     (case fx_state s of
        FWaiting n \<Rightarrow>
          (if fx_peers s p = Some FPeerWaiting then do {
             n' \<leftarrow> checked_sub n 1;
             Some (True, s\<lparr>fx_peers := (fx_peers s)(p \<mapsto> FPeerFailed), fx_state := FWaiting n'\<rparr>)
           } else Some (False, s))
      | FFinished \<Rightarrow> Some (False, s))"

definition Fixed_is_waiting :: "'p FixedPeersIter \<Rightarrow> 'p \<Rightarrow> bool" where
  "Fixed_is_waiting s p \<longleftrightarrow> fx_peers s p = Some FPeerWaiting"

definition Fixed_finish :: "'p FixedPeersIter \<Rightarrow> 'p FixedPeersIter" where
  "Fixed_finish s = (case fx_state s of FWaiting _ \<Rightarrow> s\<lparr>fx_state := FFinished\<rparr> | FFinished \<Rightarrow> s)"

definition Fixed_is_finished :: "'p FixedPeersIter \<Rightarrow> bool" where
  "Fixed_is_finished s \<longleftrightarrow> fx_state s = FFinished"

text \<open>The \<open>loop\<close> over the backlog: the backlog left and the first peer not yet emitted.\<close>

fun fixed_backlog :: "('p \<rightharpoonup> FixedPeerState) \<Rightarrow> 'p list \<Rightarrow> 'p option \<times> 'p list" where
  "fixed_backlog m [] = (None, [])"
| "fixed_backlog m (p # ps) = (case m p of Some _ \<Rightarrow> fixed_backlog m ps | None \<Rightarrow> (Some p, ps))"

definition Fixed_next :: "'p FixedPeersIter \<Rightarrow> 'p PeersIterState \<times> 'p FixedPeersIter" where
  "Fixed_next s =
     (case fx_state s of
        FFinished \<Rightarrow> (IterFinished, s)
      | FWaiting n \<Rightarrow>
          (if n \<ge> fx_parallelism s then (IterWaitingAtCapacity, s)
           else case fixed_backlog (fx_peers s) (fx_iter s) of
                  (None, ps) \<Rightarrow>
                    (if n = 0 then (IterFinished, s\<lparr>fx_iter := ps, fx_state := FFinished\<rparr>)
                     else (IterWaiting None, s\<lparr>fx_iter := ps\<rparr>))
                | (Some p, ps) \<Rightarrow>
                    (IterWaiting (Some p),
                     s\<lparr>fx_iter := ps, fx_state := FWaiting (n + 1), fx_peers := (fx_peers s)(p \<mapsto> FPeerWaiting)\<rparr>)))"

text \<open>The hash map is consumed in an unspecified order, given as the list \<open>ord\<close> of its keys.\<close>

definition Fixed_into_result :: "'p list \<Rightarrow> 'p FixedPeersIter \<Rightarrow> 'p list" where
  "Fixed_into_result ord s = filter (\<lambda>p. fx_peers s p = Some FPeerSucceeded) ord"

definition fixed_waiting :: "'p FixedPeersIter \<Rightarrow> 'p set" where
  "fixed_waiting s = {p. fx_peers s p = Some FPeerWaiting}"

definition fixed_inv :: "'p FixedPeersIter \<Rightarrow> bool" where
  "fixed_inv s \<longleftrightarrow> finite (dom (fx_peers s)) \<and> 0 < fx_parallelism s \<and>
     (\<forall>n. fx_state s = FWaiting n \<longrightarrow> n = card (fixed_waiting s) \<and> n \<le> fx_parallelism s)"

definition fixed_open :: "'p FixedPeersIter \<Rightarrow> 'p set" where
  "fixed_open s = (if fx_state s = FFinished then {} else fixed_waiting s)"

lemma fixed_waiting_finite: "fixed_inv s \<Longrightarrow> finite (fixed_waiting s)"
  unfolding fixed_inv_def fixed_waiting_def by (auto elim!: rev_finite_subset)

lemma fixed_backlog_Some:
  "fixed_backlog m ps = (Some p, qs) \<Longrightarrow> m p = None \<and> p \<in> set ps \<and> set ps \<subseteq> dom m \<union> insert p (set qs) \<and> set qs \<subseteq> set ps"
  by (induction m ps rule: fixed_backlog.induct) (auto split: option.splits)

lemma fixed_backlog_None: "fixed_backlog m ps = (None, qs) \<Longrightarrow> set ps \<subseteq> dom m \<and> qs = []"
  by (induction m ps rule: fixed_backlog.induct) (auto split: option.splits)

lemma Fixed_next_effect:
  assumes inv: "fixed_inv s" and nx: "Fixed_next s = (r, s')"
  shows "fixed_inv s' \<and>
    (case r of
       IterWaiting (Some p) \<Rightarrow> p \<notin> dom (fx_peers s) \<and> dom (fx_peers s') = insert p (dom (fx_peers s)) \<and>
          fixed_open s' \<subseteq> insert p (fixed_open s)
     | _ \<Rightarrow> dom (fx_peers s') = dom (fx_peers s) \<and> fixed_open s' \<subseteq> fixed_open s)"
proof (cases "fx_state s")
  case FFinished
  then show ?thesis using assms by (auto simp: Fixed_next_def)
next
  case (FWaiting n)
  obtain pr ps where bl: "fixed_backlog (fx_peers s) (fx_iter s) = (pr, ps)" by fastforce
  have n: "n = card (fixed_waiting s)" using inv FWaiting by (simp add: fixed_inv_def)
  show ?thesis
  proof (cases "n \<ge> fx_parallelism s \<or> pr = None")
    case True
    then show ?thesis
      using assms FWaiting bl
      by (auto simp: Fixed_next_def fixed_inv_def fixed_open_def fixed_waiting_def split: if_splits)
  next
    case False
    then obtain p where p: "pr = Some p" "n < fx_parallelism s" by auto
    have new: "fx_peers s p = None" using fixed_backlog_Some bl p(1) by metis
    have "card (insert p (fixed_waiting s)) = Suc n"
      using new fixed_waiting_finite [OF inv] n by (simp add: fixed_waiting_def)
    moreover have s': "r = IterWaiting (Some p)"
      "s' = s\<lparr>fx_iter := ps, fx_state := FWaiting (n + 1), fx_peers := (fx_peers s)(p \<mapsto> FPeerWaiting)\<rparr>"
      using nx FWaiting bl p by (auto simp: Fixed_next_def)
    moreover have "fixed_waiting s' = insert p (fixed_waiting s)"
      unfolding s' fixed_waiting_def by auto
    ultimately show ?thesis
      using inv FWaiting p(2) new by (auto simp: fixed_inv_def fixed_open_def)
  qed
qed

lemma Fixed_result_effect:
  assumes inv: "fixed_inv s" and st: "st \<noteq> FPeerWaiting" and w: "fx_state s = FWaiting n"
    and p: "fx_peers s p = Some FPeerWaiting"
  shows "1 \<le> n \<and> fixed_inv (s\<lparr>fx_peers := (fx_peers s)(p \<mapsto> st), fx_state := FWaiting (n - 1)\<rparr>)"
proof -
  have n: "n = card (fixed_waiting s)" "p \<in> fixed_waiting s"
    using inv w p by (simp_all add: fixed_inv_def fixed_waiting_def)
  then have "1 \<le> n" "card (fixed_waiting s - {p}) = n - 1"
    using fixed_waiting_finite [OF inv] by (auto simp: card_Diff_singleton Suc_le_eq card_gt_0_iff)
  moreover have "fixed_waiting (s\<lparr>fx_peers := (fx_peers s)(p \<mapsto> st), fx_state := FWaiting (n - 1)\<rparr>) = fixed_waiting s - {p}"
    using st unfolding fixed_waiting_def by auto
  moreover have "n \<le> fx_parallelism s" "finite (dom (fx_peers s))" "0 < fx_parallelism s"
    using inv w by (simp_all add: fixed_inv_def)
  ultimately show ?thesis by (simp add: fixed_inv_def)
qed

interpretation fixed: peers_iter id fixed_inv "\<lambda>s. dom (fx_peers s)" fixed_open
  "\<lambda>_ s. Some (Fixed_next s)" "\<lambda>p _. Fixed_on_success p" Fixed_on_failure Fixed_finish
proof
  show "finite (fixed_open s) \<and> fixed_open s \<subseteq> dom (fx_peers s)" if "fixed_inv s" for s :: "'a FixedPeersIter"
    using fixed_waiting_finite [OF that] by (auto simp: fixed_open_def fixed_waiting_def)
  show "\<exists>r s'. Some (Fixed_next s) = Some (r, s') \<and> fixed_inv s' \<and>
      (case r of
         IterWaiting (Some p) \<Rightarrow> id p \<notin> dom (fx_peers s) \<and> dom (fx_peers s') = insert (id p) (dom (fx_peers s)) \<and>
           fixed_open s' \<subseteq> insert (id p) (fixed_open s)
       | _ \<Rightarrow> dom (fx_peers s') = dom (fx_peers s) \<and> fixed_open s' \<subseteq> fixed_open s)"
    if "fixed_inv s" for s :: "'a FixedPeersIter"
    using Fixed_next_effect [OF that]
    by (cases "Fixed_next s") (auto split: PeersIterState.splits option.splits)
  show "\<exists>b s'. Fixed_on_success p s = Some (b, s') \<and> fixed_inv s' \<and> dom (fx_peers s') = dom (fx_peers s) \<and>
      (if b then id p \<in> fixed_open s \<and> fixed_open s' \<subseteq> fixed_open s - {id p} else fixed_open s' \<subseteq> fixed_open s)"
    if "fixed_inv s" for p and s :: "'a FixedPeersIter"
    using that Fixed_result_effect [OF that, of FPeerSucceeded _ p]
    by (cases "fx_state s") (auto simp: Fixed_on_success_def fixed_open_def fixed_waiting_def)
  show "\<exists>b s'. Fixed_on_failure p s = Some (b, s') \<and> fixed_inv s' \<and> dom (fx_peers s') = dom (fx_peers s) \<and>
      (if b then id p \<in> fixed_open s \<and> fixed_open s' \<subseteq> fixed_open s - {id p} else fixed_open s' \<subseteq> fixed_open s)"
    if "fixed_inv s" for p and s :: "'a FixedPeersIter"
    using that Fixed_result_effect [OF that, of FPeerFailed _ p]
    by (cases "fx_state s") (auto simp: Fixed_on_failure_def fixed_open_def fixed_waiting_def)
  show "fixed_inv (Fixed_finish s) \<and> dom (fx_peers (Fixed_finish s)) = dom (fx_peers s) \<and>
      fixed_open (Fixed_finish s) \<subseteq> fixed_open s"
    if "fixed_inv s" for s :: "'a FixedPeersIter"
    using that by (cases "fx_state s") (auto simp: Fixed_finish_def fixed_inv_def fixed_open_def)
qed

lemma fixed_inv_new: "0 < par \<Longrightarrow> fixed_inv (Fixed_new ps par)"
  by (simp add: Fixed_new_def fixed_inv_def fixed_waiting_def)

abbreviation fixed_step :: "'p FixedPeersIter \<Rightarrow> 'p iter_op \<Rightarrow> ('p iter_event list \<times> 'p FixedPeersIter) option" where
  "fixed_step \<equiv> iter_step (\<lambda>_ s. Some (Fixed_next s)) (\<lambda>p _. Fixed_on_success p) Fixed_on_failure Fixed_finish"

abbreviation fixed_run :: "'p FixedPeersIter \<Rightarrow> 'p iter_op list \<Rightarrow> ('p iter_event list \<times> 'p FixedPeersIter) option" where
  "fixed_run \<equiv> iter_run (\<lambda>_ s. Some (Fixed_next s)) (\<lambda>p _. Fixed_on_success p) Fixed_on_failure Fixed_finish"

text \<open>
  The peers handed over at creation stay accounted for: emitted or in the backlog; an iterator that
  finished by itself has an empty backlog and waits for nobody.
\<close>

definition fixed_cover :: "'p set \<Rightarrow> 'p FixedPeersIter \<Rightarrow> bool" where
  "fixed_cover P s \<longleftrightarrow> dom (fx_peers s) \<union> set (fx_iter s) = P"

definition fixed_done :: "'p FixedPeersIter \<Rightarrow> bool" where
  "fixed_done s \<longleftrightarrow> (fx_state s = FFinished \<longrightarrow> fx_iter s = [] \<and> fixed_waiting s = {})"

definition fixed_answered :: "'p FixedPeersIter \<Rightarrow> 'p set" where
  "fixed_answered s = dom (fx_peers s) - fixed_waiting s"

lemma fixed_step_next:
  assumes inv: "fixed_inv s" and nx: "Fixed_next s = (r, s')" and c: "fixed_cover P s"
  shows "fixed_cover P s' \<and> (fixed_done s \<longrightarrow> fixed_done s') \<and> fixed_answered s' = fixed_answered s"
proof (cases "fx_state s")
  case FFinished
  then show ?thesis using nx c by (auto simp: Fixed_next_def)
next
  case (FWaiting n)
  obtain pr ps where bl: "fixed_backlog (fx_peers s) (fx_iter s) = (pr, ps)" by fastforce
  have n: "n = 0 \<Longrightarrow> fixed_waiting s = {}"
    using inv FWaiting fixed_waiting_finite [OF inv] by (auto simp: fixed_inv_def)
  show ?thesis
  proof (cases pr)
    case None
    then show ?thesis
      using nx c FWaiting bl n fixed_backlog_None [of "fx_peers s" "fx_iter s" ps]
      by (auto simp: Fixed_next_def fixed_cover_def fixed_done_def fixed_answered_def fixed_waiting_def split: if_splits)
  next
    case (Some p)
    then have pb: "fx_peers s p = None" "p \<in> set (fx_iter s)"
        "set (fx_iter s) \<subseteq> dom (fx_peers s) \<union> insert p (set ps)" "set ps \<subseteq> set (fx_iter s)"
      using fixed_backlog_Some [of "fx_peers s" "fx_iter s" p ps] bl by simp_all
    show ?thesis
    proof (cases "n \<ge> fx_parallelism s")
      case True
      then show ?thesis using nx c FWaiting by (auto simp: Fixed_next_def)
    next
      case False
      then have s': "s' = s\<lparr>fx_iter := ps, fx_state := FWaiting (n + 1), fx_peers := (fx_peers s)(p \<mapsto> FPeerWaiting)\<rparr>"
        using nx FWaiting bl Some by (auto simp: Fixed_next_def)
      have "fixed_cover P s'" using c pb unfolding s' fixed_cover_def by auto
      moreover have "fixed_done s'" unfolding s' fixed_done_def by simp
      moreover have "fixed_answered s' = fixed_answered s"
        using pb(1) unfolding s' fixed_answered_def fixed_waiting_def by auto
      ultimately show ?thesis by blast
    qed
  qed
qed

lemma fixed_step_cover:
  assumes "fixed_inv s" and "fixed_step s x = Some (es, s')" and "fixed_cover P s"
  shows "fixed_cover P s' \<and> (fixed_done s \<and> x \<noteq> IFinish \<longrightarrow> fixed_done s') \<and>
         fixed_answered s' = fixed_answered s \<union> set (accepts es)"
proof (cases x)
  case (INext now)
  obtain r t where nx: "Fixed_next s = (r, t)" by fastforce
  then have "s' = t" "accepts es = []"
    using INext assms(2) by (auto split: PeersIterState.splits option.splits)
  then show ?thesis
    using fixed_step_next [OF assms(1) nx assms(3)] by simp
next
  case (ISuccess p ps)
  then show ?thesis
    using assms(2,3) by (cases "fx_state s")
      (auto simp: Fixed_on_success_def fixed_cover_def fixed_done_def fixed_answered_def fixed_waiting_def split: if_splits bind_splits)
next
  case (IFailure p)
  then show ?thesis
    using assms(2,3) by (cases "fx_state s")
      (auto simp: Fixed_on_failure_def fixed_cover_def fixed_done_def fixed_answered_def fixed_waiting_def split: if_splits bind_splits)
next
  case IFinish
  then show ?thesis
    using assms
    by (auto simp: Fixed_finish_def fixed_cover_def fixed_answered_def fixed_waiting_def split: FixedState.splits)
qed

lemma fixed_run_cover:
  assumes "fixed_inv s" and "fixed_run s xs = Some (es, s')" and "fixed_cover P s"
  shows "fixed_cover P s' \<and> (fixed_done s \<and> IFinish \<notin> set xs \<longrightarrow> fixed_done s') \<and>
         fixed_answered s' = fixed_answered s \<union> set (accepts es)"
  using assms
proof (induction xs arbitrary: s es)
  case (Cons x xs)
  from fixed.step_ok [OF Cons.prems(1), of x] obtain es1 s1 where
    s1: "fixed_step s x = Some (es1, s1)" "fixed_inv s1" by blast
  with Cons.prems(2) obtain es2 where es2: "fixed_run s1 xs = Some (es2, s')" "es = es1 @ es2"
    by (auto split: bind_splits)
  show ?case
    using fixed_step_cover [OF Cons.prems(1) s1(1) Cons.prems(3)] Cons.IH [OF s1(2) es2(1)] es2(2) by auto
qed simp

lemma fixed_step_parallelism: "fixed_step s x = Some (es, s') \<Longrightarrow> fx_parallelism s' = fx_parallelism s"
  by (cases x)
     (auto simp: Fixed_next_def Fixed_on_success_def Fixed_on_failure_def Fixed_finish_def
        split: FixedState.splits if_splits prod.splits option.splits bind_splits)

lemma fixed_run_parallelism: "fixed_run s xs = Some (es, s') \<Longrightarrow> fx_parallelism s' = fx_parallelism s"
  by (rule iter_run_keeps [where f = fx_parallelism]) (erule fixed_step_parallelism)

text \<open>
  C32. An iterator over a fixed set of peers, run by any sequence of calls, does not panic, yields
  only given peers and none of them twice, accepts at most one result per yielded peer, and never
  waits for more than \<open>parallelism\<close> peers; if it reports the end without having been finished from
  outside, every given peer was contacted and answered.
\<close>
theorem fixed_run_correct:
  assumes "0 < par"
  shows "\<exists>es s. fixed_run (Fixed_new ps par) ops = Some (es, s) \<and>
           distinct (yields es) \<and> set (yields es) \<subseteq> set ps \<and>
           distinct (accepts es) \<and> set (accepts es) \<subseteq> set (yields es) \<and>
           (\<forall>n. fx_state s = FWaiting n \<longrightarrow> n = card {p. Fixed_is_waiting s p} \<and> n \<le> par) \<and>
           (IFinish \<notin> set ops \<and> Fixed_is_finished s \<longrightarrow> set (yields es) = set ps \<and> set (accepts es) = set ps)"
proof -
  let ?s = "Fixed_new ps par"
  have new: "fixed_cover (set ps) ?s" "fixed_done ?s" "fixed_answered ?s = {}" "dom (fx_peers ?s) = {}" "fixed_open ?s = {}"
    by (simp_all add: Fixed_new_def fixed_cover_def fixed_done_def fixed_answered_def fixed_open_def fixed_waiting_def)
  from fixed.run_ok [OF fixed_inv_new [OF assms], of ps ops] obtain es s where
    run: "fixed_run ?s ops = Some (es, s)" "fixed_inv s" and
    es: "distinct (yields es)" "dom (fx_peers s) = set (yields es)" "distinct (accepts es)" "set (accepts es) \<subseteq> set (yields es)"
    using new by auto
  from fixed_run_cover [OF fixed_inv_new [OF assms] run(1) new(1)] new have
    c: "dom (fx_peers s) \<union> set (fx_iter s) = set ps" "IFinish \<notin> set ops \<longrightarrow> fixed_done s"
      "fixed_answered s = set (accepts es)" by (auto simp: fixed_cover_def)
  have "\<forall>n. fx_state s = FWaiting n \<longrightarrow> n = card {p. Fixed_is_waiting s p} \<and> n \<le> par"
    using run(2) fixed_run_parallelism [OF run(1)] by (auto simp: Fixed_new_def fixed_inv_def Fixed_is_waiting_def fixed_waiting_def)
  moreover have "set (yields es) = set ps \<and> set (accepts es) = set ps" if "IFinish \<notin> set ops" "Fixed_is_finished s"
    using that c es(2) by (auto simp: fixed_done_def fixed_answered_def Fixed_is_finished_def)
  ultimately show ?thesis using run es c(1) by auto
qed

theorem fixed_run_correct_witness:
  "\<exists>es s. fixed_run (Fixed_new [7, 8, 7::nat] 1) [INext 0, IFailure 7, INext 0] = Some (es, s) \<and>
     distinct (yields es) \<and> set (yields es) \<subseteq> {7, 8} \<and> fx_state s = FWaiting 1"
proof -
  let ?ops = "[INext 0, IFailure 7, INext 0] :: nat iter_op list"
  obtain es s where run: "fixed_run (Fixed_new [7, 8, 7::nat] 1) ?ops = Some (es, s)"
    and ok: "distinct (yields es)" "set (yields es) \<subseteq> set [7, 8, 7]"
    using fixed_run_correct [OF zero_less_one, of "[7, 8, 7::nat]" ?ops] by blast
  have "fx_state s = FWaiting 1"
    using run by (auto simp: Fixed_new_def Fixed_next_def Fixed_on_failure_def)
  moreover have "set (yields es) \<subseteq> {7, 8}" using ok(2) by auto
  ultimately show ?thesis using run ok(1) by blast
qed

end
