(* ===== verification/Kad_Closest.thy ===== *)
theory Kad_Closest
  imports Kad_Peers
begin

text \<open>
  The iterator towards the closest peers of a target:
  \<open>protocols/kad/src/query/peers/closest.rs\<close>.

  The SHA-256 digest of a peer id is the parameter \<open>digest\<close>; the map of the closest peers is a
  \<open>BTreeMap\<close> by distance. Subtractions of the counter \<open>num_waiting\<close> are checked, so that a
  broken count would be a panic.
\<close>

section \<open>Definitions\<close>

datatype ClosestState = Iterating nat | Stalled | Finished

datatype ClosestPeerState = NotContacted | Waiting instant | Unresponsive | Failed | Succeeded

record 'p Peer =
  peer_key :: "'p key"
  peer_state :: ClosestPeerState

record ClosestPeersIterConfig =
  cfg_parallelism :: nat
  cfg_num_results :: nat
  cfg_peer_timeout :: duration

record 'p ClosestPeersIter =
  cp_config :: ClosestPeersIterConfig
  cp_target :: u256
  cp_state :: ClosestState
  closest_peers :: "(u256 \<times> 'p Peer) list"
  num_waiting :: nat

definition ClosestPeersIterConfig_default :: "duration \<Rightarrow> ClosestPeersIterConfig" where
  "ClosestPeersIterConfig_default second =
     \<lparr>cfg_parallelism = ALPHA_VALUE, cfg_num_results = K_VALUE, cfg_peer_timeout = 10 * second\<rparr>"

definition Closest_with_config :: "ClosestPeersIterConfig \<Rightarrow> u256 \<Rightarrow> 'p key list \<Rightarrow> 'p ClosestPeersIter" where
  "Closest_with_config cfg target known =
     \<lparr>cp_config = cfg, cp_target = target, cp_state = Iterating 0,
      closest_peers = bt_from_list (take K_VALUE
        (map (\<lambda>k. (Key_distance k target, \<lparr>peer_key = k, peer_state = NotContacted\<rparr>)) known)),
      num_waiting = 0\<rparr>"

definition Closest_new :: "duration \<Rightarrow> u256 \<Rightarrow> 'p key list \<Rightarrow> 'p ClosestPeersIter" where
  "Closest_new second target known = Closest_with_config (ClosestPeersIterConfig_default second) target known"

text \<open>Incorporating the reported closer peers; the flag says whether the iterator made progress.\<close>

fun incorporate :: "('p \<Rightarrow> u256) \<Rightarrow> u256 \<Rightarrow> nat \<Rightarrow> nat \<Rightarrow> 'p list \<Rightarrow> (u256 \<times> 'p Peer) list \<Rightarrow> bool
    \<Rightarrow> (u256 \<times> 'p Peer) list \<times> bool" where
  "incorporate digest target num_closest num_results [] m progress = (m, progress)"
| "incorporate digest target num_closest num_results (p # ps) m progress =
     (let key = Key_from digest p;
          distance = KeyBytes_distance target (key_bytes key);
          m' = bt_or_insert distance \<lparr>peer_key = key, peer_state = NotContacted\<rparr> m
      in incorporate digest target num_closest num_results ps m'
           (map fst (take 1 m') = [distance] \<or> num_closest < num_results))"

definition advance_state :: "ClosestPeersIterConfig \<Rightarrow> ClosestState \<Rightarrow> bool \<Rightarrow> ClosestState" where
  "advance_state cfg st progress =
     (case st of
        Iterating no_progress \<Rightarrow>
          (let np = if progress then 0 else no_progress + 1
           in if np \<ge> cfg_parallelism cfg then Stalled else Iterating np)
      | Stalled \<Rightarrow> if progress then Iterating 0 else Stalled
      | Finished \<Rightarrow> Finished)"

text \<open>Marking the peer at a distance; no new map means the result is not accepted.\<close>

definition mark_peer :: "'p ClosestPeersIter \<Rightarrow> u256 \<Rightarrow> ClosestPeerState \<Rightarrow> 'p ClosestPeersIter option option" where
  "mark_peer s d st =
     (case map_of (closest_peers s) d of
        None \<Rightarrow> Some None
      | Some p \<Rightarrow>
          (case peer_state p of
             Waiting _ \<Rightarrow> do {
               n \<leftarrow> checked_sub (num_waiting s) 1;
               Some (Some (s\<lparr>num_waiting := n,
                             closest_peers := bt_modify d (\<lambda>p. p\<lparr>peer_state := st\<rparr>) (closest_peers s)\<rparr>)) }
           | Unresponsive \<Rightarrow>
               Some (Some (s\<lparr>closest_peers := bt_modify d (\<lambda>p. p\<lparr>peer_state := st\<rparr>) (closest_peers s)\<rparr>))
           | _ \<Rightarrow> Some None))"

definition Closest_on_success :: "('p \<Rightarrow> u256) \<Rightarrow> 'p \<Rightarrow> 'p list \<Rightarrow> 'p ClosestPeersIter
    \<Rightarrow> (bool \<times> 'p ClosestPeersIter) option" where
  "Closest_on_success digest p closer s =
     (if cp_state s = Finished then Some (False, s)
      else do {
        m \<leftarrow> mark_peer s (Key_distance (Key_from digest p) (cp_target s)) Succeeded;
        case m of
          None \<Rightarrow> Some (False, s)
        | Some s1 \<Rightarrow>
            (let (cps, progress) = incorporate digest (cp_target s) (length (closest_peers s1))
                                     (cfg_num_results (cp_config s)) closer (closest_peers s1) False
             in Some (True, s1\<lparr>closest_peers := cps, cp_state := advance_state (cp_config s) (cp_state s) progress\<rparr>))
      })"

definition Closest_on_failure :: "('p \<Rightarrow> u256) \<Rightarrow> 'p \<Rightarrow> 'p ClosestPeersIter
    \<Rightarrow> (bool \<times> 'p ClosestPeersIter) option" where
  "Closest_on_failure digest p s =
     (if cp_state s = Finished then Some (False, s)
      else do {
        m \<leftarrow> mark_peer s (Key_distance (Key_from digest p) (cp_target s)) Failed;
        case m of None \<Rightarrow> Some (False, s) | Some s1 \<Rightarrow> Some (True, s1)
      })"

definition is_Waiting :: "'p Peer \<Rightarrow> bool" where
  "is_Waiting p \<longleftrightarrow> (case peer_state p of Waiting _ \<Rightarrow> True | _ \<Rightarrow> False)"

definition Closest_waiting :: "'p ClosestPeersIter \<Rightarrow> 'p list" where
  "Closest_waiting s = map (\<lambda>(d, p). key_preimage (peer_key p)) (filter (\<lambda>(d, p). is_Waiting p) (closest_peers s))"

definition Closest_is_waiting :: "'p ClosestPeersIter \<Rightarrow> 'p \<Rightarrow> bool" where
  "Closest_is_waiting s p \<longleftrightarrow> p \<in> set (Closest_waiting s)"

definition at_capacity :: "'p ClosestPeersIter \<Rightarrow> bool" where
  "at_capacity s \<longleftrightarrow>
     (case cp_state s of
        Stalled \<Rightarrow> num_waiting s \<ge> max (cfg_num_results (cp_config s)) (cfg_parallelism (cp_config s))
      | Iterating _ \<Rightarrow> num_waiting s \<ge> cfg_parallelism (cp_config s)
      | Finished \<Rightarrow> True)"

text \<open>
  The \<open>for\<close> loop of \<open>next\<close>: \<open>cap\<close> is the capacity check made before the loop, \<open>cnt\<close> the result
  counter, \<open>nw\<close> the number of peers waited for. One iteration either returns from \<open>next\<close> or goes on
  with a new counter; it may change the state of the peer it visits.
\<close>

datatype 'p flow = Return "'p PeersIterState" | Continue "nat option"

definition visit_peer :: "instant \<Rightarrow> ClosestPeersIterConfig \<Rightarrow> bool \<Rightarrow> nat option \<Rightarrow> nat \<Rightarrow> 'p Peer
    \<Rightarrow> ('p flow \<times> nat \<times> 'p Peer) option" where
  "visit_peer now cfg cap cnt nw p =
     (case peer_state p of
        Waiting timeout \<Rightarrow>
          (if now \<ge> timeout then do {
             nw' \<leftarrow> checked_sub nw 1;
             Some (Continue cnt, nw', p\<lparr>peer_state := Unresponsive\<rparr>) }
           else if cap then Some (Return IterWaitingAtCapacity, nw, p)
           else Some (Continue None, nw, p))
      | Succeeded \<Rightarrow>
          (case cnt of
             Some c \<Rightarrow>
               (if c + 1 \<ge> cfg_num_results cfg then Some (Return IterFinished, nw, p)
                else Some (Continue (Some (c + 1)), nw, p))
           | None \<Rightarrow> Some (Continue None, nw, p))
      | NotContacted \<Rightarrow>
          (if \<not> cap
           then Some (Return (IterWaiting (Some (key_preimage (peer_key p)))), nw + 1,
                      p\<lparr>peer_state := Waiting (now + cfg_peer_timeout cfg)\<rparr>)
           else Some (Return IterWaitingAtCapacity, nw, p))
      | _ \<Rightarrow> Some (Continue cnt, nw, p))"

fun next_loop :: "instant \<Rightarrow> ClosestPeersIterConfig \<Rightarrow> bool \<Rightarrow> nat option \<Rightarrow> nat \<Rightarrow> (u256 \<times> 'p Peer) list
    \<Rightarrow> ('p PeersIterState option \<times> nat \<times> (u256 \<times> 'p Peer) list) option" where
  "next_loop now cfg cap cnt nw [] = Some (None, nw, [])"
| "next_loop now cfg cap cnt nw ((d, p) # ps) =
     (case visit_peer now cfg cap cnt nw p of
        None \<Rightarrow> None
      | Some (Return r, nw', p') \<Rightarrow> Some (Some r, nw', (d, p') # ps)
      | Some (Continue cnt', nw', p') \<Rightarrow>
          (case next_loop now cfg cap cnt' nw' ps of
             None \<Rightarrow> None
           | Some (r, n, ps') \<Rightarrow> Some (r, n, (d, p') # ps')))"

definition Closest_next :: "instant \<Rightarrow> 'p ClosestPeersIter \<Rightarrow> ('p PeersIterState \<times> 'p ClosestPeersIter) option" where
  "Closest_next now s =
     (if cp_state s = Finished then Some (IterFinished, s)
      else do {
        (r, n, cps) \<leftarrow> next_loop now (cp_config s) (at_capacity s) (Some 0) (num_waiting s) (closest_peers s);
        let s1 = s\<lparr>num_waiting := n, closest_peers := cps\<rparr>;
        case r of
          Some IterFinished \<Rightarrow> Some (IterFinished, s1\<lparr>cp_state := Finished\<rparr>)
        | Some st \<Rightarrow> Some (st, s1)
        | None \<Rightarrow> if n > 0 then Some (IterWaiting None, s1)
                  else Some (IterFinished, s1\<lparr>cp_state := Finished\<rparr>)
      })"

definition Closest_finish :: "'p ClosestPeersIter \<Rightarrow> 'p ClosestPeersIter" where
  "Closest_finish s = s\<lparr>cp_state := Finished\<rparr>"

definition Closest_is_finished :: "'p ClosestPeersIter \<Rightarrow> bool" where
  "Closest_is_finished s \<longleftrightarrow> cp_state s = Finished"

definition Closest_into_result :: "'p ClosestPeersIter \<Rightarrow> 'p list" where
  "Closest_into_result s =
     take (cfg_num_results (cp_config s))
       (map (\<lambda>(d, p). key_preimage (peer_key p)) (filter (\<lambda>(d, p). peer_state p = Succeeded) (closest_peers s)))"

section \<open>The loop of \<open>next\<close>\<close>

definition waiting_count :: "(u256 \<times> 'p Peer) list \<Rightarrow> nat" where
  "waiting_count m = length (filter (\<lambda>(d, p). is_Waiting p) m)"

definition entry_peer :: "u256 \<times> 'p Peer \<Rightarrow> 'p" where
  "entry_peer e = key_preimage (peer_key (snd e))"

definition peers_in :: "(ClosestPeerState \<Rightarrow> bool) \<Rightarrow> (u256 \<times> 'p Peer) list \<Rightarrow> 'p set" where
  "peers_in P m = entry_peer ` {e \<in> set m. P (peer_state (snd e))}"

fun open_state :: "ClosestPeerState \<Rightarrow> bool" where
  "open_state (Waiting _) = True"
| "open_state Unresponsive = True"
| "open_state _ = False"

lemma is_Waiting_upd [simp]: "is_Waiting (p\<lparr>peer_state := st\<rparr>) = (case st of Waiting _ \<Rightarrow> True | _ \<Rightarrow> False)"
  by (simp add: is_Waiting_def)

lemma waiting_count_simps [simp]:
  "waiting_count [] = 0"
  "waiting_count ((d, p) # m) = (if is_Waiting p then Suc (waiting_count m) else waiting_count m)"
  "waiting_count (m @ m') = waiting_count m + waiting_count m'"
  by (simp_all add: waiting_count_def)

lemma peers_in_simps [simp]:
  "peers_in P [] = {}"
  "peers_in P (e # m) = (if P (peer_state (snd e)) then insert (entry_peer e) (peers_in P m) else peers_in P m)"
  by (auto simp: peers_in_def)

lemma entry_peer_upd [simp]: "entry_peer (d, p\<lparr>peer_state := st\<rparr>) = entry_peer (d, p)"
  by (simp add: entry_peer_def)

lemma peers_in_finite: "finite (peers_in P m)"
  by (induction m) auto

lemma open_contacted_peers: "peers_in open_state m \<subseteq> peers_in (\<lambda>st. st \<noteq> NotContacted) m"
  by (auto simp: peers_in_def)

lemma next_loop_ConsE:
  assumes "next_loop now cfg cap cnt nw ((d, p) # ps) = Some (r, n, ps')"
  obtains (ret) r' p' where "visit_peer now cfg cap cnt nw p = Some (Return r', n, p')" "r = Some r'" "ps' = (d, p') # ps"
  | (cont) cnt' nw' p' ps'' where "visit_peer now cfg cap cnt nw p = Some (Continue cnt', nw', p')"
      "next_loop now cfg cap cnt' nw' ps = Some (r, n, ps'')" "ps' = (d, p') # ps''"
  using assms by (auto split: option.splits prod.splits flow.splits)

lemma visit_peer_total: "of_bool (is_Waiting p) \<le> nw \<Longrightarrow> \<exists>f nw' p'. visit_peer now cfg cap cnt nw p = Some (f, nw', p')"
  by (cases "peer_state p") (auto simp: visit_peer_def is_Waiting_def split: option.splits)

lemma visit_peer_waiting:
  "visit_peer now cfg cap cnt nw p = Some (f, nw', p') \<Longrightarrow>
   nw' + of_bool (is_Waiting p) = nw + of_bool (is_Waiting p')"
  by (cases "peer_state p") (auto simp: visit_peer_def is_Waiting_def split: option.splits if_splits bind_splits)

lemma visit_peer_count:
  "visit_peer now cfg cap cnt nw p = Some (f, nw', p') \<Longrightarrow>
   nw' \<le> (case f of Return (IterWaiting (Some q)) \<Rightarrow> nw + 1 | _ \<Rightarrow> nw)"
  by (cases "peer_state p") (auto simp: visit_peer_def split: option.splits if_splits bind_splits)

lemma visit_peer_return:
  "visit_peer now cfg cap cnt nw p = Some (Return r, nw', p') \<Longrightarrow>
   (\<exists>t. r = IterWaiting (Some (key_preimage (peer_key p))) \<and> \<not> cap \<and> peer_state p = NotContacted \<and> p' = p\<lparr>peer_state := Waiting t\<rparr>) \<or>
   r = IterWaitingAtCapacity \<and> p' = p \<or>
   r = IterFinished \<and> p' = p \<and> peer_state p = Succeeded \<and> (\<exists>c. cnt = Some c \<and> cfg_num_results cfg \<le> c + 1)"
  by (cases "peer_state p") (auto simp: visit_peer_def split: option.splits if_splits bind_splits)

lemma visit_peer_continue:
  "visit_peer now cfg cap cnt nw p = Some (Continue cnt', nw', p') \<Longrightarrow>
   peer_key p' = peer_key p \<and> peer_state p \<noteq> NotContacted \<and> peer_state p' \<noteq> NotContacted \<and>
   open_state (peer_state p') = open_state (peer_state p) \<and>
   (peer_state p' = Succeeded \<longleftrightarrow> peer_state p = Succeeded) \<and>
   (is_Waiting p' \<longrightarrow> cnt' = None) \<and>
   (cnt' = None \<or> (\<exists>c. cnt = Some c \<and> cnt' = Some (c + of_bool (peer_state p = Succeeded))))"
  by (cases "peer_state p") (auto simp: visit_peer_def is_Waiting_def split: option.splits if_splits bind_splits)

lemma next_loop_total:
  "waiting_count ps \<le> nw \<Longrightarrow>
   \<exists>r n ps'. next_loop now cfg cap cnt nw ps = Some (r, n, ps') \<and> n + waiting_count ps = nw + waiting_count ps'"
proof (induction ps arbitrary: cnt nw)
  case (Cons e ps)
  obtain d p where e: "e = (d, p)" by fastforce
  from visit_peer_total [of p nw now cfg cap cnt] Cons.prems e obtain f nw' p' where
    v: "visit_peer now cfg cap cnt nw p = Some (f, nw', p')" by (auto split: if_splits)
  note w = visit_peer_waiting [OF v]
  show ?case
  proof (cases f)
    case (Return r)
    then show ?thesis using v w e by (auto split: if_splits)
  next
    case (Continue cnt')
    from Cons.IH [of nw' cnt'] w Cons.prems e obtain r n ps' where
      "next_loop now cfg cap cnt' nw' ps = Some (r, n, ps')" "n + waiting_count ps = nw' + waiting_count ps'"
      by (auto split: if_splits)
    then show ?thesis using v w e Continue by (auto split: if_splits)
  qed
qed simp

lemma next_loop_keys:
  "next_loop now cfg cap cnt nw ps = Some (r, n, ps') \<Longrightarrow>
   map (\<lambda>(d, p). (d, peer_key p)) ps' = map (\<lambda>(d, p). (d, peer_key p)) ps"
proof (induction ps arbitrary: cnt nw ps')
  case (Cons e ps)
  obtain d p where e: "e = (d, p)" by fastforce
  from Cons.prems show ?case unfolding e
    by (cases rule: next_loop_ConsE) (auto dest: visit_peer_return visit_peer_continue Cons.IH)
qed simp

lemma next_loop_count:
  "next_loop now cfg cap cnt nw ps = Some (r, n, ps') \<Longrightarrow>
   n \<le> (case r of Some (IterWaiting (Some q)) \<Rightarrow> nw + 1 | _ \<Rightarrow> nw)"
proof (induction ps arbitrary: cnt nw ps')
  case (Cons e ps)
  obtain d p where e: "e = (d, p)" by fastforce
  from Cons.prems show ?case unfolding e
    by (cases rule: next_loop_ConsE)
       (fastforce dest: visit_peer_count Cons.IH split: option.splits PeersIterState.splits)+
qed simp

definition not_contacted :: "(u256 \<times> 'p Peer) list \<Rightarrow> nat" where
  "not_contacted m = length (filter (\<lambda>e. peer_state (snd e) = NotContacted) m)"

abbreviation contacted_in :: "(u256 \<times> 'p Peer) list \<Rightarrow> 'p set" where
  "contacted_in \<equiv> peers_in (\<lambda>st. st \<noteq> NotContacted)"

lemma next_loop_effect:
  "next_loop now cfg cap cnt nw ps = Some (r, n, ps') \<Longrightarrow>
   (\<exists>q. r = Some (IterWaiting (Some q)) \<and> \<not> cap \<and> (\<exists>e \<in> set ps'. entry_peer e = q \<and> is_Waiting (snd e)) \<and>
        (\<exists>e \<in> set ps. entry_peer e = q \<and> peer_state (snd e) = NotContacted) \<and>
        contacted_in ps' = insert q (contacted_in ps) \<and>
        peers_in open_state ps' = insert q (peers_in open_state ps) \<and>
        not_contacted ps' < not_contacted ps) \<or>
   r \<in> {None, Some IterWaitingAtCapacity, Some IterFinished} \<and>
     contacted_in ps' = contacted_in ps \<and> peers_in open_state ps' = peers_in open_state ps"
proof (induction ps arbitrary: cnt nw ps')
  case (Cons e ps)
  obtain d p where e: "e = (d, p)" by fastforce
  from Cons.prems [unfolded e] show ?case
  proof (cases rule: next_loop_ConsE)
    case (ret r' p')
    from visit_peer_return [OF ret(1)] consider
        t where "r' = IterWaiting (Some (entry_peer (d, p)))" "\<not> cap" "peer_state p = NotContacted" "p' = p\<lparr>peer_state := Waiting t\<rparr>"
      | "r' \<in> {IterWaitingAtCapacity, IterFinished}" "p' = p"
      by (auto simp: entry_peer_def)
    then show ?thesis
      using ret by cases (simp_all add: e not_contacted_def)
  next
    case (cont cnt' nw' p' ps'')
    from visit_peer_continue [OF cont(1)] have
      p': "entry_peer (d, p') = entry_peer (d, p)" "peer_state p \<noteq> NotContacted" "peer_state p' \<noteq> NotContacted"
        "open_state (peer_state p') = open_state (peer_state p)" by (auto simp: entry_peer_def)
    from Cons.IH [OF cont(2)] show ?thesis
      using p' cont(3) by (auto simp: e not_contacted_def)
  qed
qed simp

text \<open>When the loop returns \<open>Finished\<close>, enough of the closest peers have succeeded.\<close>

fun settled :: "ClosestPeerState \<Rightarrow> bool" where
  "settled NotContacted = False"
| "settled (Waiting _) = False"
| "settled _ = True"

definition succeeded :: "u256 \<times> 'p Peer \<Rightarrow> bool" where
  "succeeded e \<longleftrightarrow> peer_state (snd e) = Succeeded"

lemma settled_iff: "settled (peer_state p) \<longleftrightarrow> peer_state p \<noteq> NotContacted \<and> \<not> is_Waiting p"
  by (cases "peer_state p") (auto simp: is_Waiting_def)

lemma next_loop_finished:
  "next_loop now cfg cap cnt nw ps = Some (Some IterFinished, n, ps') \<Longrightarrow>
   \<exists>c a b. cnt = Some c \<and> ps' = a @ b \<and> (\<forall>e \<in> set a. settled (peer_state (snd e))) \<and>
           cfg_num_results cfg \<le> c + length (filter succeeded a)"
proof (induction ps arbitrary: cnt nw ps')
  case (Cons e ps)
  obtain d p where e: "e = (d, p)" by fastforce
  from Cons.prems [unfolded e] show ?case
  proof (cases rule: next_loop_ConsE)
    case (ret r' p')
    then obtain c where c: "cnt = Some c" "cfg_num_results cfg \<le> c + 1" "peer_state p = Succeeded" "p' = p"
      using visit_peer_return [OF ret(1)] by auto
    have "ps' = [(d, p)] @ ps \<and> (\<forall>e \<in> set [(d, p)]. settled (peer_state (snd e))) \<and>
        cfg_num_results cfg \<le> c + length (filter succeeded [(d, p)])"
      using ret c by (simp add: succeeded_def)
    with c(1) show ?thesis by blast
  next
    case (cont cnt' nw' p' ps'')
    from Cons.IH [OF cont(2)] obtain c a b where
      ab: "cnt' = Some c" "ps'' = a @ b" "\<forall>e \<in> set a. settled (peer_state (snd e))"
        "cfg_num_results cfg \<le> c + length (filter succeeded a)" by blast
    from visit_peer_continue [OF cont(1)] ab(1) obtain c0 where
      c0: "cnt = Some c0" "c = c0 + of_bool (peer_state p' = Succeeded)" "settled (peer_state p')"
      by (auto simp: settled_iff)
    have "ps' = ((d, p') # a) @ b \<and> (\<forall>e \<in> set ((d, p') # a). settled (peer_state (snd e))) \<and>
        cfg_num_results cfg \<le> c0 + length (filter succeeded ((d, p') # a))"
      using ab c0 cont(3) by (auto simp: succeeded_def)
    with c0(1) show ?thesis by blast
  qed
qed simp

lemma next_loop_exhausted:
  "next_loop now cfg cap cnt nw ps = Some (None, n, ps') \<Longrightarrow> \<forall>e \<in> set ps'. peer_state (snd e) \<noteq> NotContacted"
proof (induction ps arbitrary: cnt nw ps')
  case (Cons e ps)
  obtain d p where e: "e = (d, p)" by fastforce
  from Cons.prems [unfolded e] show ?case
  proof (cases rule: next_loop_ConsE)
    case (cont cnt' nw' p' ps'')
    then show ?thesis using Cons.IH [OF cont(2)] visit_peer_continue [OF cont(1)] by auto
  qed simp
qed simp

lemma next_loop_capacity:
  "next_loop now cfg False cnt nw ps = Some (r, n, ps') \<Longrightarrow> r \<noteq> Some IterWaitingAtCapacity"
proof (induction ps arbitrary: cnt nw ps')
  case (Cons e ps)
  obtain d p where e: "e = (d, p)" by fastforce
  from Cons.prems [unfolded e] show ?case
  proof (cases rule: next_loop_ConsE)
    case (ret r' p')
    then show ?thesis
      by (cases "peer_state p") (auto simp: visit_peer_def split: option.splits if_splits bind_splits)
  next
    case (cont cnt' nw' p' ps'')
    then show ?thesis using Cons.IH by blast
  qed
qed simp

section \<open>The invariant\<close>

definition entry_ok :: "('p \<Rightarrow> u256) \<Rightarrow> u256 \<Rightarrow> u256 \<times> 'p Peer \<Rightarrow> bool" where
  "entry_ok digest target e \<longleftrightarrow>
     peer_key (snd e) = Key_from digest (entry_peer e) \<and> fst e = KeyBytes_distance target (digest (entry_peer e))"

definition closest_inv :: "('p \<Rightarrow> u256) \<Rightarrow> 'p ClosestPeersIter \<Rightarrow> bool" where
  "closest_inv digest s \<longleftrightarrow>
     bt_inv (closest_peers s) \<and> (\<forall>e \<in> set (closest_peers s). entry_ok digest (cp_target s) e) \<and>
     num_waiting s = waiting_count (closest_peers s) \<and>
     0 < cfg_parallelism (cp_config s) \<and> 0 < cfg_num_results (cp_config s) \<and>
     num_waiting s \<le> max (cfg_num_results (cp_config s)) (cfg_parallelism (cp_config s))"

definition closest_contacted :: "('p \<Rightarrow> u256) \<Rightarrow> 'p ClosestPeersIter \<Rightarrow> u256 set" where
  "closest_contacted digest s = digest ` contacted_in (closest_peers s)"

definition closest_open :: "('p \<Rightarrow> u256) \<Rightarrow> 'p ClosestPeersIter \<Rightarrow> u256 set" where
  "closest_open digest s = (if cp_state s = Finished then {} else digest ` peers_in open_state (closest_peers s))"

lemma closest_inv_state [simp]: "closest_inv digest (s\<lparr>cp_state := st\<rparr>) = closest_inv digest s"
  by (simp add: closest_inv_def)

lemma distance_inj: "KeyBytes_distance t a = KeyBytes_distance t b \<Longrightarrow> a = b"
  by (metis KeyBytes_distance_def xor_cancel)

lemma closest_unique:
  assumes "closest_inv digest s" and "e \<in> set (closest_peers s)" and "e' \<in> set (closest_peers s)"
    and "digest (entry_peer e) = digest (entry_peer e')"
  shows "e = e'"
proof -
  have "fst e = fst e'" using assms by (auto simp: closest_inv_def entry_ok_def)
  moreover have "distinct (map fst (closest_peers s))"
    using assms(1) by (simp add: closest_inv_def bt_inv_distinct)
  ultimately show ?thesis using assms(2,3) by (metis eq_key_imp_eq_value prod.collapse)
qed

lemma Closest_with_config_inv:
  assumes "0 < cfg_parallelism cfg" and "0 < cfg_num_results cfg" and "\<And>k. k \<in> set known \<Longrightarrow> k = Key_from digest (key_preimage k)"
  shows "closest_inv digest (Closest_with_config cfg target known)"
    and "closest_contacted digest (Closest_with_config cfg target known) = {}"
    and "closest_open digest (Closest_with_config cfg target known) = {}"
proof -
  let ?s = "Closest_with_config cfg target known"
  let ?kv = "\<lambda>k. (Key_distance k target, \<lparr>peer_key = k, peer_state = NotContacted\<rparr>)"
  have sub: "set (closest_peers ?s) \<subseteq> ?kv ` set known"
    using bt_from_list_set [of "take K_VALUE (map ?kv known)"] set_take_subset [of K_VALUE "map ?kv known"]
    by (auto simp: Closest_with_config_def)
  then have none: "peer_state (snd e) = NotContacted" if "e \<in> set (closest_peers ?s)" for e using that by auto
  then have "peers_in P (closest_peers ?s) = {}" if "\<not> P NotContacted" for P
    using that by (auto simp: peers_in_def)
  then show "closest_contacted digest ?s = {}" "closest_open digest ?s = {}"
    by (auto simp: closest_contacted_def closest_open_def)
  have "waiting_count (closest_peers ?s) = 0"
    using none by (force simp: waiting_count_def is_Waiting_def filter_empty_conv)
  moreover have "entry_ok digest target e" if "e \<in> set (closest_peers ?s)" for e
  proof -
    from that sub obtain k where k: "k \<in> set known" "e = ?kv k" by auto
    then show ?thesis
      using assms(3) [OF k(1)]
      by (simp add: entry_ok_def entry_peer_def Key_distance_def KeyBytes_distance_def Key_from_def xor.commute)
         (metis key.select_convs(2))
  qed
  moreover have "bt_inv (closest_peers ?s)" by (simp add: Closest_with_config_def bt_from_list_inv)
  ultimately show "closest_inv digest ?s" using assms(1,2) by (simp add: closest_inv_def Closest_with_config_def)
qed

section \<open>Every call keeps the invariant\<close>

lemma next_loop_entries:
  assumes "next_loop now cfg cap cnt nw ps = Some (r, n, ps')"
  shows "bt_inv ps' = bt_inv ps" and "(\<forall>e \<in> set ps'. entry_ok digest t e) = (\<forall>e \<in> set ps. entry_ok digest t e)"
proof -
  note k = next_loop_keys [OF assms]
  from arg_cong [OF k, of "map fst"] have "map fst ps' = map fst ps" by (simp add: comp_def case_prod_beta)
  then show "bt_inv ps' = bt_inv ps" by (simp add: bt_inv_def)
  have ok: "(\<forall>e \<in> set m. entry_ok digest t e) \<longleftrightarrow>
      (\<forall>(d, key) \<in> set (map (\<lambda>(d, p). (d, peer_key p)) m). key = Key_from digest (key_preimage key) \<and>
          d = KeyBytes_distance t (digest (key_preimage key)))" for m :: "(u256 \<times> 'a Peer) list"
    by (auto simp: entry_ok_def entry_peer_def case_prod_beta)
  show "(\<forall>e \<in> set ps'. entry_ok digest t e) = (\<forall>e \<in> set ps. entry_ok digest t e)"
    by (simp only: ok k)
qed

lemma Closest_next_ok:
  assumes inv: "closest_inv digest s" and run: "cp_state s \<noteq> Finished"
  obtains r n cps where "next_loop now (cp_config s) (at_capacity s) (Some 0) (num_waiting s) (closest_peers s) = Some (r, n, cps)"
    and "n = waiting_count cps"
    and "Closest_next now s = Some (case r of Some r' \<Rightarrow> r' | None \<Rightarrow> if n > 0 then IterWaiting None else IterFinished,
           s\<lparr>num_waiting := n, closest_peers := cps,
             cp_state := if r = Some IterFinished \<or> r = None \<and> n = 0 then Finished else cp_state s\<rparr>)"
    and "\<forall>st. closest_inv digest (s\<lparr>num_waiting := n, closest_peers := cps, cp_state := st\<rparr>)"
proof -
  let ?c = "cp_config s"
  have nw: "num_waiting s = waiting_count (closest_peers s)" using inv by (simp add: closest_inv_def)
  from next_loop_total [of "closest_peers s" "num_waiting s" now ?c "at_capacity s" "Some 0"] nw obtain r n cps where
    l: "next_loop now ?c (at_capacity s) (Some 0) (num_waiting s) (closest_peers s) = Some (r, n, cps)"
      "n = waiting_count cps" by auto
  have nx: "Closest_next now s = Some (case r of Some r' \<Rightarrow> r' | None \<Rightarrow> if n > 0 then IterWaiting None else IterFinished,
           s\<lparr>num_waiting := n, closest_peers := cps,
             cp_state := if r = Some IterFinished \<or> r = None \<and> n = 0 then Finished else cp_state s\<rparr>)"
    using run l(1) by (auto simp: Closest_next_def Let_def split: option.splits PeersIterState.splits)
  have "n \<le> max (cfg_num_results ?c) (cfg_parallelism ?c)"
  proof (cases "at_capacity s")
    case True
    then have "n \<le> num_waiting s"
      using next_loop_effect [OF l(1)] next_loop_count [OF l(1)] by (auto split: option.splits PeersIterState.splits)
    then show ?thesis using inv by (simp add: closest_inv_def)
  next
    case False
    moreover have "n \<le> num_waiting s + 1"
      using next_loop_count [OF l(1)] by (auto split: option.splits PeersIterState.splits)
    ultimately show ?thesis using run by (auto simp: at_capacity_def split: ClosestState.splits)
  qed
  then have "closest_inv digest (s\<lparr>num_waiting := n, closest_peers := cps, cp_state := st\<rparr>)" for st
    using inv l(2) next_loop_entries [OF l(1)] by (simp add: closest_inv_def)
  then show ?thesis using that l nx by blast
qed

lemma bt_modify_absent: "d \<notin> fst ` set m \<Longrightarrow> bt_modify d f m = m"
  unfolding bt_modify_def by (induction m) auto

lemma own_distance:
  "Key_distance (Key_from digest p) t = KeyBytes_distance t (digest p)"
  by (simp add: Key_distance_def Key_from_def KeyBytes_distance_def xor.commute)

lemma closest_split:
  assumes inv: "closest_inv digest s" and q: "map_of (closest_peers s) (KeyBytes_distance (cp_target s) (digest p)) = Some q"
  obtains d a b where "d = KeyBytes_distance (cp_target s) (digest p)" and "closest_peers s = a @ (d, q) # b"
    and "\<And>f. bt_modify d f (closest_peers s) = a @ (d, f q) # b"
    and "\<And>e. e \<in> set a \<union> set b \<Longrightarrow> digest (entry_peer e) \<noteq> digest p"
    and "digest (entry_peer (d, q)) = digest p"
proof -
  define d where "d = KeyBytes_distance (cp_target s) (digest p)"
  have bt: "bt_inv (closest_peers s)" and ok: "\<And>e. e \<in> set (closest_peers s) \<Longrightarrow> entry_ok digest (cp_target s) e"
    using inv by (simp_all add: closest_inv_def)
  have "(d, q) \<in> set (closest_peers s)" using q unfolding d_def by (rule map_of_SomeD)
  then obtain a b where ab: "closest_peers s = a @ (d, q) # b" by (metis split_list)
  have na: "d \<notin> fst ` set a" "d \<notin> fst ` set b"
    using bt_inv_distinct [OF bt] unfolding ab by auto
  have "digest (entry_peer (d, q)) = digest p"
    using ok [of "(d, q)"] distance_inj unfolding ab entry_ok_def d_def by (metis fst_conv in_set_conv_decomp)
  moreover have "digest (entry_peer e) \<noteq> digest p" if "e \<in> set a \<union> set b" for e
  proof
    assume "digest (entry_peer e) = digest p"
    then have "fst e = d" using ok [of e] that ab unfolding entry_ok_def d_def by auto
    then show False using that na by (metis UnE imageI)
  qed
  moreover have "bt_modify d f (closest_peers s) = a @ (d, f q) # b" for f
    using bt_modify_absent [OF na(1), of f] bt_modify_absent [OF na(2), of f] unfolding ab by (simp add: bt_modify_def)
  ultimately show ?thesis using that [OF d_def ab] by blast
qed

lemma peers_in_mid:
  "peers_in P (a @ e # b) = peers_in P a \<union> peers_in P b \<union> (if P (peer_state (snd e)) then {entry_peer e} else {})"
  by (auto simp: peers_in_def)

definition marked :: "('p \<Rightarrow> u256) \<Rightarrow> 'p \<Rightarrow> 'p ClosestPeersIter \<Rightarrow> 'p ClosestPeersIter \<Rightarrow> bool" where
  "marked digest p s s1 \<longleftrightarrow>
     closest_inv digest s1 \<and> cp_state s1 = cp_state s \<and> cp_config s1 = cp_config s \<and> cp_target s1 = cp_target s \<and>
     map fst (closest_peers s1) = map fst (closest_peers s) \<and>
     digest ` contacted_in (closest_peers s1) = digest ` contacted_in (closest_peers s) \<and>
     digest p \<in> digest ` peers_in open_state (closest_peers s) \<and>
     digest ` peers_in open_state (closest_peers s1) = digest ` peers_in open_state (closest_peers s) - {digest p}"

lemma closest_mark:
  assumes inv: "closest_inv digest s" and st: "st = Succeeded \<or> st = Failed"
  shows "mark_peer s (Key_distance (Key_from digest p) (cp_target s)) st = Some None \<or>
    (\<exists>s1. mark_peer s (Key_distance (Key_from digest p) (cp_target s)) st = Some (Some s1) \<and> marked digest p s s1)"
proof (cases "\<exists>q. map_of (closest_peers s) (KeyBytes_distance (cp_target s) (digest p)) = Some q \<and> open_state (peer_state q)")
  case False
  then show ?thesis
    by (auto simp: mark_peer_def own_distance split: option.splits ClosestPeerState.splits)
next
  case True
  then obtain q where q: "map_of (closest_peers s) (KeyBytes_distance (cp_target s) (digest p)) = Some q"
    and open_q: "open_state (peer_state q)" by blast
  from closest_split [OF inv q] obtain d a b where d: "d = KeyBytes_distance (cp_target s) (digest p)"
    and ab: "closest_peers s = a @ (d, q) # b" and md: "\<And>f. bt_modify d f (closest_peers s) = a @ (d, f q) # b"
    and others: "\<And>e. e \<in> set a \<union> set b \<Longrightarrow> digest (entry_peer e) \<noteq> digest p"
    and dq: "digest (entry_peer (d, q)) = digest p" by metis
  let ?q = "q\<lparr>peer_state := st\<rparr>"
  let ?m = "a @ (d, ?q) # b"
  let ?s = "s\<lparr>num_waiting := waiting_count ?m, closest_peers := ?m\<rparr>"
  have nw: "num_waiting s = waiting_count a + of_bool (is_Waiting q) + waiting_count b"
    using inv unfolding closest_inv_def ab by simp
  have wc: "waiting_count ?m = waiting_count a + waiting_count b" using st by auto
  have "entry_ok digest (cp_target s) (d, ?q) = entry_ok digest (cp_target s) (d, q)"
    by (simp add: entry_ok_def)
  moreover have "waiting_count ?m \<le> num_waiting s" using nw wc by simp
  ultimately have inv': "closest_inv digest ?s"
    using inv unfolding closest_inv_def by (simp add: ab bt_inv_def)
  have op: "digest ` peers_in open_state ?m = digest ` peers_in open_state (closest_peers s) - {digest p}"
    using others dq open_q st unfolding ab peers_in_mid by (auto simp: peers_in_def)
  have ct: "digest ` contacted_in ?m = digest ` contacted_in (closest_peers s)"
    using open_q st unfolding ab peers_in_mid by auto
  have "mark_peer s d st = Some (Some ?s)"
    using q [folded d] open_q md nw wc by (cases "peer_state q") (simp_all add: mark_peer_def is_Waiting_def)
  moreover have "digest p \<in> digest ` peers_in open_state (closest_peers s)"
    using dq open_q unfolding ab peers_in_mid by auto
  moreover have "map fst ?m = map fst (closest_peers s)" by (simp add: ab)
  ultimately show ?thesis using inv' op ct by (simp add: d own_distance marked_def)
qed

lemma incorporate_ok:
  "bt_inv m \<Longrightarrow> \<forall>e \<in> set m. entry_ok digest target e \<Longrightarrow>
   incorporate digest target nc nr ps m pr = (m', pr') \<Longrightarrow>
   bt_inv m' \<and> (\<forall>e \<in> set m'. entry_ok digest target e) \<and> waiting_count m' = waiting_count m \<and>
   contacted_in m' = contacted_in m \<and> peers_in open_state m' = peers_in open_state m"
proof (induction ps arbitrary: m pr)
  case (Cons p ps)
  let ?d = "KeyBytes_distance target (digest p)"
  let ?v = "\<lparr>peer_key = Key_from digest p, peer_state = NotContacted\<rparr>"
  let ?m = "bt_or_insert ?d ?v m"
  have run: "\<exists>b. incorporate digest target nc nr ps ?m b = (m', pr')"
    using Cons.prems(3) by (auto simp: Let_def Key_from_def)
  have bt: "bt_inv ?m" using Cons.prems(1) by (rule bt_or_insert_inv)
  have ok: "\<forall>e \<in> set ?m. entry_ok digest target e"
    using Cons.prems by (auto simp: bt_or_insert_set entry_ok_def entry_peer_def Key_from_def)
  have sets: "peers_in P ?m = peers_in P m" if "\<not> P NotContacted" for P
    using that Cons.prems(1) by (auto simp: peers_in_def bt_or_insert_set)
  have "waiting_count ?m = waiting_count m"
  proof (cases "map_of m ?d")
    case None
    from bt_insert_fresh [OF this, of ?v] obtain a b where ab: "m = a @ b" "bt_insert ?d ?v m = a @ (?d, ?v) # b" by blast
    have "?m = a @ (?d, ?v) # b" using None ab(2) by (simp add: bt_or_insert_def)
    then show ?thesis by (simp add: ab(1) is_Waiting_def)
  qed (simp add: bt_or_insert_def)
  moreover have "contacted_in ?m = contacted_in m" "peers_in open_state ?m = peers_in open_state m"
    by (rule sets, simp)+
  moreover from run obtain b where "incorporate digest target nc nr ps ?m b = (m', pr')" ..
  from Cons.IH [OF bt ok this] have "bt_inv m' \<and> (\<forall>e \<in> set m'. entry_ok digest target e) \<and>
    waiting_count m' = waiting_count ?m \<and> contacted_in m' = contacted_in ?m \<and> peers_in open_state m' = peers_in open_state ?m" .
  ultimately show ?case by simp
qed simp

lemma advance_state_finished: "st \<noteq> Finished \<Longrightarrow> advance_state cfg st pr \<noteq> Finished"
  by (auto simp: advance_state_def Let_def split: ClosestState.splits)

lemma Closest_on_success_ok:
  assumes inv: "closest_inv digest s"
  shows "\<exists>b s'. Closest_on_success digest p ps s = Some (b, s') \<and> closest_inv digest s' \<and>
    closest_contacted digest s' = closest_contacted digest s \<and>
    (if b then digest p \<in> closest_open digest s \<and> closest_open digest s' = closest_open digest s - {digest p} else s' = s)"
proof (cases "cp_state s = Finished")
  case True
  then show ?thesis using inv by (auto simp: Closest_on_success_def)
next
  case False
  let ?d = "Key_distance (Key_from digest p) (cp_target s)"
  from closest_mark [OF inv disjI1 [OF refl], of p] consider "mark_peer s ?d Succeeded = Some None"
    | s1 where "mark_peer s ?d Succeeded = Some (Some s1)" "marked digest p s s1" by blast
  then show ?thesis
  proof cases
    case 1
    then show ?thesis using False inv by (auto simp: Closest_on_success_def)
  next
    case s1: 2
    obtain cps pr where ic: "incorporate digest (cp_target s) (length (closest_peers s1))
        (cfg_num_results (cp_config s)) ps (closest_peers s1) False = (cps, pr)" by fastforce
    have inv1: "closest_inv digest s1" and f: "cp_state s1 = cp_state s" "cp_config s1 = cp_config s" "cp_target s1 = cp_target s"
      using s1(2) by (simp_all add: marked_def)
    have cps: "bt_inv cps \<and> (\<forall>e \<in> set cps. entry_ok digest (cp_target s) e) \<and> waiting_count cps = waiting_count (closest_peers s1) \<and>
        contacted_in cps = contacted_in (closest_peers s1) \<and> peers_in open_state cps = peers_in open_state (closest_peers s1)"
      using inv1 f(3) by (intro incorporate_ok [OF _ _ ic]) (auto simp: closest_inv_def)
    let ?s' = "s1\<lparr>closest_peers := cps, cp_state := advance_state (cp_config s) (cp_state s) pr\<rparr>"
    have "Closest_on_success digest p ps s = Some (True, ?s')"
      using False s1(1) ic by (simp add: Closest_on_success_def)
    moreover have "closest_inv digest ?s'" using inv1 cps f by (auto simp: closest_inv_def)
    moreover have "closest_contacted digest ?s' = closest_contacted digest s"
      using s1(2) cps by (simp add: closest_contacted_def marked_def)
    moreover have "digest p \<in> closest_open digest s \<and> closest_open digest ?s' = closest_open digest s - {digest p}"
      using s1(2) cps False advance_state_finished [OF False] by (simp add: closest_open_def marked_def)
    ultimately show ?thesis by (intro exI [of _ True] exI [of _ ?s']) simp
  qed
qed

lemma Closest_on_failure_ok:
  assumes inv: "closest_inv digest s"
  shows "\<exists>b s'. Closest_on_failure digest p s = Some (b, s') \<and> closest_inv digest s' \<and>
    closest_contacted digest s' = closest_contacted digest s \<and>
    (if b then digest p \<in> closest_open digest s \<and> closest_open digest s' = closest_open digest s - {digest p} else s' = s)"
proof (cases "cp_state s = Finished")
  case True
  then show ?thesis using inv by (auto simp: Closest_on_failure_def)
next
  case False
  let ?d = "Key_distance (Key_from digest p) (cp_target s)"
  from closest_mark [OF inv disjI2 [OF refl], of p] consider "mark_peer s ?d Failed = Some None"
    | s1 where "mark_peer s ?d Failed = Some (Some s1)" "marked digest p s s1" by blast
  then show ?thesis
    using False inv
    by cases (auto simp: Closest_on_failure_def marked_def closest_contacted_def closest_open_def)
qed

lemma Closest_next_effect:
  assumes inv: "closest_inv digest s"
  shows "\<exists>r s'. Closest_next now s = Some (r, s') \<and> closest_inv digest s' \<and>
      (case r of
         IterWaiting (Some p) \<Rightarrow> digest p \<notin> closest_contacted digest s \<and>
           closest_contacted digest s' = insert (digest p) (closest_contacted digest s) \<and>
           closest_open digest s' = insert (digest p) (closest_open digest s) \<and>
           not_contacted (closest_peers s') < not_contacted (closest_peers s)
       | _ \<Rightarrow> closest_contacted digest s' = closest_contacted digest s \<and> closest_open digest s' \<subseteq> closest_open digest s)"
proof (cases "cp_state s = Finished")
  case True
  then show ?thesis using inv by (simp add: Closest_next_def)
next
  case False
  obtain r n cps where
    l: "next_loop now (cp_config s) (at_capacity s) (Some 0) (num_waiting s) (closest_peers s) = Some (r, n, cps)"
    and "n = waiting_count cps"
    and nx: "Closest_next now s = Some (case r of Some r' \<Rightarrow> r' | None \<Rightarrow> if n > 0 then IterWaiting None else IterFinished,
           s\<lparr>num_waiting := n, closest_peers := cps,
             cp_state := if r = Some IterFinished \<or> r = None \<and> n = 0 then Finished else cp_state s\<rparr>)"
    and inv': "\<forall>st. closest_inv digest (s\<lparr>num_waiting := n, closest_peers := cps, cp_state := st\<rparr>)"
    by (rule Closest_next_ok [OF inv False, of now])
  note eff = next_loop_effect [OF l]
  show ?thesis
  proof (cases "\<exists>q. r = Some (IterWaiting (Some q))")
    case True
    then obtain q where q: "r = Some (IterWaiting (Some q))" by blast
    with eff obtain e where e: "e \<in> set (closest_peers s)" "entry_peer e = q" "peer_state (snd e) = NotContacted"
      and c: "contacted_in cps = insert q (contacted_in (closest_peers s))"
        "peers_in open_state cps = insert q (peers_in open_state (closest_peers s))"
        "not_contacted cps < not_contacted (closest_peers s)" by auto
    have "digest q \<notin> closest_contacted digest s"
      using closest_unique [OF inv e(1)] e(2,3) by (auto simp: closest_contacted_def peers_in_def)
    then show ?thesis using q c nx inv' False by (simp add: closest_contacted_def closest_open_def)
  next
    case no: False
    with eff have c: "r \<in> {None, Some IterWaitingAtCapacity, Some IterFinished}"
        "contacted_in cps = contacted_in (closest_peers s)"
        "peers_in open_state cps = peers_in open_state (closest_peers s)" by auto
    then show ?thesis
      using nx inv' False by (elim insertE) (simp_all add: closest_contacted_def closest_open_def)
  qed
qed

interpretation closest: peers_iter digest "closest_inv digest" "closest_contacted digest" "closest_open digest"
  Closest_next "Closest_on_success digest" "Closest_on_failure digest" Closest_finish
  for digest :: "'p \<Rightarrow> u256"
proof
  fix s :: "'p ClosestPeersIter" and now p ps
  assume inv: "closest_inv digest s"
  show "finite (closest_open digest s) \<and> closest_open digest s \<subseteq> closest_contacted digest s"
    using open_contacted_peers [of "closest_peers s"]
    by (auto simp: closest_open_def closest_contacted_def peers_in_finite)
  show "\<exists>r s'. Closest_next now s = Some (r, s') \<and> closest_inv digest s' \<and>
      (case r of
         IterWaiting (Some p) \<Rightarrow> digest p \<notin> closest_contacted digest s \<and>
           closest_contacted digest s' = insert (digest p) (closest_contacted digest s) \<and>
           closest_open digest s' \<subseteq> insert (digest p) (closest_open digest s)
       | _ \<Rightarrow> closest_contacted digest s' = closest_contacted digest s \<and> closest_open digest s' \<subseteq> closest_open digest s)"
  proof -
    from Closest_next_effect [OF inv, of now] obtain r s' where nx: "Closest_next now s = Some (r, s')" "closest_inv digest s'"
      and eff: "(case r of
         IterWaiting (Some p) \<Rightarrow> digest p \<notin> closest_contacted digest s \<and>
           closest_contacted digest s' = insert (digest p) (closest_contacted digest s) \<and>
           closest_open digest s' = insert (digest p) (closest_open digest s) \<and>
           not_contacted (closest_peers s') < not_contacted (closest_peers s)
       | _ \<Rightarrow> closest_contacted digest s' = closest_contacted digest s \<and> closest_open digest s' \<subseteq> closest_open digest s)"
      by blast
    show ?thesis using nx eff by (intro exI [of _ r] exI [of _ s']) (simp split: PeersIterState.splits option.splits)
  qed
  show "\<exists>b s'. Closest_on_success digest p ps s = Some (b, s') \<and> closest_inv digest s' \<and>
      closest_contacted digest s' = closest_contacted digest s \<and>
      (if b then digest p \<in> closest_open digest s \<and> closest_open digest s' \<subseteq> closest_open digest s - {digest p}
       else closest_open digest s' \<subseteq> closest_open digest s)"
  proof -
    from Closest_on_success_ok [OF inv, of p ps] obtain b s' where "Closest_on_success digest p ps s = Some (b, s')" "closest_inv digest s'"
      "closest_contacted digest s' = closest_contacted digest s"
      "if b then digest p \<in> closest_open digest s \<and> closest_open digest s' = closest_open digest s - {digest p} else s' = s"
      by blast
    then show ?thesis by (intro exI [of _ b] exI [of _ s']) (cases b, simp_all)
  qed
  show "\<exists>b s'. Closest_on_failure digest p s = Some (b, s') \<and> closest_inv digest s' \<and>
      closest_contacted digest s' = closest_contacted digest s \<and>
      (if b then digest p \<in> closest_open digest s \<and> closest_open digest s' \<subseteq> closest_open digest s - {digest p}
       else closest_open digest s' \<subseteq> closest_open digest s)"
  proof -
    from Closest_on_failure_ok [OF inv, of p] obtain b s' where "Closest_on_failure digest p s = Some (b, s')" "closest_inv digest s'"
      "closest_contacted digest s' = closest_contacted digest s"
      "if b then digest p \<in> closest_open digest s \<and> closest_open digest s' = closest_open digest s - {digest p} else s' = s"
      by blast
    then show ?thesis by (intro exI [of _ b] exI [of _ s']) (cases b, simp_all)
  qed
  show "closest_inv digest (Closest_finish s) \<and> closest_contacted digest (Closest_finish s) = closest_contacted digest s \<and>
      closest_open digest (Closest_finish s) \<subseteq> closest_open digest s"
    using inv by (simp add: Closest_finish_def closest_inv_def closest_contacted_def closest_open_def)
qed

section \<open>Properties of the iterator\<close>

abbreviation closest_run :: "('p \<Rightarrow> u256) \<Rightarrow> 'p ClosestPeersIter \<Rightarrow> 'p iter_op list
    \<Rightarrow> ('p iter_event list \<times> 'p ClosestPeersIter) option" where
  "closest_run digest \<equiv>
     iter_run Closest_next (Closest_on_success digest) (Closest_on_failure digest) Closest_finish"

lemma mark_peer_config: "mark_peer s d st = Some (Some s1) \<Longrightarrow> cp_config s1 = cp_config s"
  by (auto simp: mark_peer_def split: option.splits ClosestPeerState.splits bind_splits)

lemma Closest_next_config: "Closest_next now s = Some (r, s') \<Longrightarrow> cp_config s' = cp_config s"
  by (auto simp: Closest_next_def Let_def split: if_splits bind_splits option.splits PeersIterState.splits)

lemma Closest_on_success_config: "Closest_on_success digest p ps s = Some (b, s') \<Longrightarrow> cp_config s' = cp_config s"
  by (auto simp: Closest_on_success_def Let_def split: if_splits bind_splits option.splits prod.splits dest: mark_peer_config)

lemma Closest_on_failure_config: "Closest_on_failure digest p s = Some (b, s') \<Longrightarrow> cp_config s' = cp_config s"
  by (auto simp: Closest_on_failure_def split: if_splits bind_splits option.splits dest: mark_peer_config)

lemmas closest_config = Closest_next_config Closest_on_success_config Closest_on_failure_config

lemma closest_run_config:
  "closest_run digest s xs = Some (es, s') \<Longrightarrow> cp_config s' = cp_config s"
proof (rule iter_run_keeps [where f = cp_config])
  fix s x es s'
  assume "iter_step Closest_next (Closest_on_success digest) (Closest_on_failure digest) Closest_finish s x = Some (es, s')"
  then show "cp_config s' = cp_config s"
    by (cases x) (auto dest: closest_config simp: Closest_finish_def)
qed

text \<open>
  C7. A closest-peers iterator, started with any known peers and run by any sequence of calls, does
  not panic; it never contacts a peer twice and accepts at most one result per contacted peer; its
  counter is the number of peers it waits for, and it never waits for more than the larger of
  \<open>parallelism\<close> and \<open>num_results\<close> peers.
\<close>
theorem closest_run_correct:
  assumes "0 < cfg_parallelism cfg" and "0 < cfg_num_results cfg"
    and "\<And>k. k \<in> set known \<Longrightarrow> k = Key_from digest (key_preimage k)"
  shows "\<exists>es s. closest_run digest (Closest_with_config cfg target known) ops = Some (es, s) \<and>
           distinct (map digest (yields es)) \<and> distinct (map digest (accepts es)) \<and>
           set (map digest (accepts es)) \<subseteq> set (map digest (yields es)) \<and>
           num_waiting s = length (Closest_waiting s) \<and>
           num_waiting s \<le> max (cfg_num_results cfg) (cfg_parallelism cfg)"
proof -
  let ?s = "Closest_with_config cfg target known"
  have new: "closest_inv digest ?s" "closest_contacted digest ?s = {}" "closest_open digest ?s = {}"
    by (rule Closest_with_config_inv [OF assms(1,2)], erule assms(3))+
  from closest.run_ok [OF new(1), of ops] obtain es s where
    run: "closest_run digest (Closest_with_config cfg target known) ops = Some (es, s)" and inv: "closest_inv digest s" and
    es: "distinct (map digest (yields es))" "distinct (map digest (accepts es))"
      "set (map digest (accepts es)) \<subseteq> set (map digest (yields es))"
    using new(2,3) by auto
  have "cp_config s = cfg"
    using closest_run_config [OF run] by (simp add: Closest_with_config_def)
  then have "num_waiting s = length (Closest_waiting s)" "num_waiting s \<le> max (cfg_num_results cfg) (cfg_parallelism cfg)"
    using inv by (auto simp: closest_inv_def Closest_waiting_def waiting_count_def)
  then show ?thesis using run es by blast
qed

definition sample_digest :: "nat \<Rightarrow> u256" where
  "sample_digest p = of_nat p"

definition sample_cfg :: ClosestPeersIterConfig where
  "sample_cfg = \<lparr>cfg_parallelism = 1, cfg_num_results = 1, cfg_peer_timeout = 10\<rparr>"

theorem closest_run_correct_witness:
  "\<exists>es s. closest_run sample_digest (Closest_with_config sample_cfg 0 [Key_from sample_digest 3])
            [INext 0, ISuccess 3 [2], INext 1] = Some (es, s) \<and>
          distinct (map sample_digest (yields es)) \<and> num_waiting s \<le> 1"
proof -
  have "k = Key_from sample_digest (key_preimage k)" if "k \<in> set [Key_from sample_digest 3]" for k
    using that by (simp add: Key_from_def)
  then show ?thesis
    using closest_run_correct [of sample_cfg "[Key_from sample_digest 3]" sample_digest 0 "[INext 0, ISuccess 3 [2], INext 1]"]
    unfolding sample_cfg_def by fastforce
qed

lemma Closest_into_result_filter:
  "Closest_into_result s = take (cfg_num_results (cp_config s)) (map entry_peer (filter succeeded (closest_peers s)))"
proof -
  have "(\<lambda>(d, p). peer_state p = Succeeded) = (succeeded :: u256 \<times> 'a Peer \<Rightarrow> bool)"
    and "(\<lambda>(d, p). key_preimage (peer_key p)) = (entry_peer :: u256 \<times> 'a Peer \<Rightarrow> 'a)"
    by (auto simp: succeeded_def entry_peer_def)
  then show ?thesis by (simp add: Closest_into_result_def)
qed

text \<open>
  C5. The end of a lookup: when \<open>next\<close> reports the end, every peer that is still to be contacted or
  waited for is further from the target than every peer of the result, and the result is full; so if
  the result is not full, every known peer has answered, failed or timed out.
\<close>
theorem closest_finished_result:
  assumes inv: "closest_inv digest s" and run: "cp_state s \<noteq> Finished"
    and fin: "Closest_next now s = Some (IterFinished, s')"
    and e: "(d, p) \<in> set (closest_peers s')" and ns: "peer_state p = NotContacted \<or> is_Waiting p"
  shows "length (Closest_into_result s') = cfg_num_results (cp_config s') \<and>
         (\<forall>q \<in> set (Closest_into_result s'). KeyBytes_distance (cp_target s') (digest q) < d)"
proof
  obtain r n cps where
    l: "next_loop now (cp_config s) (at_capacity s) (Some 0) (num_waiting s) (closest_peers s) = Some (r, n, cps)"
    and n: "n = waiting_count cps"
    and nx: "Closest_next now s = Some (case r of Some r' \<Rightarrow> r' | None \<Rightarrow> if n > 0 then IterWaiting None else IterFinished,
           s\<lparr>num_waiting := n, closest_peers := cps,
             cp_state := if r = Some IterFinished \<or> r = None \<and> n = 0 then Finished else cp_state s\<rparr>)"
    and inv': "\<forall>st. closest_inv digest (s\<lparr>num_waiting := n, closest_peers := cps, cp_state := st\<rparr>)"
    by (rule Closest_next_ok [OF inv run, of now])
  have s': "closest_peers s' = cps" "cp_config s' = cp_config s" "cp_target s' = cp_target s"
    using fin nx by auto
  have "r = Some IterFinished"
  proof (rule ccontr)
    assume "r \<noteq> Some IterFinished"
    then have "r = None" "n = 0" using fin nx by (auto split: option.splits if_splits)
    then have "peer_state p \<noteq> NotContacted" "\<not> is_Waiting p"
      using next_loop_exhausted [of now "cp_config s"] l n e s'(1)
      by (force simp: waiting_count_def filter_empty_conv)+
    then show False using ns by blast
  qed
  with next_loop_finished l obtain a b where
    ab: "cps = a @ b" "\<forall>e \<in> set a. settled (peer_state (snd e))" "cfg_num_results (cp_config s) \<le> length (filter succeeded a)"
    by (metis add_0 option.inject)
  have res: "Closest_into_result s' = take (cfg_num_results (cp_config s)) (map entry_peer (filter succeeded a))"
    using ab(1,3) by (simp add: Closest_into_result_filter s')
  then show "length (Closest_into_result s') = cfg_num_results (cp_config s')"
    using ab(3) by (simp add: s')
  have "bt_inv cps" "\<And>e. e \<in> set cps \<Longrightarrow> entry_ok digest (cp_target s) e"
    using inv' by (auto simp: closest_inv_def)
  moreover have "(d, p) \<in> set b" using e ns ab(2) by (auto simp: s' ab(1) settled_iff)
  ultimately have "KeyBytes_distance (cp_target s) (digest (entry_peer e)) < d" if "e \<in> set a" for e
    using that by (fastforce simp: ab(1) bt_inv_def sorted_wrt_append entry_ok_def)
  then show "\<forall>q \<in> set (Closest_into_result s'). KeyBytes_distance (cp_target s') (digest q) < d"
    unfolding res s' by (auto dest!: in_set_takeD)
qed

definition sample_peer :: "nat \<Rightarrow> ClosestPeerState \<Rightarrow> u256 \<times> nat Peer" where
  "sample_peer p st = (of_nat p, \<lparr>peer_key = Key_from sample_digest p, peer_state = st\<rparr>)"

definition sample_closest :: "nat ClosestPeersIter" where
  "sample_closest = \<lparr>cp_config = sample_cfg, cp_target = 0, cp_state = Iterating 0,
     closest_peers = [sample_peer 1 Succeeded, sample_peer 5 NotContacted], num_waiting = 0\<rparr>"

lemma sample_closest_inv: "closest_inv sample_digest sample_closest"
  by (simp add: closest_inv_def sample_closest_def sample_peer_def sample_cfg_def is_Waiting_def
      entry_ok_def entry_peer_def Key_from_def KeyBytes_distance_def sample_digest_def)

theorem closest_finished_result_witness:
  "\<exists>s'. Closest_next 0 sample_closest = Some (IterFinished, s') \<and> length (Closest_into_result s') = 1 \<and>
        (\<forall>q \<in> set (Closest_into_result s'). KeyBytes_distance (cp_target s') (sample_digest q) < 5)"
proof -
  have nx: "Closest_next 0 sample_closest = Some (IterFinished, sample_closest\<lparr>cp_state := Finished\<rparr>)"
    by (simp add: Closest_next_def sample_closest_def sample_peer_def sample_cfg_def visit_peer_def)
  have "(5, snd (sample_peer 5 NotContacted)) \<in> set (closest_peers (sample_closest\<lparr>cp_state := Finished\<rparr>))"
    by (simp add: sample_closest_def sample_peer_def)
  from closest_finished_result [OF sample_closest_inv _ nx this] nx show ?thesis
    by (simp add: sample_closest_def sample_cfg_def sample_peer_def)
qed

text \<open>
  A caller that answers every request at once: \<open>answers p\<close> is the list of closer peers that \<open>p\<close>
  reports, or \<open>None\<close> when the request to \<open>p\<close> fails; the clock reads \<open>clock n\<close> in round \<open>n\<close>.
\<close>

fun closest_drive :: "('p \<Rightarrow> u256) \<Rightarrow> ('p \<Rightarrow> 'p list option) \<Rightarrow> (nat \<Rightarrow> instant) \<Rightarrow> nat
    \<Rightarrow> 'p ClosestPeersIter \<Rightarrow> 'p ClosestPeersIter option" where
  "closest_drive digest answers clock 0 s = None"
| "closest_drive digest answers clock (Suc n) s =
     (case Closest_next (clock n) s of
        Some (IterFinished, s1) \<Rightarrow> Some s1
      | Some (IterWaiting (Some p), s1) \<Rightarrow>
          (case (case answers p of Some ps \<Rightarrow> Closest_on_success digest p ps s1 | None \<Rightarrow> Closest_on_failure digest p s1) of
             Some (_, s2) \<Rightarrow> closest_drive digest answers clock n s2
           | None \<Rightarrow> None)
      | _ \<Rightarrow> None)"

definition known_peers :: "'p ClosestPeersIter \<Rightarrow> 'p set" where
  "known_peers s = entry_peer ` set (closest_peers s)"

lemma known_next: "Closest_next now s = Some (r, s') \<Longrightarrow> known_peers s' = known_peers s"
proof -
  have key: "known_peers t = (\<lambda>(d, k). key_preimage k) ` set (map (\<lambda>(d, p). (d, peer_key p)) (closest_peers t))"
    for t :: "'a ClosestPeersIter"
    by (auto simp: known_peers_def entry_peer_def image_image case_prod_beta)
  assume "Closest_next now s = Some (r, s')"
  then consider "s' = s"
    | r' n where "next_loop now (cp_config s) (at_capacity s) (Some 0) (num_waiting s) (closest_peers s) = Some (r', n, closest_peers s')"
    by (auto simp: Closest_next_def Let_def split: if_splits bind_splits option.splits PeersIterState.splits)
  then show ?thesis
  proof cases
    case 2
    show ?thesis unfolding key next_loop_keys [OF 2] ..
  qed simp
qed

lemma known_mark: "mark_peer s d st = Some (Some s1) \<Longrightarrow> known_peers s1 = known_peers s"
proof -
  have "entry_peer ` set (bt_modify d (\<lambda>p. p\<lparr>peer_state := st\<rparr>) m) = entry_peer ` set m" for m :: "(u256 \<times> 'a Peer) list"
    by (force simp: bt_modify_def entry_peer_def image_iff)
  moreover assume "mark_peer s d st = Some (Some s1)"
  then have "closest_peers s1 = bt_modify d (\<lambda>p. p\<lparr>peer_state := st\<rparr>) (closest_peers s)"
    by (auto simp: mark_peer_def split: option.splits ClosestPeerState.splits bind_splits)
  ultimately show ?thesis by (simp only: known_peers_def)
qed

lemma known_incorporate:
  "bt_inv m \<Longrightarrow> incorporate digest t nc nr ps m pr = (m', pr') \<Longrightarrow> entry_peer ` set m' \<subseteq> entry_peer ` set m \<union> set ps"
proof (induction ps arbitrary: m pr)
  case (Cons p ps)
  let ?v = "\<lparr>peer_key = Key_from digest p, peer_state = NotContacted\<rparr>"
  let ?m = "bt_or_insert (KeyBytes_distance t (digest p)) ?v m"
  obtain b where "incorporate digest t nc nr ps ?m b = (m', pr')"
    using Cons.prems(2) by (auto simp: Let_def Key_from_def)
  then have "entry_peer ` set m' \<subseteq> entry_peer ` set ?m \<union> set ps"
    by (rule Cons.IH [OF bt_or_insert_inv [OF Cons.prems(1)]])
  moreover have "entry_peer ` set ?m \<subseteq> insert p (entry_peer ` set m)"
    using bt_or_insert_set [OF Cons.prems(1), of "KeyBytes_distance t (digest p)" ?v]
    by (auto simp: entry_peer_def Key_from_def split: if_splits)
  ultimately show ?case by auto
qed simp

lemma known_success:
  assumes inv: "closest_inv digest s" and ok: "Closest_on_success digest p ps s = Some (b, s')"
  shows "known_peers s' \<subseteq> known_peers s \<union> set ps"
proof (cases "s' = s")
  case False
  then obtain s1 cps pr where
    m: "mark_peer s (Key_distance (Key_from digest p) (cp_target s)) Succeeded = Some (Some s1)" and
    i: "incorporate digest (cp_target s) (length (closest_peers s1)) (cfg_num_results (cp_config s)) ps (closest_peers s1) False = (cps, pr)"
      "closest_peers s' = cps"
    using ok by (auto simp: Closest_on_success_def Let_def split: if_splits bind_splits option.splits prod.splits)
  have "closest_inv digest s1"
    using closest_mark [OF inv, of Succeeded p] m by (auto simp: marked_def)
  then have "bt_inv (closest_peers s1)" by (simp add: closest_inv_def)
  from known_incorporate [OF this i(1)] known_mark [OF m] show ?thesis by (auto simp: known_peers_def i(2))
qed simp

lemma known_failure: "Closest_on_failure digest p s = Some (b, s') \<Longrightarrow> known_peers s' = known_peers s"
  by (auto simp: Closest_on_failure_def split: if_splits bind_splits option.splits dest: known_mark)

lemma next_yields_waiting:
  assumes "Closest_next now s = Some (IterWaiting (Some q), s')"
  shows "(\<exists>e \<in> set (closest_peers s'). entry_peer e = q \<and> is_Waiting (snd e)) \<and> num_waiting s' \<le> num_waiting s + 1 \<and>
         cp_state s' = cp_state s \<and> cp_state s \<noteq> Finished"
proof -
  from assms obtain n cps where
    l: "next_loop now (cp_config s) (at_capacity s) (Some 0) (num_waiting s) (closest_peers s) = Some (Some (IterWaiting (Some q)), n, cps)"
    and s': "s' = s\<lparr>num_waiting := n, closest_peers := cps\<rparr>" "cp_state s \<noteq> Finished"
    by (auto simp: Closest_next_def Let_def split: if_splits bind_splits option.splits PeersIterState.splits)
  from next_loop_effect [OF l] next_loop_count [OF l] show ?thesis by (simp add: s')
qed

lemma mark_waiting:
  assumes inv: "closest_inv digest s" and e: "e \<in> set (closest_peers s)" "entry_peer e = p" "is_Waiting (snd e)"
  shows "1 \<le> num_waiting s \<and> (\<exists>s1. mark_peer s (Key_distance (Key_from digest p) (cp_target s)) st = Some (Some s1) \<and>
           num_waiting s1 = num_waiting s - 1 \<and> cp_state s1 = cp_state s)"
proof -
  have "bt_inv (closest_peers s)" "fst e = KeyBytes_distance (cp_target s) (digest p)"
    using inv e(1,2) by (auto simp: closest_inv_def entry_ok_def)
  then have m: "map_of (closest_peers s) (KeyBytes_distance (cp_target s) (digest p)) = Some (snd e)"
    using e(1) by (metis bt_map_of_iff prod.collapse)
  obtain t where t: "peer_state (snd e) = Waiting t" using e(3) by (auto simp: is_Waiting_def split: ClosestPeerState.splits)
  have "e \<in> set (filter (\<lambda>(d, p). is_Waiting p) (closest_peers s))" using e(1,3) by (simp add: case_prod_beta)
  then have "0 < waiting_count (closest_peers s)" unfolding waiting_count_def by (rule length_pos_if_in_set)
  then have "1 \<le> num_waiting s" using inv by (simp add: closest_inv_def)
  then show ?thesis using m t by (simp add: mark_peer_def own_distance)
qed

lemma answer_ok:
  assumes inv: "closest_inv digest s" and run: "cp_state s \<noteq> Finished"
    and e: "e \<in> set (closest_peers s)" "entry_peer e = p" "is_Waiting (snd e)"
  shows "\<exists>b s'. (case a of Some ps \<Rightarrow> Closest_on_success digest p ps s | None \<Rightarrow> Closest_on_failure digest p s) = Some (b, s') \<and>
           closest_inv digest s' \<and> closest_contacted digest s' = closest_contacted digest s \<and>
           num_waiting s' = num_waiting s - 1 \<and> known_peers s' \<subseteq> known_peers s \<union> (case a of Some ps \<Rightarrow> set ps | None \<Rightarrow> {})"
proof (cases a)
  case None
  from Closest_on_failure_ok [OF inv, of p] obtain b s' where
    s': "Closest_on_failure digest p s = Some (b, s')" "closest_inv digest s'" "closest_contacted digest s' = closest_contacted digest s"
    by blast
  moreover have "num_waiting s' = num_waiting s - 1"
    using s'(1) run mark_waiting [OF inv e, of Failed] by (auto simp: Closest_on_failure_def)
  ultimately show ?thesis using None known_failure [OF s'(1)] by simp
next
  case (Some ps)
  from Closest_on_success_ok [OF inv, of p ps] obtain b s' where
    s': "Closest_on_success digest p ps s = Some (b, s')" "closest_inv digest s'" "closest_contacted digest s' = closest_contacted digest s"
    by blast
  moreover have "num_waiting s' = num_waiting s - 1"
    using s'(1) run mark_waiting [OF inv e, of Succeeded] by (auto simp: Closest_on_success_def Let_def split: prod.splits)
  ultimately show ?thesis using Some known_success [OF inv s'(1)] by simp
qed

lemma next_idle:
  assumes inv: "closest_inv digest s" and run: "cp_state s \<noteq> Finished" and nw: "num_waiting s = 0"
    and nx: "Closest_next now s = Some (r, s')"
  shows "(\<exists>p. r = IterWaiting (Some p)) \<or> r = IterFinished \<and> cp_state s' = Finished"
proof -
  have cap: "at_capacity s = False"
    using inv run nw by (auto simp: at_capacity_def closest_inv_def split: ClosestState.splits)
  obtain r' n cps where
    l: "next_loop now (cp_config s) (at_capacity s) (Some 0) (num_waiting s) (closest_peers s) = Some (r', n, cps)"
    and "n = waiting_count cps"
    and r: "Closest_next now s = Some (case r' of Some r' \<Rightarrow> r' | None \<Rightarrow> if n > 0 then IterWaiting None else IterFinished,
           s\<lparr>num_waiting := n, closest_peers := cps,
             cp_state := if r' = Some IterFinished \<or> r' = None \<and> n = 0 then Finished else cp_state s\<rparr>)"
    and "\<forall>st. closest_inv digest (s\<lparr>num_waiting := n, closest_peers := cps, cp_state := st\<rparr>)"
    by (rule Closest_next_ok [OF inv run, of now])
  note l' = l [unfolded cap nw]
  show ?thesis
    using r nx next_loop_capacity [OF l'] next_loop_effect [OF l'] next_loop_count [OF l'] by auto
qed

lemma closest_drive_ends:
  assumes "closest_inv digest s" and "num_waiting s = 0" and "known_peers s \<subseteq> U" and "finite U"
    and "\<And>p ps. p \<in> U \<Longrightarrow> answers p = Some ps \<Longrightarrow> set ps \<subseteq> U"
    and "card (digest ` U - closest_contacted digest s) < n"
  shows "\<exists>s'. closest_drive digest answers clock n s = Some s' \<and> closest_inv digest s' \<and> Closest_is_finished s' \<and> known_peers s' \<subseteq> U"
  using assms
proof (induction n arbitrary: s)
  case (Suc n)
  note inv = Suc.prems(1)
  show ?case
  proof (cases "cp_state s = Finished")
    case True
    then show ?thesis using Suc.prems by (simp add: Closest_next_def Closest_is_finished_def)
  next
    case False
    from Closest_next_effect [OF inv, of "clock n"] obtain r s1 where
      nx: "Closest_next (clock n) s = Some (r, s1)" "closest_inv digest s1"
      and eff: "case r of IterWaiting (Some p) \<Rightarrow> digest p \<notin> closest_contacted digest s \<and>
           closest_contacted digest s1 = insert (digest p) (closest_contacted digest s) \<and>
           closest_open digest s1 = insert (digest p) (closest_open digest s) \<and>
           not_contacted (closest_peers s1) < not_contacted (closest_peers s)
       | _ \<Rightarrow> closest_contacted digest s1 = closest_contacted digest s \<and> closest_open digest s1 \<subseteq> closest_open digest s"
      by blast
    have known: "known_peers s1 = known_peers s" by (rule known_next [OF nx(1)])
    show ?thesis
    proof (cases "\<exists>p. r = IterWaiting (Some p)")
      case True
      then obtain p where p: "r = IterWaiting (Some p)" by blast
      from next_yields_waiting [OF nx(1) [unfolded p]] obtain e where
        e: "e \<in> set (closest_peers s1)" "entry_peer e = p" "is_Waiting (snd e)"
        and s1: "num_waiting s1 \<le> 1" "cp_state s1 \<noteq> Finished" using Suc.prems(2) by auto
      then have "p \<in> U" using known Suc.prems(3) by (auto simp: known_peers_def)
      from answer_ok [OF nx(2) s1(2) e, of "answers p"] obtain b s2 where
        ans: "(case answers p of Some ps \<Rightarrow> Closest_on_success digest p ps s1 | None \<Rightarrow> Closest_on_failure digest p s1) = Some (b, s2)"
        and s2: "closest_inv digest s2" "closest_contacted digest s2 = closest_contacted digest s1" "num_waiting s2 = num_waiting s1 - 1"
          "known_peers s2 \<subseteq> known_peers s1 \<union> (case answers p of Some ps \<Rightarrow> set ps | None \<Rightarrow> {})" by blast
      have "known_peers s2 \<subseteq> U"
        using s2(4) known Suc.prems(3) Suc.prems(5) [OF \<open>p \<in> U\<close>] by (auto split: option.splits)
      moreover have "card (digest ` U - closest_contacted digest s2) < n"
      proof -
        have "digest ` U - closest_contacted digest s2 \<subset> digest ` U - closest_contacted digest s"
          using eff p s2(2) \<open>p \<in> U\<close> by auto
        then have "card (digest ` U - closest_contacted digest s2) < card (digest ` U - closest_contacted digest s)"
          using Suc.prems(4) by (intro psubset_card_mono) auto
        then show ?thesis using Suc.prems(6) by simp
      qed
      moreover have "num_waiting s2 = 0" using s2(3) s1(1) by simp
      ultimately have "\<exists>s'. closest_drive digest answers clock n s2 = Some s' \<and> closest_inv digest s' \<and>
          Closest_is_finished s' \<and> known_peers s' \<subseteq> U"
        using Suc.IH [OF s2(1)] Suc.prems(4,5) by blast
      then show ?thesis using nx(1) p ans by simp
    next
      case no: False
      then have "r = IterFinished" "cp_state s1 = Finished"
        using next_idle [OF inv False Suc.prems(2) nx(1)] by auto
      then show ?thesis using nx known Suc.prems(3) by (simp add: Closest_is_finished_def)
    qed
  qed
qed simp

text \<open>
  C22. A lookup ends: with a caller that answers or fails every request before it polls again, and
  with finitely many peers in the network, the iterator finishes after at most one round more than
  there are peers, without panicking and without leaving the network.
\<close>
theorem closest_lookup_ends:
  assumes "0 < cfg_parallelism cfg" and "0 < cfg_num_results cfg" and "finite U"
    and "\<And>k. k \<in> set known \<Longrightarrow> k = Key_from digest (key_preimage k) \<and> key_preimage k \<in> U"
    and "\<And>p ps. p \<in> U \<Longrightarrow> answers p = Some ps \<Longrightarrow> set ps \<subseteq> U"
    and "card U < n"
  shows "\<exists>s'. closest_drive digest answers clock n (Closest_with_config cfg target known) = Some s' \<and>
           Closest_is_finished s' \<and> set (Closest_into_result s') \<subseteq> U"
proof -
  let ?s = "Closest_with_config cfg target known"
  have "closest_inv digest ?s"
    using assms(4) by (intro Closest_with_config_inv(1) assms(1,2)) blast
  moreover have "num_waiting ?s = 0" by (simp add: Closest_with_config_def)
  moreover have "known_peers ?s \<subseteq> U"
  proof -
    let ?kv = "\<lambda>k. (Key_distance k target, \<lparr>peer_key = k, peer_state = NotContacted\<rparr>)"
    have "set (closest_peers ?s) \<subseteq> ?kv ` set known"
      using bt_from_list_set [of "take K_VALUE (map ?kv known)"] set_take_subset [of K_VALUE "map ?kv known"]
      by (auto simp: Closest_with_config_def)
    then show ?thesis using assms(4) by (auto simp: known_peers_def entry_peer_def)
  qed
  moreover have "card (digest ` U - closest_contacted digest ?s) < n"
    using assms(3,6) by (meson Diff_subset card_image_le card_mono finite_imageI order.strict_trans1 order_trans)
  ultimately obtain s' where s': "closest_drive digest answers clock n ?s = Some s'" "Closest_is_finished s'" "known_peers s' \<subseteq> U"
    using closest_drive_ends [of digest ?s U answers n clock] assms(3,5) by blast
  moreover have "set (Closest_into_result s') \<subseteq> known_peers s'"
    by (auto simp: Closest_into_result_filter known_peers_def dest!: in_set_takeD)
  ultimately show ?thesis by blast
qed

theorem closest_lookup_ends_witness:
  "\<exists>s'. closest_drive sample_digest (\<lambda>p. if p = 3 then Some [2] else None) (\<lambda>_. 0) 3
          (Closest_with_config sample_cfg 0 [Key_from sample_digest 3]) = Some s' \<and>
        Closest_is_finished s' \<and> set (Closest_into_result s') \<subseteq> {2, 3}"
  by (rule closest_lookup_ends [where U = "{2, 3}"])
     (auto simp: sample_cfg_def Key_from_def split: if_splits)

text \<open>The progress flag after the reported peers is the one computed for the last of them.\<close>

lemma incorporate_last:
  "incorporate digest t nc nr (ps @ [q]) m pr = (m', pr') \<Longrightarrow>
   pr' \<longleftrightarrow> map fst (take 1 m') = [KeyBytes_distance t (digest q)] \<or> nc < nr"
  by (induction ps arbitrary: m pr) (auto simp: Let_def Key_from_def)

text \<open>
  C37. What counts as progress: once \<open>num_results\<close> peers are known, a response makes the iterator
  progress exactly when the \<^emph>\<open>last\<close> peer it reports is the closest of all known peers afterwards,
  whatever peers were reported before it.
\<close>
theorem closest_progress_last:
  assumes "closest_inv digest s" and "cp_state s = Iterating k"
    and "cfg_num_results (cp_config s) \<le> length (closest_peers s)"
    and "Closest_on_success digest p (ps @ [q]) s = Some (True, s')"
  shows "cp_state s' =
     (if map fst (take 1 (closest_peers s')) = [KeyBytes_distance (cp_target s) (digest q)] then Iterating 0
      else if cfg_parallelism (cp_config s) \<le> k + 1 then Stalled else Iterating (k + 1))"
proof -
  from assms(2,4) obtain s1 cps pr where
    m: "mark_peer s (Key_distance (Key_from digest p) (cp_target s)) Succeeded = Some (Some s1)"
    and i: "incorporate digest (cp_target s) (length (closest_peers s1)) (cfg_num_results (cp_config s)) (ps @ [q]) (closest_peers s1) False = (cps, pr)"
    and s': "s' = s1\<lparr>closest_peers := cps, cp_state := advance_state (cp_config s) (cp_state s) pr\<rparr>"
    by (auto simp: Closest_on_success_def Let_def split: if_splits bind_splits option.splits prod.splits)
  have "map fst (closest_peers s1) = map fst (closest_peers s)"
    using closest_mark [OF assms(1), of Succeeded p] m by (auto simp: marked_def)
  then have "length (closest_peers s1) = length (closest_peers s)" by (metis length_map)
  then have "pr \<longleftrightarrow> map fst (take 1 cps) = [KeyBytes_distance (cp_target s) (digest q)]"
    using incorporate_last [OF i] assms(3) by simp
  moreover have "0 < cfg_parallelism (cp_config s)" using assms(1) by (simp add: closest_inv_def)
  ultimately show ?thesis using assms(2) by (auto simp: s' advance_state_def Let_def)
qed

definition sample_stalling :: "nat ClosestPeersIter" where
  "sample_stalling = \<lparr>cp_config = sample_cfg, cp_target = 0, cp_state = Iterating 0,
     closest_peers = [sample_peer 4 (Waiting 10)], num_waiting = 1\<rparr>"

text \<open>Peer 4 reports a much closer peer 1 and then peer 6, and the iterator stalls.\<close>

theorem closest_progress_last_witness:
  "\<exists>s'. Closest_on_success sample_digest 4 ([1] @ [6]) sample_stalling = Some (True, s') \<and>
        map fst (closest_peers s') = [1, 4, 6] \<and> cp_state s' = Stalled"
proof -
  have inv: "closest_inv sample_digest sample_stalling"
    by (simp add: closest_inv_def sample_stalling_def sample_peer_def sample_cfg_def is_Waiting_def
        entry_ok_def entry_peer_def Key_from_def KeyBytes_distance_def sample_digest_def)
  obtain s' where s': "Closest_on_success sample_digest 4 ([1] @ [6]) sample_stalling = Some (True, s')"
      "map fst (closest_peers s') = [1, 4, 6]"
    by (simp add: Closest_on_success_def sample_stalling_def sample_peer_def mark_peer_def Key_distance_def
        Key_from_def KeyBytes_distance_def sample_digest_def sample_cfg_def Let_def bt_modify_def bt_or_insert_def)
  moreover have "cp_state s' = Stalled"
  proof -
    have "map fst (take 1 (closest_peers s')) = [1]" using s'(2) by (metis take_map take0 take_Suc_Cons One_nat_def)
    then show ?thesis
      using closest_progress_last [OF inv _ _ s'(1), of 0]
      by (simp add: sample_stalling_def sample_cfg_def KeyBytes_distance_def sample_digest_def)
  qed
  ultimately show ?thesis by (intro exI [of _ s'] conjI)
qed

end
