(* ===== verification/Kad_Disjoint.thy ===== *)
theory Kad_Disjoint
  imports Kad_Closest
begin

text \<open>
  The iterator over disjoint paths towards the closest peers of a target:
  \<open>protocols/kad/src/query/peers/closest/disjoint.rs\<close>.

  A path is one closest-peers iterator. The cycling order of the paths is the index of the next
  one; \<open>unreachable!\<close> branches are panics.
\<close>

section \<open>Definitions\<close>

datatype ResponseState = RespWaiting | RespSucceeded | RespFailed

record DisjointPeerState =
  initiated_by :: nat
  response :: ResponseState

definition DisjointPeerState_new :: "nat \<Rightarrow> DisjointPeerState" where
  "DisjointPeerState_new i = \<lparr>initiated_by = i, response = RespWaiting\<rparr>"

record 'p ClosestDisjointPeersIter =
  dj_config :: ClosestPeersIterConfig
  dj_target :: u256
  dj_iters :: "'p ClosestPeersIter list"
  dj_order :: nat
  dj_contacted :: "'p \<rightharpoonup> DisjointPeerState"

definition Disjoint_with_config :: "ClosestPeersIterConfig \<Rightarrow> u256 \<Rightarrow> 'p key list \<Rightarrow> 'p ClosestDisjointPeersIter" where
  "Disjoint_with_config cfg target known =
     (let peers = take K_VALUE known
      in \<lparr>dj_config = cfg, dj_target = target,
          dj_iters = map (\<lambda>_. Closest_with_config cfg target peers) [0..<cfg_parallelism cfg],
          dj_order = 0, dj_contacted = Map.empty\<rparr>)"

definition Disjoint_new :: "duration \<Rightarrow> u256 \<Rightarrow> 'p key list \<Rightarrow> 'p ClosestDisjointPeersIter" where
  "Disjoint_new second target known = Disjoint_with_config (ClosestPeersIterConfig_default second) target known"

text \<open>The loop over all paths but the one with index \<open>skip\<close>, which ignores the returned flags.\<close>

fun notify_others :: "('s \<Rightarrow> (bool \<times> 's) option) \<Rightarrow> nat \<Rightarrow> nat \<Rightarrow> 's list \<Rightarrow> 's list option" where
  "notify_others f skip i [] = Some []"
| "notify_others f skip i (s # ss) = do {
     s' \<leftarrow> (if i = skip then Some s else map_option snd (f s));
     ss' \<leftarrow> notify_others f skip (Suc i) ss;
     Some (s' # ss')
   }"

definition Disjoint_on_failure :: "('p \<Rightarrow> u256) \<Rightarrow> 'p \<Rightarrow> 'p ClosestDisjointPeersIter
    \<Rightarrow> (bool \<times> 'p ClosestDisjointPeersIter) option" where
  "Disjoint_on_failure digest p s =
     (case dj_contacted s p of
        None \<Rightarrow> Some (False, s)
      | Some ps \<Rightarrow> do {
          it \<leftarrow> vec_index (dj_iters s) (initiated_by ps);
          (updated, it') \<leftarrow> Closest_on_failure digest p it;
          its \<leftarrow> notify_others (Closest_on_failure digest p) (initiated_by ps) 0 ((dj_iters s)[initiated_by ps := it']);
          Some (updated, s\<lparr>dj_iters := its,
            dj_contacted := if updated then (dj_contacted s)(p \<mapsto> ps\<lparr>response := RespFailed\<rparr>) else dj_contacted s\<rparr>)
        })"

definition Disjoint_on_success :: "('p \<Rightarrow> u256) \<Rightarrow> 'p \<Rightarrow> 'p list \<Rightarrow> 'p ClosestDisjointPeersIter
    \<Rightarrow> (bool \<times> 'p ClosestDisjointPeersIter) option" where
  "Disjoint_on_success digest p closer s =
     (case dj_contacted s p of
        None \<Rightarrow> Some (False, s)
      | Some ps \<Rightarrow> do {
          it \<leftarrow> vec_index (dj_iters s) (initiated_by ps);
          (updated, it') \<leftarrow> Closest_on_success digest p closer it;
          its \<leftarrow> notify_others (Closest_on_success digest p []) (initiated_by ps) 0 ((dj_iters s)[initiated_by ps := it']);
          Some (updated, s\<lparr>dj_iters := its,
            dj_contacted := if updated then (dj_contacted s)(p \<mapsto> ps\<lparr>response := RespSucceeded\<rparr>) else dj_contacted s\<rparr>)
        })"

definition Disjoint_is_waiting :: "'p ClosestDisjointPeersIter \<Rightarrow> 'p \<Rightarrow> bool" where
  "Disjoint_is_waiting s p \<longleftrightarrow> list_ex (\<lambda>it. Closest_is_waiting it p) (dj_iters s)"

text \<open>The inner \<open>loop\<close> of \<open>next\<close> on path \<open>i\<close>.\<close>

lemma not_contacted_modify:
  "st \<noteq> NotContacted \<Longrightarrow> not_contacted (bt_modify d (\<lambda>p. p\<lparr>peer_state := st\<rparr>) m) \<le> not_contacted m"
  by (induction m) (auto simp: not_contacted_def bt_modify_def split: if_splits)

lemma not_contacted_mark:
  "mark_peer s d st = Some (Some s1) \<Longrightarrow> st \<noteq> NotContacted \<Longrightarrow>
   not_contacted (closest_peers s1) \<le> not_contacted (closest_peers s)"
  by (auto simp: mark_peer_def not_contacted_modify split: option.splits ClosestPeerState.splits bind_splits)

lemma not_contacted_next:
  "Closest_next now s = Some (IterWaiting (Some p), s') \<Longrightarrow> not_contacted (closest_peers s') < not_contacted (closest_peers s)"
  by (auto simp: Closest_next_def Let_def dest!: next_loop_effect
      split: if_splits bind_splits option.splits PeersIterState.splits)

lemma not_contacted_success:
  "Closest_on_success digest p [] s = Some (b, s') \<Longrightarrow> not_contacted (closest_peers s') \<le> not_contacted (closest_peers s)"
  by (auto simp: Closest_on_success_def dest: not_contacted_mark split: if_splits bind_splits option.splits)

lemma not_contacted_failure:
  "Closest_on_failure digest p s = Some (b, s') \<Longrightarrow> not_contacted (closest_peers s') \<le> not_contacted (closest_peers s)"
  by (auto simp: Closest_on_failure_def dest: not_contacted_mark split: if_splits bind_splits option.splits)

function path_loop :: "('p \<Rightarrow> u256) \<Rightarrow> instant \<Rightarrow> nat \<Rightarrow> ('p \<rightharpoonup> DisjointPeerState) \<Rightarrow> 'p ClosestPeersIter
    \<Rightarrow> ('p PeersIterState \<times> 'p ClosestPeersIter \<times> ('p \<rightharpoonup> DisjointPeerState)) option" where
  "path_loop digest now i contacted it =
     (case Closest_next now it of
        None \<Rightarrow> None
      | Some (IterWaiting (Some p), it1) \<Rightarrow>
          (case contacted p of
             Some ps \<Rightarrow>
               (case response ps of
                  RespWaiting \<Rightarrow> path_loop digest now i contacted it1
                | RespSucceeded \<Rightarrow>
                    (case Closest_on_success digest p [] it1 of
                       None \<Rightarrow> None
                     | Some (_, it2) \<Rightarrow> path_loop digest now i contacted it2)
                | RespFailed \<Rightarrow>
                    (case Closest_on_failure digest p it1 of
                       None \<Rightarrow> None
                     | Some (_, it2) \<Rightarrow> path_loop digest now i contacted it2))
           | None \<Rightarrow> Some (IterWaiting (Some p), it1, contacted(p \<mapsto> DisjointPeerState_new i)))
      | Some (IterWaiting None, it1) \<Rightarrow> Some (IterWaiting None, it1, contacted)
      | Some (IterWaitingAtCapacity, it1) \<Rightarrow> Some (IterWaitingAtCapacity, it1, contacted)
      | Some (IterFinished, it1) \<Rightarrow> Some (IterFinished, it1, contacted))"
  by pat_completeness auto
termination
  by (relation "measure (\<lambda>(digest, now, i, contacted, it). not_contacted (closest_peers it))")
     (auto dest!: not_contacted_next not_contacted_success not_contacted_failure)

declare path_loop.simps [simp del]

text \<open>The \<open>for\<close> loop of \<open>next\<close>: \<open>k\<close> paths are still to be queried, \<open>st\<close> is the state so far.\<close>

fun paths_loop :: "('p \<Rightarrow> u256) \<Rightarrow> instant \<Rightarrow> nat \<Rightarrow> 'p PeersIterState option \<Rightarrow> 'p ClosestDisjointPeersIter
    \<Rightarrow> ('p PeersIterState \<times> 'p ClosestDisjointPeersIter) option" where
  "paths_loop digest now 0 st s = Some (case st of Some r \<Rightarrow> r | None \<Rightarrow> IterFinished, s)"
| "paths_loop digest now (Suc k) st s = do {
     let i = dj_order s;
     it \<leftarrow> vec_index (dj_iters s) i;
     (r, it', contacted) \<leftarrow> path_loop digest now i (dj_contacted s) it;
     let s1 = s\<lparr>dj_order := (i + 1) mod length (dj_iters s), dj_iters := (dj_iters s)[i := it'], dj_contacted := contacted\<rparr>;
     case r of
       IterWaiting (Some p) \<Rightarrow> Some (r, s1)
     | IterWaiting None \<Rightarrow>
         (case st of
            Some (IterWaiting (Some _)) \<Rightarrow> None
          | Some (IterWaiting None) \<Rightarrow> paths_loop digest now k st s1
          | Some IterWaitingAtCapacity \<Rightarrow> paths_loop digest now k (Some (IterWaiting None)) s1
          | Some IterFinished \<Rightarrow> None
          | None \<Rightarrow> paths_loop digest now k (Some (IterWaiting None)) s1)
     | IterWaitingAtCapacity \<Rightarrow>
         (case st of
            Some (IterWaiting (Some _)) \<Rightarrow> None
          | Some (IterWaiting None) \<Rightarrow> paths_loop digest now k st s1
          | Some IterWaitingAtCapacity \<Rightarrow> paths_loop digest now k st s1
          | Some IterFinished \<Rightarrow> None
          | None \<Rightarrow> paths_loop digest now k (Some IterWaitingAtCapacity) s1)
     | IterFinished \<Rightarrow> paths_loop digest now k st s1
   }"

definition Disjoint_next :: "('p \<Rightarrow> u256) \<Rightarrow> instant \<Rightarrow> 'p ClosestDisjointPeersIter
    \<Rightarrow> ('p PeersIterState \<times> 'p ClosestDisjointPeersIter) option" where
  "Disjoint_next digest now s = paths_loop digest now (length (dj_iters s)) None s"

definition Disjoint_is_finished :: "'p ClosestDisjointPeersIter \<Rightarrow> bool" where
  "Disjoint_is_finished s \<longleftrightarrow> list_all Closest_is_finished (dj_iters s)"

definition finish_path :: "'p \<Rightarrow> 'p ClosestDisjointPeersIter \<Rightarrow> 'p ClosestDisjointPeersIter option" where
  "finish_path p s =
     (case dj_contacted s p of
        None \<Rightarrow> Some s
      | Some ps \<Rightarrow> do {
          it \<leftarrow> vec_index (dj_iters s) (initiated_by ps);
          Some (s\<lparr>dj_iters := (dj_iters s)[initiated_by ps := Closest_finish it]\<rparr>)
        })"

fun Disjoint_finish_paths :: "'p list \<Rightarrow> 'p ClosestDisjointPeersIter \<Rightarrow> (bool \<times> 'p ClosestDisjointPeersIter) option" where
  "Disjoint_finish_paths [] s = Some (Disjoint_is_finished s, s)"
| "Disjoint_finish_paths (p # ps) s = do { s1 \<leftarrow> finish_path p s; Disjoint_finish_paths ps s1 }"

definition Disjoint_finish :: "'p ClosestDisjointPeersIter \<Rightarrow> 'p ClosestDisjointPeersIter" where
  "Disjoint_finish s = s\<lparr>dj_iters := map Closest_finish (dj_iters s)\<rparr>"

section \<open>Definitions: merging the results of the paths\<close>

text \<open>
  \<open>ResultIter\<close>: the peekable iterators are lists; the fold carries the index of the iterator with
  the closest next key, and drops duplicates from the iterators it passes.
\<close>

fun result_fold :: "u256 \<Rightarrow> nat list \<Rightarrow> nat option \<Rightarrow> 'p key list list \<Rightarrow> nat option \<times> 'p key list list" where
  "result_fold target [] acc its = (acc, its)"
| "result_fold target (b # bs) None its = result_fold target bs (Some b) its"
| "result_fold target (b # bs) (Some a) its =
     (case (its ! a, its ! b) of
        (next_a # _, next_b # rest) \<Rightarrow>
          (if Key_eq next_a next_b then result_fold target bs (Some a) (its[b := rest])
           else if KeyBytes_distance target (key_bytes next_a) < KeyBytes_distance target (key_bytes next_b)
                then result_fold target bs (Some a) its
                else result_fold target bs (Some b) its)
      | (_ # _, []) \<Rightarrow> result_fold target bs (Some a) its
      | ([], _ # _) \<Rightarrow> result_fold target bs (Some b) its
      | ([], []) \<Rightarrow> result_fold target bs None its)"

definition ResultIter_next :: "u256 \<Rightarrow> 'p key list list \<Rightarrow> 'p key option \<times> 'p key list list" where
  "ResultIter_next target its =
     (case result_fold target [0..<length its] None its of
        (None, its') \<Rightarrow> (None, its')
      | (Some a, its') \<Rightarrow>
          (case its' ! a of
             [] \<Rightarrow> (None, its')
           | k # ks \<Rightarrow> (Some k, its'[a := ks])))"

lemma sum_list_drop_head:
  assumes "b < length its" and "its ! b = y # rest"
  shows "sum_list (map length its) = Suc (sum_list (map length (its[b := rest])))"
proof -
  have "length (its ! b) \<le> sum_list (map length its)"
    using assms(1) by (metis elem_le_sum_list length_map nth_map)
  then show ?thesis using assms by (simp add: map_update sum_list_update)
qed

lemma result_fold_size:
  "result_fold target bs acc its = (acc', its') \<Longrightarrow>
   length its' = length its \<and> sum_list (map length its') \<le> sum_list (map length its) \<and>
   (\<forall>a. acc' = Some a \<longrightarrow> acc = Some a \<or> a \<in> set bs)"
proof (induction target bs acc its rule: result_fold.induct)
  case (3 target b bs a its)
  have tl: "sum_list (map length (its[b := rest])) \<le> sum_list (map length its)" if "its ! b = y # rest" for y rest
    using sum_list_drop_head [OF _ that] by (cases "b < length its") (auto simp: list_update_beyond)
  show ?case
    using 3 tl by (fastforce split: list.splits if_splits)
qed auto

function ResultIter_collect :: "u256 \<Rightarrow> 'p key list list \<Rightarrow> 'p key list" where
  "ResultIter_collect target its =
     (case ResultIter_next target its of
        (None, its') \<Rightarrow> []
      | (Some k, its') \<Rightarrow> k # ResultIter_collect target its')"
  by pat_completeness auto

lemma ResultIter_next_size:
  assumes "ResultIter_next target its = (Some k, its')"
  shows "sum_list (map length its') < sum_list (map length its)"
proof -
  from assms obtain a its1 ks where f: "result_fold target [0..<length its] None its = (Some a, its1)"
    and a: "its1 ! a = k # ks" "its' = its1[a := ks]"
    by (auto simp: ResultIter_next_def split: prod.splits option.splits list.splits)
  from result_fold_size [OF f] have len: "length its1 = length its" "a < length its1"
    and le: "sum_list (map length its1) \<le> sum_list (map length its)" by auto
  show ?thesis using sum_list_drop_head [OF len(2) a(1)] le a(2) by simp
qed

termination ResultIter_collect
  by (relation "measure (\<lambda>(target, its). sum_list (map length its))") (auto dest: sym [THEN ResultIter_next_size])

declare ResultIter_collect.simps [simp del]

definition Disjoint_into_result :: "('p \<Rightarrow> u256) \<Rightarrow> 'p ClosestDisjointPeersIter \<Rightarrow> 'p list" where
  "Disjoint_into_result digest s =
     map key_preimage (ResultIter_collect (dj_target s)
       (map (\<lambda>it. map (Key_from digest) (Closest_into_result it)) (dj_iters s)))"

section \<open>The merged result\<close>

definition key_dist :: "u256 \<Rightarrow> 'p key \<Rightarrow> u256" where
  "key_dist target k = KeyBytes_distance target (key_bytes k)"

definition path_sorted :: "u256 \<Rightarrow> 'p key list \<Rightarrow> bool" where
  "path_sorted target ks \<longleftrightarrow> sorted_wrt (\<lambda>a b. key_dist target a < key_dist target b) ks"

definition all_keys :: "'p key list list \<Rightarrow> u256 set" where
  "all_keys its = (\<Union>ks \<in> set its. key_bytes ` set ks)"

lemma key_dist_eq: "key_dist t a = key_dist t b \<longleftrightarrow> key_bytes a = key_bytes b"
  unfolding key_dist_def by (metis distance_inj)

text \<open>
  The state of the fold after the iterators in \<open>I\<close>: the chosen iterator has the closest key, and
  every other of them has only keys further away.
\<close>

definition fold_inv :: "u256 \<Rightarrow> nat set \<Rightarrow> nat option \<Rightarrow> 'p key list list \<Rightarrow> bool" where
  "fold_inv target I acc its \<longleftrightarrow> (\<forall>i < length its. path_sorted target (its ! i)) \<and> (\<forall>i \<in> I. i < length its) \<and>
     (case acc of
        None \<Rightarrow> \<forall>i \<in> I. its ! i = []
      | Some a \<Rightarrow> a \<in> I \<and>
          (case its ! a of
             [] \<Rightarrow> \<forall>i \<in> I. its ! i = []
           | x # _ \<Rightarrow> \<forall>i \<in> I - {a}. \<forall>y \<in> set (its ! i). key_dist target x < key_dist target y))"

lemma path_sorted_simps [simp]:
  "path_sorted t []"
  "path_sorted t (k # ks) \<longleftrightarrow> (\<forall>y \<in> set ks. key_dist t k < key_dist t y) \<and> path_sorted t ks"
  by (simp_all add: path_sorted_def)

lemma all_keys_drop:
  assumes "a < length its" "b < length its" "a \<noteq> b" "its ! a = x # xs" "its ! b = y # ys" "key_bytes x = key_bytes y"
  shows "all_keys (its[b := ys]) = all_keys its"
proof -
  have get: "all_keys l = (\<Union>i \<in> {..<length l}. key_bytes ` set (l ! i))" for l :: "'a key list list"
    by (auto simp: all_keys_def set_conv_nth)
  show ?thesis
  proof
    show "all_keys (its[b := ys]) \<subseteq> all_keys its"
      using assms(2,5) unfolding get by (fastforce simp: nth_list_update split: if_splits)
    show "all_keys its \<subseteq> all_keys (its[b := ys])"
    proof
      fix u assume "u \<in> all_keys its"
      then obtain i where i: "i < length its" "u \<in> key_bytes ` set (its ! i)" by (auto simp: get)
      show "u \<in> all_keys (its[b := ys])"
      proof (cases "i = b \<and> u = key_bytes y")
        case True
        then have "u \<in> key_bytes ` set (its[b := ys] ! a)" using assms by auto
        then show ?thesis using assms(1) unfolding get by auto
      next
        case False
        then have "u \<in> key_bytes ` set (its[b := ys] ! i)" using i assms(5) by (cases "i = b") auto
        then show ?thesis using i(1) unfolding get by auto
      qed
    qed
  qed
qed

lemma fold_step:
  assumes inv: "fold_inv t I (Some a) its" and b: "b < length its" "b \<notin> I" and x: "its ! a = x # xs"
  shows "its ! b = y # ys \<Longrightarrow> key_bytes x = key_bytes y \<Longrightarrow> fold_inv t (insert b I) (Some a) (its[b := ys])"
    and "its ! b = y # ys \<Longrightarrow> key_dist t x < key_dist t y \<Longrightarrow> fold_inv t (insert b I) (Some a) its"
    and "its ! b = y # ys \<Longrightarrow> key_dist t y < key_dist t x \<Longrightarrow> fold_inv t (insert b I) (Some b) its"
    and "its ! b = [] \<Longrightarrow> fold_inv t (insert b I) (Some a) its"
proof -
  have ab: "a \<in> I" "a < length its" "a \<noteq> b" using inv b by (auto simp: fold_inv_def)
  have srt: "\<And>i. i < length its \<Longrightarrow> path_sorted t (its ! i)" and lt: "\<And>i. i \<in> I \<Longrightarrow> i < length its"
    and far: "\<And>i y. i \<in> I \<Longrightarrow> i \<noteq> a \<Longrightarrow> y \<in> set (its ! i) \<Longrightarrow> key_dist t x < key_dist t y"
    using inv x by (auto simp: fold_inv_def)
  have sb: "path_sorted t (its ! b)" and sa: "path_sorted t (x # xs)" using srt [OF b(1)] srt [OF ab(2)] x by auto
  show "fold_inv t (insert b I) (Some a) (its[b := ys])" if "its ! b = y # ys" "key_bytes x = key_bytes y"
  proof -
    have "key_dist t x < key_dist t z" if "z \<in> set ys" for z
      using sb that \<open>its ! b = y # ys\<close> \<open>key_bytes x = key_bytes y\<close> key_dist_eq by (metis path_sorted_simps(2))
    then show ?thesis
      using ab b x srt lt far sb that by (auto simp: fold_inv_def nth_list_update split: if_splits)
  qed
  show "fold_inv t (insert b I) (Some a) its" if "its ! b = y # ys" "key_dist t x < key_dist t y"
    using ab b x srt lt far sb that by (auto simp: fold_inv_def dest: order.strict_trans)
  show "fold_inv t (insert b I) (Some b) its" if "its ! b = y # ys" "key_dist t y < key_dist t x"
  proof -
    have "key_dist t y < key_dist t z" if "i \<in> I" "z \<in> set (its ! i)" for i z
      using that far [of i z] sa x \<open>key_dist t y < key_dist t x\<close> by (cases "i = a") (auto dest: order.strict_trans)
    then show ?thesis using ab b x srt lt that by (auto simp: fold_inv_def)
  qed
  show "fold_inv t (insert b I) (Some a) its" if "its ! b = []"
    using ab b x srt lt far that by (auto simp: fold_inv_def)
qed

lemma fold_step_empty:
  assumes inv: "fold_inv t I acc its" and b: "b < length its" "b \<notin> I"
    and e: "acc = None \<or> (\<exists>a. acc = Some a \<and> its ! a = [])"
  shows "fold_inv t (insert b I) (Some b) its" and "its ! b = [] \<Longrightarrow> fold_inv t (insert b I) None its"
  using assms by (auto simp: fold_inv_def split: list.splits)

lemma fold_one:
  assumes inv: "fold_inv t I acc its" and b: "b < length its" "b \<notin> I"
  shows "\<exists>acc1 its1. (\<forall>bs. result_fold t (b # bs) acc its = result_fold t bs acc1 its1) \<and>
           fold_inv t (insert b I) acc1 its1 \<and> all_keys its1 = all_keys its \<and> length its1 = length its"
proof (cases acc)
  case None
  then show ?thesis using fold_step_empty(1) [OF assms] by auto
next
  case (Some a)
  have a: "a < length its" "a \<noteq> b" using inv b Some by (auto simp: fold_inv_def)
  note inv' = inv [unfolded Some]
  show ?thesis
  proof (cases "its ! a")
    case Nil
    then show ?thesis using fold_step_empty [OF assms] Some by (cases "its ! b") auto
  next
    case x: (Cons x xs)
    note step = fold_step [OF inv' b x]
    show ?thesis
    proof (cases "its ! b")
      case Nil
      then show ?thesis using step(4) Some x by auto
    next
      case (Cons y ys)
      consider "key_bytes x = key_bytes y" | "key_bytes x \<noteq> key_bytes y" "key_dist t x < key_dist t y"
        | "key_bytes x \<noteq> key_bytes y" "key_dist t y < key_dist t x"
        using key_dist_eq [of t x y] by fastforce
      then show ?thesis
      proof cases
        case 1
        then show ?thesis
          using step(1) [OF Cons 1] all_keys_drop [OF a(1) b(1) a(2) x Cons 1] Some x Cons
          by (intro exI [of _ "Some a"] exI [of _ "its[b := ys]"]) (simp add: Key_eq_def)
      next
        case 2
        then show ?thesis
          using step(2) [OF Cons 2(2)] Some x Cons
          by (intro exI [of _ "Some a"] exI [of _ its]) (simp add: Key_eq_def key_dist_def)
      next
        case 3
        then show ?thesis
          using step(3) [OF Cons 3(2)] Some x Cons
          by (intro exI [of _ "Some b"] exI [of _ its]) (auto simp: Key_eq_def key_dist_def)
      qed
    qed
  qed
qed

lemma fold_ok:
  "fold_inv t I acc its \<Longrightarrow> distinct bs \<Longrightarrow> set bs \<inter> I = {} \<Longrightarrow> \<forall>b \<in> set bs. b < length its \<Longrightarrow>
   result_fold t bs acc its = (acc', its') \<Longrightarrow>
   fold_inv t (I \<union> set bs) acc' its' \<and> all_keys its' = all_keys its"
proof (induction bs arbitrary: I acc its)
  case (Cons b bs)
  from fold_one [OF Cons.prems(1), of b] Cons.prems(3,4) obtain acc1 its1 where
    o: "result_fold t (b # bs) acc its = result_fold t bs acc1 its1" "fold_inv t (insert b I) acc1 its1"
      "all_keys its1 = all_keys its" "length its1 = length its" by auto
  from Cons.IH [OF o(2)] Cons.prems o show ?case by auto
qed simp

lemma ResultIter_next_ok:
  assumes srt: "\<forall>ks \<in> set its. path_sorted t ks" and nx: "ResultIter_next t its = (r, its')"
  shows "(\<forall>ks \<in> set its'. path_sorted t ks) \<and>
         (case r of
            None \<Rightarrow> all_keys its = {}
          | Some k \<Rightarrow> all_keys its = insert (key_bytes k) (all_keys its') \<and>
              (\<forall>ks \<in> set its'. \<forall>y \<in> set ks. key_dist t k < key_dist t y))"
proof -
  obtain acc its1 where f: "result_fold t [0..<length its] None its = (acc, its1)" by fastforce
  have "fold_inv t {} None its" using srt by (simp add: fold_inv_def)
  from fold_ok [OF this _ _ _ f] have inv: "fold_inv t {..<length its} acc its1" and keys: "all_keys its1 = all_keys its"
    by (auto simp: atLeast0LessThan)
  have len: "length its1 = length its" using result_fold_size [OF f] by simp
  have srt1: "\<forall>ks \<in> set its1. path_sorted t ks" using inv len by (auto simp: fold_inv_def in_set_conv_nth)
  have get: "all_keys l = (\<Union>i \<in> {..<length l}. key_bytes ` set (l ! i))" for l :: "'a key list list"
    by (auto simp: all_keys_def set_conv_nth)
  show ?thesis
  proof (cases "\<exists>a k ks. acc = Some a \<and> its1 ! a = k # ks")
    case False
    then have "\<forall>i < length its1. its1 ! i = []"
      using inv len by (auto simp: fold_inv_def split: option.splits list.splits)
    then have "all_keys its1 = {}" by (simp add: get)
    then have "all_keys its = {}" using keys by simp
    then show ?thesis
      using False nx f srt1 by (auto simp: ResultIter_next_def split: option.splits list.splits)
  next
    case True
    then obtain a k ks where a: "acc = Some a" "its1 ! a = k # ks" by blast
    then have r: "r = Some k" "its' = its1[a := ks]" using nx f by (auto simp: ResultIter_next_def)
    have al: "a < length its1" and far: "\<And>i y. i < length its1 \<Longrightarrow> i \<noteq> a \<Longrightarrow> y \<in> set (its1 ! i) \<Longrightarrow> key_dist t k < key_dist t y"
      using inv a len by (auto simp: fold_inv_def)
    have own: "path_sorted t (k # ks)" using srt1 al a(2) by (metis nth_mem)
    have "path_sorted t l \<and> (\<forall>y \<in> set l. key_dist t k < key_dist t y)" if "l \<in> set its'" for l
    proof -
      from that obtain i where i: "i < length its1" "l = its1[a := ks] ! i" by (auto simp: r(2) in_set_conv_nth)
      then show ?thesis using own far [OF i(1)] srt1 by (cases "i = a") auto
    qed
    moreover have "all_keys its1 = insert (key_bytes k) (all_keys its')"
    proof -
      have "its1 = take a its1 @ (k # ks) # drop (Suc a) its1" using al a(2) by (metis id_take_nth_drop)
      moreover have "its' = take a its1 @ ks # drop (Suc a) its1" using al by (simp add: r(2) upd_conv_take_nth_drop)
      moreover have "all_keys (l @ (k # ks) # m) = insert (key_bytes k) (all_keys (l @ ks # m))" for l m :: "'a key list list"
        by (auto simp: all_keys_def)
      ultimately show ?thesis by metis
    qed
    ultimately show ?thesis using r(1) keys by auto
  qed
qed

lemma ResultIter_collect_ok:
  "\<forall>ks \<in> set its. path_sorted t ks \<Longrightarrow>
   path_sorted t (ResultIter_collect t its) \<and> key_bytes ` set (ResultIter_collect t its) = all_keys its"
proof (induction t its rule: ResultIter_collect.induct)
  case (1 t its)
  obtain r its' where nx: "ResultIter_next t its = (r, its')" by fastforce
  note ok = ResultIter_next_ok [OF "1.prems" nx]
  show ?case
  proof (cases r)
    case None
    then show ?thesis using ok nx by (simp add: ResultIter_collect.simps [of t its])
  next
    case (Some k)
    with "1.IH" [OF nx [symmetric] Some] ok have
      IH: "path_sorted t (ResultIter_collect t its')" "key_bytes ` set (ResultIter_collect t its') = all_keys its'" by auto
    have "key_dist t k < key_dist t y" if "y \<in> set (ResultIter_collect t its')" for y
    proof -
      from that IH(2) obtain ks z where "ks \<in> set its'" "z \<in> set ks" "key_bytes z = key_bytes y"
        by (force simp: all_keys_def)
      then show ?thesis using ok Some key_dist_eq [of t z y] by (metis (no_types, lifting) option.simps(5))
    qed
    then show ?thesis using IH ok nx Some by (simp add: ResultIter_collect.simps [of t its])
  qed
qed

section \<open>The invariant\<close>

definition disjoint_inv :: "('p \<Rightarrow> u256) \<Rightarrow> 'p ClosestDisjointPeersIter \<Rightarrow> bool" where
  "disjoint_inv digest s \<longleftrightarrow>
     dj_order s < length (dj_iters s) \<and> finite (dom (dj_contacted s)) \<and>
     (\<forall>i < length (dj_iters s). closest_inv digest (dj_iters s ! i)) \<and>
     (\<forall>p ps. dj_contacted s p = Some ps \<longrightarrow> initiated_by ps < length (dj_iters s) \<and>
        digest p \<in> closest_contacted digest (dj_iters s ! initiated_by ps))"

definition disjoint_open :: "('p \<Rightarrow> u256) \<Rightarrow> 'p ClosestDisjointPeersIter \<Rightarrow> 'p set" where
  "disjoint_open digest s =
     {p. \<exists>ps. dj_contacted s p = Some ps \<and> digest p \<in> closest_open digest (dj_iters s ! initiated_by ps)}"

lemma disjoint_invD:
  assumes "disjoint_inv digest s" and "dj_contacted s p = Some ps"
  shows "initiated_by ps < length (dj_iters s)" and "digest p \<in> closest_contacted digest (dj_iters s ! initiated_by ps)"
    and "closest_inv digest (dj_iters s ! initiated_by ps)"
  using assms unfolding disjoint_inv_def by blast+

lemma notify_others_ok:
  assumes "\<And>x. x \<in> set ss \<Longrightarrow> \<exists>b x'. f x = Some (b, x') \<and> R x x'" and "\<And>x. R x x"
  shows "\<exists>ss'. notify_others f skip i ss = Some ss' \<and> length ss' = length ss \<and>
           (\<forall>j < length ss. R (ss ! j) (ss' ! j) \<and> (i + j = skip \<longrightarrow> ss' ! j = ss ! j))"
  using assms(1)
proof (induction ss arbitrary: i)
  case (Cons x xs)
  from Cons.prems [of x] obtain b x' where x': "f x = Some (b, x')" "R x x'" by auto
  from Cons.IH [of "Suc i"] Cons.prems obtain xs' where
    xs': "notify_others f skip (Suc i) xs = Some xs'" "length xs' = length xs"
      "\<forall>j < length xs. R (xs ! j) (xs' ! j) \<and> (Suc i + j = skip \<longrightarrow> xs' ! j = xs ! j)" by auto
  let ?x = "if i = skip then x else x'"
  have "notify_others f skip i (x # xs) = Some (?x # xs')" using x' xs'(1) by simp
  moreover have "R ((x # xs) ! j) ((?x # xs') ! j) \<and> (i + j = skip \<longrightarrow> (?x # xs') ! j = (x # xs) ! j)"
    if "j < length (x # xs)" for j
    using that x'(2) xs'(3) assms(2) by (cases j) auto
  ultimately show ?case using xs'(2) by (intro exI [of _ "?x # xs'"]) simp
qed simp

text \<open>What the other paths may do when they hear of a result: keep their contacts, open no request.\<close>

definition path_le :: "('p \<Rightarrow> u256) \<Rightarrow> 'p ClosestPeersIter \<Rightarrow> 'p ClosestPeersIter \<Rightarrow> bool" where
  "path_le digest it it' \<longleftrightarrow> (closest_inv digest it \<longrightarrow> closest_inv digest it') \<and>
     closest_contacted digest it' = closest_contacted digest it \<and> closest_open digest it' \<subseteq> closest_open digest it \<and>
     known_peers it' = known_peers it"

lemma path_le_refl: "path_le digest it it"
  by (simp add: path_le_def)

lemma success_path_le:
  assumes "closest_inv digest it"
  shows "\<exists>b it'. Closest_on_success digest p [] it = Some (b, it') \<and> path_le digest it it'"
proof -
  from Closest_on_success_ok [OF assms, of p "[]"] obtain b it' where
    ok: "Closest_on_success digest p [] it = Some (b, it')" "closest_inv digest it'"
      "closest_contacted digest it' = closest_contacted digest it"
      "if b then digest p \<in> closest_open digest it \<and> closest_open digest it' = closest_open digest it - {digest p} else it' = it"
    by blast
  have "known_peers it' = known_peers it"
    using ok(1) known_mark
    by (fastforce simp: Closest_on_success_def known_peers_def split: if_splits bind_splits option.splits)
  moreover have "closest_open digest it' \<subseteq> closest_open digest it" using ok(4) by (cases b) auto
  ultimately have "path_le digest it it'" using ok by (simp add: path_le_def)
  with ok(1) show ?thesis by blast
qed

lemma failure_path_le:
  assumes "closest_inv digest it"
  shows "\<exists>b it'. Closest_on_failure digest p it = Some (b, it') \<and> path_le digest it it'"
proof -
  from Closest_on_failure_ok [OF assms, of p] obtain b it' where
    ok: "Closest_on_failure digest p it = Some (b, it')" "closest_inv digest it'"
      "closest_contacted digest it' = closest_contacted digest it"
      "if b then digest p \<in> closest_open digest it \<and> closest_open digest it' = closest_open digest it - {digest p} else it' = it"
    by blast
  moreover have "closest_open digest it' \<subseteq> closest_open digest it" using ok(4) by (cases b) auto
  ultimately have "path_le digest it it'" using known_failure [OF ok(1)] by (simp add: path_le_def)
  with ok(1) show ?thesis by blast
qed

section \<open>Every call keeps the invariant\<close>

text \<open>A path that runs on: contacts only grow, and no request to an earlier contact is reopened.\<close>

definition path_runs :: "('p \<Rightarrow> u256) \<Rightarrow> 'p ClosestPeersIter \<Rightarrow> 'p ClosestPeersIter \<Rightarrow> bool" where
  "path_runs digest it it' \<longleftrightarrow> closest_inv digest it' \<and> closest_contacted digest it \<subseteq> closest_contacted digest it' \<and>
     closest_open digest it' \<inter> closest_contacted digest it \<subseteq> closest_open digest it"

lemma path_runs_trans:
  "path_runs digest it it1 \<Longrightarrow> path_runs digest it1 it2 \<Longrightarrow> path_runs digest it it2"
  by (auto simp: path_runs_def)

lemma path_le_runs: "closest_inv digest it \<Longrightarrow> path_le digest it it' \<Longrightarrow> path_runs digest it it'"
  by (auto simp: path_runs_def path_le_def)

lemma Closest_next_runs:
  assumes "closest_inv digest it"
  shows "\<exists>r it'. Closest_next now it = Some (r, it') \<and> path_runs digest it it' \<and>
           (\<forall>p. r = IterWaiting (Some p) \<longrightarrow> digest p \<in> closest_contacted digest it')"
proof -
  from Closest_next_effect [OF assms, of now] obtain r it' where
    "Closest_next now it = Some (r, it')" "closest_inv digest it'" and
    eff: "case r of
         IterWaiting (Some p) \<Rightarrow> digest p \<notin> closest_contacted digest it \<and>
           closest_contacted digest it' = insert (digest p) (closest_contacted digest it) \<and>
           closest_open digest it' = insert (digest p) (closest_open digest it) \<and>
           not_contacted (closest_peers it') < not_contacted (closest_peers it)
       | _ \<Rightarrow> closest_contacted digest it' = closest_contacted digest it \<and> closest_open digest it' \<subseteq> closest_open digest it"
    by blast
  moreover have "path_runs digest it it' \<and> (\<forall>p. r = IterWaiting (Some p) \<longrightarrow> digest p \<in> closest_contacted digest it')"
    using eff \<open>closest_inv digest it'\<close> by (auto simp: path_runs_def split: PeersIterState.splits option.splits)
  ultimately show ?thesis by blast
qed

definition path_out :: "('p \<Rightarrow> u256) \<Rightarrow> nat \<Rightarrow> ('p \<rightharpoonup> DisjointPeerState) \<Rightarrow> 'p PeersIterState \<Rightarrow> 'p ClosestPeersIter
    \<Rightarrow> ('p \<rightharpoonup> DisjointPeerState) \<Rightarrow> bool" where
  "path_out digest i contacted r it' c \<longleftrightarrow>
     (case r of
        IterWaiting (Some p) \<Rightarrow> contacted p = None \<and> c = contacted(p \<mapsto> DisjointPeerState_new i) \<and> digest p \<in> closest_contacted digest it'
      | _ \<Rightarrow> c = contacted)"

lemma path_loop_ok:
  "closest_inv digest it \<Longrightarrow>
   \<exists>r it' c. path_loop digest now i contacted it = Some (r, it', c) \<and> path_runs digest it it' \<and>
     path_out digest i contacted r it' c"
proof (induction "not_contacted (closest_peers it)" arbitrary: it rule: less_induct)
  case less
  from Closest_next_runs [OF less.prems, of now] obtain r it1 where
    nx: "Closest_next now it = Some (r, it1)" "path_runs digest it it1"
      "\<And>p. r = IterWaiting (Some p) \<Longrightarrow> digest p \<in> closest_contacted digest it1" by blast
  have inv1: "closest_inv digest it1" using nx(2) by (simp add: path_runs_def)
  show ?case
  proof (cases "\<exists>p ps. r = IterWaiting (Some p) \<and> contacted p = Some ps")
    case False
    let ?c = "case r of IterWaiting (Some p) \<Rightarrow> contacted(p \<mapsto> DisjointPeerState_new i) | _ \<Rightarrow> contacted"
    have "path_loop digest now i contacted it = Some (r, it1, ?c)"
      using nx(1) False by (subst path_loop.simps) (auto split: PeersIterState.split option.split)
    then show ?thesis
      using nx(2,3) False by (intro exI [of _ r] exI [of _ it1] exI [of _ ?c]) (auto simp: path_out_def split: PeersIterState.split option.split)
  next
    case True
    then obtain p ps where p: "r = IterWaiting (Some p)" "contacted p = Some ps" by blast
    have "\<exists>it2. path_loop digest now i contacted it = path_loop digest now i contacted it2 \<and>
        path_le digest it1 it2 \<and> not_contacted (closest_peers it2) \<le> not_contacted (closest_peers it1)"
    proof (cases "response ps")
      case RespWaiting
      then show ?thesis using nx(1) p path_le_refl [of digest it1] by (subst path_loop.simps) auto
    next
      case RespSucceeded
      with success_path_le [OF inv1, of p] not_contacted_success nx(1) p show ?thesis
        by (subst path_loop.simps) fastforce
    next
      case RespFailed
      with failure_path_le [OF inv1, of p] not_contacted_failure nx(1) p show ?thesis
        by (subst path_loop.simps) fastforce
    qed
    then obtain it2 where it2: "path_loop digest now i contacted it = path_loop digest now i contacted it2"
      "path_le digest it1 it2" "not_contacted (closest_peers it2) \<le> not_contacted (closest_peers it1)" by blast
    have "not_contacted (closest_peers it2) < not_contacted (closest_peers it)"
      using not_contacted_next [OF nx(1) [unfolded p(1)]] it2(3) by simp
    moreover have runs: "path_runs digest it it2"
      using path_runs_trans [OF nx(2) path_le_runs [OF inv1 it2(2)]] .
    moreover have "closest_inv digest it2" using runs by (simp add: path_runs_def)
    ultimately obtain r' it' c where
      "path_loop digest now i contacted it2 = Some (r', it', c)" "path_runs digest it2 it'" "path_out digest i contacted r' it' c"
      using less.hyps [of it2] by blast
    then show ?thesis using path_runs_trans [OF runs] it2(1) by auto
  qed
qed

lemma disjoint_upd_path:
  assumes inv: "disjoint_inv digest s" and i: "i < length (dj_iters s)" and runs: "path_runs digest (dj_iters s ! i) it'"
    and c: "c = dj_contacted s \<or>
      (\<exists>p. dj_contacted s p = None \<and> c = (dj_contacted s)(p \<mapsto> DisjointPeerState_new i) \<and> digest p \<in> closest_contacted digest it')"
  shows "disjoint_inv digest (s\<lparr>dj_order := Suc i mod length (dj_iters s), dj_iters := (dj_iters s)[i := it'], dj_contacted := c\<rparr>)"
    and "disjoint_open digest (s\<lparr>dj_order := Suc i mod length (dj_iters s), dj_iters := (dj_iters s)[i := it'], dj_contacted := c\<rparr>)
           \<subseteq> disjoint_open digest s \<union> (dom c - dom (dj_contacted s))"
proof -
  have keep: "initiated_by ps < length (dj_iters s)" "digest p \<in> closest_contacted digest (dj_iters s ! initiated_by ps)"
    if "dj_contacted s p = Some ps" for p ps
    using inv that by (auto simp: disjoint_inv_def)
  have grow: "digest p \<in> closest_contacted digest ((dj_iters s)[i := it'] ! initiated_by ps)"
    if "dj_contacted s p = Some ps" for p ps
    using keep [OF that] runs i by (cases "initiated_by ps = i") (auto simp: path_runs_def)
  show "disjoint_inv digest (s\<lparr>dj_order := Suc i mod length (dj_iters s), dj_iters := (dj_iters s)[i := it'], dj_contacted := c\<rparr>)"
  proof -
    have "Suc i mod length (dj_iters s) < length (dj_iters s)" using i by (intro mod_less_divisor) linarith
    moreover have "finite (dom c)" using inv c by (auto simp: disjoint_inv_def)
    moreover have "closest_inv digest ((dj_iters s)[i := it'] ! j)" if "j < length (dj_iters s)" for j
      using inv runs that by (cases "j = i") (auto simp: disjoint_inv_def path_runs_def)
    moreover have "initiated_by ps < length (dj_iters s) \<and> digest p \<in> closest_contacted digest ((dj_iters s)[i := it'] ! initiated_by ps)"
      if "c p = Some ps" for p ps
    proof (cases "dj_contacted s p = Some ps")
      case True
      then show ?thesis using keep(1) grow by blast
    next
      case False
      then have "ps = DisjointPeerState_new i" "digest p \<in> closest_contacted digest it'"
        using that c by (auto split: if_splits)
      then show ?thesis using i by (simp add: DisjointPeerState_new_def)
    qed
    ultimately show ?thesis by (simp add: disjoint_inv_def)
  qed
  show "disjoint_open digest (s\<lparr>dj_order := Suc i mod length (dj_iters s), dj_iters := (dj_iters s)[i := it'], dj_contacted := c\<rparr>)
           \<subseteq> disjoint_open digest s \<union> (dom c - dom (dj_contacted s))"
  proof
    fix p assume "p \<in> disjoint_open digest (s\<lparr>dj_order := Suc i mod length (dj_iters s), dj_iters := (dj_iters s)[i := it'], dj_contacted := c\<rparr>)"
    then obtain ps where ps: "c p = Some ps" "digest p \<in> closest_open digest ((dj_iters s)[i := it'] ! initiated_by ps)"
      by (auto simp: disjoint_open_def)
    show "p \<in> disjoint_open digest s \<union> (dom c - dom (dj_contacted s))"
    proof (cases "dj_contacted s p")
      case None
      then show ?thesis using ps(1) by auto
    next
      case (Some qs)
      then have "qs = ps" using ps(1) c by (auto split: if_splits)
      then have "digest p \<in> closest_open digest (dj_iters s ! initiated_by ps)"
        using keep [OF Some] runs ps(2) by (cases "initiated_by ps = i") (auto simp: path_runs_def)
      then show ?thesis using Some \<open>qs = ps\<close> by (auto simp: disjoint_open_def)
    qed
  qed
qed

definition next_ok_at :: "('p \<Rightarrow> u256) \<Rightarrow> 'p ClosestDisjointPeersIter \<Rightarrow> 'p PeersIterState \<Rightarrow> 'p ClosestDisjointPeersIter \<Rightarrow> bool" where
  "next_ok_at digest s r s' \<longleftrightarrow> disjoint_inv digest s' \<and>
     (case r of
        IterWaiting (Some p) \<Rightarrow> p \<notin> dom (dj_contacted s) \<and> dom (dj_contacted s') = insert p (dom (dj_contacted s)) \<and>
          disjoint_open digest s' \<subseteq> insert p (disjoint_open digest s)
      | _ \<Rightarrow> dom (dj_contacted s') = dom (dj_contacted s) \<and> disjoint_open digest s' \<subseteq> disjoint_open digest s)"

lemma paths_loop_ok:
  "disjoint_inv digest s \<Longrightarrow> st \<in> {None, Some (IterWaiting None), Some IterWaitingAtCapacity} \<Longrightarrow>
   \<exists>r s'. paths_loop digest now k st s = Some (r, s') \<and> next_ok_at digest s r s'"
proof (induction k arbitrary: st s)
  case 0
  then show ?case by (auto simp: next_ok_at_def)
next
  case (Suc k)
  let ?i = "dj_order s" and ?n = "length (dj_iters s)"
  have i: "?i < ?n" and it: "closest_inv digest (dj_iters s ! ?i)" using Suc.prems(1) by (auto simp: disjoint_inv_def)
  from path_loop_ok [OF it, of now ?i "dj_contacted s"] obtain r it' c where
    l: "path_loop digest now ?i (dj_contacted s) (dj_iters s ! ?i) = Some (r, it', c)"
      "path_runs digest (dj_iters s ! ?i) it'"
    and r: "path_out digest ?i (dj_contacted s) r it' c" by blast
  define s1 where "s1 = s\<lparr>dj_order := Suc ?i mod ?n, dj_iters := (dj_iters s)[?i := it'], dj_contacted := c\<rparr>"
  have c: "c = dj_contacted s \<or> (\<exists>p. dj_contacted s p = None \<and> c = (dj_contacted s)(p \<mapsto> DisjointPeerState_new ?i) \<and>
      digest p \<in> closest_contacted digest it')"
    using r by (auto simp: path_out_def split: PeersIterState.splits option.splits)
  note upd = disjoint_upd_path [OF Suc.prems(1) i l(2) c, folded s1_def]
  have cs1: "dj_contacted s1 = c" by (simp add: s1_def)
  show ?case
  proof (cases "\<exists>p. r = IterWaiting (Some p)")
    case True
    then obtain p where p: "r = IterWaiting (Some p)" by blast
    have "paths_loop digest now (Suc k) st s = Some (r, s1)"
      using i l(1) p by (simp add: panic_simps Let_def s1_def)
    moreover have "next_ok_at digest s r s1" using upd r p by (auto simp: next_ok_at_def path_out_def cs1)
    ultimately show ?thesis by blast
  next
    case False
    then have cc: "c = dj_contacted s" using r by (auto simp: path_out_def split: PeersIterState.splits option.splits)
    have "\<exists>st'. st' \<in> {None, Some (IterWaiting None), Some IterWaitingAtCapacity} \<and>
        paths_loop digest now (Suc k) st s = paths_loop digest now k st' s1"
      using i l(1) Suc.prems(2) False
      by (auto simp: panic_simps Let_def s1_def split: PeersIterState.split option.split)
    then obtain st' where st': "st' \<in> {None, Some (IterWaiting None), Some IterWaitingAtCapacity}"
      "paths_loop digest now (Suc k) st s = paths_loop digest now k st' s1" by blast
    from Suc.IH [OF upd(1) st'(1)] obtain r' s' where r': "paths_loop digest now k st' s1 = Some (r', s')" "next_ok_at digest s1 r' s'"
      by blast
    then have "next_ok_at digest s r' s'"
      using upd(2) cc by (auto simp: next_ok_at_def cs1 split: PeersIterState.splits option.splits)
    then show ?thesis using st'(2) r'(1) by auto
  qed
qed

text \<open>A result is passed to the path that asked, and reported to the others.\<close>

lemma disjoint_response:
  assumes inv: "disjoint_inv digest s" and c: "dj_contacted s p = Some ps"
    and own: "closest_inv digest it'" "closest_contacted digest it' = closest_contacted digest (dj_iters s ! initiated_by ps)"
      "if b then digest p \<in> closest_open digest (dj_iters s ! initiated_by ps) \<and>
          closest_open digest it' = closest_open digest (dj_iters s ! initiated_by ps) - {digest p}
       else it' = dj_iters s ! initiated_by ps"
    and f: "\<And>it. closest_inv digest it \<Longrightarrow> \<exists>b it'. f it = Some (b, it') \<and> path_le digest it it'"
  shows "\<exists>its. notify_others f (initiated_by ps) 0 ((dj_iters s)[initiated_by ps := it']) = Some its \<and>
    length its = length (dj_iters s) \<and> its ! initiated_by ps = it' \<and>
    (\<forall>j < length its. j \<noteq> initiated_by ps \<longrightarrow> known_peers (its ! j) = known_peers (dj_iters s ! j)) \<and>
    (let s' = s\<lparr>dj_iters := its, dj_contacted := if b then (dj_contacted s)(p \<mapsto> ps\<lparr>response := st\<rparr>) else dj_contacted s\<rparr>
     in disjoint_inv digest s' \<and> dom (dj_contacted s') = dom (dj_contacted s) \<and>
        (if b then p \<in> disjoint_open digest s \<and> disjoint_open digest s' \<subseteq> disjoint_open digest s - {p}
         else disjoint_open digest s' \<subseteq> disjoint_open digest s))"
proof -
  let ?i = "initiated_by ps" and ?n = "length (dj_iters s)"
  let ?its = "(dj_iters s)[?i := it']"
  let ?c = "if b then (dj_contacted s)(p \<mapsto> ps\<lparr>response := st\<rparr>) else dj_contacted s"
  have i: "?i < ?n" using inv c by (auto simp: disjoint_inv_def)
  have cis: "\<And>it. it \<in> set ?its \<Longrightarrow> closest_inv digest it"
    using inv own(1) i by (auto simp: disjoint_inv_def in_set_conv_nth nth_list_update)
  from notify_others_ok [of ?its f "path_le digest" ?i 0] f [OF cis] path_le_refl obtain its where
    no: "notify_others f ?i 0 ?its = Some its" "length its = ?n"
      and le: "\<And>j. j < ?n \<Longrightarrow> path_le digest (?its ! j) (its ! j)" and same: "its ! ?i = it'"
    using i by auto
  have leo: "path_le digest (dj_iters s ! j) (its ! j)" if "j < ?n" "j \<noteq> ?i" for j
    using le [OF that(1)] that(2) by simp
  have op: "closest_open digest (its ! j) \<subseteq> closest_open digest (dj_iters s ! j)"
    and ct: "closest_contacted digest (its ! j) = closest_contacted digest (dj_iters s ! j)" if "j < ?n" for j
    using leo [OF that] own(2,3) same by (cases "j = ?i"; cases b; auto simp: path_le_def)+
  have init: "\<exists>qs. dj_contacted s q = Some qs \<and> initiated_by qs = initiated_by rs" if "?c q = Some rs" for q rs
    using that c by (auto split: if_splits)
  let ?s = "s\<lparr>dj_iters := its, dj_contacted := ?c\<rparr>"
  have "closest_inv digest (its ! j)" if "j < ?n" for j
    using le [OF that] cis [of "?its ! j"] that by (auto simp: path_le_def)
  moreover have "initiated_by rs < ?n \<and> digest q \<in> closest_contacted digest (its ! initiated_by rs)" if "?c q = Some rs" for q rs
  proof -
    from init [OF that] obtain qs where qs: "dj_contacted s q = Some qs" "initiated_by qs = initiated_by rs" by blast
    then show ?thesis using disjoint_invD [OF inv qs(1)] ct by simp
  qed
  moreover have dm: "dom ?c = dom (dj_contacted s)" using c by auto
  ultimately have "disjoint_inv digest ?s" using inv no(2) by (simp add: disjoint_inv_def)
  moreover have sub: "disjoint_open digest ?s \<subseteq> disjoint_open digest s"
  proof
    fix q assume "q \<in> disjoint_open digest ?s"
    then obtain rs where rs: "?c q = Some rs" "digest q \<in> closest_open digest (its ! initiated_by rs)"
      by (auto simp: disjoint_open_def)
    from init [OF rs(1)] obtain qs where qs: "dj_contacted s q = Some qs" "initiated_by qs = initiated_by rs" by blast
    moreover have "initiated_by qs < ?n" using inv qs(1) by (auto simp: disjoint_inv_def)
    ultimately show "q \<in> disjoint_open digest s" using rs(2) op [of "initiated_by qs"] by (auto simp: disjoint_open_def)
  qed
  moreover have "p \<in> disjoint_open digest s \<and> p \<notin> disjoint_open digest ?s" if b
    using that own(3) c same by (auto simp: disjoint_open_def)
  moreover have "known_peers (its ! j) = known_peers (dj_iters s ! j)" if "j < ?n" "j \<noteq> ?i" for j
    using leo [OF that] by (simp add: path_le_def)
  ultimately show ?thesis using no same dm by (intro exI [of _ its]) (auto simp: Let_def)
qed

lemma Disjoint_on_success_ok:
  assumes inv: "disjoint_inv digest s"
  shows "\<exists>b s'. Disjoint_on_success digest p closer s = Some (b, s') \<and> disjoint_inv digest s' \<and>
    dom (dj_contacted s') = dom (dj_contacted s) \<and>
    (if b then p \<in> disjoint_open digest s \<and> disjoint_open digest s' \<subseteq> disjoint_open digest s - {p}
     else disjoint_open digest s' \<subseteq> disjoint_open digest s)"
proof (cases "dj_contacted s p")
  case None
  then show ?thesis using inv by (auto simp: Disjoint_on_success_def)
next
  case (Some ps)
  let ?it = "dj_iters s ! initiated_by ps"
  have i: "initiated_by ps < length (dj_iters s)" and it: "closest_inv digest ?it"
    using inv Some by (auto simp: disjoint_inv_def)
  from Closest_on_success_ok [OF it, of p closer] obtain b it' where
    own: "Closest_on_success digest p closer ?it = Some (b, it')" "closest_inv digest it'"
      "closest_contacted digest it' = closest_contacted digest ?it"
      "if b then digest p \<in> closest_open digest ?it \<and> closest_open digest it' = closest_open digest ?it - {digest p} else it' = ?it"
    by blast
  let ?s = "\<lambda>its. s\<lparr>dj_iters := its, dj_contacted := if b then (dj_contacted s)(p \<mapsto> ps\<lparr>response := RespSucceeded\<rparr>) else dj_contacted s\<rparr>"
  from disjoint_response [OF inv Some own(2-4), of "Closest_on_success digest p []" RespSucceeded, OF success_path_le] obtain its where
    its: "notify_others (Closest_on_success digest p []) (initiated_by ps) 0 ((dj_iters s)[initiated_by ps := it']) = Some its"
    and post: "disjoint_inv digest (?s its) \<and> dom (dj_contacted (?s its)) = dom (dj_contacted s) \<and>
        (if b then p \<in> disjoint_open digest s \<and> disjoint_open digest (?s its) \<subseteq> disjoint_open digest s - {p}
         else disjoint_open digest (?s its) \<subseteq> disjoint_open digest s)"
    unfolding Let_def by blast
  have "Disjoint_on_success digest p closer s = Some (b, ?s its)"
    using Some i own(1) its by (simp add: Disjoint_on_success_def panic_simps)
  then show ?thesis using post by blast
qed

lemma Disjoint_on_failure_ok:
  assumes inv: "disjoint_inv digest s"
  shows "\<exists>b s'. Disjoint_on_failure digest p s = Some (b, s') \<and> disjoint_inv digest s' \<and>
    dom (dj_contacted s') = dom (dj_contacted s) \<and>
    (if b then p \<in> disjoint_open digest s \<and> disjoint_open digest s' \<subseteq> disjoint_open digest s - {p}
     else disjoint_open digest s' \<subseteq> disjoint_open digest s)"
proof (cases "dj_contacted s p")
  case None
  then show ?thesis using inv by (auto simp: Disjoint_on_failure_def)
next
  case (Some ps)
  let ?it = "dj_iters s ! initiated_by ps"
  have i: "initiated_by ps < length (dj_iters s)" and it: "closest_inv digest ?it"
    using inv Some by (auto simp: disjoint_inv_def)
  from Closest_on_failure_ok [OF it, of p] obtain b it' where
    own: "Closest_on_failure digest p ?it = Some (b, it')" "closest_inv digest it'"
      "closest_contacted digest it' = closest_contacted digest ?it"
      "if b then digest p \<in> closest_open digest ?it \<and> closest_open digest it' = closest_open digest ?it - {digest p} else it' = ?it"
    by blast
  let ?s = "\<lambda>its. s\<lparr>dj_iters := its, dj_contacted := if b then (dj_contacted s)(p \<mapsto> ps\<lparr>response := RespFailed\<rparr>) else dj_contacted s\<rparr>"
  from disjoint_response [OF inv Some own(2-4), of "Closest_on_failure digest p" RespFailed, OF failure_path_le] obtain its where
    its: "notify_others (Closest_on_failure digest p) (initiated_by ps) 0 ((dj_iters s)[initiated_by ps := it']) = Some its"
    and post: "disjoint_inv digest (?s its) \<and> dom (dj_contacted (?s its)) = dom (dj_contacted s) \<and>
        (if b then p \<in> disjoint_open digest s \<and> disjoint_open digest (?s its) \<subseteq> disjoint_open digest s - {p}
         else disjoint_open digest (?s its) \<subseteq> disjoint_open digest s)"
    unfolding Let_def by blast
  have "Disjoint_on_failure digest p s = Some (b, ?s its)"
    using Some i own(1) its by (simp add: Disjoint_on_failure_def panic_simps)
  then show ?thesis using post by blast
qed

lemma closest_inv_finish: "closest_inv digest (Closest_finish it) = closest_inv digest it"
  "closest_contacted digest (Closest_finish it) = closest_contacted digest it" "closest_open digest (Closest_finish it) = {}"
  by (simp_all add: Closest_finish_def closest_contacted_def closest_open_def)

interpretation disjoint: peers_iter "\<lambda>p. p" "disjoint_inv digest" "\<lambda>s. dom (dj_contacted s)" "disjoint_open digest"
  "Disjoint_next digest" "Disjoint_on_success digest" "Disjoint_on_failure digest" Disjoint_finish
  for digest :: "'p \<Rightarrow> u256"
proof
  fix s :: "'p ClosestDisjointPeersIter" and now p ps
  assume inv: "disjoint_inv digest s"
  have sub: "disjoint_open digest s \<subseteq> dom (dj_contacted s)" by (auto simp: disjoint_open_def)
  then show "finite (disjoint_open digest s) \<and> disjoint_open digest s \<subseteq> dom (dj_contacted s)"
    using inv finite_subset by (auto simp: disjoint_inv_def)
  from paths_loop_ok [OF inv, of None now "length (dj_iters s)"] obtain r s' where
    nx: "Disjoint_next digest now s = Some (r, s')" "next_ok_at digest s r s'" by (auto simp: Disjoint_next_def)
  then show "\<exists>r s'. Disjoint_next digest now s = Some (r, s') \<and> disjoint_inv digest s' \<and>
      (case r of
         IterWaiting (Some p) \<Rightarrow> p \<notin> dom (dj_contacted s) \<and> dom (dj_contacted s') = insert p (dom (dj_contacted s)) \<and>
           disjoint_open digest s' \<subseteq> insert p (disjoint_open digest s)
       | _ \<Rightarrow> dom (dj_contacted s') = dom (dj_contacted s) \<and> disjoint_open digest s' \<subseteq> disjoint_open digest s)"
    unfolding next_ok_at_def by blast
  show "\<exists>b s'. Disjoint_on_success digest p ps s = Some (b, s') \<and> disjoint_inv digest s' \<and>
      dom (dj_contacted s') = dom (dj_contacted s) \<and>
      (if b then p \<in> disjoint_open digest s \<and> disjoint_open digest s' \<subseteq> disjoint_open digest s - {p}
       else disjoint_open digest s' \<subseteq> disjoint_open digest s)"
    by (rule Disjoint_on_success_ok [OF inv])
  show "\<exists>b s'. Disjoint_on_failure digest p s = Some (b, s') \<and> disjoint_inv digest s' \<and>
      dom (dj_contacted s') = dom (dj_contacted s) \<and>
      (if b then p \<in> disjoint_open digest s \<and> disjoint_open digest s' \<subseteq> disjoint_open digest s - {p}
       else disjoint_open digest s' \<subseteq> disjoint_open digest s)"
    by (rule Disjoint_on_failure_ok [OF inv])
  show "disjoint_inv digest (Disjoint_finish s) \<and> dom (dj_contacted (Disjoint_finish s)) = dom (dj_contacted s) \<and>
      disjoint_open digest (Disjoint_finish s) \<subseteq> disjoint_open digest s"
    using inv by (auto simp: Disjoint_finish_def disjoint_inv_def disjoint_open_def closest_inv_finish)
qed

section \<open>Properties of the iterator over disjoint paths\<close>

abbreviation disjoint_run :: "('p \<Rightarrow> u256) \<Rightarrow> 'p ClosestDisjointPeersIter \<Rightarrow> 'p iter_op list
    \<Rightarrow> ('p iter_event list \<times> 'p ClosestDisjointPeersIter) option" where
  "disjoint_run digest \<equiv>
     iter_run (Disjoint_next digest) (Disjoint_on_success digest) (Disjoint_on_failure digest) Disjoint_finish"

lemma Disjoint_with_config_inv:
  assumes "0 < cfg_parallelism cfg" and "0 < cfg_num_results cfg" and "\<And>k. k \<in> set known \<Longrightarrow> k = Key_from digest (key_preimage k)"
  shows "disjoint_inv digest (Disjoint_with_config cfg target known)"
proof -
  have "closest_inv digest (Closest_with_config cfg target (take K_VALUE known))"
    using assms by (intro Closest_with_config_inv(1)) (auto dest: in_set_takeD)
  then show ?thesis using assms(1) by (simp add: disjoint_inv_def Disjoint_with_config_def Let_def)
qed



text \<open>
  C26. The paths stay disjoint: the closer peers a peer reports become known to the one path that
  contacted it; no other path learns a peer from the response.
\<close>
theorem disjoint_paths_separate:
  assumes inv: "disjoint_inv digest s" and c: "dj_contacted s p = Some ps"
    and ok: "Disjoint_on_success digest p closer s = Some (b, s')"
    and j: "j < length (dj_iters s)"
  shows "known_peers (dj_iters s' ! j) \<subseteq> known_peers (dj_iters s ! j) \<union> (if j = initiated_by ps then set closer else {})"
proof -
  note d = disjoint_invD [OF inv c]
  from Closest_on_success_ok [OF d(3), of p closer] obtain b' it' where
    own: "Closest_on_success digest p closer (dj_iters s ! initiated_by ps) = Some (b', it')" "closest_inv digest it'"
      "closest_contacted digest it' = closest_contacted digest (dj_iters s ! initiated_by ps)"
      "if b' then digest p \<in> closest_open digest (dj_iters s ! initiated_by ps) \<and>
         closest_open digest it' = closest_open digest (dj_iters s ! initiated_by ps) - {digest p}
       else it' = dj_iters s ! initiated_by ps"
    by blast
  from disjoint_response [OF inv c own(2-4), of "Closest_on_success digest p []" RespSucceeded, OF success_path_le] obtain its where
    its: "notify_others (Closest_on_success digest p []) (initiated_by ps) 0 ((dj_iters s)[initiated_by ps := it']) = Some its"
      "length its = length (dj_iters s)" "its ! initiated_by ps = it'"
      "\<forall>j < length its. j \<noteq> initiated_by ps \<longrightarrow> known_peers (its ! j) = known_peers (dj_iters s ! j)" by blast
  have "dj_iters s' = its" using ok c d(1) own(1) its(1) by (auto simp: Disjoint_on_success_def panic_simps)
  then show ?thesis using its j known_success [OF d(3) own(1)] by auto
qed

definition sample_disjoint :: "nat ClosestDisjointPeersIter" where
  "sample_disjoint =
     (let it = Closest_with_config sample_cfg 0 [Key_from sample_digest 3]
      in \<lparr>dj_config = sample_cfg, dj_target = 0,
          dj_iters = [it\<lparr>closest_peers := [sample_peer 3 (Waiting 10)], num_waiting := 1\<rparr>, it],
          dj_order = 1, dj_contacted = [3 \<mapsto> DisjointPeerState_new 0]\<rparr>)"

lemma sample_disjoint_inv: "disjoint_inv sample_digest sample_disjoint"
proof -
  have "closest_inv sample_digest (Closest_with_config sample_cfg 0 [Key_from sample_digest 3])"
    by (rule Closest_with_config_inv(1)) (auto simp: sample_cfg_def Key_from_def)
  moreover have "closest_inv sample_digest ((Closest_with_config sample_cfg 0 [Key_from sample_digest 3])
      \<lparr>closest_peers := [sample_peer 3 (Waiting 10)], num_waiting := 1\<rparr>)"
    by (simp add: closest_inv_def Closest_with_config_def sample_peer_def sample_cfg_def is_Waiting_def
        entry_ok_def entry_peer_def Key_from_def KeyBytes_distance_def sample_digest_def)
  ultimately show ?thesis
    by (auto simp: disjoint_inv_def sample_disjoint_def Let_def less_Suc_eq DisjointPeerState_new_def
        closest_contacted_def sample_peer_def entry_peer_def Key_from_def)
qed

theorem disjoint_paths_separate_witness:
  "\<exists>b s'. Disjoint_on_success sample_digest 3 [2] sample_disjoint = Some (b, s') \<and>
          known_peers (dj_iters s' ! 1) \<subseteq> known_peers (dj_iters sample_disjoint ! 1)"
proof -
  from Disjoint_on_success_ok [OF sample_disjoint_inv, of 3 "[2]"] obtain b s' where
    ok: "Disjoint_on_success sample_digest 3 [2] sample_disjoint = Some (b, s')" by blast
  have "dj_contacted sample_disjoint 3 = Some (DisjointPeerState_new 0)" "1 < length (dj_iters sample_disjoint)"
    by (simp_all add: sample_disjoint_def Let_def)
  from disjoint_paths_separate [OF sample_disjoint_inv this(1) ok this(2)] ok show ?thesis
    by (auto simp: DisjointPeerState_new_def)
qed

text \<open>The target of a path never changes.\<close>

lemma mark_peer_target: "mark_peer s d st = Some (Some s1) \<Longrightarrow> cp_target s1 = cp_target s"
  by (auto simp: mark_peer_def split: option.splits ClosestPeerState.splits bind_splits)

lemma Closest_next_target: "Closest_next now s = Some (r, s') \<Longrightarrow> cp_target s' = cp_target s"
  by (auto simp: Closest_next_def Let_def split: if_splits bind_splits option.splits PeersIterState.splits)

lemma Closest_on_success_target: "Closest_on_success digest p ps s = Some (b, s') \<Longrightarrow> cp_target s' = cp_target s"
  by (auto simp: Closest_on_success_def Let_def split: if_splits bind_splits option.splits prod.splits dest: mark_peer_target)

lemma Closest_on_failure_target: "Closest_on_failure digest p s = Some (b, s') \<Longrightarrow> cp_target s' = cp_target s"
  by (auto simp: Closest_on_failure_def split: if_splits bind_splits option.splits dest: mark_peer_target)

lemmas closest_target = Closest_next_target Closest_on_success_target Closest_on_failure_target

lemma path_loop_target: "path_loop digest now i c it = Some (r, it', c') \<Longrightarrow> cp_target it' = cp_target it"
proof (induction "not_contacted (closest_peers it)" arbitrary: it rule: less_induct)
  case less
  have IH: "cp_target it' = cp_target it"
    if "path_loop digest now i c t = Some (r, it', c')" "cp_target t = cp_target it" "not_contacted (closest_peers t) < not_contacted (closest_peers it)" for t
    using less.hyps [OF that(3,1)] that(2) by simp
  note un = less.prems [unfolded path_loop.simps [of digest now i c it]]
  then obtain r1 it1 where nx: "Closest_next now it = Some (r1, it1)" by (auto split: option.splits)
  show ?case
  proof (cases "\<exists>p ps. r1 = IterWaiting (Some p) \<and> c p = Some ps")
    case False
    then have "it' = it1" using un nx by (auto split: PeersIterState.splits option.splits)
    then show ?thesis using Closest_next_target [OF nx] by simp
  next
    case True
    then obtain p ps where p: "r1 = IterWaiting (Some p)" "c p = Some ps" by blast
    note t1 = Closest_next_target [OF nx] and n1 = not_contacted_next [OF nx [unfolded p(1)]]
    show ?thesis
    proof (cases "response ps")
      case RespWaiting
      then show ?thesis using un nx p IH [of it1] t1 n1 by simp
    next
      case RespSucceeded
      with un nx p obtain b it2 where it2: "Closest_on_success digest p [] it1 = Some (b, it2)" "path_loop digest now i c it2 = Some (r, it', c')"
        by (auto split: option.splits)
      then show ?thesis using IH [of it2] Closest_on_success_target [OF it2(1)] not_contacted_success [OF it2(1)] t1 n1 by simp
    next
      case RespFailed
      with un nx p obtain b it2 where it2: "Closest_on_failure digest p it1 = Some (b, it2)" "path_loop digest now i c it2 = Some (r, it', c')"
        by (auto split: option.splits)
      then show ?thesis using IH [of it2] Closest_on_failure_target [OF it2(1)] not_contacted_failure [OF it2(1)] t1 n1 by simp
    qed
  qed
qed

lemma notify_others_target:
  assumes "\<And>x b x'. f x = Some (b, x') \<Longrightarrow> cp_target x' = cp_target x"
  shows "notify_others f skip i ss = Some ss' \<Longrightarrow> map cp_target ss' = map cp_target ss"
  by (induction ss arbitrary: i ss') (auto split: if_splits bind_splits dest: assms)

lemma list_update_target:
  "vec_index its i = Some it \<Longrightarrow> cp_target it' = cp_target it \<Longrightarrow> map cp_target (its[i := it']) = map cp_target its"
  by (auto simp: vec_index_def map_update list_update_same_conv split: if_splits)

lemma paths_loop_target:
  "paths_loop digest now k st s = Some (r, s') \<Longrightarrow>
   dj_target s' = dj_target s \<and> map cp_target (dj_iters s') = map cp_target (dj_iters s)"
proof (induction k arbitrary: st s)
  case (Suc k)
  from Suc.prems obtain it r1 it' c where
    it: "vec_index (dj_iters s) (dj_order s) = Some it"
      "path_loop digest now (dj_order s) (dj_contacted s) it = Some (r1, it', c)"
    by (auto simp: Let_def split: bind_splits)
  define s1 where "s1 = s\<lparr>dj_order := Suc (dj_order s) mod length (dj_iters s), dj_iters := (dj_iters s)[dj_order s := it'], dj_contacted := c\<rparr>"
  have "map cp_target (dj_iters s1) = map cp_target (dj_iters s)" "dj_target s1 = dj_target s"
    using list_update_target [OF it(1) path_loop_target [OF it(2)]] by (simp_all add: s1_def)
  moreover have "s' = s1 \<or> (\<exists>st'. paths_loop digest now k st' s1 = Some (r, s'))"
    using Suc.prems it
    by (auto simp: Let_def s1_def split: PeersIterState.splits option.splits)
  ultimately show ?case using Suc.IH by auto
qed simp

lemma disjoint_run_target:
  assumes "disjoint_run digest s xs = Some (es, s')"
  shows "dj_target s' = dj_target s" and "map cp_target (dj_iters s') = map cp_target (dj_iters s)"
proof -
  have "(dj_target t', map cp_target (dj_iters t')) = (dj_target t, map cp_target (dj_iters t))"
    if step: "iter_step (Disjoint_next digest) (Disjoint_on_success digest) (Disjoint_on_failure digest) Disjoint_finish t x = Some (e, t')"
    for t x e t'
  proof (cases x)
    case (INext now)
    then show ?thesis using step by (auto simp: Disjoint_next_def dest: paths_loop_target)
  next
    case (ISuccess p ps)
    then show ?thesis
      using step by (auto simp: Disjoint_on_success_def split: option.splits bind_splits
          dest!: notify_others_target [rotated] list_update_target Closest_on_success_target)
  next
    case (IFailure p)
    then show ?thesis
      using step by (auto simp: Disjoint_on_failure_def split: option.splits bind_splits
          dest!: notify_others_target [rotated] list_update_target Closest_on_failure_target)
  next
    case IFinish
    then show ?thesis using step by (auto simp: Disjoint_finish_def Closest_finish_def)
  qed
  from iter_run_keeps [where f = "\<lambda>t. (dj_target t, map cp_target (dj_iters t))", OF this assms]
  show "dj_target s' = dj_target s" "map cp_target (dj_iters s') = map cp_target (dj_iters s)" by auto
qed

lemma Closest_into_result_sorted:
  assumes inv: "closest_inv digest it"
  shows "path_sorted (cp_target it) (map (Key_from digest) (Closest_into_result it))"
proof -
  have "sorted_wrt (\<lambda>a b. fst a < fst b) (closest_peers it)"
    using inv by (simp add: closest_inv_def bt_inv_def sorted_wrt_map)
  then have srt: "sorted_wrt (\<lambda>a b. fst a < fst b) (take n (filter succeeded (closest_peers it)))" for n
    by (intro sorted_wrt_take sorted_wrt_filter)
  have key: "fst e = key_dist (cp_target it) (Key_from digest (entry_peer e))" if "e \<in> set (closest_peers it)" for e
    using inv that by (auto simp: closest_inv_def entry_ok_def key_dist_def Key_from_def)
  have "sorted_wrt (\<lambda>x y. key_dist (cp_target it) (Key_from digest (entry_peer x)) < key_dist (cp_target it) (Key_from digest (entry_peer y)))
      (take n (filter succeeded (closest_peers it)))" for n
    using key by (intro sorted_wrt_mono_rel [OF _ srt]) (metis filter_is_subset in_set_takeD subsetD)
  then show ?thesis by (simp add: Closest_into_result_filter path_sorted_def sorted_wrt_map take_map)
qed

lemma Union_update:
  assumes "y # ks \<in> set its"
  shows "\<Union>(set ` set (its[a := ks])) \<subseteq> \<Union>(set ` set its)"
proof
  fix x assume "x \<in> \<Union>(set ` set (its[a := ks]))"
  then obtain l where l: "l \<in> set (its[a := ks])" "x \<in> set l" by blast
  from l(1) have "l = ks \<or> l \<in> set its" using set_update_subset_insert [of its a ks] by blast
  then show "x \<in> \<Union>(set ` set its)" using assms l(2) by (metis UN_I list.set_intros(2))
qed

lemma result_fold_elems:
  "result_fold t bs acc its = (acc', its') \<Longrightarrow> \<Union>(set ` set its') \<subseteq> \<Union>(set ` set its)"
proof (induction t bs acc its rule: result_fold.induct)
  case (3 t b bs a its)
  have "\<Union>(set ` set (its[b := rest])) \<subseteq> \<Union>(set ` set its)" if "its ! b = y # rest" for y rest
  proof (cases "b < length its")
    case True
    then have "y # rest \<in> set its" using that by (metis nth_mem)
    then show ?thesis by (rule Union_update)
  qed (simp add: list_update_beyond)
  with 3 show ?case by (fastforce split: list.splits if_splits)
qed auto

lemma ResultIter_collect_elems: "set (ResultIter_collect t its) \<subseteq> \<Union>(set ` set its)"
proof (induction t its rule: ResultIter_collect.induct)
  case (1 t its)
  show ?case
  proof (cases "ResultIter_next t its")
    case (Pair r its')
    show ?thesis
    proof (cases r)
      case None
      then show ?thesis using Pair by (simp add: ResultIter_collect.simps [of t its])
    next
      case (Some k)
      with Pair obtain a its1 ks where f: "result_fold t [0..<length its] None its = (Some a, its1)"
        and a: "its1 ! a = k # ks" "its' = its1[a := ks]"
        by (auto simp: ResultIter_next_def split: prod.splits option.splits list.splits)
      have "a < length its1" using result_fold_size [OF f] by auto
      then have "k # ks \<in> set its1" using a(1) by (metis nth_mem)
      then have k: "k \<in> \<Union>(set ` set its1)" by force
      have "\<Union>(set ` set its') \<subseteq> \<Union>(set ` set its)"
        using Union_update [OF \<open>k # ks \<in> set its1\<close>, of a] result_fold_elems [OF f] by (simp add: a(2))
      with "1.IH" [OF Pair [symmetric] Some] have sub: "set (ResultIter_collect t its') \<subseteq> \<Union>(set ` set its)"
        by (rule order_trans)
      have "k \<in> \<Union>(set ` set its)" using result_fold_elems [OF f] k by (rule subsetD)
      moreover have "set (ResultIter_collect t its) = insert k (set (ResultIter_collect t its'))"
        using Pair Some by (simp add: ResultIter_collect.simps [of t its])
      ultimately show ?thesis using sub by (simp only: insert_subset simp_thms)
    qed
  qed
qed

text \<open>
  The result of a lookup over disjoint paths, after any sequence of calls: the peers come in
  strictly increasing distance to the target, so none of them twice, and they are exactly the peers
  in the results of the single paths (up to the digest of a peer).
\<close>
theorem disjoint_result_merged:
  assumes "0 < cfg_parallelism cfg" and "0 < cfg_num_results cfg"
    and "\<And>k. k \<in> set known \<Longrightarrow> k = Key_from digest (key_preimage k)"
    and run: "disjoint_run digest (Disjoint_with_config cfg target known) ops = Some (es, s)"
  shows "sorted_wrt (\<lambda>p q. KeyBytes_distance target (digest p) < KeyBytes_distance target (digest q)) (Disjoint_into_result digest s) \<and>
         digest ` set (Disjoint_into_result digest s) = (\<Union>it \<in> set (dj_iters s). digest ` set (Closest_into_result it))"
proof -
  let ?its = "map (\<lambda>it. map (Key_from digest) (Closest_into_result it)) (dj_iters s)"
  have new: "disjoint_inv digest (Disjoint_with_config cfg target known)"
    using assms(1,2) by (rule Disjoint_with_config_inv) (erule assms(3))
  from disjoint.run_ok [OF new, of ops] run have inv: "\<And>it. it \<in> set (dj_iters s) \<Longrightarrow> closest_inv digest it"
    by (auto simp: disjoint_inv_def in_set_conv_nth)
  have t: "dj_target s = target" "map cp_target (dj_iters s) = map (\<lambda>_. target) [0..<cfg_parallelism cfg]"
    using disjoint_run_target [OF run] by (auto simp: Disjoint_with_config_def Let_def Closest_with_config_def comp_def)
  have "cp_target ` set (dj_iters s) \<subseteq> {target}"
    using arg_cong [OF t(2), of set] by auto
  then have "\<And>it. it \<in> set (dj_iters s) \<Longrightarrow> cp_target it = target" by blast
  then have "\<forall>ks \<in> set ?its. path_sorted target ks"
    using Closest_into_result_sorted inv by fastforce
  from ResultIter_collect_ok [OF this] have
    ok: "path_sorted target (ResultIter_collect target ?its)" "key_bytes ` set (ResultIter_collect target ?its) = all_keys ?its"
    by auto
  have own: "key_bytes k = digest (key_preimage k)" if "k \<in> set (ResultIter_collect target ?its)" for k
    using that ResultIter_collect_elems [of target ?its] by (auto simp: Key_from_def)
  have "sorted_wrt (\<lambda>k l. KeyBytes_distance target (digest (key_preimage k)) < KeyBytes_distance target (digest (key_preimage l)))
      (ResultIter_collect target ?its)"
    using ok(1) unfolding path_sorted_def by (rule sorted_wrt_mono_rel [rotated]) (simp add: key_dist_def own)
  moreover have "digest ` key_preimage ` set (ResultIter_collect target ?its) = all_keys ?its"
    using ok(2) own by (auto simp: image_image)
  moreover have "all_keys ?its = (\<Union>it \<in> set (dj_iters s). digest ` set (Closest_into_result it))"
    by (auto simp: all_keys_def Key_from_def image_image)
  ultimately show ?thesis by (simp add: Disjoint_into_result_def t(1) sorted_wrt_map)
qed

theorem disjoint_result_merged_witness:
  "\<exists>es s. disjoint_run sample_digest (Disjoint_with_config sample_cfg 0 [Key_from sample_digest 3]) [INext 0, ISuccess 3 [], INext 1] = Some (es, s) \<and>
     sample_digest ` set (Disjoint_into_result sample_digest s) = (\<Union>it \<in> set (dj_iters s). sample_digest ` set (Closest_into_result it))"
proof -
  let ?s = "Disjoint_with_config sample_cfg 0 [Key_from sample_digest 3]"
  have k: "k = Key_from sample_digest (key_preimage k)" if "k \<in> set [Key_from sample_digest 3]" for k
    using that by (simp add: Key_from_def)
  have pos: "0 < cfg_parallelism sample_cfg" "0 < cfg_num_results sample_cfg" by (simp_all add: sample_cfg_def)
  have "disjoint_inv sample_digest ?s" using pos by (rule Disjoint_with_config_inv) (erule k)
  from disjoint.run_ok [OF this] obtain es s where "disjoint_run sample_digest ?s [INext 0, ISuccess 3 [], INext 1] = Some (es, s)" by blast
  with disjoint_result_merged [OF pos k this] show ?thesis by blast
qed

end
