(* ===== verification/Kad_Query.thy ===== *)
theory Kad_Query
  imports Kad_Disjoint
begin

text \<open>
  Queries and the query pool of Kademlia: \<open>protocols/kad/src/query.rs\<close>.

  A query dispatches to one of the three peer iterators and counts requests and results in 32-bit
  counters. Query ids are 64-bit (\<open>usize\<close>) and wrap around; the difference of two instants saturates
  at zero. The hash map of queries is a map; the order in
  which a poll visits it is unspecified and passed as the list \<open>ord\<close> of its keys.
\<close>

section \<open>Definitions\<close>

record QueryStats =
  st_requests :: u32
  st_success :: u32
  st_failure :: u32
  st_start :: "instant option"
  st_end :: "instant option"

definition QueryStats_empty :: QueryStats where
  "QueryStats_empty = \<lparr>st_requests = 0, st_success = 0, st_failure = 0, st_start = None, st_end = None\<rparr>"

definition num_pending :: "QueryStats \<Rightarrow> u32" where
  "num_pending st = st_requests st - (st_success st + st_failure st)"

definition stats_duration :: "instant \<Rightarrow> QueryStats \<Rightarrow> duration option" where
  "stats_duration now st =
     (case st_start st of
        Some s \<Rightarrow> (case st_end st of Some e \<Rightarrow> Some (e - s) | None \<Rightarrow> Some (now - s))
      | None \<Rightarrow> None)"

text \<open>\<open>std::cmp::max\<close> on options: \<open>None\<close> is the least element.\<close>

fun option_max :: "nat option \<Rightarrow> nat option \<Rightarrow> nat option" where
  "option_max None b = b"
| "option_max a None = a"
| "option_max (Some a) (Some b) = Some (max a b)"

definition stats_merge :: "QueryStats \<Rightarrow> QueryStats \<Rightarrow> QueryStats" where
  "stats_merge a b =
     \<lparr>st_requests = st_requests a + st_requests b, st_success = st_success a + st_success b,
      st_failure = st_failure a + st_failure b,
      st_start = (case (st_start a, st_start b) of
                    (Some x, Some y) \<Rightarrow> Some (min x y)
                  | (None, y) \<Rightarrow> y
                  | (x, None) \<Rightarrow> x),
      st_end = option_max (st_end a) (st_end b)\<rparr>"

datatype 'p QueryPeerIter =
    QClosest "'p ClosestPeersIter" | QDisjoint "'p ClosestDisjointPeersIter" | QFixed "'p FixedPeersIter"

record ('p, 'q) Query =
  q_id :: u64
  q_peer_iter :: "'p QueryPeerIter"
  q_stats :: QueryStats
  q_inner :: 'q

definition Query_new :: "u64 \<Rightarrow> 'p QueryPeerIter \<Rightarrow> 'q \<Rightarrow> ('p, 'q) Query" where
  "Query_new i it inner = \<lparr>q_id = i, q_peer_iter = it, q_stats = QueryStats_empty, q_inner = inner\<rparr>"

fun peer_iter_failure :: "('p \<Rightarrow> u256) \<Rightarrow> 'p \<Rightarrow> 'p QueryPeerIter \<Rightarrow> (bool \<times> 'p QueryPeerIter) option" where
  "peer_iter_failure digest p (QClosest it) = map_option (map_prod id QClosest) (Closest_on_failure digest p it)"
| "peer_iter_failure digest p (QDisjoint it) = map_option (map_prod id QDisjoint) (Disjoint_on_failure digest p it)"
| "peer_iter_failure digest p (QFixed it) = map_option (map_prod id QFixed) (Fixed_on_failure p it)"

fun peer_iter_success :: "('p \<Rightarrow> u256) \<Rightarrow> 'p \<Rightarrow> 'p list \<Rightarrow> 'p QueryPeerIter \<Rightarrow> (bool \<times> 'p QueryPeerIter) option" where
  "peer_iter_success digest p ps (QClosest it) = map_option (map_prod id QClosest) (Closest_on_success digest p ps it)"
| "peer_iter_success digest p ps (QDisjoint it) = map_option (map_prod id QDisjoint) (Disjoint_on_success digest p ps it)"
| "peer_iter_success digest p ps (QFixed it) = map_option (map_prod id QFixed) (Fixed_on_success p it)"

fun peer_iter_next :: "('p \<Rightarrow> u256) \<Rightarrow> instant \<Rightarrow> 'p QueryPeerIter \<Rightarrow> ('p PeersIterState \<times> 'p QueryPeerIter) option" where
  "peer_iter_next digest now (QClosest it) = map_option (map_prod id QClosest) (Closest_next now it)"
| "peer_iter_next digest now (QDisjoint it) = map_option (map_prod id QDisjoint) (Disjoint_next digest now it)"
| "peer_iter_next digest now (QFixed it) = Some (map_prod id QFixed (Fixed_next it))"

fun peer_iter_finish :: "'p QueryPeerIter \<Rightarrow> 'p QueryPeerIter" where
  "peer_iter_finish (QClosest it) = QClosest (Closest_finish it)"
| "peer_iter_finish (QDisjoint it) = QDisjoint (Disjoint_finish it)"
| "peer_iter_finish (QFixed it) = QFixed (Fixed_finish it)"

definition Query_on_failure :: "('p \<Rightarrow> u256) \<Rightarrow> 'p \<Rightarrow> ('p, 'q) Query \<Rightarrow> ('p, 'q) Query option" where
  "Query_on_failure digest p q = do {
     (updated, it) \<leftarrow> peer_iter_failure digest p (q_peer_iter q);
     let q1 = q\<lparr>q_peer_iter := it\<rparr>;
     Some (if updated then q1\<lparr>q_stats := (q_stats q)\<lparr>st_failure := st_failure (q_stats q) + 1\<rparr>\<rparr> else q1)
   }"

definition Query_on_success :: "('p \<Rightarrow> u256) \<Rightarrow> 'p \<Rightarrow> 'p list \<Rightarrow> ('p, 'q) Query \<Rightarrow> ('p, 'q) Query option" where
  "Query_on_success digest p ps q = do {
     (updated, it) \<leftarrow> peer_iter_success digest p ps (q_peer_iter q);
     let q1 = q\<lparr>q_peer_iter := it\<rparr>;
     Some (if updated then q1\<lparr>q_stats := (q_stats q)\<lparr>st_success := st_success (q_stats q) + 1\<rparr>\<rparr> else q1)
   }"

fun peer_iter_is_waiting :: "'p QueryPeerIter \<Rightarrow> 'p \<Rightarrow> bool" where
  "peer_iter_is_waiting (QClosest it) p = Closest_is_waiting it p"
| "peer_iter_is_waiting (QDisjoint it) p = Disjoint_is_waiting it p"
| "peer_iter_is_waiting (QFixed it) p = Fixed_is_waiting it p"

definition Query_is_waiting :: "('p, 'q) Query \<Rightarrow> 'p \<Rightarrow> bool" where
  "Query_is_waiting q p = peer_iter_is_waiting (q_peer_iter q) p"

definition Query_next :: "('p \<Rightarrow> u256) \<Rightarrow> instant \<Rightarrow> ('p, 'q) Query \<Rightarrow> ('p PeersIterState \<times> ('p, 'q) Query) option" where
  "Query_next digest now q = do {
     (r, it) \<leftarrow> peer_iter_next digest now (q_peer_iter q);
     let q1 = q\<lparr>q_peer_iter := it\<rparr>;
     Some (r, case r of
                IterWaiting (Some _) \<Rightarrow> q1\<lparr>q_stats := (q_stats q)\<lparr>st_requests := st_requests (q_stats q) + 1\<rparr>\<rparr>
              | _ \<Rightarrow> q1)
   }"

fun peer_iter_try_finish :: "'p list \<Rightarrow> 'p QueryPeerIter \<Rightarrow> (bool \<times> 'p QueryPeerIter) option" where
  "peer_iter_try_finish ps (QClosest it) = Some (True, QClosest (Closest_finish it))"
| "peer_iter_try_finish ps (QDisjoint it) = map_option (map_prod id QDisjoint) (Disjoint_finish_paths ps it)"
| "peer_iter_try_finish ps (QFixed it) = Some (True, QFixed (Fixed_finish it))"

definition Query_try_finish :: "'p list \<Rightarrow> ('p, 'q) Query \<Rightarrow> (bool \<times> ('p, 'q) Query) option" where
  "Query_try_finish ps q = map_option (\<lambda>(b, it). (b, q\<lparr>q_peer_iter := it\<rparr>)) (peer_iter_try_finish ps (q_peer_iter q))"

definition Query_finish :: "('p, 'q) Query \<Rightarrow> ('p, 'q) Query" where
  "Query_finish q = q\<lparr>q_peer_iter := peer_iter_finish (q_peer_iter q)\<rparr>"

fun peer_iter_is_finished :: "'p QueryPeerIter \<Rightarrow> bool" where
  "peer_iter_is_finished (QClosest it) = Closest_is_finished it"
| "peer_iter_is_finished (QDisjoint it) = Disjoint_is_finished it"
| "peer_iter_is_finished (QFixed it) = Fixed_is_finished it"

definition Query_is_finished :: "('p, 'q) Query \<Rightarrow> bool" where
  "Query_is_finished q = peer_iter_is_finished (q_peer_iter q)"

record ('p, 'q) QueryResult =
  qr_inner :: 'q
  qr_peers :: "'p list"
  qr_stats :: QueryStats

definition Query_into_result :: "('p \<Rightarrow> u256) \<Rightarrow> 'p list \<Rightarrow> ('p, 'q) Query \<Rightarrow> ('p, 'q) QueryResult" where
  "Query_into_result digest ord q =
     \<lparr>qr_inner = q_inner q,
      qr_peers = (case q_peer_iter q of
                    QClosest it \<Rightarrow> Closest_into_result it
                  | QDisjoint it \<Rightarrow> Disjoint_into_result digest it
                  | QFixed it \<Rightarrow> Fixed_into_result ord it),
      qr_stats = q_stats q\<rparr>"

section \<open>Definitions: the pool\<close>

record QueryConfig =
  qc_timeout :: duration
  qc_replication_factor :: nat
  qc_parallelism :: nat
  qc_disjoint_query_paths :: bool

definition QueryConfig_default :: "duration \<Rightarrow> QueryConfig" where
  "QueryConfig_default second =
     \<lparr>qc_timeout = 60 * second, qc_replication_factor = K_VALUE, qc_parallelism = ALPHA_VALUE,
      qc_disjoint_query_paths = False\<rparr>"

record ('p, 'q) QueryPool =
  qp_next_id :: u64
  qp_config :: QueryConfig
  qp_queries :: "u64 \<rightharpoonup> ('p, 'q) Query"

definition QueryPool_new :: "QueryConfig \<Rightarrow> ('p, 'q) QueryPool" where
  "QueryPool_new cfg = \<lparr>qp_next_id = 0, qp_config = cfg, qp_queries = Map.empty\<rparr>"

definition next_query_id :: "('p, 'q) QueryPool \<Rightarrow> u64 \<times> ('p, 'q) QueryPool" where
  "next_query_id pool = (qp_next_id pool, pool\<lparr>qp_next_id := qp_next_id pool + 1\<rparr>)"

definition continue_fixed :: "u64 \<Rightarrow> 'p list \<Rightarrow> 'q \<Rightarrow> ('p, 'q) QueryPool \<Rightarrow> ('p, 'q) QueryPool option" where
  "continue_fixed i ps inner pool =
     (if i \<in> dom (qp_queries pool) then None
      else let it = QFixed (Fixed_new ps (qc_replication_factor (qp_config pool)))
           in Some (pool\<lparr>qp_queries := (qp_queries pool)(i \<mapsto> Query_new i it inner)\<rparr>))"

definition add_fixed :: "'p list \<Rightarrow> 'q \<Rightarrow> ('p, 'q) QueryPool \<Rightarrow> (u64 \<times> ('p, 'q) QueryPool) option" where
  "add_fixed ps inner pool = do {
     let (i, pool1) = next_query_id pool;
     pool2 \<leftarrow> continue_fixed i ps inner pool1;
     Some (i, pool2)
   }"

definition continue_iter_closest :: "duration \<Rightarrow> u64 \<Rightarrow> u256 \<Rightarrow> 'p key list \<Rightarrow> 'q \<Rightarrow> ('p, 'q) QueryPool \<Rightarrow> ('p, 'q) QueryPool" where
  "continue_iter_closest second i target ps inner pool =
     (let cfg = (ClosestPeersIterConfig_default second)
                  \<lparr>cfg_num_results := qc_replication_factor (qp_config pool), cfg_parallelism := qc_parallelism (qp_config pool)\<rparr>;
          it = (if qc_disjoint_query_paths (qp_config pool)
                then QDisjoint (Disjoint_with_config cfg target ps)
                else QClosest (Closest_with_config cfg target ps))
      in pool\<lparr>qp_queries := (qp_queries pool)(i \<mapsto> Query_new i it inner)\<rparr>)"

definition add_iter_closest :: "duration \<Rightarrow> u256 \<Rightarrow> 'p key list \<Rightarrow> 'q \<Rightarrow> ('p, 'q) QueryPool \<Rightarrow> u64 \<times> ('p, 'q) QueryPool" where
  "add_iter_closest second target ps inner pool =
     (let (i, pool1) = next_query_id pool in (i, continue_iter_closest second i target ps inner pool1))"

datatype ('p, 'q) QueryPoolState =
    PoolIdle | PoolWaiting "(('p, 'q) Query \<times> 'p) option" | PoolFinished "('p, 'q) Query" | PoolTimeout "('p, 'q) Query"

text \<open>The loop of \<open>poll\<close>, up to the query that ends it and what was found there.\<close>

datatype 'p poll_end = EndNone | EndFinished u64 | EndWaiting u64 'p | EndTimeout u64

fun poll_loop :: "('p \<Rightarrow> u256) \<Rightarrow> instant \<Rightarrow> duration \<Rightarrow> u64 list \<Rightarrow> (u64 \<rightharpoonup> ('p, 'q) Query)
    \<Rightarrow> ('p poll_end \<times> (u64 \<rightharpoonup> ('p, 'q) Query)) option" where
  "poll_loop digest now timeout [] m = Some (EndNone, m)"
| "poll_loop digest now timeout (i # is) m =
     (case m i of
        None \<Rightarrow> poll_loop digest now timeout is m
      | Some q0 \<Rightarrow>
          (let q = q0\<lparr>q_stats := (q_stats q0)\<lparr>st_start := (case st_start (q_stats q0) of None \<Rightarrow> Some now | Some s \<Rightarrow> Some s)\<rparr>\<rparr>
           in case Query_next digest now q of
                None \<Rightarrow> None
              | Some (IterFinished, q') \<Rightarrow> Some (EndFinished i, m(i \<mapsto> q'))
              | Some (IterWaiting (Some p), q') \<Rightarrow> Some (EndWaiting i p, m(i \<mapsto> q'))
              | Some (_, q') \<Rightarrow>
                  (let elapsed = now - (case st_start (q_stats q') of Some s \<Rightarrow> s | None \<Rightarrow> now)
                   in if elapsed \<ge> timeout then Some (EndTimeout i, m(i \<mapsto> q'))
                      else poll_loop digest now timeout is (m(i \<mapsto> q')))))"

definition remove_ended :: "instant \<Rightarrow> u64 \<Rightarrow> (u64 \<rightharpoonup> ('p, 'q) Query) \<Rightarrow> (('p, 'q) Query \<times> (u64 \<rightharpoonup> ('p, 'q) Query)) option" where
  "remove_ended now i m = map_option (\<lambda>q. (q\<lparr>q_stats := (q_stats q)\<lparr>st_end := Some now\<rparr>\<rparr>, m(i := None))) (m i)"

definition QueryPool_poll :: "('p \<Rightarrow> u256) \<Rightarrow> instant \<Rightarrow> u64 list \<Rightarrow> ('p, 'q) QueryPool
    \<Rightarrow> (('p, 'q) QueryPoolState \<times> ('p, 'q) QueryPool) option" where
  "QueryPool_poll digest now ord pool = do {
     (e, m) \<leftarrow> poll_loop digest now (qc_timeout (qp_config pool)) ord (qp_queries pool);
     case e of
       EndWaiting i p \<Rightarrow> do { q \<leftarrow> m i; Some (PoolWaiting (Some (q, p)), pool\<lparr>qp_queries := m\<rparr>) }
     | EndFinished i \<Rightarrow> do { (q, m') \<leftarrow> remove_ended now i m; Some (PoolFinished q, pool\<lparr>qp_queries := m'\<rparr>) }
     | EndTimeout i \<Rightarrow> do { (q, m') \<leftarrow> remove_ended now i m; Some (PoolTimeout q, pool\<lparr>qp_queries := m'\<rparr>) }
     | EndNone \<Rightarrow> Some (if \<forall>i\<in>set ord. m i = None then PoolIdle else PoolWaiting None, pool\<lparr>qp_queries := m\<rparr>)
   }"

section \<open>Counting requests and results\<close>

text \<open>The calls made on one query, as for an iterator.\<close>

fun query_step :: "('p \<Rightarrow> u256) \<Rightarrow> ('p, 'q) Query \<Rightarrow> 'p iter_op \<Rightarrow> ('p, 'q) Query option" where
  "query_step digest q (INext now) = map_option snd (Query_next digest now q)"
| "query_step digest q (ISuccess p ps) = Query_on_success digest p ps q"
| "query_step digest q (IFailure p) = Query_on_failure digest p q"
| "query_step digest q IFinish = Some (Query_finish q)"

fun query_run :: "('p \<Rightarrow> u256) \<Rightarrow> ('p, 'q) Query \<Rightarrow> 'p iter_op list \<Rightarrow> ('p, 'q) Query option" where
  "query_run digest q [] = Some q"
| "query_run digest q (x # xs) = do { q1 \<leftarrow> query_step digest q x; query_run digest q1 xs }"

abbreviation peer_iter_run :: "('p \<Rightarrow> u256) \<Rightarrow> 'p QueryPeerIter \<Rightarrow> 'p iter_op list \<Rightarrow> ('p iter_event list \<times> 'p QueryPeerIter) option" where
  "peer_iter_run digest \<equiv> iter_run (peer_iter_next digest) (peer_iter_success digest) (peer_iter_failure digest) peer_iter_finish"

text \<open>A run on one iterator, seen through the constructor that wraps it.\<close>

lemma iter_step_wrap:
  assumes "\<And>now s. nxt' now (C s) = map_option (map_prod id C) (nxt now s)"
    and "\<And>p ps s. succ' p ps (C s) = map_option (map_prod id C) (succ p ps s)"
    and "\<And>p s. fail' p (C s) = map_option (map_prod id C) (fail p s)"
    and "\<And>s. fin' (C s) = C (fin s)"
  shows "iter_step nxt' succ' fail' fin' (C s) x = map_option (map_prod id C) (iter_step nxt succ fail fin s x)"
  by (cases x) (auto simp: assms option.map_comp intro!: option.map_cong)

lemma iter_run_wrap:
  assumes "\<And>now s. nxt' now (C s) = map_option (map_prod id C) (nxt now s)"
    and "\<And>p ps s. succ' p ps (C s) = map_option (map_prod id C) (succ p ps s)"
    and "\<And>p s. fail' p (C s) = map_option (map_prod id C) (fail p s)"
    and "\<And>s. fin' (C s) = C (fin s)"
  shows "iter_run nxt' succ' fail' fin' (C s) xs = map_option (map_prod id C) (iter_run nxt succ fail fin s xs)"
proof (induction xs arbitrary: s)
  case (Cons x xs)
  have "iter_step nxt' succ' fail' fin' (C s) x = map_option (map_prod id C) (iter_step nxt succ fail fin s x)"
    by (rule iter_step_wrap) (rule assms)+
  then show ?case
    by (cases "iter_step nxt succ fail fin s x") (auto simp: Cons.IH split: bind_splits)
qed simp

lemma peer_iter_run_wrap:
  "peer_iter_run digest (QClosest c) xs = map_option (map_prod id QClosest) (closest_run digest c xs)"
  "peer_iter_run digest (QDisjoint d) xs = map_option (map_prod id QDisjoint) (disjoint_run digest d xs)"
  "peer_iter_run digest (QFixed f) xs = map_option (map_prod id QFixed) (fixed_run f xs)"
  by (rule iter_run_wrap; simp)+

text \<open>The iterators the pool starts its queries with.\<close>

fun peer_iter_new :: "('p \<Rightarrow> u256) \<Rightarrow> 'p QueryPeerIter \<Rightarrow> bool" where
  "peer_iter_new digest (QClosest it) \<longleftrightarrow> closest_inv digest it \<and> closest_open digest it = {}"
| "peer_iter_new digest (QDisjoint it) \<longleftrightarrow> disjoint_inv digest it \<and> disjoint_open digest it = {}"
| "peer_iter_new digest (QFixed it) \<longleftrightarrow> fixed_inv it \<and> fixed_open it = {}"

lemma peer_iter_run_ok:
  assumes "peer_iter_new digest it"
  shows "\<exists>es it'. peer_iter_run digest it xs = Some (es, it') \<and> length (accepts es) \<le> length (yields es)"
proof (cases it)
  case (QClosest c)
  then have n: "closest_inv digest c" "closest_open digest c = {}" using assms by auto
  from closest.run_ok [OF n(1), of xs] obtain es s where r: "closest_run digest c xs = Some (es, s)" by blast
  show ?thesis using closest.accepts_le_yields [OF n r] r QClosest by (simp add: peer_iter_run_wrap)
next
  case (QDisjoint c)
  then have n: "disjoint_inv digest c" "disjoint_open digest c = {}" using assms by auto
  from disjoint.run_ok [OF n(1), of xs] obtain es s where r: "disjoint_run digest c xs = Some (es, s)" by blast
  show ?thesis using disjoint.accepts_le_yields [OF n r] r QDisjoint by (simp add: peer_iter_run_wrap)
next
  case (QFixed c)
  then have n: "fixed_inv c" "fixed_open c = {}" using assms by auto
  from fixed.run_ok [OF n(1), of xs] obtain es s where r: "fixed_run c xs = Some (es, s)" by blast
  show ?thesis using fixed.accepts_le_yields [OF n r] r QFixed by (simp add: peer_iter_run_wrap)
qed

text \<open>A query counts what its iterator yields and accepts.\<close>

definition counts :: "('p, 'q) Query \<Rightarrow> 'p iter_event list \<Rightarrow> ('p, 'q) Query \<Rightarrow> bool" where
  "counts q es q' \<longleftrightarrow>
     (\<exists>s f. s + f = length (accepts es) \<and>
        st_requests (q_stats q') = st_requests (q_stats q) + of_nat (length (yields es)) \<and>
        st_success (q_stats q') = st_success (q_stats q) + of_nat s \<and>
        st_failure (q_stats q') = st_failure (q_stats q) + of_nat f)"

lemma counts_trans: "counts q es q1 \<Longrightarrow> counts q1 es' q' \<Longrightarrow> counts q (es @ es') q'"
proof -
  assume "counts q es q1" "counts q1 es' q'"
  then obtain s f s' f' where "s + f = length (accepts es)" "s' + f' = length (accepts es')"
    "st_requests (q_stats q') = st_requests (q_stats q) + of_nat (length (yields es)) + of_nat (length (yields es'))"
    "st_success (q_stats q') = st_success (q_stats q) + of_nat s + of_nat s'"
    "st_failure (q_stats q') = st_failure (q_stats q) + of_nat f + of_nat f'" by (auto simp: counts_def)
  then show ?thesis unfolding counts_def
    by (intro exI [of _ "s + s'"] exI [of _ "f + f'"]) simp
qed

lemma counts_none: "q_stats q' = q_stats q \<Longrightarrow> counts q [] q'"
  by (simp add: counts_def)

lemma counts_yield: "q_stats q' = (q_stats q)\<lparr>st_requests := st_requests (q_stats q) + 1\<rparr> \<Longrightarrow> counts q [Yield p] q'"
  by (simp add: counts_def)

lemma counts_success: "q_stats q' = (q_stats q)\<lparr>st_success := st_success (q_stats q) + 1\<rparr> \<Longrightarrow> counts q [Accept p] q'"
  unfolding counts_def by (rule exI [of _ 1], rule exI [of _ 0]) simp

lemma counts_failure: "q_stats q' = (q_stats q)\<lparr>st_failure := st_failure (q_stats q) + 1\<rparr> \<Longrightarrow> counts q [Accept p] q'"
  unfolding counts_def by (rule exI [of _ 0], rule exI [of _ 1]) simp

lemma query_step_counts:
  assumes "iter_step (peer_iter_next digest) (peer_iter_success digest) (peer_iter_failure digest) peer_iter_finish (q_peer_iter q) x
             = Some (es, it)"
  shows "\<exists>q'. query_step digest q x = Some q' \<and> q_peer_iter q' = it \<and> counts q es q'"
proof (cases x)
  case (INext now)
  then obtain r where "peer_iter_next digest now (q_peer_iter q) = Some (r, it)"
    "es = (case r of IterWaiting (Some p) \<Rightarrow> [Yield p] | _ \<Rightarrow> [])" using assms by auto
  then show ?thesis using INext
    by (auto simp: Query_next_def Let_def intro!: counts_none counts_yield split: option.splits PeersIterState.splits)
next
  case (ISuccess p ps)
  then show ?thesis using assms
    by (auto simp: Query_on_success_def Let_def intro!: counts_none counts_success)
next
  case (IFailure p)
  then show ?thesis using assms
    by (auto simp: Query_on_failure_def Let_def intro!: counts_none counts_failure)
next
  case IFinish
  then show ?thesis using assms by (auto simp: Query_finish_def intro!: counts_none)
qed

lemma query_run_counts:
  "peer_iter_run digest (q_peer_iter q) xs = Some (es, it) \<Longrightarrow>
   \<exists>q'. query_run digest q xs = Some q' \<and> counts q es q'"
proof (induction xs arbitrary: q es)
  case (Cons x xs)
  then obtain es1 it1 es2 where 1: "iter_step (peer_iter_next digest) (peer_iter_success digest) (peer_iter_failure digest)
        peer_iter_finish (q_peer_iter q) x = Some (es1, it1)"
      "peer_iter_run digest it1 xs = Some (es2, it)" "es = es1 @ es2"
    by (auto split: bind_splits)
  from query_step_counts [OF 1(1)] obtain q1 where q1: "query_step digest q x = Some q1" "q_peer_iter q1 = it1" "counts q es1 q1" by blast
  from Cons.IH [of q1 es2] 1 q1 obtain q' where "query_run digest q1 xs = Some q'" "counts q1 es2 q'" by auto
  then show ?case using q1 1(3) counts_trans by auto
qed (auto intro: counts_none)

lemma one_yield: "length (yields (case r of IterWaiting (Some p) \<Rightarrow> [Yield p] | _ \<Rightarrow> [])) \<le> Suc 0"
  by (simp split: PeersIterState.splits option.splits)

lemma yields_bound: "iter_run nxt succ fail fin s xs = Some (es, s') \<Longrightarrow> length (yields es) \<le> length xs"
proof (induction xs arbitrary: s es)
  case (Cons x xs)
  then obtain es1 s1 es2 where 1: "iter_step nxt succ fail fin s x = Some (es1, s1)" "iter_run nxt succ fail fin s1 xs = Some (es2, s')"
      "es = es1 @ es2" by (auto split: bind_splits)
  have "length (yields es1) \<le> 1" using 1(1) one_yield by (cases x) auto
  then show ?case using Cons.IH [OF 1(2)] 1(3) by simp
qed simp

definition stats_of :: "nat \<Rightarrow> nat \<Rightarrow> nat \<Rightarrow> QueryStats \<Rightarrow> bool" where
  "stats_of r s f st \<longleftrightarrow> unat (st_requests st) = r \<and> unat (st_success st) = s \<and> unat (st_failure st) = f"

lemma num_pending_exact:
  "stats_of r s f st \<Longrightarrow> s + f \<le> r \<Longrightarrow> unat (num_pending st) = r - (s + f)"
proof -
  assume st: "stats_of r s f st" and le: "s + f \<le> r"
  have "r < 2 ^ 32" using st unsigned_less [of "st_requests st", where ?'a = nat] by (simp add: stats_of_def)
  then have "unat (st_success st + st_failure st) = s + f"
    using st le by (subst unat_add_lem [THEN iffD1]) (auto simp: stats_of_def)
  then show ?thesis
    using st le by (simp add: num_pending_def stats_of_def unat_sub word_le_nat_alt)
qed



section \<open>Polling the pool\<close>

lemma Closest_next_finished:
  "Closest_next now s = Some (IterFinished, s') \<Longrightarrow> Closest_is_finished s'"
  by (auto simp: Closest_next_def Closest_is_finished_def Let_def split: if_splits bind_splits option.splits PeersIterState.splits)

lemma Fixed_next_finished: "Fixed_next s = (IterFinished, s') \<Longrightarrow> Fixed_is_finished s'"
  by (auto simp: Fixed_next_def Fixed_is_finished_def split: if_splits prod.splits option.splits FixedState.splits)

lemma path_loop_is_finished:
  "Closest_is_finished it \<Longrightarrow> path_loop digest now i contacted it = Some (IterFinished, it, contacted)"
  by (subst path_loop.simps) (simp add: Closest_next_def Closest_is_finished_def)

lemma path_loop_finished:
  "path_loop digest now i contacted it = Some (IterFinished, it', contacted') \<Longrightarrow> Closest_is_finished it'"
proof (induction digest now i contacted it rule: path_loop.induct)
  case (1 digest now i contacted it)
  from "1.prems" show ?case
    by (subst (asm) path_loop.simps)
       (auto dest: "1.IH" Closest_next_finished split: option.splits PeersIterState.splits ResponseState.splits prod.splits)
qed

definition path_finished :: "'p ClosestDisjointPeersIter \<Rightarrow> nat \<Rightarrow> bool" where
  "path_finished s j \<longleftrightarrow> j < length (dj_iters s) \<and> Closest_is_finished (dj_iters s ! j)"

text \<open>One round of the \<open>for\<close> loop on a path leaves the finished paths finished.\<close>

lemma path_finished_update:
  assumes "path_loop digest now i (dj_contacted s) (dj_iters s ! i) = Some (r, it', contacted)" and "i < length (dj_iters s)"
  shows "path_finished s j \<Longrightarrow> path_finished (s\<lparr>dj_order := k, dj_iters := (dj_iters s)[i := it'], dj_contacted := contacted\<rparr>) j"
    and "r = IterFinished \<Longrightarrow> path_finished (s\<lparr>dj_order := k, dj_iters := (dj_iters s)[i := it'], dj_contacted := contacted\<rparr>) i"
  using assms path_loop_is_finished [of "dj_iters s ! i" digest now i "dj_contacted s"] path_loop_finished
  by (auto simp: path_finished_def nth_list_update)

lemma paths_loop_Suc:
  assumes "paths_loop digest now (Suc k) st s = Some (r, s')"
  obtains r1 it' contacted s1 where "dj_order s < length (dj_iters s)"
    and "path_loop digest now (dj_order s) (dj_contacted s) (dj_iters s ! dj_order s) = Some (r1, it', contacted)"
    and "s1 = s\<lparr>dj_order := (dj_order s + 1) mod length (dj_iters s), dj_iters := (dj_iters s)[dj_order s := it'], dj_contacted := contacted\<rparr>"
    and "(\<exists>p. r1 = IterWaiting (Some p) \<and> r = r1 \<and> s' = s1) \<or>
         (r1 = IterFinished \<and> paths_loop digest now k st s1 = Some (r, s')) \<or>
         (r1 \<noteq> IterFinished \<and> (\<exists>st'. st' \<noteq> IterFinished \<and> paths_loop digest now k (Some st') s1 = Some (r, s')))"
proof -
  from assms obtain r1 it' contacted where i: "dj_order s < length (dj_iters s)"
    and l: "path_loop digest now (dj_order s) (dj_contacted s) (dj_iters s ! dj_order s) = Some (r1, it', contacted)"
    by (auto simp: vec_index_def Let_def split: bind_splits if_splits)
  let ?s1 = "s\<lparr>dj_order := (dj_order s + 1) mod length (dj_iters s), dj_iters := (dj_iters s)[dj_order s := it'], dj_contacted := contacted\<rparr>"
  have "(\<exists>p. r1 = IterWaiting (Some p) \<and> r = r1 \<and> s' = ?s1) \<or>
         (r1 = IterFinished \<and> paths_loop digest now k st ?s1 = Some (r, s')) \<or>
         (r1 \<noteq> IterFinished \<and> (\<exists>st'. st' \<noteq> IterFinished \<and> paths_loop digest now k (Some st') ?s1 = Some (r, s')))"
  proof (cases r1)
    case (IterWaiting o1)
    then show ?thesis using assms i l
      by (cases o1) (auto simp: vec_index_def Let_def split: option.splits PeersIterState.splits)
  next
    case IterWaitingAtCapacity
    then show ?thesis using assms i l
      by (auto simp: vec_index_def Let_def split: option.splits PeersIterState.splits)
  next
    case IterFinished
    then show ?thesis using assms i l by (simp add: vec_index_def Let_def)
  qed
  with i l show ?thesis using that by blast
qed

lemma paths_loop_waiting:
  "paths_loop digest now k (Some st) s = Some (IterFinished, s') \<Longrightarrow> st = IterFinished"
proof (induction k arbitrary: st s)
  case (Suc k)
  from Suc.prems show ?case by (rule paths_loop_Suc) (auto dest: Suc.IH)
qed simp

lemma paths_loop_keeps:
  "paths_loop digest now k st s = Some (r, s') \<Longrightarrow> path_finished s j \<Longrightarrow> path_finished s' j"
proof (induction k arbitrary: st s)
  case (Suc k)
  from Suc.prems(1) show ?case
  proof (rule paths_loop_Suc)
    fix r1 it' contacted s1
    assume i: "dj_order s < length (dj_iters s)"
      and l: "path_loop digest now (dj_order s) (dj_contacted s) (dj_iters s ! dj_order s) = Some (r1, it', contacted)"
      and s1: "s1 = s\<lparr>dj_order := (dj_order s + 1) mod length (dj_iters s), dj_iters := (dj_iters s)[dj_order s := it'], dj_contacted := contacted\<rparr>"
      and c: "(\<exists>p. r1 = IterWaiting (Some p) \<and> r = r1 \<and> s' = s1) \<or>
         (r1 = IterFinished \<and> paths_loop digest now k st s1 = Some (r, s')) \<or>
         (r1 \<noteq> IterFinished \<and> (\<exists>st'. st' \<noteq> IterFinished \<and> paths_loop digest now k (Some st') s1 = Some (r, s')))"
    have "path_finished s1 j" unfolding s1 by (rule path_finished_update(1) [OF l i Suc.prems(2)])
    then show ?thesis using c Suc.IH by blast
  qed
qed simp

lemma paths_loop_all:
  "paths_loop digest now k None s = Some (IterFinished, s') \<Longrightarrow> j < k \<Longrightarrow>
   path_finished s' ((dj_order s + j) mod length (dj_iters s))"
proof (induction k arbitrary: s j)
  case (Suc k)
  from Suc.prems(1) obtain it' contacted s1 where i: "dj_order s < length (dj_iters s)"
      and l: "path_loop digest now (dj_order s) (dj_contacted s) (dj_iters s ! dj_order s) = Some (IterFinished, it', contacted)"
      and s1: "s1 = s\<lparr>dj_order := (dj_order s + 1) mod length (dj_iters s), dj_iters := (dj_iters s)[dj_order s := it'], dj_contacted := contacted\<rparr>"
      and rest: "paths_loop digest now k None s1 = Some (IterFinished, s')"
    by (rule paths_loop_Suc) (auto dest: paths_loop_waiting)
  show ?case
  proof (cases j)
    case 0
    have "path_finished s1 (dj_order s)" unfolding s1 by (rule path_finished_update(2) [OF l i refl])
    then show ?thesis using paths_loop_keeps [OF rest] i 0 by simp
  next
    case (Suc j')
    then have "path_finished s' ((dj_order s1 + j') mod length (dj_iters s1))" using Suc.IH [OF rest, of j'] Suc.prems(2) by simp
    then show ?thesis using Suc by (simp add: s1 mod_simps)
  qed
qed simp

lemma paths_loop_length: "paths_loop digest now k st s = Some (r, s') \<Longrightarrow> length (dj_iters s') = length (dj_iters s)"
proof (induction k arbitrary: st s)
  case (Suc k)
  from Suc.prems show ?case by (rule paths_loop_Suc) (auto dest: Suc.IH)
qed simp

lemma Disjoint_next_finished:
  assumes "Disjoint_next digest now s = Some (IterFinished, s')" and "dj_order s < length (dj_iters s)"
  shows "Disjoint_is_finished s'"
proof -
  let ?n = "length (dj_iters s)"
  note l = assms(1) [unfolded Disjoint_next_def]
  have "path_finished s' i" if "i < ?n" for i
  proof -
    have "(dj_order s + (i + ?n - dj_order s) mod ?n) mod ?n = i"
      using that assms(2) by (simp add: mod_simps)
    then show ?thesis using paths_loop_all [OF l, of "(i + ?n - dj_order s) mod ?n"] mod_less_divisor [of ?n] that
      by (metis gr_implies_not0 neq0_conv)
  qed
  then show ?thesis
    using paths_loop_length [OF l] by (auto simp: Disjoint_is_finished_def path_finished_def list_all_length)
qed

fun peer_iter_inv :: "('p \<Rightarrow> u256) \<Rightarrow> 'p QueryPeerIter \<Rightarrow> bool" where
  "peer_iter_inv digest (QClosest it) \<longleftrightarrow> closest_inv digest it"
| "peer_iter_inv digest (QDisjoint it) \<longleftrightarrow> disjoint_inv digest it"
| "peer_iter_inv digest (QFixed it) \<longleftrightarrow> fixed_inv it"

lemma peer_iter_next_ok:
  assumes "peer_iter_inv digest it"
  obtains r it' where "peer_iter_next digest now it = Some (r, it')" and "peer_iter_inv digest it'"
    and "r = IterFinished \<longrightarrow> peer_iter_is_finished it'"
proof (cases it)
  case (QClosest c)
  then obtain r c' where "Closest_next now c = Some (r, c')" "closest_inv digest c'"
    using closest.next_ok [of digest c now] assms by auto
  then show ?thesis using that [of r "QClosest c'"] QClosest Closest_next_finished by auto
next
  case (QDisjoint c)
  then obtain r c' where n: "Disjoint_next digest now c = Some (r, c')" "disjoint_inv digest c'"
    using disjoint.next_ok [of digest c now] assms by auto
  have "dj_order c < length (dj_iters c)" using assms QDisjoint by (simp add: disjoint_inv_def)
  then show ?thesis using that [of r "QDisjoint c'"] n QDisjoint Disjoint_next_finished by auto
next
  case (QFixed c)
  obtain r c' where n: "Fixed_next c = (r, c')" by fastforce
  then have "fixed_inv c'" using fixed.next_ok [of c] assms QFixed by auto
  then show ?thesis using that [of r "QFixed c'"] n QFixed Fixed_next_finished by auto
qed

text \<open>The invariant of the queries of a pool: each is filed under its id.\<close>

definition queries_inv :: "('p \<Rightarrow> u256) \<Rightarrow> (u64 \<rightharpoonup> ('p, 'q) Query) \<Rightarrow> bool" where
  "queries_inv digest m \<longleftrightarrow> (\<forall>i q. m i = Some q \<longrightarrow> q_id q = i \<and> peer_iter_inv digest (q_peer_iter q))"

definition elapsed_since_start :: "instant \<Rightarrow> ('p, 'q) Query \<Rightarrow> duration option" where
  "elapsed_since_start now q = map_option (\<lambda>s. now - s) (st_start (q_stats q))"

text \<open>What the loop of \<open>poll\<close> found: \<open>m\<close> are the queries after it.\<close>

fun end_ok :: "instant \<Rightarrow> duration \<Rightarrow> u64 list \<Rightarrow> (u64 \<rightharpoonup> ('p, 'q) Query) \<Rightarrow> 'p poll_end \<Rightarrow> bool" where
  "end_ok now timeout ord m EndNone \<longleftrightarrow>
     (\<forall>i q. i \<in> set ord \<and> m i = Some q \<longrightarrow> (\<exists>e. elapsed_since_start now q = Some e \<and> e < timeout))"
| "end_ok now timeout ord m (EndFinished i) \<longleftrightarrow> (\<exists>q. m i = Some q \<and> Query_is_finished q)"
| "end_ok now timeout ord m (EndWaiting i p) \<longleftrightarrow> i \<in> dom m"
| "end_ok now timeout ord m (EndTimeout i) \<longleftrightarrow> (\<exists>q e. m i = Some q \<and> elapsed_since_start now q = Some e \<and> timeout \<le> e)"

lemma Query_next_ok:
  assumes "peer_iter_inv digest (q_peer_iter q)"
  obtains r q' where "Query_next digest now q = Some (r, q')" and "peer_iter_inv digest (q_peer_iter q')"
    and "q_id q' = q_id q" and "st_start (q_stats q') = st_start (q_stats q)"
    and "r = IterFinished \<longrightarrow> Query_is_finished q'"
proof -
  from assms obtain r it' where n: "peer_iter_next digest now (q_peer_iter q) = Some (r, it')" "peer_iter_inv digest it'"
    "r = IterFinished \<longrightarrow> peer_iter_is_finished it'" by (rule peer_iter_next_ok [where now = now])
  let ?q = "case r of IterWaiting (Some _) \<Rightarrow> q\<lparr>q_peer_iter := it', q_stats := (q_stats q)\<lparr>st_requests := st_requests (q_stats q) + 1\<rparr>\<rparr>
            | _ \<Rightarrow> q\<lparr>q_peer_iter := it'\<rparr>"
  have "q_peer_iter ?q = it'" "q_id ?q = q_id q" "st_start (q_stats ?q) = st_start (q_stats q)"
    by (auto split: PeersIterState.splits option.splits)
  moreover have "Query_next digest now q = Some (r, ?q)"
    using n(1) by (simp add: Query_next_def Let_def)
  ultimately show ?thesis using that n by (simp add: Query_is_finished_def)
qed

lemma poll_loop_ok:
  "queries_inv digest m \<Longrightarrow> distinct ord \<Longrightarrow>
   \<exists>e m'. poll_loop digest now timeout ord m = Some (e, m') \<and> queries_inv digest m' \<and> dom m' = dom m \<and>
     (\<forall>i. i \<notin> set ord \<longrightarrow> m' i = m i) \<and> end_ok now timeout ord m' e"
proof (induction ord arbitrary: m)
  case (Cons i ord)
  show ?case
  proof (cases "m i")
    case None
    with Cons.IH [OF Cons.prems(1)] Cons.prems(2) obtain e m' where
      "poll_loop digest now timeout ord m = Some (e, m')" "queries_inv digest m'" "dom m' = dom m"
      "\<forall>j. j \<notin> set ord \<longrightarrow> m' j = m j" "end_ok now timeout ord m' e" by auto
    moreover have "end_ok now timeout (i # ord) m' e" using calculation None Cons.prems(2) by (cases e) auto
    ultimately show ?thesis using None by auto
  next
    case (Some q0)
    let ?q = "q0\<lparr>q_stats := (q_stats q0)\<lparr>st_start := (case st_start (q_stats q0) of None \<Rightarrow> Some now | Some s \<Rightarrow> Some s)\<rparr>\<rparr>"
    have q0: "q_id q0 = i" "peer_iter_inv digest (q_peer_iter ?q)" using Cons.prems(1) Some by (auto simp: queries_inv_def)
    from q0(2) obtain r q' where n: "Query_next digest now ?q = Some (r, q')" "peer_iter_inv digest (q_peer_iter q')"
      "q_id q' = q_id ?q" "st_start (q_stats q') = st_start (q_stats ?q)" "r = IterFinished \<longrightarrow> Query_is_finished q'"
      by (rule Query_next_ok [where now = now])
    obtain st where st: "st_start (q_stats q') = Some st" using n(4) by (cases "st_start (q_stats q0)") auto
    have inv: "queries_inv digest (m(i \<mapsto> q'))" using Cons.prems(1) n q0 by (simp add: queries_inv_def)
    have dom: "dom (m(i \<mapsto> q')) = dom m" using Some by auto
    consider "r = IterFinished" | p where "r = IterWaiting (Some p)" | "r = IterWaiting None \<or> r = IterWaitingAtCapacity" "timeout \<le> now - st"
      | "r = IterWaiting None \<or> r = IterWaitingAtCapacity" "now - st < timeout" by (metis PeersIterState.exhaust not_le option.exhaust)
    then show ?thesis
    proof cases
      case 4
      have d: "distinct ord" using Cons.prems(2) by simp
      from Cons.IH [OF inv d] obtain e m' where
        r: "poll_loop digest now timeout ord (m(i \<mapsto> q')) = Some (e, m')" "queries_inv digest m'" "dom m' = dom m"
          "\<forall>j. j \<notin> set ord \<longrightarrow> m' j = (m(i \<mapsto> q')) j" "end_ok now timeout ord m' e" unfolding dom by blast
      have "m' i = Some q'" using r(4) Cons.prems(2) by simp
      then have "end_ok now timeout (i # ord) m' e" using r(5) 4(2) st by (cases e) (auto simp: elapsed_since_start_def)
      moreover have "poll_loop digest now timeout (i # ord) m = Some (e, m')" using 4 Some n(1) r(1) st by auto
      ultimately show ?thesis using r by auto
    qed (use Some n(1,5) st inv dom in \<open>auto simp: elapsed_since_start_def\<close>)
  qed
qed simp

fun pool_state_ok :: "instant \<Rightarrow> ('p, 'q) QueryPool \<Rightarrow> ('p, 'q) QueryPool \<Rightarrow> ('p, 'q) QueryPoolState \<Rightarrow> bool" where
  "pool_state_ok now pool pool' PoolIdle \<longleftrightarrow> qp_queries pool = Map.empty \<and> qp_queries pool' = Map.empty"
| "pool_state_ok now pool pool' (PoolWaiting None) \<longleftrightarrow>
     qp_queries pool \<noteq> Map.empty \<and> dom (qp_queries pool') = dom (qp_queries pool) \<and>
     (\<forall>i q. qp_queries pool' i = Some q \<longrightarrow> (\<exists>e. elapsed_since_start now q = Some e \<and> e < qc_timeout (qp_config pool)))"
| "pool_state_ok now pool pool' (PoolWaiting (Some (q, p))) \<longleftrightarrow>
     dom (qp_queries pool') = dom (qp_queries pool) \<and> qp_queries pool' (q_id q) = Some q"
| "pool_state_ok now pool pool' (PoolFinished q) \<longleftrightarrow>
     Query_is_finished q \<and> q_id q \<in> dom (qp_queries pool) \<and> st_end (q_stats q) = Some now \<and>
     dom (qp_queries pool') = dom (qp_queries pool) - {q_id q}"
| "pool_state_ok now pool pool' (PoolTimeout q) \<longleftrightarrow>
     (\<exists>e. elapsed_since_start now q = Some e \<and> qc_timeout (qp_config pool) \<le> e) \<and>
     q_id q \<in> dom (qp_queries pool) \<and> st_end (q_stats q) = Some now \<and>
     dom (qp_queries pool') = dom (qp_queries pool) - {q_id q}"

lemma queries_invD: "queries_inv digest m \<Longrightarrow> m i = Some q \<Longrightarrow> q_id q = i"
  by (simp add: queries_inv_def)

lemma queries_inv_remove: "queries_inv digest m \<Longrightarrow> queries_inv digest (m(i := None))"
  by (simp add: queries_inv_def)


definition sample_pool :: "(nat, unit) QueryPool" where
  "sample_pool = (QueryPool_new (QueryConfig_default 1))\<lparr>qp_queries := [5 \<mapsto> Query_new 5 (QFixed (Fixed_new [7] 2)) ()]\<rparr>"


section \<open>Adding queries\<close>

text \<open>
  A query is added under a fresh id as long as the 64-bit ids have not wrapped around: the
  assertion of \<open>continue_fixed\<close> holds, no running query is replaced, and the invariant is kept.
\<close>
theorem add_fixed_fresh:
  assumes "0 < qc_replication_factor (qp_config pool)" and "queries_inv digest (qp_queries pool)"
    and below: "\<forall>i \<in> dom (qp_queries pool). i < qp_next_id pool" and nowrap: "qp_next_id pool \<noteq> - 1"
  shows "\<exists>pool'. add_fixed ps inner pool = Some (qp_next_id pool, pool') \<and> queries_inv digest (qp_queries pool') \<and>
           dom (qp_queries pool') = insert (qp_next_id pool) (dom (qp_queries pool)) \<and>
           (\<forall>i \<in> dom (qp_queries pool'). i < qp_next_id pool') \<and>
           qp_next_id pool \<notin> dom (qp_queries pool) \<and> qp_queries pool \<subseteq>\<^sub>m qp_queries pool'"
proof -
  have lt: "qp_next_id pool < qp_next_id pool + 1"
    using nowrap by (simp add: word_less_nat_alt unatSuc add.commute [of _ 1] add_eq_0_iff)
  have fresh: "qp_next_id pool \<notin> dom (qp_queries pool)" using below by blast
  define q where "q = Query_new (qp_next_id pool) (QFixed (Fixed_new ps (qc_replication_factor (qp_config pool)))) inner"
  have "add_fixed ps inner pool = Some (qp_next_id pool,
      pool\<lparr>qp_next_id := qp_next_id pool + 1, qp_queries := (qp_queries pool)(qp_next_id pool \<mapsto> q)\<rparr>)"
    using fresh by (simp add: add_fixed_def next_query_id_def continue_fixed_def q_def Let_def domIff)
  moreover have "queries_inv digest ((qp_queries pool)(qp_next_id pool \<mapsto> q))"
    using assms(2) fixed_inv_new [OF assms(1), of ps] by (simp add: queries_inv_def q_def Query_new_def)
  moreover have "\<forall>i \<in> insert (qp_next_id pool) (dom (qp_queries pool)). i < qp_next_id pool + 1"
    using below lt by (auto dest: order_less_trans)
  moreover have "qp_queries pool \<subseteq>\<^sub>m (qp_queries pool)(qp_next_id pool \<mapsto> q)"
    using fresh by (auto simp: map_le_def)
  ultimately show ?thesis using fresh by simp
qed

theorem add_fixed_fresh_witness:
  "\<exists>pool'. add_fixed [3] () (sample_pool\<lparr>qp_next_id := 6\<rparr>) = Some (6, pool') \<and> dom (qp_queries pool') = {5, 6}"
proof -
  let ?pool = "sample_pool\<lparr>qp_next_id := 6\<rparr>"
  have "queries_inv sample_digest (qp_queries ?pool)"
    using fixed_inv_new [of 2 "[7]"] by (simp add: queries_inv_def sample_pool_def Query_new_def)
  moreover have "0 < qc_replication_factor (qp_config ?pool)"
    by (simp add: sample_pool_def QueryPool_new_def QueryConfig_default_def K_VALUE_def)
  moreover have "\<forall>i \<in> dom (qp_queries ?pool). i < qp_next_id ?pool" "qp_next_id ?pool \<noteq> - 1" "dom (qp_queries ?pool) = {5}"
    by (simp_all add: sample_pool_def)
  ultimately show ?thesis using add_fixed_fresh [of ?pool sample_digest "[3]" "()"] by auto
qed

end
