(* ===== verification/Kad_Store.thy ===== *)
theory Kad_Store
  imports Kad_Key
begin

text \<open>
  The in-memory record store of Kademlia (protocols/kad/src/record.rs, record/store.rs and
  record/store/memory.rs): value records, provider records, and the set of the provider records
  of the local node.

  A hash map is a \<open>mapping\<close>. The hash set \<open>provided\<close> identifies two provider records that agree
  on key and provider, so it is a mapping from that pair to the element the set holds. The
  SHA-256 of a peer id and of a record key are the parameters \<open>digest\<close> and \<open>kdigest\<close>.
\<close>

section \<open>Records\<close>

record 'p Record =
  rec_key :: bytes
  rec_value :: bytes
  rec_publisher :: "'p option"
  rec_expires :: "instant option"

record ('p, 'a) ProviderRecord =
  pr_key :: bytes
  pr_provider :: 'p
  pr_expires :: "instant option"
  pr_addresses :: "'a list"

definition Record_new :: "bytes \<Rightarrow> bytes \<Rightarrow> 'p Record" where
  "Record_new k v = \<lparr>rec_key = k, rec_value = v, rec_publisher = None, rec_expires = None\<rparr>"

definition Record_is_expired :: "'p Record \<Rightarrow> instant \<Rightarrow> bool" where
  "Record_is_expired r now = (case rec_expires r of None \<Rightarrow> False | Some t \<Rightarrow> t \<le> now)"

definition ProviderRecord_new :: "bytes \<Rightarrow> 'p \<Rightarrow> 'a list \<Rightarrow> ('p, 'a) ProviderRecord" where
  "ProviderRecord_new k p addrs =
     \<lparr>pr_key = k, pr_provider = p, pr_expires = None, pr_addresses = addrs\<rparr>"

definition ProviderRecord_is_expired :: "('p, 'a) ProviderRecord \<Rightarrow> instant \<Rightarrow> bool" where
  "ProviderRecord_is_expired r now = (case pr_expires r of None \<Rightarrow> False | Some t \<Rightarrow> t \<le> now)"

text \<open>The identity under which \<open>Hash\<close> and \<open>PartialEq\<close> compare provider records.\<close>

definition pr_id :: "('p, 'a) ProviderRecord \<Rightarrow> bytes \<times> 'p" where
  "pr_id r = (pr_key r, pr_provider r)"

section \<open>The store\<close>

datatype StoreError = MaxRecords | MaxProvidedKeys | ValueTooLarge

record MemoryStoreConfig =
  max_records :: nat
  max_value_bytes :: nat
  max_providers_per_key :: nat
  max_provided_keys :: nat

definition MemoryStoreConfig_default :: MemoryStoreConfig where
  "MemoryStoreConfig_default =
     \<lparr>max_records = 1024, max_value_bytes = 65 * 1024, max_providers_per_key = K_VALUE,
      max_provided_keys = 1024\<rparr>"

record ('p, 'a) MemoryStore =
  ms_local_key :: 'p
  ms_config :: MemoryStoreConfig
  ms_records :: "(bytes, 'p Record) mapping"
  ms_providers :: "(bytes, ('p, 'a) ProviderRecord list) mapping"
  ms_provided :: "(bytes \<times> 'p, ('p, 'a) ProviderRecord) mapping"

definition Store_with_config :: "'p \<Rightarrow> MemoryStoreConfig \<Rightarrow> ('p, 'a) MemoryStore" where
  "Store_with_config p cfg =
     \<lparr>ms_local_key = p, ms_config = cfg, ms_records = Mapping.empty,
      ms_providers = Mapping.empty, ms_provided = Mapping.empty\<rparr>"

definition Store_new :: "'p \<Rightarrow> ('p, 'a) MemoryStore" where
  "Store_new p = Store_with_config p MemoryStoreConfig_default"

text \<open>
  The closure of \<open>retain\<close> sees each entry once and may change the record, so its effect is a
  function of the entry.
\<close>

definition Store_retain ::
  "(bytes \<Rightarrow> 'p Record \<Rightarrow> bool \<times> 'p Record) \<Rightarrow> ('p, 'a) MemoryStore \<Rightarrow> ('p, 'a) MemoryStore" where
  "Store_retain f s =
     s\<lparr>ms_records := Mapping.map_values (\<lambda>k r. snd (f k r))
                       (Mapping.filter (\<lambda>k r. fst (f k r)) (ms_records s))\<rparr>"

definition Store_get :: "('p, 'a) MemoryStore \<Rightarrow> bytes \<Rightarrow> 'p Record option" where
  "Store_get s k = Mapping.lookup (ms_records s) k"

definition Store_put ::
  "'p Record \<Rightarrow> ('p, 'a) MemoryStore \<Rightarrow> StoreError + ('p, 'a) MemoryStore" where
  "Store_put r s =
     (if max_value_bytes (ms_config s) \<le> length (rec_value r) then Inl ValueTooLarge
      else (case Mapping.lookup (ms_records s) (rec_key r) of
          Some _ \<Rightarrow> Inr (s\<lparr>ms_records := Mapping.update (rec_key r) r (ms_records s)\<rparr>)
        | None \<Rightarrow>
            if max_records (ms_config s) \<le> Mapping.size (ms_records s) then Inl MaxRecords
            else Inr (s\<lparr>ms_records := Mapping.update (rec_key r) r (ms_records s)\<rparr>)))"

definition Store_remove :: "bytes \<Rightarrow> ('p, 'a) MemoryStore \<Rightarrow> ('p, 'a) MemoryStore" where
  "Store_remove k s = s\<lparr>ms_records := Mapping.delete k (ms_records s)\<rparr>"

text \<open>\<open>HashSet::insert\<close> keeps the element it already has.\<close>

definition provided_insert ::
  "('p, 'a) ProviderRecord \<Rightarrow> (bytes \<times> 'p, ('p, 'a) ProviderRecord) mapping \<Rightarrow>
   (bytes \<times> 'p, ('p, 'a) ProviderRecord) mapping" where
  "provided_insert r pv =
     (case Mapping.lookup pv (pr_id r) of Some _ \<Rightarrow> pv | None \<Rightarrow> Mapping.update (pr_id r) r pv)"

definition provider_distance ::
  "('p \<Rightarrow> u256) \<Rightarrow> (bytes \<Rightarrow> u256) \<Rightarrow> bytes \<Rightarrow> ('p, 'a) ProviderRecord \<Rightarrow> u256" where
  "provider_distance digest kdigest k p =
     Key_distance (Key_from digest (pr_provider p)) (kdigest k)"

text \<open>The part of \<open>add_provider\<close> that works on the list of the record's key.\<close>

definition store_provider ::
  "('p \<Rightarrow> u256) \<Rightarrow> (bytes \<Rightarrow> u256) \<Rightarrow> 'p \<Rightarrow> nat \<Rightarrow> ('p, 'a) ProviderRecord \<Rightarrow>
   ('p, 'a) ProviderRecord list \<Rightarrow> (bytes \<times> 'p, ('p, 'a) ProviderRecord) mapping \<Rightarrow>
   ('p, 'a) ProviderRecord list \<times> (bytes \<times> 'p, ('p, 'a) ProviderRecord) mapping" where
  "store_provider digest kdigest local cap r ps pv =
     (case position_of (\<lambda>p. pr_provider p = pr_provider r) ps of
        Some i \<Rightarrow> (ps[i := r], pv)
      | None \<Rightarrow>
          let d = provider_distance digest kdigest (pr_key r);
              pv1 = (if local = pr_provider r then provided_insert r pv else pv)
          in (case position_of (\<lambda>p. d r < d p) ps of
                Some i \<Rightarrow>
                  let ps1 = take i ps @ r # drop i ps
                  in if cap < length ps1
                     then (butlast ps1, Mapping.delete (pr_id (last ps1)) pv1)
                     else (ps1, pv1)
              | None \<Rightarrow> if length ps < cap then (ps @ [r], pv1) else (ps, pv)))"

definition Store_add_provider ::
  "('p \<Rightarrow> u256) \<Rightarrow> (bytes \<Rightarrow> u256) \<Rightarrow> ('p, 'a) ProviderRecord \<Rightarrow> ('p, 'a) MemoryStore \<Rightarrow>
   StoreError + ('p, 'a) MemoryStore" where
  "Store_add_provider digest kdigest r s =
     (if Mapping.lookup (ms_providers s) (pr_key r) = None \<and>
         max_provided_keys (ms_config s) = Mapping.size (ms_providers s)
      then Inl MaxProvidedKeys
      else
        let (ps, pv) = store_provider digest kdigest (ms_local_key s)
                         (max_providers_per_key (ms_config s)) r
                         (Mapping.lookup_default [] (ms_providers s) (pr_key r)) (ms_provided s)
        in Inr (s\<lparr>ms_providers := Mapping.update (pr_key r) ps (ms_providers s),
                  ms_provided := pv\<rparr>))"

definition Store_providers :: "('p, 'a) MemoryStore \<Rightarrow> bytes \<Rightarrow> ('p, 'a) ProviderRecord list" where
  "Store_providers s k =
     (case Mapping.lookup (ms_providers s) k of None \<Rightarrow> [] | Some ps \<Rightarrow> ps)"

definition Store_provided :: "('p, 'a) MemoryStore \<Rightarrow> bytes \<Rightarrow> 'p \<Rightarrow> ('p, 'a) ProviderRecord option" where
  "Store_provided s k p = Mapping.lookup (ms_provided s) (k, p)"

definition Store_remove_provider ::
  "bytes \<Rightarrow> 'p \<Rightarrow> ('p, 'a) MemoryStore \<Rightarrow> ('p, 'a) MemoryStore" where
  "Store_remove_provider k p s =
     (case Mapping.lookup (ms_providers s) k of
        None \<Rightarrow> s
      | Some ps \<Rightarrow>
          let (ps', pv) =
                (case position_of (\<lambda>r. pr_provider r = p) ps of
                   Some i \<Rightarrow> (take i ps @ drop (Suc i) ps,
                              Mapping.delete (pr_id (ps ! i)) (ms_provided s))
                 | None \<Rightarrow> (ps, ms_provided s))
          in s\<lparr>ms_providers := (if ps' = [] then Mapping.delete k (ms_providers s)
                               else Mapping.update k ps' (ms_providers s)),
               ms_provided := pv\<rparr>)"

datatype ('p, 'a) store_op =
    Put "'p Record"
  | Remove bytes
  | Retain "bytes \<Rightarrow> 'p Record \<Rightarrow> bool \<times> 'p Record"
  | AddProvider "('p, 'a) ProviderRecord"
  | RemoveProvider bytes 'p

fun store_step ::
  "('p \<Rightarrow> u256) \<Rightarrow> (bytes \<Rightarrow> u256) \<Rightarrow> ('p, 'a) MemoryStore \<Rightarrow> ('p, 'a) store_op \<Rightarrow>
   ('p, 'a) MemoryStore" where
  "store_step digest kdigest s (Put r) = (case Store_put r s of Inl _ \<Rightarrow> s | Inr s' \<Rightarrow> s')"
| "store_step digest kdigest s (Remove k) = Store_remove k s"
| "store_step digest kdigest s (Retain f) = Store_retain f s"
| "store_step digest kdigest s (AddProvider r) =
     (case Store_add_provider digest kdigest r s of Inl _ \<Rightarrow> s | Inr s' \<Rightarrow> s')"
| "store_step digest kdigest s (RemoveProvider k p) = Store_remove_provider k p s"

definition store_run ::
  "('p \<Rightarrow> u256) \<Rightarrow> (bytes \<Rightarrow> u256) \<Rightarrow> ('p, 'a) store_op list \<Rightarrow> ('p, 'a) MemoryStore \<Rightarrow>
   ('p, 'a) MemoryStore" where
  "store_run digest kdigest ops s = foldl (store_step digest kdigest) s ops"

text \<open>A closure given to \<open>retain\<close> that leaves the key of a record alone and does not grow its value.\<close>

fun op_keeps_records :: "('p, 'a) store_op \<Rightarrow> bool" where
  "op_keeps_records (Retain f) \<longleftrightarrow>
     (\<forall>k r. rec_key (snd (f k r)) = rec_key r \<and>
            length (rec_value (snd (f k r))) \<le> length (rec_value r))"
| "op_keeps_records _ \<longleftrightarrow> True"

section \<open>The invariant\<close>

definition records_inv :: "('p, 'a) MemoryStore \<Rightarrow> bool" where
  "records_inv s \<longleftrightarrow>
     finite (Mapping.keys (ms_records s)) \<and>
     Mapping.size (ms_records s) \<le> max_records (ms_config s) \<and>
     (\<forall>k r. Store_get s k = Some r \<longrightarrow>
        rec_key r = k \<and> length (rec_value r) < max_value_bytes (ms_config s))"

definition provider_list_ok ::
  "('p \<Rightarrow> u256) \<Rightarrow> (bytes \<Rightarrow> u256) \<Rightarrow> nat \<Rightarrow> bytes \<Rightarrow> ('p, 'a) ProviderRecord list \<Rightarrow> bool" where
  "provider_list_ok digest kdigest cap k ps \<longleftrightarrow>
     length ps \<le> cap \<and> distinct (map pr_provider ps) \<and> (\<forall>p \<in> set ps. pr_key p = k) \<and>
     sorted (map (provider_distance digest kdigest k) ps)"

definition providers_inv ::
  "('p \<Rightarrow> u256) \<Rightarrow> (bytes \<Rightarrow> u256) \<Rightarrow> ('p, 'a) MemoryStore \<Rightarrow> bool" where
  "providers_inv digest kdigest s \<longleftrightarrow>
     finite (Mapping.keys (ms_providers s)) \<and>
     Mapping.size (ms_providers s) \<le> max_provided_keys (ms_config s) \<and>
     (\<forall>k. provider_list_ok digest kdigest (max_providers_per_key (ms_config s)) k
            (Store_providers s k)) \<and>
     (\<forall>k p. Store_provided s k p \<noteq> None \<longleftrightarrow>
        p = ms_local_key s \<and> p \<in> pr_provider ` set (Store_providers s k))"

definition store_inv ::
  "('p \<Rightarrow> u256) \<Rightarrow> (bytes \<Rightarrow> u256) \<Rightarrow> ('p, 'a) MemoryStore \<Rightarrow> bool" where
  "store_inv digest kdigest s \<longleftrightarrow> records_inv s \<and> providers_inv digest kdigest s"

section \<open>Value records\<close>

lemma mapping_filter_size_le:
  "finite (Mapping.keys m) \<Longrightarrow> Mapping.size (Mapping.map_values g (Mapping.filter P m)) \<le> Mapping.size m"
  by (rule Mapping.size_mono) (use Mapping.keys_filter [of P m] in auto)

lemma records_inv_update:
  assumes "records_inv s" "length (rec_value r) < max_value_bytes (ms_config s)"
    "Mapping.lookup (ms_records s) (rec_key r) = None \<Longrightarrow>
     Mapping.size (ms_records s) < max_records (ms_config s)"
  shows "records_inv (s\<lparr>ms_records := Mapping.update (rec_key r) r (ms_records s)\<rparr>)"
  using assms
  by (auto simp: records_inv_def Store_get_def Mapping.lookup_update' Mapping.size_update
      in_keys_lookup Suc_leI)

lemma Store_put_records_inv:
  assumes "records_inv s" "Store_put r s = Inr s'"
  shows "records_inv s'"
proof (cases "Mapping.lookup (ms_records s) (rec_key r)")
  case None
  then show ?thesis
    using assms records_inv_update [of s r] by (auto simp: Store_put_def split: if_splits)
next
  case (Some r0)
  then show ?thesis
    using assms records_inv_update [of s r] by (auto simp: Store_put_def split: if_splits)
qed

lemma Store_remove_records_inv:
  assumes "records_inv s"
  shows "records_inv (Store_remove k s)"
proof -
  have "Mapping.size (Mapping.delete k (ms_records s)) \<le> max_records (ms_config s)"
    using assms by (auto simp: records_inv_def Mapping.size_delete)
  then show ?thesis
    using assms by (simp add: records_inv_def Store_remove_def Store_get_def lookup_delete_if)
qed

lemma Store_retain_records_inv:
  assumes inv: "records_inv s" and f: "op_keeps_records (Retain f)"
  shows "records_inv (Store_retain f s)"
proof -
  have "finite (Mapping.keys (ms_records s))" using inv by (simp add: records_inv_def)
  then have "finite (Mapping.keys (ms_records (Store_retain f s)))"
    "Mapping.size (ms_records (Store_retain f s)) \<le> Mapping.size (ms_records s)"
    by (simp_all add: Store_retain_def mapping_filter_size_le
        finite_subset [OF Mapping.keys_filter])
  moreover have "rec_key r = k \<and> length (rec_value r) < max_value_bytes (ms_config s)"
    if get: "Store_get (Store_retain f s) k = Some r" for k r
  proof -
    obtain r0 where "Store_get s k = Some r0" "r = snd (f k r0)"
      using get by (cases "Mapping.lookup (ms_records s) k")
        (auto simp: Store_get_def Store_retain_def Mapping.lookup_map_values
          Mapping.lookup_filter split: if_splits)
    then have "rec_key r0 = k" "length (rec_value r0) < max_value_bytes (ms_config s)"
      "rec_key r = rec_key r0" "length (rec_value r) \<le> length (rec_value r0)"
      using inv f by (simp_all add: records_inv_def)
    then show ?thesis by simp
  qed
  ultimately show ?thesis
    using inv by (simp add: records_inv_def Store_retain_def)
qed

lemma providers_inv_records [simp]:
  "providers_inv digest kdigest (s\<lparr>ms_records := m\<rparr>) = providers_inv digest kdigest s"
  by (simp add: providers_inv_def Store_providers_def Store_provided_def)

lemma Store_put_providers_inv:
  "Store_put r s = Inr s' \<Longrightarrow> providers_inv digest kdigest s' = providers_inv digest kdigest s"
  by (auto simp: Store_put_def split: if_splits option.splits)

section \<open>Provider lists\<close>

text \<open>Insertion of a provider behind those that are at most as far away.\<close>

definition place :: "('r \<Rightarrow> 'd::linorder) \<Rightarrow> 'r \<Rightarrow> 'r list \<Rightarrow> 'r list" where
  "place d r ps = takeWhile (\<lambda>p. d p \<le> d r) ps @ r # dropWhile (\<lambda>p. d p \<le> d r) ps"

lemma position_takeWhile:
  "position_of P xs = Some i \<Longrightarrow>
   take i xs = takeWhile (\<lambda>x. \<not> P x) xs \<and> drop i xs = dropWhile (\<lambda>x. \<not> P x) xs"
  by (induction xs arbitrary: i) (auto split: if_splits)

lemma mset_place [simp]: "mset (place d r ps) = add_mset r (mset ps)"
  by (simp add: place_def) (metis mset_append takeWhile_dropWhile_id)

lemma set_place [simp]: "set (place d r ps) = insert r (set ps)"
  by (metis mset_place set_mset_add_mset_insert set_mset_mset)

lemma length_place [simp]: "length (place d r ps) = Suc (length ps)"
  by (metis mset_place size_add_mset size_mset)

lemma place_Cons:
  "place d r (p # ps) = (if d p \<le> d r then p # place d r ps else r # p # ps)"
  by (simp add: place_def)

lemma sorted_place: "sorted (map d ps) \<Longrightarrow> sorted (map d (place d r ps))"
proof (induction ps)
  case (Cons p ps)
  then have "sorted (map d (place d r ps))" "\<forall>q \<in> set ps. d p \<le> d q" by auto
  then show ?case using Cons.prems by (auto simp: place_Cons)
qed (simp add: place_def)

lemma closest_kept:
  assumes "sorted (map d xs)" "x \<in> set (take n xs)" "y \<in> set xs - set (take n xs)"
  shows "d x \<le> d y"
proof -
  have "y \<in> set (drop n xs)"
    using assms(3) by (metis DiffE UnE append_take_drop_id set_append)
  moreover have "sorted (map d (take n xs) @ map d (drop n xs))"
    using assms(1) by (metis append_take_drop_id map_append)
  ultimately show ?thesis
    using assms(2) by (simp only: sorted_append set_map) blast
qed

lemma distinct_place:
  "distinct (map g ps) \<Longrightarrow> g r \<notin> g ` set ps \<Longrightarrow> distinct (map g (place d r ps))"
proof -
  assume a: "distinct (map g ps)" "g r \<notin> g ` set ps"
  have "mset (map g (place d r ps)) = mset (g r # map g ps)" by simp
  then have "distinct (map g (place d r ps)) = distinct (g r # map g ps)"
    by (rule mset_eq_imp_distinct_iff)
  then show ?thesis using a by simp
qed

lemma map_provider_replace:
  "map pr_provider (map (\<lambda>p. if pr_provider p = pr_provider r then r else p) ps) = map pr_provider ps"
  by auto

lemma store_provider_known:
  assumes "pr_provider r \<in> pr_provider ` set ps" "distinct (map pr_provider ps)"
  shows "store_provider digest kdigest local cap r ps pv =
    (map (\<lambda>p. if pr_provider p = pr_provider r then r else p) ps, pv)"
proof -
  obtain i where i: "position_of (\<lambda>p. pr_provider p = pr_provider r) ps = Some i"
    using assms(1) position_of_None [of "\<lambda>p. pr_provider p = pr_provider r" ps]
    by (cases "position_of (\<lambda>p. pr_provider p = pr_provider r) ps") auto
  then have "i < length ps" "pr_provider (ps ! i) = pr_provider r"
    by (auto simp: position_of_Some)
  then have "j = i" if "j < length ps" "pr_provider (ps ! j) = pr_provider r" for j
    using that nth_eq_iff_index_eq [OF assms(2), of j i] by simp
  then have "ps[i := r] = map (\<lambda>p. if pr_provider p = pr_provider r then r else p) ps"
    using \<open>pr_provider (ps ! i) = pr_provider r\<close>
    by (intro nth_equalityI) (auto simp: nth_list_update, metis nth_list_update_neq)
  then show ?thesis by (simp add: store_provider_def i)
qed

lemma store_provider_new:
  assumes new: "pr_provider r \<notin> pr_provider ` set ps" and cap: "length ps \<le> cap"
  shows "fst (store_provider digest kdigest local cap r ps pv) =
    take cap (place (provider_distance digest kdigest (pr_key r)) r ps)"
proof -
  let ?d = "provider_distance digest kdigest (pr_key r)"
  have none: "position_of (\<lambda>p. pr_provider p = pr_provider r) ps = None"
    using new by (auto simp: position_of_None image_iff)
  show ?thesis
  proof (cases "position_of (\<lambda>p. ?d r < ?d p) ps")
    case None
    then have "place ?d r ps = ps @ [r]"
      by (auto simp: place_def position_of_None not_less takeWhile_eq_all_conv [THEN iffD2])
    then show ?thesis using none None cap by (auto simp: store_provider_def)
  next
    case (Some i)
    then have "take i ps @ r # drop i ps = place ?d r ps"
      using position_takeWhile [OF Some] by (simp add: place_def not_less)
    then show ?thesis using none Some cap
      by (auto simp: store_provider_def Let_def butlast_conv_take less_Suc_eq_le)
  qed
qed


lemma provider_distance_cong:
  "pr_provider p = pr_provider q \<Longrightarrow>
   provider_distance digest kdigest k p = provider_distance digest kdigest k q"
  by (simp add: provider_distance_def)

lemma distinct_take_map: "distinct (map g xs) \<Longrightarrow> distinct (map g (take n xs))"
  by (simp add: take_map [symmetric])

lemma sorted_take_map: "sorted (map g xs) \<Longrightarrow> sorted (map g (take n xs))"
  by (simp add: take_map [symmetric] sorted_wrt_take)

lemma store_provider_ok:
  assumes ok: "provider_list_ok digest kdigest cap (pr_key r) ps"
  shows "provider_list_ok digest kdigest cap (pr_key r)
           (fst (store_provider digest kdigest local cap r ps pv))"
proof (cases "pr_provider r \<in> pr_provider ` set ps")
  case True
  let ?f = "\<lambda>p. if pr_provider p = pr_provider r then r else p"
  have "map pr_provider (map ?f ps) = map pr_provider ps"
    "map (provider_distance digest kdigest (pr_key r)) (map ?f ps) =
     map (provider_distance digest kdigest (pr_key r)) ps"
    by (auto simp: provider_distance_def)
  then show ?thesis
    using ok True unfolding provider_list_ok_def
    by (auto simp: store_provider_known simp del: map_map)
next
  case False
  then show ?thesis
    using ok unfolding provider_list_ok_def
    by (auto simp: store_provider_new distinct_take_map distinct_place sorted_take_map sorted_place
        dest!: in_set_takeD)
qed

text \<open>The records of the local node are in \<open>provided\<close> exactly while they are in the list.\<close>

definition provided_matches ::
  "'p \<Rightarrow> bytes \<Rightarrow> ('p, 'a) ProviderRecord list \<Rightarrow>
   (bytes \<times> 'p, ('p, 'a) ProviderRecord) mapping \<Rightarrow> bool" where
  "provided_matches local k ps pv \<longleftrightarrow>
     (\<forall>p. Mapping.lookup pv (k, p) \<noteq> None \<longleftrightarrow> p = local \<and> p \<in> pr_provider ` set ps)"

lemma lookup_provided_insert:
  "Mapping.lookup (provided_insert r pv) x \<noteq> None \<longleftrightarrow> x = pr_id r \<or> Mapping.lookup pv x \<noteq> None"
  by (auto simp: provided_insert_def Mapping.lookup_update' split: option.splits)

lemma lookup_provided_insert_other:
  "x \<noteq> pr_id r \<Longrightarrow> Mapping.lookup (provided_insert r pv) x = Mapping.lookup pv x"
  by (auto simp: provided_insert_def Mapping.lookup_update' split: option.splits)

lemma provided_matches_insert:
  assumes "provided_matches local (pr_key r) ps pv" "pr_provider ` set qs = insert (pr_provider r) (pr_provider ` set ps)"
  shows "provided_matches local (pr_key r) qs
           (if local = pr_provider r then provided_insert r pv else pv)"
  using assms by (auto simp: provided_matches_def lookup_provided_insert pr_id_def simp del: not_None_eq)

lemma provided_matches_remove:
  assumes "provided_matches local k ps pv" "pr_provider ` set qs = pr_provider ` set ps - {pr_provider x}"
    "pr_key x = k"
  shows "provided_matches local k qs (Mapping.delete (pr_id x) pv)"
  using assms by (auto simp: provided_matches_def lookup_delete_if pr_id_def simp del: not_None_eq)

lemma image_butlast:
  assumes "xs \<noteq> []" "distinct (map g xs)"
  shows "g ` set (butlast xs) = g ` set xs - {g (last xs)}"
  using assms by (induction xs rule: rev_induct) auto

lemma store_provider_matches:
  assumes ok: "provider_list_ok digest kdigest cap (pr_key r) ps"
    and pv: "provided_matches local (pr_key r) ps pv"
  shows "provided_matches local (pr_key r) (fst (store_provider digest kdigest local cap r ps pv))
           (snd (store_provider digest kdigest local cap r ps pv))"
proof (cases "pr_provider r \<in> pr_provider ` set ps")
  case True
  then have "pr_provider ` set (map (\<lambda>p. if pr_provider p = pr_provider r then r else p) ps) =
      pr_provider ` set ps"
    using map_provider_replace [of r ps] by (metis list.set_map)
  then show ?thesis
    using ok pv True by (simp add: store_provider_known provider_list_ok_def provided_matches_def)
next
  case new: False
  let ?d = "provider_distance digest kdigest (pr_key r)"
  let ?pv1 = "if local = pr_provider r then provided_insert r pv else pv"
  have none: "position_of (\<lambda>p. pr_provider p = pr_provider r) ps = None"
    using new by (auto simp: position_of_None image_iff)
  show ?thesis
  proof (cases "position_of (\<lambda>p. ?d r < ?d p) ps")
    case None
    then show ?thesis
      using none pv provided_matches_insert [OF pv, of "ps @ [r]"] by (auto simp: store_provider_def)
  next
    case (Some i)
    define qs where "qs = take i ps @ r # drop i ps"
    have mset: "mset qs = add_mset r (mset ps)" unfolding qs_def by (rule mset_take_Cons_drop)
    then have set: "set qs = insert r (set ps)"
      by (metis set_mset_add_mset_insert set_mset_mset)
    have "distinct (map pr_provider qs)"
      using mset new ok mset_eq_imp_distinct_iff [of "map pr_provider qs" "map pr_provider (r # ps)"]
      by (simp add: provider_list_ok_def)
    then have last: "pr_provider ` set (butlast qs) = pr_provider ` set qs - {pr_provider (last qs)}"
      by (intro image_butlast) (auto simp: qs_def)
    have key: "pr_key (last qs) = pr_key r"
      using last_in_set [of qs] set ok by (auto simp: provider_list_ok_def qs_def)
    have ins: "provided_matches local (pr_key r) qs ?pv1"
      using provided_matches_insert [OF pv, of qs] set by simp
    show ?thesis
      using ins provided_matches_remove [OF ins last key] none Some
      by (simp add: store_provider_def Let_def flip: qs_def)
  qed
qed

lemma store_provider_other_keys:
  assumes "\<forall>p \<in> set ps. pr_key p = pr_key r" "k \<noteq> pr_key r"
  shows "Mapping.lookup (snd (store_provider digest kdigest local cap r ps pv)) (k, p) =
    Mapping.lookup pv (k, p)"
proof -
  have "pr_key (last (take i ps @ r # drop i ps)) = pr_key r" for i
    using assms(1) last_in_set [of "take i ps @ r # drop i ps"]
    by (auto dest: in_set_takeD in_set_dropD)
  then show ?thesis
    using assms(2)
    by (auto simp: store_provider_def Let_def lookup_delete_if lookup_provided_insert_other pr_id_def
        split: option.splits)
qed


lemma lookup_default_providers:
  "Mapping.lookup_default [] (ms_providers s) k = Store_providers s k"
  by (simp add: Mapping.lookup_default_def Store_providers_def)

lemma Store_add_provider_cases:
  assumes "Store_add_provider digest kdigest r s = Inr s'"
  shows "s' = s\<lparr>ms_providers := Mapping.update (pr_key r)
            (fst (store_provider digest kdigest (ms_local_key s) (max_providers_per_key (ms_config s)) r
                    (Store_providers s (pr_key r)) (ms_provided s))) (ms_providers s),
          ms_provided := snd (store_provider digest kdigest (ms_local_key s)
            (max_providers_per_key (ms_config s)) r (Store_providers s (pr_key r)) (ms_provided s))\<rparr>"
    and "Mapping.lookup (ms_providers s) (pr_key r) = None \<longrightarrow>
         max_provided_keys (ms_config s) \<noteq> Mapping.size (ms_providers s)"
  using assms by (auto simp: Store_add_provider_def lookup_default_providers case_prod_beta
      split: if_splits)

lemma Store_providers_provided [simp]:
  "Store_providers (s\<lparr>ms_provided := pv\<rparr>) = Store_providers s"
  "Store_providers (s\<lparr>ms_providers := m, ms_provided := pv\<rparr>) = Store_providers (s\<lparr>ms_providers := m\<rparr>)"
  by (auto simp: Store_providers_def)

lemma Store_providers_update:
  "Store_providers (s\<lparr>ms_providers := Mapping.update k ps (ms_providers s)\<rparr>) k' =
     (if k = k' then ps else Store_providers s k')"
  by (simp add: Store_providers_def Mapping.lookup_update')

lemma Store_providers_delete:
  "Store_providers (s\<lparr>ms_providers := Mapping.delete k (ms_providers s)\<rparr>) k' =
     (if k = k' then [] else Store_providers s k')"
  by (simp add: Store_providers_def lookup_delete_if)

lemma providers_inv_alt:
  "providers_inv digest kdigest s \<longleftrightarrow>
     finite (Mapping.keys (ms_providers s)) \<and>
     Mapping.size (ms_providers s) \<le> max_provided_keys (ms_config s) \<and>
     (\<forall>k. provider_list_ok digest kdigest (max_providers_per_key (ms_config s)) k
            (Store_providers s k) \<and>
          provided_matches (ms_local_key s) k (Store_providers s k) (ms_provided s))"
  by (simp add: providers_inv_def provided_matches_def Store_provided_def all_conj_distrib)

lemma Store_add_provider_providers_inv:
  assumes inv: "providers_inv digest kdigest s"
    and add: "Store_add_provider digest kdigest r s = Inr s'"
  shows "providers_inv digest kdigest s'"
proof -
  let ?k = "pr_key r"
  let ?res = "store_provider digest kdigest (ms_local_key s) (max_providers_per_key (ms_config s)) r
    (Store_providers s ?k) (ms_provided s)"
  note s' = Store_add_provider_cases [OF add]
  have ok: "provider_list_ok digest kdigest (max_providers_per_key (ms_config s)) k (Store_providers s k)"
    and pv: "provided_matches (ms_local_key s) k (Store_providers s k) (ms_provided s)" for k
    using inv by (simp_all add: providers_inv_alt)
  have "Mapping.size (Mapping.update ?k (fst ?res) (ms_providers s)) \<le> max_provided_keys (ms_config s)"
    using inv s'(2) by (auto simp: providers_inv_def Mapping.size_update in_keys_lookup)
  moreover have "provider_list_ok digest kdigest (max_providers_per_key (ms_config s)) k
      (Store_providers s' k)" for k
    using ok store_provider_ok [OF ok] by (cases "k = ?k") (auto simp: s'(1) Store_providers_update)
  moreover have "provided_matches (ms_local_key s) k (Store_providers s' k) (snd ?res)" for k
  proof (cases "k = ?k")
    case True
    then show ?thesis
      using store_provider_matches [OF ok pv] by (simp add: s'(1) Store_providers_update)
  next
    case False
    then show ?thesis
      using pv [of k] store_provider_other_keys [of "Store_providers s ?k" r k] ok [of ?k]
      by (simp add: s'(1) Store_providers_update provided_matches_def provider_list_ok_def)
  qed
  ultimately show ?thesis
    using inv by (simp add: providers_inv_alt s'(1))
qed

lemma position_of_remove:
  assumes "position_of (\<lambda>r. pr_provider r = p) ps = Some i" "distinct (map pr_provider ps)"
  shows "pr_provider ` set (take i ps @ drop (Suc i) ps) = pr_provider ` set ps - {p}"
proof -
  have i: "i < length ps" "pr_provider (ps ! i) = p"
    using assms(1) by (auto simp: position_of_Some)
  then have "mset (map pr_provider ps) = add_mset p (mset (map pr_provider (take i ps @ drop (Suc i) ps)))"
    using mset_take_drop_Suc [OF i(1)] by (metis image_mset_add_mset mset_map)
  then show ?thesis
    using assms(2)
    by (metis distinct.simps(2) mset.simps(2) mset_eq_imp_distinct_iff mset_eq_setD list.simps(15)
        insert_Diff_if Diff_insert_absorb list.set_map)
qed


lemma sorted_remove_nth: "sorted xs \<Longrightarrow> sorted (take i xs @ drop (Suc i) xs)"
  by (metis sorted_wrt_append sorted_wrt_take sorted_wrt_drop append_take_drop_id in_set_dropD
      drop_Suc_Cons drop_drop plus_1_eq_Suc)

lemma distinct_remove_nth: "distinct xs \<Longrightarrow> distinct (take i xs @ drop (Suc i) xs)"
  by (simp add: set_take_disj_set_drop_if_distinct)

lemma provider_list_ok_remove:
  assumes "provider_list_ok digest kdigest cap k ps"
  shows "provider_list_ok digest kdigest cap k (take i ps @ drop (Suc i) ps)"
  using assms
    distinct_remove_nth [of "map pr_provider ps" i]
    sorted_remove_nth [of "map (provider_distance digest kdigest k) ps" i]
  by (auto simp: provider_list_ok_def take_map drop_map dest: in_set_takeD in_set_dropD)

lemma Store_remove_provider_parts:
  assumes "Mapping.lookup (ms_providers s) k = Some ps"
  shows "Store_providers (Store_remove_provider k p s) k' =
      (if k' = k then
         (case position_of (\<lambda>r. pr_provider r = p) ps of
            Some i \<Rightarrow> take i ps @ drop (Suc i) ps | None \<Rightarrow> ps)
       else Store_providers s k')"
    and "ms_provided (Store_remove_provider k p s) =
      (case position_of (\<lambda>r. pr_provider r = p) ps of
         Some i \<Rightarrow> Mapping.delete (pr_id (ps ! i)) (ms_provided s) | None \<Rightarrow> ms_provided s)"
    and "Mapping.keys (ms_providers (Store_remove_provider k p s)) \<subseteq> Mapping.keys (ms_providers s)"
    and "ms_config (Store_remove_provider k p s) = ms_config s"
    and "ms_local_key (Store_remove_provider k p s) = ms_local_key s"
  using assms
  by (auto simp: Store_remove_provider_def Let_def case_prod_beta Store_providers_update
      Store_providers_delete in_keys_lookup split: option.splits if_splits)

lemma Store_remove_provider_providers_inv:
  assumes inv: "providers_inv digest kdigest s"
  shows "providers_inv digest kdigest (Store_remove_provider k p s)"
proof (cases "Mapping.lookup (ms_providers s) k")
  case None
  then show ?thesis using inv by (simp add: Store_remove_provider_def)
next
  case (Some ps)
  let ?s = "Store_remove_provider k p s" and ?cap = "max_providers_per_key (ms_config s)"
  note parts = Store_remove_provider_parts [OF Some, of p]
  have ps: "Store_providers s k = ps" using Some by (simp add: Store_providers_def)
  have ok: "provider_list_ok digest kdigest ?cap j (Store_providers s j)"
    and pv: "provided_matches (ms_local_key s) j (Store_providers s j) (ms_provided s)" for j
    using inv by (simp_all add: providers_inv_alt)
  have fin: "finite (Mapping.keys (ms_providers s))"
    and le: "Mapping.size (ms_providers s) \<le> max_provided_keys (ms_config s)"
    using inv by (simp_all add: providers_inv_def)
  have "provider_list_ok digest kdigest ?cap j (Store_providers ?s j) \<and>
        provided_matches (ms_local_key s) j (Store_providers ?s j) (ms_provided ?s)" for j
  proof (cases "position_of (\<lambda>r. pr_provider r = p) ps")
    case None
    then show ?thesis using ok [of j] pv [of j] ps by (cases "j = k") (simp_all add: parts)
  next
    case pos: (Some i)
    have i: "pr_provider (ps ! i) = p" "pr_key (ps ! i) = k"
      using pos ok [of k] by (auto simp: position_of_Some ps provider_list_ok_def)
    have "provided_matches (ms_local_key s) k (take i ps @ drop (Suc i) ps) (ms_provided ?s)"
      using provided_matches_remove [OF pv [of k], of "take i ps @ drop (Suc i) ps" "ps ! i"]
        position_of_remove [OF pos] ok [of k] i pos
      by (simp add: parts ps provider_list_ok_def)
    moreover have "provided_matches (ms_local_key s) j (Store_providers s j) (ms_provided ?s)"
      if "j \<noteq> k"
      using pv [of j] that i pos by (simp add: parts provided_matches_def lookup_delete_if pr_id_def)
    ultimately show ?thesis
      using ok [of j] provider_list_ok_remove [OF ok [of k], of i] pos
      by (cases "j = k") (simp_all add: parts(1) ps)
  qed
  then show ?thesis
    using finite_subset [OF parts(3) fin] Mapping.size_mono [OF fin parts(3)] le
    by (simp add: providers_inv_alt parts(4,5))
qed

section \<open>Properties of the store\<close>

lemma records_inv_providers [simp]:
  "records_inv (s\<lparr>ms_providers := m, ms_provided := pv\<rparr>) = records_inv s"
  by (simp add: records_inv_def Store_get_def)

lemma provider_ops_keep_records:
  "Store_add_provider digest kdigest r s = Inr s' \<Longrightarrow> records_inv s' = records_inv s"
  "records_inv (Store_remove_provider k p s) = records_inv s"
  by (auto simp: Store_add_provider_def Store_remove_provider_def Let_def case_prod_beta
      split: option.splits if_splits)

lemma store_step_inv:
  assumes inv: "store_inv digest kdigest s" and ok: "op_keeps_records x"
  shows "store_inv digest kdigest (store_step digest kdigest s x)"
proof (cases x)
  case (Put r)
  then show ?thesis
    using inv Store_put_records_inv [of s r] Store_put_providers_inv [of r s _ digest kdigest]
    by (auto simp: store_inv_def split: sum.splits)
next
  case (Remove k)
  then show ?thesis
    using inv Store_remove_records_inv by (auto simp: store_inv_def Store_remove_def)
next
  case (Retain f)
  then show ?thesis
    using inv ok Store_retain_records_inv [of s f] by (auto simp: store_inv_def Store_retain_def)
next
  case (AddProvider r)
  then show ?thesis
    using inv Store_add_provider_providers_inv [of digest kdigest s r]
      provider_ops_keep_records(1) [of digest kdigest r s]
    by (auto simp: store_inv_def split: sum.splits)
next
  case (RemoveProvider k p)
  then show ?thesis
    using inv by (simp add: store_inv_def provider_ops_keep_records(2)
        Store_remove_provider_providers_inv)
qed

lemma Store_with_config_inv: "store_inv digest kdigest (Store_with_config p cfg)"
  by (simp add: store_inv_def records_inv_def providers_inv_def Store_with_config_def Store_get_def
      Store_providers_def Store_provided_def provider_list_ok_def)

lemma store_run_inv_from:
  "store_inv digest kdigest s \<Longrightarrow> list_all op_keeps_records ops \<Longrightarrow>
   store_inv digest kdigest (store_run digest kdigest ops s)"
  by (induction ops arbitrary: s) (auto simp: store_run_def store_step_inv)


text \<open>
  C25. Whatever sequence of operations is applied to a new store, the store keeps its bounds and
  its sorting. It has at most \<open>max_records\<close> records, each under its own key and with a value
  below \<open>max_value_bytes\<close>; it has provider lists for at most \<open>max_provided_keys\<close> keys, each with
  at most \<open>max_providers_per_key\<close> different providers sorted by their distance to the key; and
  \<open>provided\<close> names exactly the keys under which the local node is in the list. The closures given
  to \<open>retain\<close> may not rename a record or grow its value.
\<close>
theorem store_run_inv:
  assumes "list_all op_keeps_records ops"
  shows "store_inv digest kdigest (store_run digest kdigest ops (Store_with_config p cfg))"
  by (rule store_run_inv_from [OF Store_with_config_inv assms])

theorem store_run_inv_witness:
  "store_inv (\<lambda>n. of_nat n) (\<lambda>k. 0)
     (store_run (\<lambda>n. of_nat n) (\<lambda>k. 0)
        [Put (Record_new [1] [2]), Retain (\<lambda>k r. (k = [1], r)),
         AddProvider (ProviderRecord_new [1] (4::nat) [()]),
         AddProvider (ProviderRecord_new [1] 7 []), RemoveProvider [1] 4]
        (Store_with_config 7 MemoryStoreConfig_default))"
  by (rule store_run_inv) simp

text \<open>
  C34. What a successful \<open>add_provider\<close> does to the list of the record's key. A provider that is
  not in the list yet competes for a place: the new list holds as many of the old providers and
  the new one as fit, sorted by distance to the key, and no provider that was left out is closer
  than one that was kept. A provider that is in the list has its record replaced in place, and
  \<open>provided\<close> stays as it was, the old record of the local node included. The lists of other keys
  do not change.
\<close>
theorem add_provider_effect:
  assumes inv: "store_inv digest kdigest s"
    and add: "Store_add_provider digest kdigest r s = Inr s'"
  shows "let d = provider_distance digest kdigest (pr_key r);
             old = Store_providers s (pr_key r); new = Store_providers s' (pr_key r)
         in (if pr_provider r \<in> pr_provider ` set old
             then new = map (\<lambda>p. if pr_provider p = pr_provider r then r else p) old \<and>
                  ms_provided s' = ms_provided s
             else sorted (map d new) \<and> set new \<subseteq> insert r (set old) \<and>
                  length new = min (max_providers_per_key (ms_config s)) (Suc (length old)) \<and>
                  (\<forall>x \<in> set new. \<forall>y \<in> insert r (set old) - set new. d x \<le> d y)) \<and>
            (\<forall>k. k \<noteq> pr_key r \<longrightarrow> Store_providers s' k = Store_providers s k)"
proof -
  let ?d = "provider_distance digest kdigest (pr_key r)" and ?old = "Store_providers s (pr_key r)"
  let ?cap = "max_providers_per_key (ms_config s)"
  note s' = Store_add_provider_cases(1) [OF add]
  have ok: "provider_list_ok digest kdigest ?cap (pr_key r) ?old"
    using inv by (simp add: store_inv_def providers_inv_def)
  have other: "\<forall>k. k \<noteq> pr_key r \<longrightarrow> Store_providers s' k = Store_providers s k"
    by (simp add: s' Store_providers_update)
  show ?thesis
  proof (cases "pr_provider r \<in> pr_provider ` set ?old")
    case True
    then show ?thesis
      using ok other by (simp add: s' Store_providers_update store_provider_known provider_list_ok_def)
  next
    case False
    then have new: "Store_providers s' (pr_key r) = take ?cap (place ?d r ?old)"
      using ok by (simp add: s' Store_providers_update store_provider_new provider_list_ok_def)
    have "sorted (map ?d (place ?d r ?old))"
      using ok by (simp add: sorted_place provider_list_ok_def)
    then show ?thesis
      using False other closest_kept [of ?d "place ?d r ?old" _ ?cap]
      by (auto simp: Let_def new sorted_take_map min.commute dest: in_set_takeD)
  qed
qed

theorem add_provider_effect_witness:
  "let s = store_run (\<lambda>n. of_nat n) (\<lambda>k. 0) [AddProvider (ProviderRecord_new [1] (4::nat) [()])]
             (Store_with_config 7 MemoryStoreConfig_default);
       r = ProviderRecord_new [1] 4 [(), ()]
   in (\<exists>s'. Store_add_provider (\<lambda>n. of_nat n) (\<lambda>k. 0) r s = Inr s' \<and>
             Store_providers s' [1] = [r])"
proof -
  let ?s = "store_run (\<lambda>n. of_nat n) (\<lambda>k. 0) [AddProvider (ProviderRecord_new [1] (4::nat) [()])]
             (Store_with_config 7 MemoryStoreConfig_default)"
  let ?r = "ProviderRecord_new [1] (4::nat) [(), ()]"
  have old: "Store_providers ?s [1] = [ProviderRecord_new [1] 4 [()]]"
    by (simp add: store_run_def Store_add_provider_def Store_with_config_def
        MemoryStoreConfig_default_def ProviderRecord_new_def Store_providers_def
        Mapping.lookup_default_def store_provider_def K_VALUE_def)
  then obtain s' where s': "Store_add_provider (\<lambda>n. of_nat n) (\<lambda>k. 0) ?r ?s = Inr s'"
    by (auto simp: Store_add_provider_def Store_providers_def ProviderRecord_new_def case_prod_beta
        split: option.splits)
  have "store_inv (\<lambda>n. of_nat n) (\<lambda>k. 0) ?s"
    by (rule store_run_inv_from [OF Store_with_config_inv]) simp
  from add_provider_effect [OF this s'] show ?thesis
    using s' old by (simp add: ProviderRecord_new_def)
qed

end
