(* ===== verification/Varint.thy ===== *)
theory Varint
  imports Prelude
begin

text \<open>
  What the wire formats rely on of the \<open>unsigned-varint\<close> crate, which is not part of the repository.
  Its encoder and decoders are parameters of the codecs; \<open>uvi_laws\<close> and \<open>uvi_codec_laws\<close> state their
  documented behaviour: seven bits to a byte, the top bit set on every byte but the last, no more
  bytes than needed, and a decoder that reads the number at the front of its input. A plain
  implementation, \<open>leb_enc\<close> and \<open>leb_dec\<close>, shows that the laws can be met.
\<close>

section \<open>The interface of the crate\<close>

datatype uvi_error = UviInsufficient | UviOverflow | UviNotMinimal

type_synonym uvi_encode = "nat \<Rightarrow> bytes"
type_synonym uvi_decode = "bytes \<Rightarrow> uvi_error + (nat \<times> bytes)"

text \<open>The codec form: \<open>Inr None\<close> asks for more input.\<close>

type_synonym uvi_codec = "bytes \<Rightarrow> uvi_error + (nat \<times> bytes) option"

abbreviation more_follows :: "u8 \<Rightarrow> bool" where
  "more_follows b \<equiv> b AND 0x80 \<noteq> 0"

definition uvi_format :: "nat \<Rightarrow> uvi_encode \<Rightarrow> bool" where
  "uvi_format w enc \<longleftrightarrow> (\<forall>n < 2 ^ w.
     enc n \<noteq> [] \<and> list_all more_follows (butlast (enc n)) \<and> \<not> more_follows (last (enc n)) \<and>
     (\<forall>k. 0 < k \<and> n < 2 ^ (7 * k) \<longrightarrow> length (enc n) \<le> k))"

definition uvi_laws :: "nat \<Rightarrow> uvi_encode \<Rightarrow> uvi_decode \<Rightarrow> bool" where
  "uvi_laws w enc dec \<longleftrightarrow> uvi_format w enc \<and>
     (\<forall>n rest. n < 2 ^ w \<longrightarrow> dec (enc n @ rest) = Inr (n, rest)) \<and>
     (\<forall>bs n rest. dec bs = Inr (n, rest) \<longrightarrow> n < 2 ^ w)"

definition uvi_codec_laws :: "nat \<Rightarrow> uvi_encode \<Rightarrow> uvi_codec \<Rightarrow> bool" where
  "uvi_codec_laws w enc cdec \<longleftrightarrow>
     (\<forall>n rest. n < 2 ^ w \<longrightarrow> cdec (enc n @ rest) = Inr (Some (n, rest))) \<and>
     (\<forall>bs n rest. cdec bs = Inr (Some (n, rest)) \<longrightarrow> n < 2 ^ w \<and> (\<forall>more. cdec (bs @ more) = Inr (Some (n, rest @ more))))"

lemma uvi_lawsD:
  assumes "uvi_laws w enc dec"
  shows "n < 2 ^ w \<Longrightarrow> dec (enc n @ rest) = Inr (n, rest)"
    and "dec bs = Inr (n, rest) \<Longrightarrow> n < 2 ^ w"
    and "uvi_format w enc"
  using assms unfolding uvi_laws_def by blast+

lemma uvi_formatD:
  assumes "uvi_format w enc" and "n < 2 ^ w"
  shows "enc n \<noteq> []" and "list_all more_follows (butlast (enc n))" and "\<not> more_follows (last (enc n))"
    and "0 < k \<Longrightarrow> n < 2 ^ (7 * k) \<Longrightarrow> length (enc n) \<le> k"
  using assms unfolding uvi_format_def by blast+

lemma uvi_codec_lawsD:
  assumes "uvi_codec_laws w enc cdec"
  shows "n < 2 ^ w \<Longrightarrow> cdec (enc n @ rest) = Inr (Some (n, rest))"
    and "cdec bs = Inr (Some (n, rest)) \<Longrightarrow> n < 2 ^ w"
    and "cdec bs = Inr (Some (n, rest)) \<Longrightarrow> cdec (bs @ more) = Inr (Some (n, rest @ more))"
  using assms unfolding uvi_codec_laws_def by blast+

section \<open>An implementation that meets the laws\<close>

fun leb_enc :: "nat \<Rightarrow> bytes" where
  "leb_enc n = (if n < 128 then [word_of_nat n] else word_of_nat (n mod 128 + 128) # leb_enc (n div 128))"

declare leb_enc.simps [simp del]

fun leb_bytes :: "bytes \<Rightarrow> uvi_error + (nat \<times> bytes)" where
  "leb_bytes [] = Inl UviInsufficient"
| "leb_bytes (b # bs) =
     (if more_follows b then (case leb_bytes bs of Inl e \<Rightarrow> Inl e | Inr (n, rest) \<Rightarrow> Inr (unat b - 128 + 128 * n, rest))
      else Inr (unat b, bs))"

definition leb_dec :: "nat \<Rightarrow> uvi_decode" where
  "leb_dec w bs =
     (case leb_bytes bs of
        Inl e \<Rightarrow> Inl e
      | Inr (n, rest) \<Rightarrow> if n < 2 ^ w then Inr (n, rest) else Inl UviOverflow)"

definition leb_codec :: "nat \<Rightarrow> uvi_codec" where
  "leb_codec w bs =
     (case leb_dec w bs of
        Inr r \<Rightarrow> Inr (Some r)
      | Inl UviInsufficient \<Rightarrow> Inr None
      | Inl e \<Rightarrow> Inl e)"

lemma more_follows_iff: "more_follows b \<longleftrightarrow> 128 \<le> unat b"
proof -
  have "b AND 0x80 \<noteq> 0 \<longleftrightarrow> bit b 7"
    using and_exp_eq_0_iff_not_bit [of b 7] by simp
  also have "\<dots> \<longleftrightarrow> odd (unat b div 128)"
  proof -
    have "bit b 7 \<longleftrightarrow> bit (unat b) 7" by (simp add: bit_unsigned_iff)
    then show ?thesis by (simp add: bit_iff_odd [of "unat b"])
  qed
  also have "\<dots> \<longleftrightarrow> 128 \<le> unat b"
  proof -
    have "unat b < 256" using unsigned_less [of b, where 'a = nat] by simp
    then have "unat b div 128 < 2" by (simp add: div_less_iff_less_mult)
    then have "odd (unat b div 128) \<longleftrightarrow> unat b div 128 \<noteq> 0" by (cases "unat b div 128") auto
    then show ?thesis by (simp add: div_eq_0_iff not_less)
  qed
  finally show ?thesis .
qed

lemma leb_byte: "n < 256 \<Longrightarrow> unat (word_of_nat n :: u8) = n"
  by (simp add: unat_of_nat)

lemma leb_bytes_enc: "leb_bytes (leb_enc n @ rest) = Inr (n, rest)"
proof (induction n rule: leb_enc.induct)
  case (1 n)
  show ?case
  proof (cases "n < 128")
    case True
    then show ?thesis by (simp add: leb_enc.simps [of n] more_follows_iff leb_byte)
  next
    case False
    then have "leb_bytes (leb_enc (n div 128) @ rest) = Inr (n div 128, rest)" by (rule "1.IH")
    moreover have "n mod 128 + 128 < 256" by simp
    ultimately show ?thesis using False
      by (simp add: leb_enc.simps [of n] more_follows_iff leb_byte del: of_nat_add)
  qed
qed

lemma leb_bytes_append: "leb_bytes bs = Inr (n, rest) \<Longrightarrow> leb_bytes (bs @ more) = Inr (n, rest @ more)"
  by (induction bs arbitrary: n) (auto split: if_splits sum.splits prod.splits)

lemma leb_enc_format:
  "leb_enc n \<noteq> [] \<and> list_all more_follows (butlast (leb_enc n)) \<and> \<not> more_follows (last (leb_enc n))"
proof (induction n rule: leb_enc.induct)
  case (1 n)
  have "n mod 128 + 128 < 256" by simp
  then show ?case using 1 by (auto simp: leb_enc.simps [of n] more_follows_iff leb_byte simp del: of_nat_add)
qed

lemma leb_enc_length: "0 < k \<Longrightarrow> n < 2 ^ (7 * k) \<Longrightarrow> length (leb_enc n) \<le> k"
proof (induction k arbitrary: n)
  case (Suc k)
  show ?case
  proof (cases "n < 128")
    case False
    have k: "0 < k" using Suc.prems(2) False by (cases k) auto
    have "n div 128 < 2 ^ (7 * k)" using Suc.prems(2) by (simp add: div_less_iff_less_mult power_add)
    then show ?thesis using Suc.IH [OF k] False by (simp add: leb_enc.simps [of n])
  qed (simp add: leb_enc.simps)
qed simp

lemma leb_format: "uvi_format w leb_enc"
  unfolding uvi_format_def using leb_enc_format leb_enc_length by blast

lemma leb_laws: "uvi_laws w leb_enc (leb_dec w)"
  by (auto simp: uvi_laws_def leb_format leb_dec_def leb_bytes_enc split: sum.splits if_splits)

lemma leb_codec_laws: "uvi_codec_laws w leb_enc (leb_codec w)"
proof -
  have "leb_codec w bs = Inr (Some (n, rest)) \<longleftrightarrow> leb_bytes bs = Inr (n, rest) \<and> n < 2 ^ w" for bs n rest
    by (auto simp: leb_codec_def leb_dec_def split: sum.splits if_splits uvi_error.splits)
  then show ?thesis by (simp add: uvi_codec_laws_def leb_bytes_enc leb_bytes_append)
qed

end
