(* ===== verification/Core_Connection.thy ===== *)
theory Core_Connection
  imports Prelude
begin

text \<open>
  The endpoint roles and connection points of core/src/connection.rs. A multiaddress is a list of
  components of the type parameter \<open>'c\<close>, which comes from the multiaddr crate.
\<close>

datatype Endpoint = Dialer | Listener

fun Endpoint_not :: "Endpoint \<Rightarrow> Endpoint" where
  "Endpoint_not Dialer = Listener"
| "Endpoint_not Listener = Dialer"

definition Endpoint_is_dialer :: "Endpoint \<Rightarrow> bool" where
  "Endpoint_is_dialer e = (case e of Dialer \<Rightarrow> True | Listener \<Rightarrow> False)"

definition Endpoint_is_listener :: "Endpoint \<Rightarrow> bool" where
  "Endpoint_is_listener e = (case e of Listener \<Rightarrow> True | Dialer \<Rightarrow> False)"

datatype 'a PendingPoint = PendingDialer Endpoint | PendingListener 'a 'a

datatype 'a ConnectedPoint = ConnectedDialer 'a Endpoint | ConnectedListener 'a 'a

fun PendingPoint_from :: "'a ConnectedPoint \<Rightarrow> 'a PendingPoint" where
  "PendingPoint_from (ConnectedDialer a role) = PendingDialer role"
| "PendingPoint_from (ConnectedListener la sba) = PendingListener la sba"

fun to_endpoint :: "'a ConnectedPoint \<Rightarrow> Endpoint" where
  "to_endpoint (ConnectedDialer a role) = Dialer"
| "to_endpoint (ConnectedListener la sba) = Listener"

fun ConnectedPoint_is_dialer :: "'a ConnectedPoint \<Rightarrow> bool" where
  "ConnectedPoint_is_dialer (ConnectedDialer a role) = True"
| "ConnectedPoint_is_dialer (ConnectedListener la sba) = False"

fun ConnectedPoint_is_listener :: "'a ConnectedPoint \<Rightarrow> bool" where
  "ConnectedPoint_is_listener (ConnectedDialer a role) = False"
| "ConnectedPoint_is_listener (ConnectedListener la sba) = True"

text \<open>Whether the connection is relayed, with the test for the component \<open>P2pCircuit\<close> as a parameter.\<close>

fun is_relayed :: "('c \<Rightarrow> bool) \<Rightarrow> 'c list ConnectedPoint \<Rightarrow> bool" where
  "is_relayed is_circuit (ConnectedDialer a role) = list_ex is_circuit a"
| "is_relayed is_circuit (ConnectedListener la sba) = list_ex is_circuit la"

fun get_remote_address :: "'a ConnectedPoint \<Rightarrow> 'a" where
  "get_remote_address (ConnectedDialer a role) = a"
| "get_remote_address (ConnectedListener la sba) = sba"

fun set_remote_address :: "'a \<Rightarrow> 'a ConnectedPoint \<Rightarrow> 'a ConnectedPoint" where
  "set_remote_address new (ConnectedDialer a role) = ConnectedDialer new role"
| "set_remote_address new (ConnectedListener la sba) = ConnectedListener la new"

lemma set_remote_address_kind [simp]:
  "to_endpoint (set_remote_address a p) = to_endpoint p"
  "ConnectedPoint_is_dialer (set_remote_address a p) = ConnectedPoint_is_dialer p"
  "get_remote_address (set_remote_address a p) = a"
  by (cases p; simp)+

lemma ConnectedPoint_kind:
  "ConnectedPoint_is_listener p \<longleftrightarrow> \<not> ConnectedPoint_is_dialer p"
  "to_endpoint p = (if ConnectedPoint_is_dialer p then Dialer else Listener)"
  by (cases p; simp)+

end
