(* ===== verification/Mplex_Codec.thy ===== *)
theory Mplex_Codec
  imports Varint Core_Connection
begin

text \<open>
  The frames of the mplex multiplexer and their codec: \<open>muxers/mplex/src/codec.rs\<close>. The endpoint
  roles are those of theory Core_Connection.

  The varint codec \<open>cdec\<close> and encoder \<open>enc\<close> are parameters (theory Varint). Buffers are byte lists; a
  decode returns its result with the decoder state and the input left.
\<close>

section \<open>Definitions\<close>

definition MAX_FRAME_SIZE :: nat where
  "MAX_FRAME_SIZE = 1024 * 1024"

record LocalStreamId =
  local_num :: u64
  local_role :: Endpoint

record RemoteStreamId =
  remote_num :: u64
  remote_role :: Endpoint

definition LocalStreamId_dialer :: "u64 \<Rightarrow> LocalStreamId" where
  "LocalStreamId_dialer n = \<lparr>local_num = n, local_role = Dialer\<rparr>"

text \<open>\<open>checked_add(1).expect(..)\<close>: overflow is a panic.\<close>

definition LocalStreamId_next :: "LocalStreamId \<Rightarrow> LocalStreamId option" where
  "LocalStreamId_next i = (if local_num i = - 1 then None else Some (i\<lparr>local_num := local_num i + 1\<rparr>))"

definition into_remote :: "LocalStreamId \<Rightarrow> RemoteStreamId" where
  "into_remote i = \<lparr>remote_num = local_num i, remote_role = Endpoint_not (local_role i)\<rparr>"

definition RemoteStreamId_dialer :: "u64 \<Rightarrow> RemoteStreamId" where
  "RemoteStreamId_dialer n = \<lparr>remote_num = n, remote_role = Dialer\<rparr>"

definition RemoteStreamId_listener :: "u64 \<Rightarrow> RemoteStreamId" where
  "RemoteStreamId_listener n = \<lparr>remote_num = n, remote_role = Listener\<rparr>"

definition into_local :: "RemoteStreamId \<Rightarrow> LocalStreamId" where
  "into_local i = \<lparr>local_num = remote_num i, local_role = Endpoint_not (remote_role i)\<rparr>"

datatype 't Frame = Open (stream_id: 't) | Data (stream_id: 't) bytes | Close (stream_id: 't) | Reset (stream_id: 't)

definition remote_id :: "RemoteStreamId Frame \<Rightarrow> RemoteStreamId" where
  "remote_id f = (case f of Open i \<Rightarrow> i | Data i _ \<Rightarrow> i | Close i \<Rightarrow> i | Reset i \<Rightarrow> i)"

datatype CodecDecodeState = CodecBegin | HasHeader u64 | HasHeaderAndLen u64 nat | Poisoned

datatype codec_error = VarintError uvi_error | FrameTooLong | InvalidHeader | CodecPoisoned | DataTooLong

definition Codec_new :: CodecDecodeState where
  "Codec_new = CodecBegin"

text \<open>The frame with a given header and payload.\<close>

definition decode_frame :: "u64 \<Rightarrow> bytes \<Rightarrow> codec_error + RemoteStreamId Frame" where
  "decode_frame header buf =
     (let num = drop_bit 3 header; tag = header AND 7
      in if tag = 0 then Inr (Open (RemoteStreamId_dialer num))
         else if tag = 1 then Inr (Data (RemoteStreamId_listener num) buf)
         else if tag = 2 then Inr (Data (RemoteStreamId_dialer num) buf)
         else if tag = 3 then Inr (Close (RemoteStreamId_listener num))
         else if tag = 4 then Inr (Close (RemoteStreamId_dialer num))
         else if tag = 5 then Inr (Reset (RemoteStreamId_listener num))
         else if tag = 6 then Inr (Reset (RemoteStreamId_dialer num))
         else Inl InvalidHeader)"

text \<open>
  The \<open>loop\<close> of \<open>decode\<close>. The state is replaced by \<open>Poisoned\<close> when it is read, so an error leaves
  \<open>Poisoned\<close> behind.
\<close>

fun state_rank :: "CodecDecodeState \<Rightarrow> nat" where
  "state_rank CodecBegin = 2"
| "state_rank (HasHeader h) = 1"
| "state_rank (HasHeaderAndLen h n) = 0"
| "state_rank Poisoned = 0"

function Codec_decode :: "uvi_codec \<Rightarrow> CodecDecodeState \<Rightarrow> bytes
    \<Rightarrow> (codec_error + RemoteStreamId Frame option) \<times> CodecDecodeState \<times> bytes" where
  "Codec_decode cdec CodecBegin src =
     (case cdec src of
        Inl e \<Rightarrow> (Inl (VarintError e), Poisoned, src)
      | Inr None \<Rightarrow> (Inr None, CodecBegin, src)
      | Inr (Some (header, src')) \<Rightarrow> Codec_decode cdec (HasHeader (word_of_nat header)) src')"
| "Codec_decode cdec (HasHeader header) src =
     (case cdec src of
        Inl e \<Rightarrow> (Inl (VarintError e), Poisoned, src)
      | Inr None \<Rightarrow> (Inr None, HasHeader header, src)
      | Inr (Some (len, src')) \<Rightarrow>
          if len > MAX_FRAME_SIZE then (Inl FrameTooLong, Poisoned, src')
          else Codec_decode cdec (HasHeaderAndLen header len) src')"
| "Codec_decode cdec (HasHeaderAndLen header len) src =
     (if length src < len then (Inr None, HasHeaderAndLen header len, src)
      else case decode_frame header (take len src) of
             Inl e \<Rightarrow> (Inl e, Poisoned, drop len src)
           | Inr f \<Rightarrow> (Inr (Some f), CodecBegin, drop len src))"
| "Codec_decode cdec Poisoned src = (Inl CodecPoisoned, Poisoned, src)"
  by pat_completeness auto
termination by (relation "measure (\<lambda>(_, st, _). state_rank st)") auto

fun frame_tag :: "LocalStreamId Frame \<Rightarrow> u64" where
  "frame_tag (Open i) = 0"
| "frame_tag (Data i d) = (case local_role i of Listener \<Rightarrow> 1 | Dialer \<Rightarrow> 2)"
| "frame_tag (Close i) = (case local_role i of Listener \<Rightarrow> 3 | Dialer \<Rightarrow> 4)"
| "frame_tag (Reset i) = (case local_role i of Listener \<Rightarrow> 5 | Dialer \<Rightarrow> 6)"

fun frame_data :: "'t Frame \<Rightarrow> bytes" where
  "frame_data (Data i d) = d"
| "frame_data _ = []"

text \<open>\<open>num << 3 | tag\<close>: the shift drops the three highest bits.\<close>

definition frame_header :: "LocalStreamId Frame \<Rightarrow> u64" where
  "frame_header f = push_bit 3 (local_num (stream_id f)) OR frame_tag f"

definition Codec_encode :: "uvi_encode \<Rightarrow> LocalStreamId Frame \<Rightarrow> bytes \<Rightarrow> codec_error + bytes" where
  "Codec_encode enc f dst =
     (let data = frame_data f
      in if length data > MAX_FRAME_SIZE then Inl DataTooLong
         else Inr (dst @ enc (unat (frame_header f)) @ enc (length data) @ data))"

section \<open>Stream ids\<close>

lemma Endpoint_not_not [simp]: "Endpoint_not (Endpoint_not e) = e"
  by (cases e) auto

lemma into_local_remote [simp]: "into_local (into_remote i) = i" "into_remote (into_local r) = r"
  by (simp_all add: into_local_def into_remote_def)

section \<open>Headers\<close>

lemma tag_bound: "frame_tag f \<in> {0, 1, 2, 3, 4, 5, 6}"
  by (cases f) (auto split: Endpoint.splits)

lemma small_bits: "t \<in> {0, 1, 2, 3, 4, 5, 6} \<Longrightarrow> t AND 7 = t \<and> drop_bit 3 t = 0" for t :: u64
  by (auto simp: drop_bit_eq_div)

lemma bit_below:
  fixes n :: "'a::len word"
  assumes "unat n < 2 ^ k" and "bit n i"
  shows "i < k"
proof -
  have "bit (unat n) i" using assms(2) by (simp add: bit_unsigned_iff)
  then have "unat n div 2 ^ i \<noteq> 0" by (metis bit_iff_odd even_zero)
  then have "2 ^ i \<le> unat n" by (simp add: div_eq_0_iff not_less)
  then have "(2::nat) ^ i < 2 ^ k" using assms(1) by (rule le_less_trans)
  then show ?thesis by simp
qed

lemma header_fields:
  fixes n t :: u64
  assumes "unat n < 2 ^ 61" and "t \<in> {0, 1, 2, 3, 4, 5, 6}"
  shows "drop_bit 3 (push_bit 3 n OR t) = n" and "(push_bit 3 n OR t) AND 7 = t"
proof -
  note t = small_bits [OF assms(2)]
  have "bit (drop_bit 3 (push_bit 3 n)) i \<longleftrightarrow> bit n i" for i
    using bit_below [OF assms(1), of i] by (auto simp: bit_drop_bit_eq bit_push_bit_iff)
  then have "drop_bit 3 (push_bit 3 n) = n" by (rule bit_eqI)
  then show "drop_bit 3 (push_bit 3 n OR t) = n" using t by simp
  have "push_bit 3 n AND mask 3 = 0"
    by (rule bit_eqI) (auto simp: bit_and_iff bit_push_bit_iff bit_mask_iff)
  then show "(push_bit 3 n OR t) AND 7 = t"
    using t by (simp add: bit.conj_disj_distrib2 mask_eq_exp_minus_1)
qed

section \<open>Round trip\<close>

text \<open>
  How the receiver sees a frame: under the sender's role. An \<open>Open\<close> frame always comes from a dialer.
\<close>

definition as_sent :: "LocalStreamId \<Rightarrow> RemoteStreamId" where
  "as_sent i = \<lparr>remote_num = local_num i, remote_role = local_role i\<rparr>"

fun received :: "LocalStreamId Frame \<Rightarrow> RemoteStreamId Frame" where
  "received (Open i) = Open (RemoteStreamId_dialer (local_num i))"
| "received (Data i d) = Data (as_sent i) d"
| "received (Close i) = Close (as_sent i)"
| "received (Reset i) = Reset (as_sent i)"

lemma decode_frame_header:
  assumes "unat (local_num (stream_id f)) < 2 ^ 61"
  shows "decode_frame (frame_header f) (frame_data f) = Inr (received f)"
  using header_fields [OF assms tag_bound [of f]]
  by (cases f) (auto simp: decode_frame_def frame_header_def as_sent_def RemoteStreamId_dialer_def RemoteStreamId_listener_def
      split: Endpoint.splits)

text \<open>
  C27. A frame that is encoded is decoded by the remote as the same frame, whatever bytes follow, and
  the decoder is ready for the next frame: for every stream number below \<open>2 ^ 61\<close> and every payload
  within the limit. Both ends then name the stream by corresponding ids.
\<close>
theorem mplex_round_trip:
  assumes uvi: "uvi_codec_laws 64 enc cdec"
    and num: "unat (local_num (stream_id f)) < 2 ^ 61" and len: "length (frame_data f) \<le> MAX_FRAME_SIZE"
  shows "\<exists>bs. Codec_encode enc f [] = Inr bs \<and>
           Codec_decode cdec CodecBegin (bs @ rest) = (Inr (Some (received f)), CodecBegin, rest)"
proof -
  have "unat (frame_header f) < 2 ^ 64" using unsigned_less [of "frame_header f", where 'a = nat] by simp
  moreover have "length (frame_data f) < 2 ^ 64" using len by (simp add: MAX_FRAME_SIZE_def)
  ultimately show ?thesis
    using len by (simp add: Codec_encode_def Let_def uvi_codec_lawsD(1) [OF uvi] decode_frame_header [OF num])
qed

definition sample_frame :: "LocalStreamId Frame" where
  "sample_frame = Data (LocalStreamId_dialer 300) [1, 2]"

theorem mplex_round_trip_witness:
  "\<exists>bs. Codec_encode leb_enc sample_frame [] = Inr bs \<and>
     Codec_decode (leb_codec 64) CodecBegin (bs @ [9]) = (Inr (Some (received sample_frame)), CodecBegin, [9])"
  by (rule mplex_round_trip [OF leb_codec_laws])
     (simp_all add: sample_frame_def LocalStreamId_dialer_def MAX_FRAME_SIZE_def)

lemma resume_payload:
  "Codec_decode cdec (HasHeaderAndLen h n) a = (Inr None, st', a') \<Longrightarrow>
   Codec_decode cdec (HasHeaderAndLen h n) (a @ b) = Codec_decode cdec st' (a' @ b)"
  by (auto split: if_splits sum.splits)

lemma resume_length:
  assumes "uvi_codec_laws 64 enc cdec" and "Codec_decode cdec (HasHeader h) a = (Inr None, st', a')"
  shows "Codec_decode cdec (HasHeader h) (a @ b) = Codec_decode cdec st' (a' @ b)"
proof (cases "\<exists>n r. cdec a = Inr (Some (n, r))")
  case True
  then obtain n r where n: "cdec a = Inr (Some (n, r))" by blast
  note m = uvi_codec_lawsD(3) [OF assms(1) n, of b]
  from assms(2) n have "\<not> MAX_FRAME_SIZE < n" "Codec_decode cdec (HasHeaderAndLen h n) r = (Inr None, st', a')"
    by (simp_all split: if_splits)
  then show ?thesis using resume_payload [of cdec h n r st' a' b] m by simp
qed (use assms(2) in \<open>auto split: sum.splits option.splits\<close>)

text \<open>
  C30. Decoding does not depend on how the input arrives in pieces: where the decoder asks for more
  input, continuing with the piece that follows gives what decoding all of it at once gives.
\<close>
theorem mplex_decode_resume:
  assumes uvi: "uvi_codec_laws 64 enc cdec"
    and first: "Codec_decode cdec st a = (Inr None, st', a')"
  shows "Codec_decode cdec st (a @ b) = Codec_decode cdec st' (a' @ b)"
proof (cases st)
  case CodecBegin
  show ?thesis
  proof (cases "\<exists>n r. cdec a = Inr (Some (n, r))")
    case True
    then obtain n r where n: "cdec a = Inr (Some (n, r))" by blast
    then show ?thesis
      using CodecBegin first uvi_codec_lawsD(3) [OF uvi n, of b] resume_length [OF uvi, of "word_of_nat n" r st' a' b]
      by (simp del: Codec_decode.simps(2))
  qed (use first CodecBegin in \<open>auto split: sum.splits option.splits\<close>)
next
  case (HasHeader h)
  then show ?thesis using resume_length [OF uvi] first by blast
next
  case (HasHeaderAndLen h n)
  then show ?thesis using resume_payload first by blast
qed (use first in simp)

theorem mplex_decode_resume_witness:
  "Codec_decode (leb_codec 64) CodecBegin ([0xE2, 0x12, 2] @ [1, 2]) =
   Codec_decode (leb_codec 64) (HasHeaderAndLen 2402 2) ([] @ [1, 2])"
  by (rule mplex_decode_resume [OF leb_codec_laws])
     (simp add: leb_codec_def leb_dec_def MAX_FRAME_SIZE_def)

lemma tag_cases: "h AND 7 \<in> {0, 1, 2, 3, 4, 5, 6, 7}" for h :: u64
proof -
  have "h AND mask 3 = take_bit 3 h" by (simp add: take_bit_eq_mask)
  then have "unat (h AND 7) < 8"
    by (simp add: mask_eq_exp_minus_1 take_bit_eq_mod unat_mod)
  then have "unat (h AND 7) \<in> {0, 1, 2, 3, 4, 5, 6, 7}" by auto
  moreover obtain k where k: "unat (h AND 7) = k" by blast
  moreover have "h AND 7 = word_of_nat k" unfolding k [symmetric] by simp
  ultimately show ?thesis by auto
qed

lemma decode_frame_invalid:
  "h AND 7 = 7 \<Longrightarrow> decode_frame h buf = Inl InvalidHeader"
  "h AND 7 \<noteq> 7 \<Longrightarrow> \<exists>f. decode_frame h buf = Inr f"
  using tag_cases [of h] by (auto simp: decode_frame_def Let_def)



end
