(* ===== verification/Async_Io.thy ===== *)
theory Async_Io
  imports Prelude
begin

text \<open>
  The result of polling, \<open>std::task::Poll\<close>, and I/O errors by their kind, shared by the components that do asynchronous
  I/O. The errors that the code creates itself have a constructor, any other comes from the underlying resource.
\<close>

datatype 'a poll = Pending | Ready 'a

datatype io_error = UnexpectedEof | InvalidData | WriteZero | OtherIo nat

end
