(* ===== verification/Mplex_Io.thy ===== *)
theory Mplex_Io
  imports Mplex_Codec Async_Io
begin

text \<open>
  The mplex multiplexer: \<open>muxers/mplex/src/io.rs\<close>, \<open>config.rs\<close> and \<open>lib.rs\<close>.

  The framed I/O resource under it (crate asynchronous-codec over a byte stream and the codec of
  theory Mplex_Codec) is a parameter: a record of its sink and stream operations on a state of any
  type. A waker is a value; the registries of wakers are those of the source, and the field \<open>woken\<close>
  collects the wakers that have been woken. A copy of an I/O error keeps its kind and text and so is
  the same error. The identifier that is only logged and the shrinking of buffers are left out.

  \<open>None\<close> is a panic. The two loops that read frames are partial functions, so an endless loop is also
  \<open>None\<close>.
\<close>

section \<open>Configuration\<close>

datatype MaxBufferBehaviour = ResetStream | Block

record MplexConfig =
  max_substreams :: nat
  max_buffer_len :: nat
  max_buffer_behaviour :: MaxBufferBehaviour
  split_send_size :: nat
  mplex_protocol_name :: string

definition DEFAULT_MPLEX_PROTOCOL_NAME :: string where
  "DEFAULT_MPLEX_PROTOCOL_NAME = ''/mplex/6.7.0''"

definition MplexConfig_default :: MplexConfig where
  "MplexConfig_default =
     \<lparr>max_substreams = 128, max_buffer_len = 32, max_buffer_behaviour = Block,
      split_send_size = 8 * 1024, mplex_protocol_name = DEFAULT_MPLEX_PROTOCOL_NAME\<rparr>"

definition set_max_num_streams :: "nat \<Rightarrow> MplexConfig \<Rightarrow> MplexConfig" where
  "set_max_num_streams n c = c\<lparr>max_substreams := n\<rparr>"

definition set_max_buffer_size :: "nat \<Rightarrow> MplexConfig \<Rightarrow> MplexConfig" where
  "set_max_buffer_size n c = c\<lparr>max_buffer_len := n\<rparr>"

definition set_max_buffer_behaviour :: "MaxBufferBehaviour \<Rightarrow> MplexConfig \<Rightarrow> MplexConfig" where
  "set_max_buffer_behaviour b c = c\<lparr>max_buffer_behaviour := b\<rparr>"

definition set_split_send_size :: "nat \<Rightarrow> MplexConfig \<Rightarrow> MplexConfig" where
  "set_split_send_size n c = c\<lparr>split_send_size := min n MAX_FRAME_SIZE\<rparr>"

definition set_protocol_name :: "string \<Rightarrow> MplexConfig \<Rightarrow> MplexConfig" where
  "set_protocol_name n c = c\<lparr>mplex_protocol_name := n\<rparr>"

section \<open>State\<close>

record ('r, 'e) framed =
  f_ready :: "'r \<Rightarrow> ('e + unit) poll \<times> 'r"
  f_send :: "LocalStreamId Frame \<Rightarrow> 'r \<Rightarrow> ('e + unit) \<times> 'r"
  f_flush :: "'r \<Rightarrow> ('e + unit) poll \<times> 'r"
  f_close :: "'r \<Rightarrow> ('e + unit) poll \<times> 'r"
  f_next :: "'r \<Rightarrow> ('e + RemoteStreamId Frame) option poll \<times> 'r"

text \<open>The errors of the multiplexer: those of the I/O resource and those it raises itself.\<close>

datatype 'e mplex_error =
    IoError 'e
  | UnexpectedEofError
  | BrokenPipeError
  | WriteZeroError
  | ConnectionIsClosed
  | OpenForOpenSubstream
  | TooManyPendingFrames

datatype 'e Status = StatusOpen | StatusClosed | StatusErr "'e mplex_error"

datatype SubstreamState =
    SubOpen "bytes list"
  | SubSendClosed "bytes list"
  | SubRecvClosed "bytes list"
  | SubClosed "bytes list"
  | SubReset "bytes list"

record ('r, 'w, 'e) Multiplexed =
  status :: "'e Status"
  io :: 'r
  config :: MplexConfig
  open_buffer :: "LocalStreamId list"
  pending_flush_open :: "LocalStreamId set"
  blocking_stream :: "LocalStreamId option"
  pending_frames :: "LocalStreamId Frame list"
  substreams :: "(LocalStreamId, SubstreamState) mapping"
  next_outbound :: LocalStreamId
  next_stream :: "'w option"
  read_stream :: "(LocalStreamId, 'w) mapping"
  write_pending :: "'w list"
  open_pending :: "'w list"
  woken :: "'w set"

definition EXTRA_PENDING_FRAMES :: nat where
  "EXTRA_PENDING_FRAMES = 1000"

definition Multiplexed_new :: "'r \<Rightarrow> MplexConfig \<Rightarrow> ('r, 'w, 'e) Multiplexed" where
  "Multiplexed_new r cfg =
     \<lparr>status = StatusOpen, io = r, config = cfg, open_buffer = [], pending_flush_open = {},
      blocking_stream = None, pending_frames = [], substreams = Mapping.empty,
      next_outbound = LocalStreamId_dialer 0, next_stream = None, read_stream = Mapping.empty,
      write_pending = [], open_pending = [], woken = {}\<rparr>"

fun recv_buf :: "SubstreamState \<Rightarrow> bytes list" where
  "recv_buf (SubOpen buf) = buf"
| "recv_buf (SubSendClosed buf) = buf"
| "recv_buf (SubRecvClosed buf) = buf"
| "recv_buf (SubClosed buf) = buf"
| "recv_buf (SubReset buf) = buf"

text \<open>The mutable borrow of the buffer: the state with another buffer.\<close>

fun set_recv_buf :: "bytes list \<Rightarrow> SubstreamState \<Rightarrow> SubstreamState" where
  "set_recv_buf b (SubOpen _) = SubOpen b"
| "set_recv_buf b (SubSendClosed _) = SubSendClosed b"
| "set_recv_buf b (SubRecvClosed _) = SubRecvClosed b"
| "set_recv_buf b (SubClosed _) = SubClosed b"
| "set_recv_buf b (SubReset _) = SubReset b"

fun recv_buf_open :: "SubstreamState \<Rightarrow> bytes list option" where
  "recv_buf_open (SubOpen buf) = Some buf"
| "recv_buf_open (SubSendClosed buf) = Some buf"
| "recv_buf_open (SubRecvClosed _) = None"
| "recv_buf_open (SubClosed _) = None"
| "recv_buf_open (SubReset _) = None"

section \<open>Wakers\<close>

definition register_read_stream :: "'w \<Rightarrow> LocalStreamId \<Rightarrow> ('r, 'w, 'e) Multiplexed \<Rightarrow> ('r, 'w, 'e) Multiplexed" where
  "register_read_stream w i s = s\<lparr>read_stream := Mapping.update i w (read_stream s)\<rparr>"

definition register_next_stream :: "'w \<Rightarrow> ('r, 'w, 'e) Multiplexed \<Rightarrow> ('r, 'w, 'e) Multiplexed" where
  "register_next_stream w s = s\<lparr>next_stream := Some w\<rparr>"

definition wake_read_stream :: "LocalStreamId \<Rightarrow> ('r, 'w, 'e) Multiplexed \<Rightarrow> bool \<times> ('r, 'w, 'e) Multiplexed" where
  "wake_read_stream i s =
     (case Mapping.lookup (read_stream s) i of
        Some w \<Rightarrow> (True, s\<lparr>read_stream := Mapping.delete i (read_stream s), woken := insert w (woken s)\<rparr>)
      | None \<Rightarrow> (False, s))"

definition wake_next_stream :: "('r, 'w, 'e) Multiplexed \<Rightarrow> ('r, 'w, 'e) Multiplexed" where
  "wake_next_stream s =
     (case next_stream s of
        Some w \<Rightarrow> s\<lparr>next_stream := None, woken := insert w (woken s)\<rparr>
      | None \<Rightarrow> s)"

text \<open>The wakers of the two I/O directions, called by the I/O resource.\<close>

definition NotifierRead_wake :: "('r, 'w, 'e) Multiplexed \<Rightarrow> ('r, 'w, 'e) Multiplexed" where
  "NotifierRead_wake s =
     wake_next_stream
       (s\<lparr>read_stream := Mapping.empty,
          woken := woken s \<union>
            (\<lambda>i. the (Mapping.lookup (read_stream s) i)) ` Mapping.keys (read_stream s)\<rparr>)"

definition NotifierWrite_register :: "'w \<Rightarrow> ('r, 'w, 'e) Multiplexed \<Rightarrow> ('r, 'w, 'e) Multiplexed" where
  "NotifierWrite_register w s =
     (if list_all (\<lambda>v. v \<noteq> w) (write_pending s) then s\<lparr>write_pending := write_pending s @ [w]\<rparr> else s)"

definition NotifierWrite_wake :: "('r, 'w, 'e) Multiplexed \<Rightarrow> ('r, 'w, 'e) Multiplexed" where
  "NotifierWrite_wake s = s\<lparr>write_pending := [], woken := woken s \<union> set (write_pending s)\<rparr>"

definition NotifierOpen_register :: "'w \<Rightarrow> ('r, 'w, 'e) Multiplexed \<Rightarrow> ('r, 'w, 'e) Multiplexed" where
  "NotifierOpen_register w s =
     (if list_all (\<lambda>v. v \<noteq> w) (open_pending s) then s\<lparr>open_pending := open_pending s @ [w]\<rparr> else s)"

definition NotifierOpen_wake_all :: "('r, 'w, 'e) Multiplexed \<Rightarrow> ('r, 'w, 'e) Multiplexed" where
  "NotifierOpen_wake_all s = s\<lparr>open_pending := [], woken := woken s \<union> set (open_pending s)\<rparr>"

text \<open>\<open>cx.waker().wake()\<close>.\<close>

definition wake_current :: "'w \<Rightarrow> ('r, 'w, 'e) Multiplexed \<Rightarrow> ('r, 'w, 'e) Multiplexed" where
  "wake_current w s = s\<lparr>woken := insert w (woken s)\<rparr>"

section \<open>Sending frames\<close>

definition on_error :: "'e mplex_error \<Rightarrow> ('r, 'w, 'e) Multiplexed \<Rightarrow> ('r, 'w, 'e) Multiplexed" where
  "on_error e s =
     s\<lparr>status := StatusErr e, pending_frames := [], substreams := Mapping.empty, open_buffer := []\<rparr>"

definition guard_open :: "('r, 'w, 'e) Multiplexed \<Rightarrow> 'e mplex_error + unit" where
  "guard_open s =
     (case status s of
        StatusClosed \<Rightarrow> Inl ConnectionIsClosed
      | StatusErr e \<Rightarrow> Inl e
      | StatusOpen \<Rightarrow> Inr ())"

definition check_max_pending_frames ::
  "('r, 'w, 'e) Multiplexed \<Rightarrow> ('e mplex_error + unit) \<times> ('r, 'w, 'e) Multiplexed" where
  "check_max_pending_frames s =
     (if max_substreams (config s) + EXTRA_PENDING_FRAMES \<le> length (pending_frames s)
      then (Inl TooManyPendingFrames, on_error TooManyPendingFrames s)
      else (Inr (), s))"

definition poll_send_frame ::
  "('r, 'e) framed \<Rightarrow> 'w \<Rightarrow> LocalStreamId Frame \<Rightarrow> ('r, 'w, 'e) Multiplexed \<Rightarrow>
   ('e mplex_error + unit) poll \<times> ('r, 'w, 'e) Multiplexed" where
  "poll_send_frame fr w f s0 =
     (let s = NotifierWrite_register w s0
      in (case f_ready fr (io s) of
            (Pending, r) \<Rightarrow> (Pending, s\<lparr>io := r\<rparr>)
          | (Ready (Inl e), r) \<Rightarrow> (Ready (Inl (IoError e)), on_error (IoError e) (s\<lparr>io := r\<rparr>))
          | (Ready (Inr _), r) \<Rightarrow>
              (case f_send fr f r of
                 (Inl e, r') \<Rightarrow> (Ready (Inl (IoError e)), on_error (IoError e) (s\<lparr>io := r'\<rparr>))
               | (Inr _, r') \<Rightarrow> (Ready (Inr ()), s\<lparr>io := r'\<rparr>))))"

lemma poll_send_frame_pending:
  "poll_send_frame fr w f s = (Ready (Inr u), s1) \<Longrightarrow> pending_frames s1 = pending_frames s"
  by (auto simp: poll_send_frame_def NotifierWrite_register_def Let_def
      split: poll.splits sum.splits prod.splits if_splits)

text \<open>The loop of \<open>send_pending_frames\<close>, which pops the frame at the back before it sends it.\<close>

function send_pending_frames ::
  "('r, 'e) framed \<Rightarrow> 'w \<Rightarrow> ('r, 'w, 'e) Multiplexed \<Rightarrow>
   ('e mplex_error + unit) poll \<times> ('r, 'w, 'e) Multiplexed" where
  "send_pending_frames fr w s =
     (if pending_frames s = [] then (Ready (Inr ()), s)
      else
        let f = last (pending_frames s); rest = butlast (pending_frames s)
        in (case poll_send_frame fr w f (s\<lparr>pending_frames := rest\<rparr>) of
              (Ready (Inl e), s1) \<Rightarrow> (Ready (Inl e), s1)
            | (Pending, s1) \<Rightarrow> (Pending, s1\<lparr>pending_frames := pending_frames s1 @ [f]\<rparr>)
            | (Ready (Inr _), s1) \<Rightarrow> send_pending_frames fr w s1))"
  by pat_completeness auto

termination
  by (relation "measure (\<lambda>(_, _, s). length (pending_frames s))")
    (auto dest: poll_send_frame_pending [OF sym])

declare send_pending_frames.simps [simp del]

definition Mplex_poll_flush ::
  "('r, 'e) framed \<Rightarrow> 'w \<Rightarrow> ('r, 'w, 'e) Multiplexed \<Rightarrow>
   ('e mplex_error + unit) poll \<times> ('r, 'w, 'e) Multiplexed" where
  "Mplex_poll_flush fr w s0 =
     (case status s0 of
        StatusClosed \<Rightarrow> (Ready (Inr ()), s0)
      | StatusErr e \<Rightarrow> (Ready (Inl e), s0)
      | StatusOpen \<Rightarrow>
          (case send_pending_frames fr w s0 of
             (Pending, s) \<Rightarrow> (Pending, s)
           | (Ready (Inl e), s) \<Rightarrow> (Ready (Inl e), s)
           | (Ready (Inr _), s1) \<Rightarrow>
               let s = NotifierWrite_register w s1
               in (case f_flush fr (io s) of
                     (Pending, r) \<Rightarrow> (Pending, s\<lparr>io := r\<rparr>)
                   | (Ready (Inl e), r) \<Rightarrow> (Ready (Inl (IoError e)), on_error (IoError e) (s\<lparr>io := r\<rparr>))
                   | (Ready (Inr _), r) \<Rightarrow> (Ready (Inr ()), s\<lparr>io := r, pending_flush_open := {}\<rparr>))))"

definition Mplex_poll_close ::
  "('r, 'e) framed \<Rightarrow> 'w \<Rightarrow> ('r, 'w, 'e) Multiplexed \<Rightarrow>
   ('e mplex_error + unit) poll \<times> ('r, 'w, 'e) Multiplexed" where
  "Mplex_poll_close fr w s0 =
     (case status s0 of
        StatusClosed \<Rightarrow> (Ready (Inr ()), s0)
      | StatusErr e \<Rightarrow> (Ready (Inl e), s0)
      | StatusOpen \<Rightarrow>
          let s = NotifierWrite_register w s0
          in (case f_close fr (io s) of
                (Pending, r) \<Rightarrow> (Pending, s\<lparr>io := r\<rparr>)
              | (Ready (Inl e), r) \<Rightarrow> (Ready (Inl (IoError e)), on_error (IoError e) (s\<lparr>io := r\<rparr>))
              | (Ready (Inr _), r) \<Rightarrow>
                  (Ready (Inr ()),
                   s\<lparr>io := r, pending_frames := [], open_buffer := [], substreams := Mapping.empty,
                     status := StatusClosed\<rparr>)))"

section \<open>Received frames\<close>

definition on_open ::
  "RemoteStreamId \<Rightarrow> ('r, 'w, 'e) Multiplexed \<Rightarrow>
   ('e mplex_error + LocalStreamId option) \<times> ('r, 'w, 'e) Multiplexed" where
  "on_open ri s =
     (let i = into_local ri
      in if Mapping.lookup (substreams s) i \<noteq> None
         then (Inl OpenForOpenSubstream, on_error OpenForOpenSubstream s)
         else if max_substreams (config s) \<le> Mapping.size (substreams s)
         then (case check_max_pending_frames s of
                 (Inl e, s1) \<Rightarrow> (Inl e, s1)
               | (Inr _, s1) \<Rightarrow> (Inr None, s1\<lparr>pending_frames := Reset i # pending_frames s1\<rparr>))
         else (Inr (Some i), s\<lparr>substreams := Mapping.update i (SubOpen []) (substreams s)\<rparr>))"

definition on_reset :: "LocalStreamId \<Rightarrow> ('r, 'w, 'e) Multiplexed \<Rightarrow> ('r, 'w, 'e) Multiplexed" where
  "on_reset i s =
     (case Mapping.lookup (substreams s) i of
        None \<Rightarrow> s
      | Some (SubClosed _) \<Rightarrow> s\<lparr>substreams := Mapping.delete i (substreams s)\<rparr>
      | Some (SubReset _) \<Rightarrow> s\<lparr>substreams := Mapping.delete i (substreams s)\<rparr>
      | Some st \<Rightarrow>
          snd (wake_read_stream i
            (s\<lparr>substreams := Mapping.update i (SubReset (recv_buf st)) (substreams s)\<rparr>)))"

definition on_close :: "LocalStreamId \<Rightarrow> ('r, 'w, 'e) Multiplexed \<Rightarrow> ('r, 'w, 'e) Multiplexed" where
  "on_close i s =
     (case Mapping.lookup (substreams s) i of
        None \<Rightarrow> s
      | Some (SubRecvClosed _) \<Rightarrow> s
      | Some (SubClosed _) \<Rightarrow> s
      | Some (SubReset _) \<Rightarrow> s
      | Some (SubSendClosed buf) \<Rightarrow>
          snd (wake_read_stream i (s\<lparr>substreams := Mapping.update i (SubClosed buf) (substreams s)\<rparr>))
      | Some (SubOpen buf) \<Rightarrow>
          snd (wake_read_stream i (s\<lparr>substreams := Mapping.update i (SubRecvClosed buf) (substreams s)\<rparr>)))"

text \<open>The \<open>debug_assert\<close> on the length of the buffer is a panic.\<close>

definition buffer_data ::
  "LocalStreamId \<Rightarrow> bytes \<Rightarrow> ('r, 'w, 'e) Multiplexed \<Rightarrow>
   (('e mplex_error + unit) \<times> ('r, 'w, 'e) Multiplexed) option" where
  "buffer_data i data s =
     (case Option.bind (Mapping.lookup (substreams s) i) recv_buf_open of
        None \<Rightarrow> Some (Inr (), s)
      | Some buf \<Rightarrow>
          if max_buffer_len (config s) < length buf then None
          else
            let st = the (Mapping.lookup (substreams s) i);
                buf1 = buf @ [data];
                s1 = snd (wake_read_stream i
                  (s\<lparr>substreams := Mapping.update i (set_recv_buf buf1 st) (substreams s)\<rparr>))
            in Some (if max_buffer_len (config s) < length buf1
                     then (case max_buffer_behaviour (config s) of
                             ResetStream \<Rightarrow>
                               (case check_max_pending_frames s1 of
                                  (Inl e, s2) \<Rightarrow> (Inl e, s2)
                                | (Inr _, s2) \<Rightarrow>
                                    (Inr (), s2\<lparr>substreams := Mapping.update i (SubReset buf1) (substreams s2),
                                                pending_frames := Reset i # pending_frames s2\<rparr>))
                           | Block \<Rightarrow> (Inr (), s1\<lparr>blocking_stream := Some i\<rparr>))
                     else (Inr (), s1)))"

definition can_read :: "LocalStreamId \<Rightarrow> ('r, 'w, 'e) Multiplexed \<Rightarrow> bool" where
  "can_read i s =
     (case Mapping.lookup (substreams s) i of
        Some (SubOpen _) \<Rightarrow> True
      | Some (SubSendClosed _) \<Rightarrow> True
      | _ \<Rightarrow> False)"

text \<open>The last part of \<open>poll_read_frame\<close>: reading from the I/O resource unless a stream blocks it.\<close>

definition read_frame_unblocked ::
  "('r, 'e) framed \<Rightarrow> 'w \<Rightarrow> LocalStreamId option \<Rightarrow> ('r, 'w, 'e) Multiplexed \<Rightarrow>
   (('e mplex_error + RemoteStreamId Frame) poll \<times> ('r, 'w, 'e) Multiplexed) option" where
  "read_frame_unblocked fr w interest s0 =
     (case blocking_stream s0 of
        Some b \<Rightarrow>
          let (was_woken, s) = wake_read_stream b s0
          in if \<not> was_woken then Some (Pending, wake_current w s)
             else (case interest of
                     Some i \<Rightarrow> if b = i then None else Some (Pending, register_read_stream w i s)
                   | None \<Rightarrow> Some (Pending, register_next_stream w s))
      | None \<Rightarrow>
          let s = (case interest of Some i \<Rightarrow> register_read_stream w i s0
                                  | None \<Rightarrow> register_next_stream w s0)
          in Some (case f_next fr (io s) of
                     (Pending, r) \<Rightarrow> (Pending, s\<lparr>io := r\<rparr>)
                   | (Ready (Some (Inr f)), r) \<Rightarrow> (Ready (Inr f), s\<lparr>io := r\<rparr>)
                   | (Ready (Some (Inl e)), r) \<Rightarrow> (Ready (Inl (IoError e)), on_error (IoError e) (s\<lparr>io := r\<rparr>))
                   | (Ready None, r) \<Rightarrow> (Ready (Inl UnexpectedEofError), on_error UnexpectedEofError (s\<lparr>io := r\<rparr>))))"

definition poll_read_frame ::
  "('r, 'e) framed \<Rightarrow> 'w \<Rightarrow> LocalStreamId option \<Rightarrow> ('r, 'w, 'e) Multiplexed \<Rightarrow>
   (('e mplex_error + RemoteStreamId Frame) poll \<times> ('r, 'w, 'e) Multiplexed) option" where
  "poll_read_frame fr w interest s0 =
     (case send_pending_frames fr w s0 of
        (Ready (Inl e), s) \<Rightarrow> Some (Ready (Inl e), s)
      | (_, s) \<Rightarrow>
          if (case interest of Some i \<Rightarrow> i \<in> pending_flush_open s | None \<Rightarrow> False)
          then (case Mplex_poll_flush fr w s of
                  (Pending, s1) \<Rightarrow> Some (Pending, s1)
                | (Ready (Inl e), s1) \<Rightarrow> Some (Ready (Inl e), s1)
                | (Ready (Inr _), s1) \<Rightarrow> read_frame_unblocked fr w interest (s1\<lparr>pending_flush_open := {}\<rparr>))
          else read_frame_unblocked fr w interest s)"

section \<open>Streams\<close>

partial_function (option) next_stream_loop ::
  "('r, 'e) framed \<Rightarrow> 'w \<Rightarrow> nat \<Rightarrow> ('r, 'w, 'e) Multiplexed \<Rightarrow>
   (('e mplex_error + LocalStreamId) poll \<times> ('r, 'w, 'e) Multiplexed) option" where
  "next_stream_loop fr w num_buffered s0 =
     (if num_buffered = max_buffer_len (config s0) then Some (Pending, wake_current w s0)
      else
        Option.bind (poll_read_frame fr w None s0) (\<lambda>(r, s).
          case r of
            Pending \<Rightarrow> Some (Pending, s)
          | Ready (Inl e) \<Rightarrow> Some (Ready (Inl e), s)
          | Ready (Inr f) \<Rightarrow>
              (case f of
                 Open ri \<Rightarrow>
                   (case on_open ri s of
                      (Inl e, s1) \<Rightarrow> Some (Ready (Inl e), s1)
                    | (Inr (Some i), s1) \<Rightarrow> Some (Ready (Inr i), s1)
                    | (Inr None, s1) \<Rightarrow> next_stream_loop fr w num_buffered s1)
               | Data ri data \<Rightarrow>
                   Option.bind (buffer_data (into_local ri) data s) (\<lambda>(b, s1).
                     case b of
                       Inl e \<Rightarrow> Some (Ready (Inl e), s1)
                     | Inr _ \<Rightarrow> next_stream_loop fr w (num_buffered + 1) s1)
               | Close ri \<Rightarrow> next_stream_loop fr w num_buffered (on_close (into_local ri) s)
               | Reset ri \<Rightarrow> next_stream_loop fr w num_buffered (on_reset (into_local ri) s))))"

definition poll_next_stream ::
  "('r, 'e) framed \<Rightarrow> 'w \<Rightarrow> ('r, 'w, 'e) Multiplexed \<Rightarrow>
   (('e mplex_error + LocalStreamId) poll \<times> ('r, 'w, 'e) Multiplexed) option" where
  "poll_next_stream fr w s =
     (case guard_open s of
        Inl e \<Rightarrow> Some (Ready (Inl e), s)
      | Inr _ \<Rightarrow>
          if open_buffer s \<noteq> []
          then Some (Ready (Inr (last (open_buffer s))), s\<lparr>open_buffer := butlast (open_buffer s)\<rparr>)
          else next_stream_loop fr w 0 s)"

definition take_outbound_id ::
  "('r, 'w, 'e) Multiplexed \<Rightarrow> (LocalStreamId \<times> ('r, 'w, 'e) Multiplexed) option" where
  "take_outbound_id s =
     map_option (\<lambda>i. (next_outbound s, s\<lparr>next_outbound := i\<rparr>)) (LocalStreamId_next (next_outbound s))"

definition poll_open_stream ::
  "('r, 'e) framed \<Rightarrow> 'w \<Rightarrow> ('r, 'w, 'e) Multiplexed \<Rightarrow>
   (('e mplex_error + LocalStreamId) poll \<times> ('r, 'w, 'e) Multiplexed) option" where
  "poll_open_stream fr w s0 =
     (case guard_open s0 of
        Inl e \<Rightarrow> Some (Ready (Inl e), s0)
      | Inr _ \<Rightarrow>
          if max_substreams (config s0) \<le> Mapping.size (substreams s0)
          then Some (Pending, NotifierOpen_register w s0)
          else
            let s = NotifierWrite_register w s0
            in (case f_ready fr (io s) of
                  (Pending, r) \<Rightarrow> Some (Pending, s\<lparr>io := r\<rparr>)
                | (Ready (Inl e), r) \<Rightarrow> Some (Ready (Inl (IoError e)), on_error (IoError e) (s\<lparr>io := r\<rparr>))
                | (Ready (Inr _), r) \<Rightarrow>
                    do {
                      (i, s1) \<leftarrow> take_outbound_id s;
                      Some (case f_send fr (Open i) r of
                              (Inl e, r') \<Rightarrow> (Ready (Inl (IoError e)), on_error (IoError e) (s1\<lparr>io := r'\<rparr>))
                            | (Inr _, r') \<Rightarrow>
                                (Ready (Inr i),
                                 s1\<lparr>io := r', substreams := Mapping.update i (SubOpen []) (substreams s1),
                                    pending_flush_open := insert i (pending_flush_open s1)\<rparr>))
                    }))"

text \<open>\<open>max_substreams - 1\<close> panics for a limit of zero.\<close>

definition drop_stream ::
  "LocalStreamId \<Rightarrow> ('r, 'w, 'e) Multiplexed \<Rightarrow> ('r, 'w, 'e) Multiplexed option" where
  "drop_stream i s0 =
     (if status s0 \<noteq> StatusOpen then Some s0
      else
        let s = snd (wake_read_stream i s0)
        in (case Mapping.lookup (substreams s) i of
              None \<Rightarrow> Some s
            | Some st \<Rightarrow>
                do {
                  let s1 = s\<lparr>substreams := Mapping.delete i (substreams s)\<rparr>;
                  below \<leftarrow> checked_sub (max_substreams (config s)) 1;
                  let s2 = (if Mapping.size (substreams s1) = below then NotifierOpen_wake_all s1 else s1);
                  Some (case st of
                          SubRecvClosed _ \<Rightarrow>
                            (case check_max_pending_frames s2 of
                               (Inl _, s3) \<Rightarrow> s3
                             | (Inr _, s3) \<Rightarrow> s3\<lparr>pending_frames := Close i # pending_frames s3\<rparr>)
                        | SubOpen _ \<Rightarrow>
                            (case check_max_pending_frames s2 of
                               (Inl _, s3) \<Rightarrow> s3
                             | (Inr _, s3) \<Rightarrow> s3\<lparr>pending_frames := Reset i # pending_frames s3\<rparr>)
                        | _ \<Rightarrow> s2)
                }))"

definition poll_write_stream ::
  "('r, 'e) framed \<Rightarrow> 'w \<Rightarrow> LocalStreamId \<Rightarrow> bytes \<Rightarrow> ('r, 'w, 'e) Multiplexed \<Rightarrow>
   ('e mplex_error + nat) poll \<times> ('r, 'w, 'e) Multiplexed" where
  "poll_write_stream fr w i buf s =
     (case guard_open s of
        Inl e \<Rightarrow> (Ready (Inl e), s)
      | Inr _ \<Rightarrow>
          (let frame_len = min (length buf) (split_send_size (config s));
               send = (case poll_send_frame fr w (Data i (take frame_len buf)) s of
                         (Pending, s1) \<Rightarrow> (Pending, s1)
                       | (Ready (Inl e), s1) \<Rightarrow> (Ready (Inl e), s1)
                       | (Ready (Inr _), s1) \<Rightarrow> (Ready (Inr frame_len), s1))
           in (case Mapping.lookup (substreams s) i of
                 None \<Rightarrow> (Ready (Inl BrokenPipeError), s)
               | Some (SubReset _) \<Rightarrow> (Ready (Inl BrokenPipeError), s)
               | Some (SubSendClosed _) \<Rightarrow> (Ready (Inl WriteZeroError), s)
               | Some (SubClosed _) \<Rightarrow> (Ready (Inl WriteZeroError), s)
               | Some (SubOpen _) \<Rightarrow> send
               | Some (SubRecvClosed _) \<Rightarrow> send)))"

partial_function (option) read_stream_loop ::
  "('r, 'e) framed \<Rightarrow> 'w \<Rightarrow> LocalStreamId \<Rightarrow> nat \<Rightarrow> ('r, 'w, 'e) Multiplexed \<Rightarrow>
   (('e mplex_error + bytes option) poll \<times> ('r, 'w, 'e) Multiplexed) option" where
  "read_stream_loop fr w i num_buffered s0 =
     (if num_buffered = max_buffer_len (config s0) then Some (Pending, wake_current w s0)
      else if \<not> can_read i s0 then Some (Ready (Inr None), s0)
      else
        Option.bind (poll_read_frame fr w (Some i) s0) (\<lambda>(r, s).
          case r of
            Pending \<Rightarrow> Some (Pending, s)
          | Ready (Inl e) \<Rightarrow> Some (Ready (Inl e), s)
          | Ready (Inr f) \<Rightarrow>
              (case f of
                 Data ri data \<Rightarrow>
                   if into_local ri = i then Some (Ready (Inr (Some data)), s)
                   else Option.bind (buffer_data (into_local ri) data s) (\<lambda>(b, s1).
                          case b of
                            Inl e \<Rightarrow> Some (Ready (Inl e), s1)
                          | Inr _ \<Rightarrow> read_stream_loop fr w i (num_buffered + 1) s1)
               | Open ri \<Rightarrow>
                   (case on_open (remote_id f) s of
                      (Inl e, s1) \<Rightarrow> Some (Ready (Inl e), s1)
                    | (Inr (Some j), s1) \<Rightarrow>
                        read_stream_loop fr w i num_buffered
                          (wake_next_stream (s1\<lparr>open_buffer := j # open_buffer s1\<rparr>))
                    | (Inr None, s1) \<Rightarrow> read_stream_loop fr w i num_buffered s1)
               | Close ri \<Rightarrow>
                   let s1 = on_close (into_local ri) s
                   in if i = into_local ri then Some (Ready (Inr None), s1)
                      else read_stream_loop fr w i num_buffered s1
               | Reset ri \<Rightarrow>
                   let s1 = on_reset (into_local ri) s
                   in if i = into_local ri then Some (Ready (Inr None), s1)
                      else read_stream_loop fr w i num_buffered s1)))"

definition poll_read_stream ::
  "('r, 'e) framed \<Rightarrow> 'w \<Rightarrow> LocalStreamId \<Rightarrow> ('r, 'w, 'e) Multiplexed \<Rightarrow>
   (('e mplex_error + bytes option) poll \<times> ('r, 'w, 'e) Multiplexed) option" where
  "poll_read_stream fr w i s =
     (case guard_open s of
        Inl e \<Rightarrow> Some (Ready (Inl e), s)
      | Inr _ \<Rightarrow>
          (case map_option (\<lambda>st. (st, recv_buf st)) (Mapping.lookup (substreams s) i) of
             Some (st, data # rest) \<Rightarrow>
               let s1 = (if blocking_stream s = Some i
                         then NotifierRead_wake (s\<lparr>blocking_stream := None\<rparr>) else s)
               in Some (Ready (Inr (Some data)),
                        s1\<lparr>substreams := Mapping.update i (set_recv_buf rest st) (substreams s1)\<rparr>)
           | _ \<Rightarrow> read_stream_loop fr w i 0 s))"

definition poll_flush_stream ::
  "('r, 'e) framed \<Rightarrow> 'w \<Rightarrow> LocalStreamId \<Rightarrow> ('r, 'w, 'e) Multiplexed \<Rightarrow>
   ('e mplex_error + unit) poll \<times> ('r, 'w, 'e) Multiplexed" where
  "poll_flush_stream fr w i s =
     (case guard_open s of
        Inl e \<Rightarrow> (Ready (Inl e), s)
      | Inr _ \<Rightarrow> Mplex_poll_flush fr w s)"

text \<open>
  The stream is taken out of the map and put back with its new state, unless sending fails, which
  empties the map.
\<close>

definition close_with ::
  "('r, 'e) framed \<Rightarrow> 'w \<Rightarrow> LocalStreamId \<Rightarrow> SubstreamState \<Rightarrow> SubstreamState \<Rightarrow> ('r, 'w, 'e) Multiplexed \<Rightarrow>
   ('e mplex_error + unit) poll \<times> ('r, 'w, 'e) Multiplexed" where
  "close_with fr w i before after s0 =
     (case poll_send_frame fr w (Close i) (s0\<lparr>substreams := Mapping.delete i (substreams s0)\<rparr>) of
        (Ready (Inl e), s) \<Rightarrow> (Ready (Inl e), s)
      | (Pending, s) \<Rightarrow> (Pending, s\<lparr>substreams := Mapping.update i before (substreams s)\<rparr>)
      | (Ready (Inr _), s) \<Rightarrow> (Ready (Inr ()), s\<lparr>substreams := Mapping.update i after (substreams s)\<rparr>))"

definition poll_close_stream ::
  "('r, 'e) framed \<Rightarrow> 'w \<Rightarrow> LocalStreamId \<Rightarrow> ('r, 'w, 'e) Multiplexed \<Rightarrow>
   ('e mplex_error + unit) poll \<times> ('r, 'w, 'e) Multiplexed" where
  "poll_close_stream fr w i s =
     (case guard_open s of
        Inl e \<Rightarrow> (Ready (Inl e), s)
      | Inr _ \<Rightarrow>
          (case Mapping.lookup (substreams s) i of
             Some (SubOpen buf) \<Rightarrow> close_with fr w i (SubOpen buf) (SubSendClosed buf) s
           | Some (SubRecvClosed buf) \<Rightarrow> close_with fr w i (SubRecvClosed buf) (SubClosed buf) s
           | _ \<Rightarrow> (Ready (Inr ()), s)))"

section \<open>The stream muxer\<close>

record Substream =
  sub_id :: LocalStreamId
  current_data :: bytes

definition Substream_new :: "LocalStreamId \<Rightarrow> Substream" where
  "Substream_new i = \<lparr>sub_id = i, current_data = []\<rparr>"

text \<open>\<open>read_substream\<close> into a buffer of \<open>n\<close> bytes: the result is the bytes it puts there.\<close>

partial_function (option) read_substream ::
  "('r, 'e) framed \<Rightarrow> 'w \<Rightarrow> nat \<Rightarrow> Substream \<Rightarrow> ('r, 'w, 'e) Multiplexed \<Rightarrow>
   (('e mplex_error + bytes) poll \<times> Substream \<times> ('r, 'w, 'e) Multiplexed) option" where
  "read_substream fr w n sub s =
     (if current_data sub \<noteq> []
      then let len = min (length (current_data sub)) n
           in Some (Ready (Inr (take len (current_data sub))),
                    sub\<lparr>current_data := drop len (current_data sub)\<rparr>, s)
      else
        Option.bind (poll_read_stream fr w (sub_id sub) s) (\<lambda>(r, s1).
          case r of
            Pending \<Rightarrow> Some (Pending, sub, s1)
          | Ready (Inl e) \<Rightarrow> Some (Ready (Inl e), sub, s1)
          | Ready (Inr (Some data)) \<Rightarrow> read_substream fr w n (sub\<lparr>current_data := data\<rparr>) s1
          | Ready (Inr None) \<Rightarrow> Some (Ready (Inr []), sub, s1)))"

definition Multiplex_poll_event ::
  "('r, 'e) framed \<Rightarrow> 'w \<Rightarrow> ('r, 'w, 'e) Multiplexed \<Rightarrow>
   (('e mplex_error + Substream) poll \<times> ('r, 'w, 'e) Multiplexed) option" where
  "Multiplex_poll_event fr w s =
     map_option (\<lambda>(r, s1). (case r of Pending \<Rightarrow> Pending | Ready (Inl e) \<Rightarrow> Ready (Inl e)
                             | Ready (Inr i) \<Rightarrow> Ready (Inr (Substream_new i)), s1))
       (poll_next_stream fr w s)"

definition Multiplex_poll_outbound ::
  "('r, 'e) framed \<Rightarrow> 'w \<Rightarrow> ('r, 'w, 'e) Multiplexed \<Rightarrow>
   (('e mplex_error + Substream) poll \<times> ('r, 'w, 'e) Multiplexed) option" where
  "Multiplex_poll_outbound fr w s =
     map_option (\<lambda>(r, s1). (case r of Pending \<Rightarrow> Pending | Ready (Inl e) \<Rightarrow> Ready (Inl e)
                             | Ready (Inr i) \<Rightarrow> Ready (Inr (Substream_new i)), s1))
       (poll_open_stream fr w s)"

end
