(* ===== verification/Mplex_IoSafety.thy ===== *)
theory Mplex_IoSafety
  imports Mplex_Io
begin

text \<open>
  The correctness of the multiplexer of theory Mplex_Io over any framed I/O resource.

  What the proofs look at is the core of the state: the substreams, the pending frames, the blocking
  stream, the next outbound id, and the frames the I/O resource has delivered and accepted. An
  operation is a path of steps on the core; invariants are proved for the steps, and the
  operations are proved to be such paths and not to panic.
\<close>

section \<open>The I/O resource\<close>

text \<open>
  What is relied on of the I/O resource. It has a history of the frames it delivered and one of the
  frames it accepted; only a delivery extends the first and only an accepted frame the second. It
  can deliver a number of frames without waiting, which only an external event raises. The codec
  gives an \<open>Open\<close> frame the role of a dialer (theory Mplex_Codec).
\<close>

record 'r observers =
  delivered :: "'r \<Rightarrow> RemoteStreamId Frame list"
  accepted :: "'r \<Rightarrow> LocalStreamId Frame list"
  available :: "'r \<Rightarrow> nat"

definition unobserved :: "'r observers \<Rightarrow> 'r \<Rightarrow> 'r \<Rightarrow> bool" where
  "unobserved obs r r' \<longleftrightarrow>
     delivered obs r' = delivered obs r \<and> accepted obs r' = accepted obs r \<and>
     available obs r' \<le> available obs r"

definition framed_laws :: "('r, 'e) framed \<Rightarrow> 'r observers \<Rightarrow> bool" where
  "framed_laws fr obs \<longleftrightarrow>
     (\<forall>r. unobserved obs r (snd (f_ready fr r)) \<and> unobserved obs r (snd (f_flush fr r)) \<and>
          unobserved obs r (snd (f_close fr r))) \<and>
     (\<forall>r f. case f_send fr f r of
        (Inl _, r') \<Rightarrow> unobserved obs r r'
      | (Inr _, r') \<Rightarrow> delivered obs r' = delivered obs r \<and> accepted obs r' = accepted obs r @ [f] \<and>
                       available obs r' \<le> available obs r) \<and>
     (\<forall>r. case f_next fr r of
        (Ready (Some (Inr f)), r') \<Rightarrow>
          delivered obs r' = delivered obs r @ [f] \<and> accepted obs r' = accepted obs r \<and>
          available obs r' < available obs r \<and> (\<forall>i. f = Open i \<longrightarrow> remote_role i = Dialer)
      | (_, r') \<Rightarrow> unobserved obs r r')"

section \<open>Steps of the core\<close>

record core =
  c_sub :: "(LocalStreamId, SubstreamState) mapping"
  c_pending :: "LocalStreamId Frame list"
  c_block :: "LocalStreamId option"
  c_next :: LocalStreamId
  c_in :: "RemoteStreamId Frame list"
  c_out :: "LocalStreamId Frame list"

definition core_of :: "'r observers \<Rightarrow> ('r, 'w, 'e) Multiplexed \<Rightarrow> core" where
  "core_of obs s =
     \<lparr>c_sub = substreams s, c_pending = pending_frames s, c_block = blocking_stream s,
      c_next = next_outbound s, c_in = delivered obs (io s), c_out = accepted obs (io s)\<rparr>"

definition frame_limit :: "MplexConfig \<Rightarrow> nat" where
  "frame_limit cfg = max_substreams cfg + EXTRA_PENDING_FRAMES"

fun ignored :: "core \<Rightarrow> RemoteStreamId Frame \<Rightarrow> bool" where
  "ignored c (Open ri) \<longleftrightarrow> True"
| "ignored c (Data ri d) \<longleftrightarrow> Option.bind (Mapping.lookup (c_sub c) (into_local ri)) recv_buf_open = None"
| "ignored c (Close ri) \<longleftrightarrow> Option.bind (Mapping.lookup (c_sub c) (into_local ri)) recv_buf_open = None"
| "ignored c (Reset ri) \<longleftrightarrow> Mapping.lookup (c_sub c) (into_local ri) = None"

fun recv_closed :: "SubstreamState \<Rightarrow> SubstreamState" where
  "recv_closed (SubOpen b) = SubRecvClosed b"
| "recv_closed (SubSendClosed b) = SubClosed b"
| "recv_closed st = st"

text \<open>A step may hand data to the reader of a stream.\<close>

inductive mstep ::
  "MplexConfig \<Rightarrow> core \<Rightarrow> (LocalStreamId \<times> bytes) list \<Rightarrow> core \<Rightarrow> bool"
  for cfg :: MplexConfig where
  m_clear:
    "fs = [] \<or> c_block c = None \<Longrightarrow>
     mstep cfg c [] (c\<lparr>c_sub := Mapping.empty, c_pending := [], c_in := c_in c @ fs\<rparr>)"
| m_send_pending:
    "c_pending c = fs @ [f] \<Longrightarrow> mstep cfg c [] (c\<lparr>c_pending := fs, c_out := c_out c @ [f]\<rparr>)"
| m_ignored:
    "c_block c = None \<Longrightarrow> ignored c f \<Longrightarrow> mstep cfg c [] (c\<lparr>c_in := c_in c @ [f]\<rparr>)"
| m_opened:
    "c_block c = None \<Longrightarrow> i = into_local ri \<Longrightarrow> remote_role ri = Dialer \<Longrightarrow>
     Mapping.lookup (c_sub c) i = None \<Longrightarrow> Mapping.size (c_sub c) < max_substreams cfg \<Longrightarrow>
     mstep cfg c [] (c\<lparr>c_sub := Mapping.update i (SubOpen []) (c_sub c), c_in := c_in c @ [Open ri]\<rparr>)"
| m_refused:
    "c_block c = None \<Longrightarrow> i = into_local ri \<Longrightarrow> remote_role ri = Dialer \<Longrightarrow>
     Mapping.lookup (c_sub c) i = None \<Longrightarrow> length (c_pending c) < frame_limit cfg \<Longrightarrow>
     mstep cfg c [] (c\<lparr>c_pending := Reset i # c_pending c, c_in := c_in c @ [Open ri]\<rparr>)"
| m_buffered:
    "c_block c = None \<Longrightarrow> i = into_local ri \<Longrightarrow> Mapping.lookup (c_sub c) i = Some st \<Longrightarrow>
     recv_buf_open st = Some b \<Longrightarrow> length b < max_buffer_len cfg \<Longrightarrow>
     mstep cfg c [] (c\<lparr>c_sub := Mapping.update i (set_recv_buf (b @ [d]) st) (c_sub c),
                       c_in := c_in c @ [Data ri d]\<rparr>)"
| m_blocked:
    "c_block c = None \<Longrightarrow> i = into_local ri \<Longrightarrow> Mapping.lookup (c_sub c) i = Some st \<Longrightarrow>
     recv_buf_open st = Some b \<Longrightarrow> length b \<le> max_buffer_len cfg \<Longrightarrow> max_buffer_behaviour cfg = Block \<Longrightarrow>
     mstep cfg c [] (c\<lparr>c_sub := Mapping.update i (set_recv_buf (b @ [d]) st) (c_sub c),
                       c_block := Some i, c_in := c_in c @ [Data ri d]\<rparr>)"
| m_overflow:
    "c_block c = None \<Longrightarrow> i = into_local ri \<Longrightarrow> Mapping.lookup (c_sub c) i = Some st \<Longrightarrow>
     recv_buf_open st = Some b \<Longrightarrow> length b \<le> max_buffer_len cfg \<Longrightarrow> max_buffer_behaviour cfg = ResetStream \<Longrightarrow>
     length (c_pending c) < frame_limit cfg \<Longrightarrow>
     mstep cfg c [] (c\<lparr>c_sub := Mapping.update i (SubReset (b @ [d])) (c_sub c),
                       c_pending := Reset i # c_pending c, c_in := c_in c @ [Data ri d]\<rparr>)"
| m_direct:
    "c_block c = None \<Longrightarrow> i = into_local ri \<Longrightarrow> Mapping.lookup (c_sub c) i = Some st \<Longrightarrow>
     recv_buf_open st = Some [] \<Longrightarrow>
     mstep cfg c [(i, d)] (c\<lparr>c_in := c_in c @ [Data ri d]\<rparr>)"
| m_recv_close:
    "c_block c = None \<Longrightarrow> i = into_local ri \<Longrightarrow> Mapping.lookup (c_sub c) i = Some st \<Longrightarrow>
     recv_buf_open st \<noteq> None \<Longrightarrow>
     mstep cfg c [] (c\<lparr>c_sub := Mapping.update i (recv_closed st) (c_sub c), c_in := c_in c @ [Close ri]\<rparr>)"
| m_recv_reset:
    "c_block c = None \<Longrightarrow> i = into_local ri \<Longrightarrow> Mapping.lookup (c_sub c) i = Some st \<Longrightarrow>
     mstep cfg c [] (c\<lparr>c_sub := Mapping.update i (SubReset (recv_buf st)) (c_sub c), c_in := c_in c @ [Reset ri]\<rparr>)"
| m_recv_reset_removed:
    "c_block c = None \<Longrightarrow> i = into_local ri \<Longrightarrow> Mapping.lookup (c_sub c) i = Some st \<Longrightarrow>
     recv_buf_open st = None \<Longrightarrow>
     mstep cfg c [] (c\<lparr>c_sub := Mapping.delete i (c_sub c), c_in := c_in c @ [Reset ri]\<rparr>)"
| m_read:
    "Mapping.lookup (c_sub c) i = Some st \<Longrightarrow> recv_buf st = d # rest \<Longrightarrow>
     mstep cfg c [(i, d)] (c\<lparr>c_sub := Mapping.update i (set_recv_buf rest st) (c_sub c),
                             c_block := (if c_block c = Some i then None else c_block c)\<rparr>)"
| m_open:
    "Mapping.size (c_sub c) < max_substreams cfg \<Longrightarrow> LocalStreamId_next (c_next c) = Some n \<Longrightarrow>
     mstep cfg c [] (c\<lparr>c_sub := Mapping.update (c_next c) (SubOpen []) (c_sub c), c_next := n,
                       c_out := c_out c @ [Open (c_next c)]\<rparr>)"
| m_open_failed:
    "LocalStreamId_next (c_next c) = Some n \<Longrightarrow>
     mstep cfg c [] (c\<lparr>c_sub := Mapping.empty, c_pending := [], c_next := n\<rparr>)"
| m_write:
    "Mapping.lookup (c_sub c) i = Some st \<Longrightarrow> st \<in> {SubOpen b, SubRecvClosed b} \<Longrightarrow>
     length d \<le> split_send_size cfg \<Longrightarrow>
     mstep cfg c [] (c\<lparr>c_out := c_out c @ [Data i d]\<rparr>)"
| m_close:
    "Mapping.lookup (c_sub c) i = Some st \<Longrightarrow>
     (st, st') \<in> {(SubOpen b, SubSendClosed b), (SubRecvClosed b, SubClosed b)} \<Longrightarrow>
     mstep cfg c [] (c\<lparr>c_sub := Mapping.update i st' (c_sub c), c_out := c_out c @ [Close i]\<rparr>)"
| m_drop:
    "Mapping.lookup (c_sub c) i = Some st \<Longrightarrow> (\<forall>b. st \<noteq> SubOpen b \<and> st \<noteq> SubRecvClosed b) \<Longrightarrow>
     mstep cfg c [] (c\<lparr>c_sub := Mapping.delete i (c_sub c)\<rparr>)"
| m_drop_frame:
    "Mapping.lookup (c_sub c) i = Some st \<Longrightarrow>
     (st, f) \<in> {(SubOpen b, Reset i), (SubRecvClosed b, Close i)} \<Longrightarrow>
     length (c_pending c) < frame_limit cfg \<Longrightarrow>
     mstep cfg c [] (c\<lparr>c_sub := Mapping.delete i (c_sub c), c_pending := f # c_pending c\<rparr>)"

inductive mpath ::
  "MplexConfig \<Rightarrow> core \<Rightarrow> (LocalStreamId \<times> bytes) list \<Rightarrow> core \<Rightarrow> bool"
  for cfg :: MplexConfig where
  mpath_refl: "mpath cfg c [] c"
| mpath_step: "mpath cfg c ds c' \<Longrightarrow> mstep cfg c' es c'' \<Longrightarrow> mpath cfg c (ds @ es) c''"

lemma mpath_one: "mstep cfg c ds c' \<Longrightarrow> mpath cfg c ds c'"
  using mpath_step [OF mpath_refl] by simp

lemma mpath_trans:
  assumes "mpath cfg c' es c''" "mpath cfg c ds c'"
  shows "mpath cfg c (ds @ es) c''"
  using assms
proof (induction rule: mpath.induct)
  case (mpath_step c' ds' c2 es' c3)
  then show ?case using mpath.mpath_step [of cfg c "ds @ ds'" c2 es' c3] by simp
qed simp

section \<open>Bounds\<close>

definition core_inv :: "MplexConfig \<Rightarrow> core \<Rightarrow> bool" where
  "core_inv cfg c \<longleftrightarrow>
     finite (Mapping.keys (c_sub c)) \<and> Mapping.size (c_sub c) \<le> max_substreams cfg \<and>
     length (c_pending c) \<le> frame_limit cfg \<and>
     (\<forall>i st. Mapping.lookup (c_sub c) i = Some st \<longrightarrow>
        length (recv_buf st) \<le> Suc (max_buffer_len cfg) \<and>
        (recv_buf_open st \<noteq> None \<and> max_buffer_len cfg < length (recv_buf st) \<longrightarrow> c_block c = Some i) \<and>
        (c_block c = Some i \<longrightarrow> recv_buf st \<noteq> [])) \<and>
     local_role (c_next c) = Dialer \<and>
     (\<forall>i. local_role i = Dialer \<longrightarrow> Mapping.lookup (c_sub c) i \<noteq> None \<or> c_block c = Some i \<longrightarrow>
        local_num i < local_num (c_next c))"

lemma recv_buf_set [simp]: "recv_buf (set_recv_buf b st) = b"
  by (cases st) auto

lemma recv_buf_open_set [simp]: "recv_buf_open (set_recv_buf b st) = map_option (\<lambda>_. b) (recv_buf_open st)"
  by (cases st) auto

lemma recv_buf_open_Some: "recv_buf_open st = Some b \<Longrightarrow> recv_buf st = b"
  by (cases st) auto

lemma core_invD:
  assumes "core_inv cfg c"
  shows "finite (Mapping.keys (c_sub c))" "Mapping.size (c_sub c) \<le> max_substreams cfg"
    "length (c_pending c) \<le> frame_limit cfg" "local_role (c_next c) = Dialer"
    "Mapping.lookup (c_sub c) i = Some st \<Longrightarrow> length (recv_buf st) \<le> Suc (max_buffer_len cfg)"
    "Mapping.lookup (c_sub c) i = Some st \<Longrightarrow> recv_buf_open st = Some b \<Longrightarrow>
       max_buffer_len cfg < length b \<Longrightarrow> c_block c = Some i"
    "Mapping.lookup (c_sub c) i = Some st \<Longrightarrow> c_block c = Some i \<Longrightarrow> recv_buf st \<noteq> []"
    "local_role i = Dialer \<Longrightarrow> Mapping.lookup (c_sub c) i \<noteq> None \<or> c_block c = Some i \<Longrightarrow>
       local_num i < local_num (c_next c)"
proof -
  show "Mapping.lookup (c_sub c) i = Some st \<Longrightarrow> recv_buf_open st = Some b \<Longrightarrow>
       max_buffer_len cfg < length b \<Longrightarrow> c_block c = Some i"
    using assms recv_buf_open_Some unfolding core_inv_def by (metis option.distinct(1))
qed (use assms in \<open>unfold core_inv_def, blast+\<close>)

lemma recv_closed_buf [simp]: "recv_buf (recv_closed st) = recv_buf st" "recv_buf_open (recv_closed st) = None"
  by (cases st; simp)+

lemma next_id_greater:
  assumes "LocalStreamId_next i = Some n"
  shows "local_num i < local_num n" "local_role n = local_role i"
proof -
  have n: "n = i\<lparr>local_num := local_num i + 1\<rparr>" "local_num i \<noteq> - 1"
    using assms by (auto simp: LocalStreamId_next_def split: if_splits)
  then have "1 + local_num i \<noteq> 0" by (metis add.commute add_eq_0_iff)
  then have "unat (1 + local_num i) = Suc (unat (local_num i))" by (rule unatSuc)
  then show "local_num i < local_num n" using n(1) by (simp add: word_less_nat_alt add.commute)
qed (use assms in \<open>auto simp: LocalStreamId_next_def split: if_splits\<close>)

lemma next_id_number:
  "LocalStreamId_next i = Some n \<Longrightarrow> unat (local_num n) \<le> Suc (unat (local_num i))"
  by (auto simp: LocalStreamId_next_def unat_word_ariths split: if_splits)

lemma mapping_size_update:
  "finite (Mapping.keys m) \<Longrightarrow>
   Mapping.size (Mapping.update i v m) = (if Mapping.lookup m i = None then Suc (Mapping.size m) else Mapping.size m)"
  by (auto simp: Mapping.size_def in_keys_lookup insert_absorb)

lemma mapping_size_delete:
  "finite (Mapping.keys m) \<Longrightarrow>
   Mapping.size (Mapping.delete i m) = (if Mapping.lookup m i = None then Mapping.size m else Mapping.size m - 1)"
  by (auto simp: Mapping.size_def in_keys_lookup)

lemma core_inv_update:
  assumes inv: "core_inv cfg c" and old: "Mapping.lookup (c_sub c) i = Some st"
    and buf: "length (recv_buf st') \<le> Suc (max_buffer_len cfg)"
      "recv_buf_open st' \<noteq> None \<and> max_buffer_len cfg < length (recv_buf st') \<longrightarrow> k = Some i"
      "k = Some i \<longrightarrow> recv_buf st' \<noteq> []"
    and k: "k = c_block c \<or> k = Some i \<and> c_block c = None \<or> k = None \<and> c_block c = Some i"
    and c': "c_sub c' = Mapping.update i st' (c_sub c)" "c_block c' = k" "c_next c' = c_next c"
      "length (c_pending c') \<le> frame_limit cfg"
  shows "core_inv cfg c'"
proof -
  have "finite (Mapping.keys (Mapping.update i st' (c_sub c)))" using core_invD(1) [OF inv] by simp
  moreover have "Mapping.size (Mapping.update i st' (c_sub c)) \<le> max_substreams cfg"
    using core_invD(1,2) [OF inv] old by (simp add: mapping_size_update)
  moreover have "length (recv_buf t) \<le> Suc (max_buffer_len cfg) \<and>
      (recv_buf_open t \<noteq> None \<and> max_buffer_len cfg < length (recv_buf t) \<longrightarrow> k = Some j) \<and>
      (k = Some j \<longrightarrow> recv_buf t \<noteq> [])"
    if "Mapping.lookup (Mapping.update i st' (c_sub c)) j = Some t" for j t
  proof (cases "j = i")
    case True
    then show ?thesis using buf that by simp
  next
    case False
    then have "Mapping.lookup (c_sub c) j = Some t" using that by (simp add: Mapping.lookup_update')
    then have "length (recv_buf t) \<le> Suc (max_buffer_len cfg)"
      "recv_buf_open t \<noteq> None \<and> max_buffer_len cfg < length (recv_buf t) \<longrightarrow> c_block c = Some j"
      "c_block c = Some j \<longrightarrow> recv_buf t \<noteq> []"
      using inv unfolding core_inv_def by blast+
    then show ?thesis using k False by auto
  qed
  moreover have "local_num j < local_num (c_next c)"
    if "local_role j = Dialer" "Mapping.lookup (Mapping.update i st' (c_sub c)) j \<noteq> None \<or> k = Some j" for j
    using core_invD(8) [OF inv that(1)] that(2) old k by (auto simp: Mapping.lookup_update' split: if_splits)
  ultimately show ?thesis
    using c' core_invD(4) [OF inv] by (simp add: core_inv_def)
qed

lemma core_inv_delete:
  assumes inv: "core_inv cfg c"
    and c': "c_sub c' = Mapping.delete i (c_sub c)" "c_block c' = c_block c" "c_next c' = c_next c"
      "length (c_pending c') \<le> frame_limit cfg"
  shows "core_inv cfg c'"
  using inv c' unfolding core_inv_def
  by (auto simp: lookup_delete_if mapping_size_delete split: if_splits)

lemma core_inv_insert:
  assumes inv: "core_inv cfg c" and size: "Mapping.size (c_sub c) < max_substreams cfg"
    and i: "c_block c \<noteq> Some i" "local_role i = Dialer \<longrightarrow> local_num i < local_num n"
    and n: "local_role n = Dialer" "local_num (c_next c) \<le> local_num n"
    and c': "c_sub c' = Mapping.update i (SubOpen []) (c_sub c)" "c_next c' = n" "c_block c' = c_block c"
      "c_pending c' = c_pending c"
  shows "core_inv cfg c'"
proof -
  have "local_num j < local_num n"
    if "local_role j = Dialer" "Mapping.lookup (c_sub c) j \<noteq> None \<or> c_block c = Some j" for j
    using core_invD(8) [OF inv that] n(2) by simp
  then show ?thesis
    using inv size i n(1) c' unfolding core_inv_def
    by (auto simp: Mapping.lookup_update' mapping_size_update split: if_splits)
qed

lemma mstep_inv:
  assumes "mstep cfg c ds c'" and inv: "core_inv cfg c"
  shows "core_inv cfg c'"
  using assms(1)
proof cases
  case (m_clear fs)
  then show ?thesis using inv by (auto simp: core_inv_def)
next
  case (m_send_pending fs f)
  then show ?thesis using inv by (auto simp: core_inv_def)
next
  case (m_ignored f)
  then show ?thesis using inv by (auto simp: core_inv_def)
next
  case (m_opened i ri)
  then show ?thesis
    using core_invD(4) [OF inv] by (intro core_inv_insert [OF inv m_opened(7)]) (auto simp: into_local_def)
next
  case (m_refused i ri)
  then show ?thesis using inv by (auto simp: core_inv_def)
next
  case (m_buffered i ri st b d)
  then show ?thesis
    using core_invD(3) [OF inv]
    by (intro core_inv_update [OF inv m_buffered(5), of "set_recv_buf (b @ [d]) st" "c_block c"])
      (auto simp: recv_buf_open_Some)
next
  case (m_blocked i ri st b d)
  then show ?thesis
    using core_invD(3) [OF inv]
    by (intro core_inv_update [OF inv m_blocked(5), of "set_recv_buf (b @ [d]) st" "Some i"])
      (auto simp: recv_buf_open_Some)
next
  case (m_overflow i ri st b d)
  then show ?thesis
    by (intro core_inv_update [OF inv m_overflow(5), of "SubReset (b @ [d])" "c_block c"]) auto
next
  case (m_direct i ri st d)
  then show ?thesis using inv by (auto simp: core_inv_def)
next
  case (m_recv_close i ri st)
  then show ?thesis
    using core_invD(3) [OF inv] core_invD(5) [OF inv m_recv_close(5)]
    by (intro core_inv_update [OF inv m_recv_close(5), of "recv_closed st" "c_block c"]) auto
next
  case (m_recv_reset i ri st)
  then show ?thesis
    using core_invD(3) [OF inv] core_invD(5) [OF inv m_recv_reset(5)]
    by (intro core_inv_update [OF inv m_recv_reset(5), of "SubReset (recv_buf st)" "c_block c"]) auto
next
  case (m_recv_reset_removed i ri st)
  then show ?thesis
    using core_invD(3) [OF inv] by (intro core_inv_delete [OF inv, of _ i]) auto
next
  case (m_read i st d rest)
  then show ?thesis
    using core_invD(3) [OF inv] core_invD(5) [OF inv m_read(3)] core_invD(6) [OF inv m_read(3)]
    by (intro core_inv_update [OF inv m_read(3), of "set_recv_buf rest st"
          "if c_block c = Some i then None else c_block c"])
      (auto simp: recv_buf_open_Some)
next
  case (m_open n)
  then show ?thesis
    using core_invD(4) [OF inv] core_invD(8) [OF inv core_invD(4) [OF inv]] next_id_greater [OF m_open(4)]
    by (intro core_inv_insert [OF inv m_open(3), of "c_next c" n]) auto
next
  case (m_open_failed n)
  then show ?thesis
    using inv next_id_greater [OF m_open_failed(3)] by (auto simp: core_inv_def)
next
  case (m_write i st b d)
  then show ?thesis using inv by (auto simp: core_inv_def)
next
  case (m_close i st st' b)
  then show ?thesis
    using core_invD(3) [OF inv] core_invD(5-7) [OF inv m_close(3)]
    by (intro core_inv_update [OF inv m_close(3), of st' "c_block c"]) auto
next
  case (m_drop i st)
  then show ?thesis using core_invD(3) [OF inv] by (intro core_inv_delete [OF inv, of _ i]) auto
next
  case (m_drop_frame i st f b)
  then show ?thesis by (intro core_inv_delete [OF inv, of _ i]) auto
qed

lemma mpath_inv: "mpath cfg c ds c' \<Longrightarrow> core_inv cfg c \<Longrightarrow> core_inv cfg c'"
  by (induction rule: mpath.induct) (auto dest: mstep_inv)

section \<open>Operations are paths\<close>

text \<open>The registries of wakers are not part of the core.\<close>

lemmas waker_defs = register_read_stream_def register_next_stream_def wake_read_stream_def
  wake_next_stream_def NotifierRead_wake_def NotifierWrite_register_def NotifierWrite_wake_def
  NotifierOpen_register_def NotifierOpen_wake_all_def wake_current_def

definition same_but_wakers :: "('r, 'w, 'e) Multiplexed \<Rightarrow> ('r, 'w, 'e) Multiplexed \<Rightarrow> bool" where
  "same_but_wakers s s' \<longleftrightarrow>
     status s' = status s \<and> io s' = io s \<and> config s' = config s \<and> open_buffer s' = open_buffer s \<and>
     pending_flush_open s' = pending_flush_open s \<and> blocking_stream s' = blocking_stream s \<and>
     pending_frames s' = pending_frames s \<and> substreams s' = substreams s \<and>
     next_outbound s' = next_outbound s"

lemma waker_ops:
  "same_but_wakers s (register_read_stream w i s)" "same_but_wakers s (register_next_stream w s)"
  "same_but_wakers s (snd (wake_read_stream i s))" "same_but_wakers s (wake_next_stream s)"
  "same_but_wakers s (NotifierRead_wake s)" "same_but_wakers s (NotifierWrite_register w s)"
  "same_but_wakers s (NotifierWrite_wake s)" "same_but_wakers s (NotifierOpen_register w s)"
  "same_but_wakers s (NotifierOpen_wake_all s)" "same_but_wakers s (wake_current w s)"
  by (simp_all add: same_but_wakers_def waker_defs split: option.splits)

lemma same_but_wakersD:
  assumes "same_but_wakers s s'"
  shows "status s' = status s" "io s' = io s" "config s' = config s" "open_buffer s' = open_buffer s"
    "pending_flush_open s' = pending_flush_open s" "blocking_stream s' = blocking_stream s"
    "pending_frames s' = pending_frames s" "substreams s' = substreams s" "next_outbound s' = next_outbound s"
  using assms by (simp_all add: same_but_wakers_def)

lemmas waker_simps [simp] = waker_ops [THEN same_but_wakersD(1)] waker_ops [THEN same_but_wakersD(2)]
  waker_ops [THEN same_but_wakersD(3)] waker_ops [THEN same_but_wakersD(4)]
  waker_ops [THEN same_but_wakersD(5)] waker_ops [THEN same_but_wakersD(6)]
  waker_ops [THEN same_but_wakersD(7)] waker_ops [THEN same_but_wakersD(8)]
  waker_ops [THEN same_but_wakersD(9)]

definition steady :: "'r observers \<Rightarrow> ('r, 'w, 'e) Multiplexed \<Rightarrow> ('r, 'w, 'e) Multiplexed \<Rightarrow> bool" where
  "steady obs s s' \<longleftrightarrow>
     config s' = config s \<and> next_outbound s' = next_outbound s \<and>
     available obs (io s') \<le> available obs (io s)"

lemma steady_refl: "steady obs s s"
  by (simp add: steady_def)

lemma steady_trans: "steady obs s s' \<Longrightarrow> steady obs s' s'' \<Longrightarrow> steady obs s s''"
  by (auto simp: steady_def)

lemma framed_lawsD:
  assumes "framed_laws fr obs"
  shows "f_ready fr r = (x, r') \<Longrightarrow> unobserved obs r r'" "f_flush fr r = (x, r') \<Longrightarrow> unobserved obs r r'"
    "f_close fr r = (x, r') \<Longrightarrow> unobserved obs r r'"
    "f_send fr f r = (Inl e, r') \<Longrightarrow> unobserved obs r r'"
    "f_send fr f r = (Inr u, r') \<Longrightarrow> delivered obs r' = delivered obs r \<and>
       accepted obs r' = accepted obs r @ [f] \<and> available obs r' \<le> available obs r"
    "f_next fr r = (Ready (Some (Inr g)), r') \<Longrightarrow> delivered obs r' = delivered obs r @ [g] \<and>
       accepted obs r' = accepted obs r \<and> available obs r' < available obs r \<and>
       (\<forall>i. g = Open i \<longrightarrow> remote_role i = Dialer)"
    "f_next fr r = (Pending, r') \<Longrightarrow> unobserved obs r r'"
    "f_next fr r = (Ready None, r') \<Longrightarrow> unobserved obs r r'"
    "f_next fr r = (Ready (Some (Inl e)), r') \<Longrightarrow> unobserved obs r r'"
proof -
  show "f_ready fr r = (x, r') \<Longrightarrow> unobserved obs r r'" "f_flush fr r = (x, r') \<Longrightarrow> unobserved obs r r'"
    "f_close fr r = (x, r') \<Longrightarrow> unobserved obs r r'"
    using assms unfolding framed_laws_def by (metis snd_conv)+
  have send: "case f_send fr f r of
        (Inl _, r') \<Rightarrow> unobserved obs r r'
      | (Inr _, r') \<Rightarrow> delivered obs r' = delivered obs r \<and> accepted obs r' = accepted obs r @ [f] \<and>
                       available obs r' \<le> available obs r"
    by (rule assms [unfolded framed_laws_def, THEN conjunct2, THEN conjunct1, THEN spec, THEN spec])
  then show "f_send fr f r = (Inl e, r') \<Longrightarrow> unobserved obs r r'"
    "f_send fr f r = (Inr u, r') \<Longrightarrow> delivered obs r' = delivered obs r \<and>
       accepted obs r' = accepted obs r @ [f] \<and> available obs r' \<le> available obs r" by auto
  have "case f_next fr r of
        (Ready (Some (Inr f)), r') \<Rightarrow>
          delivered obs r' = delivered obs r @ [f] \<and> accepted obs r' = accepted obs r \<and>
          available obs r' < available obs r \<and> (\<forall>i. f = Open i \<longrightarrow> remote_role i = Dialer)
      | (_, r') \<Rightarrow> unobserved obs r r'"
    by (rule assms [unfolded framed_laws_def, THEN conjunct2, THEN conjunct2, THEN spec])
  then show "f_next fr r = (Ready (Some (Inr g)), r') \<Longrightarrow> delivered obs r' = delivered obs r @ [g] \<and>
       accepted obs r' = accepted obs r \<and> available obs r' < available obs r \<and>
       (\<forall>i. g = Open i \<longrightarrow> remote_role i = Dialer)"
    "f_next fr r = (Pending, r') \<Longrightarrow> unobserved obs r r'"
    "f_next fr r = (Ready None, r') \<Longrightarrow> unobserved obs r r'"
    "f_next fr r = (Ready (Some (Inl e)), r') \<Longrightarrow> unobserved obs r r'" by auto
qed

lemma core_of_calm:
  assumes "unobserved obs (io s) r"
  shows "core_of obs (s\<lparr>io := r\<rparr>) = core_of obs s" "steady obs s (s\<lparr>io := r\<rparr>)"
  using assms by (simp_all add: core_of_def unobserved_def steady_def)

lemma core_of_wakers:
  "same_but_wakers s s' \<Longrightarrow> core_of obs s' = core_of obs s" "same_but_wakers s s' \<Longrightarrow> steady obs s s'"
  by (simp_all add: core_of_def same_but_wakers_def steady_def)

lemma core_of_error: "core_of obs (on_error e s) = (core_of obs s)\<lparr>c_sub := Mapping.empty, c_pending := []\<rparr>"
  by (simp add: core_of_def on_error_def)

lemma on_error_simps [simp]:
  "config (on_error e s) = config s" "io (on_error e s) = io s" "status (on_error e s) = StatusErr e"
  "next_outbound (on_error e s) = next_outbound s"
  by (simp_all add: on_error_def)

lemma clear_path: "mpath cfg c [] (c\<lparr>c_sub := Mapping.empty, c_pending := []\<rparr>)"
  using mpath_one [OF m_clear [of "[]" c cfg]] by simp

lemma poll_send_frame_core:
  assumes laws: "framed_laws fr obs" and step: "poll_send_frame fr w f s = (r, s')"
  shows "steady obs s s'"
    and "case r of
      Pending \<Rightarrow> core_of obs s' = core_of obs s \<and> status s' = status s
    | Ready (Inl e) \<Rightarrow> core_of obs s' = (core_of obs s)\<lparr>c_sub := Mapping.empty, c_pending := []\<rparr>
    | Ready (Inr _) \<Rightarrow> core_of obs s' = (core_of obs s)\<lparr>c_out := c_out (core_of obs s) @ [f]\<rparr> \<and> status s' = status s"
  using step framed_lawsD(1) [OF laws, of "io s"] framed_lawsD(4,5) [OF laws, of f]
  by (auto simp: poll_send_frame_def Let_def core_of_def steady_def unobserved_def on_error_def
      split: poll.splits sum.splits prod.splits) (force)+

text \<open>A failed operation has emptied the maps; any other has at most sent pending frames.\<close>

definition only_sent :: "'r observers \<Rightarrow> ('r, 'w, 'e) Multiplexed \<Rightarrow> ('r, 'w, 'e) Multiplexed \<Rightarrow> bool" where
  "only_sent obs s s' \<longleftrightarrow>
     (\<exists>fs outs. core_of obs s' = (core_of obs s)\<lparr>c_pending := fs, c_out := outs\<rparr>) \<and> status s' = status s"

lemma only_sent_refl: "core_of obs s' = core_of obs s \<Longrightarrow> status s' = status s \<Longrightarrow> only_sent obs s s'"
  unfolding only_sent_def by (rule conjI, rule exI [of _ "c_pending (core_of obs s)"],
      rule exI [of _ "c_out (core_of obs s)"]) simp_all

lemma only_sent_trans: "only_sent obs s s' \<Longrightarrow> only_sent obs s' s'' \<Longrightarrow> only_sent obs s s''"
  unfolding only_sent_def by force

lemma send_pending_frames_path:
  assumes laws: "framed_laws fr obs" and "send_pending_frames fr w s = (r, s')"
  shows "mpath cfg (core_of obs s) [] (core_of obs s') \<and> steady obs s s' \<and>
    ((\<exists>e. r = Ready (Inl e)) \<or> only_sent obs s s')"
  using assms
proof (induction fr w s arbitrary: r s' rule: send_pending_frames.induct)
  case (1 fr w s)
  show ?case
  proof (cases "pending_frames s = []")
    case True
    then show ?thesis
      using "1.prems"(2) by (subst (asm) send_pending_frames.simps) (auto simp: mpath_refl steady_refl intro: only_sent_refl)
  next
    case False
    let ?f = "last (pending_frames s)" and ?s0 = "s\<lparr>pending_frames := butlast (pending_frames s)\<rparr>"
    obtain r1 s1 where send: "poll_send_frame fr w ?f ?s0 = (r1, s1)" by force
    note eff = poll_send_frame_core [OF "1.prems"(1) send]
    have s0: "core_of obs ?s0 = (core_of obs s)\<lparr>c_pending := butlast (pending_frames s)\<rparr>"
      "c_pending (core_of obs s) = butlast (pending_frames s) @ [?f]" "status ?s0 = status s"
      using False by (simp_all add: core_of_def)
    have steady: "steady obs s s1" using eff(1) by (simp add: steady_def)
    have rec: "(r, s') = (case r1 of
        Pending \<Rightarrow> (Pending, s1\<lparr>pending_frames := pending_frames s1 @ [?f]\<rparr>)
      | Ready (Inl e) \<Rightarrow> (Ready (Inl e), s1)
      | Ready (Inr _) \<Rightarrow> send_pending_frames fr w s1)"
      using "1.prems"(2) False send by (subst (asm) send_pending_frames.simps) (simp add: Let_def split: poll.splits sum.splits)
    show ?thesis
    proof (cases r1)
      case Pending
      then have s1: "core_of obs s1 = (core_of obs s)\<lparr>c_pending := butlast (pending_frames s)\<rparr>" "status s1 = status s"
        using eff(2) s0 by simp_all
      have s': "s' = s1\<lparr>pending_frames := pending_frames s1 @ [?f]\<rparr>" using rec Pending by simp
      have "core_of obs s' = (core_of obs s1)\<lparr>c_pending := c_pending (core_of obs s1) @ [?f]\<rparr>"
        by (simp add: s' core_of_def)
      also have "\<dots> = core_of obs s" using s1(1) s0(2) by (cases "core_of obs s") simp
      finally have "core_of obs s' = core_of obs s" .
      moreover have "status s' = status s" "steady obs s s'" using s1(2) steady by (simp_all add: s' steady_def)
      ultimately show ?thesis by (simp add: mpath_refl only_sent_refl)
    next
      case (Ready x)
      show ?thesis
      proof (cases x)
        case (Inl e)
        then have "core_of obs s1 = (core_of obs s)\<lparr>c_sub := Mapping.empty, c_pending := []\<rparr>"
          using eff(2) s0(1) Ready by simp
        then show ?thesis using rec Ready Inl steady clear_path by simp
      next
        case (Inr u)
        then have s1: "core_of obs s1 = (core_of obs s)\<lparr>c_pending := butlast (pending_frames s),
            c_out := c_out (core_of obs s) @ [?f]\<rparr>" "status s1 = status s"
          using eff(2) s0 Ready by simp_all
        then have step: "mpath cfg (core_of obs s) [] (core_of obs s1)"
          using mpath_one [OF m_send_pending [OF s0(2)]] by simp
        have "only_sent obs s s1" using s1 unfolding only_sent_def by blast
        moreover have "(r, s') = send_pending_frames fr w s1" using rec Ready Inr by simp
        then have "mpath cfg (core_of obs s1) [] (core_of obs s') \<and> steady obs s1 s' \<and>
            ((\<exists>e. r = Ready (Inl e)) \<or> only_sent obs s1 s')"
          using "1.IH" [OF False refl refl send [symmetric] Ready Inr "1.prems"(1), of r s'] by simp
        ultimately show ?thesis
          using steady mpath_trans [OF _ step] steady_trans only_sent_trans by fastforce
      qed
    qed
  qed
qed


lemma poll_flush_path:
  assumes laws: "framed_laws fr obs" and flush: "Mplex_poll_flush fr w s = (r, s')"
  shows "mpath cfg (core_of obs s) [] (core_of obs s') \<and> steady obs s s' \<and>
    ((\<exists>e. r = Ready (Inl e)) \<or> only_sent obs s s')"
proof (cases "status s")
  case StatusOpen
  obtain r1 s1 where send: "send_pending_frames fr w s = (r1, s1)" by force
  note path = send_pending_frames_path [OF laws send, of cfg]
  show ?thesis
  proof (cases "\<exists>u. r1 = Ready (Inr u)")
    case True
    let ?s2 = "NotifierWrite_register w s1"
    obtain x r2 where fl: "f_flush fr (io ?s2) = (x, r2)" by force
    have un: "unobserved obs (io s1) r2" using framed_lawsD(2) [OF laws fl] by simp
    have steady: "steady obs s1 (?s2\<lparr>io := r2\<rparr>)" and core: "core_of obs (?s2\<lparr>io := r2\<rparr>) = core_of obs s1"
      using un by (simp_all add: steady_def core_of_def unobserved_def)
    have sent: "only_sent obs s s1" using True path by auto
    have s': "(r, s') = (case x of
        Pending \<Rightarrow> (Pending, ?s2\<lparr>io := r2\<rparr>)
      | Ready (Inl e) \<Rightarrow> (Ready (Inl (IoError e)), on_error (IoError e) (?s2\<lparr>io := r2\<rparr>))
      | Ready (Inr _) \<Rightarrow> (Ready (Inr ()), ?s2\<lparr>io := r2, pending_flush_open := {}\<rparr>))"
      using flush StatusOpen send True fl
      by (auto simp: Mplex_poll_flush_def Let_def split: poll.splits sum.splits)
    have "only_sent obs s1 (?s2\<lparr>io := r2\<rparr>)" "only_sent obs s1 (?s2\<lparr>io := r2, pending_flush_open := {}\<rparr>)"
      using core by (auto intro!: only_sent_refl simp: core_of_def)
    moreover have "mpath cfg (core_of obs s1) [] (core_of obs (on_error (IoError e) (?s2\<lparr>io := r2\<rparr>)))" for e
      using clear_path by (simp add: core_of_error core)
    ultimately show ?thesis
      using s' core steady path sent mpath_trans [of cfg "core_of obs s1" "[]" _ "core_of obs s" "[]"]
      by (auto simp: steady_def core_of_def split: poll.splits sum.splits intro: only_sent_trans)
  next
    case False
    then show ?thesis
      using flush StatusOpen send path by (auto simp: Mplex_poll_flush_def split: poll.splits sum.splits)
  qed
qed (use flush in \<open>auto simp: Mplex_poll_flush_def mpath_refl steady_refl intro: only_sent_refl\<close>)

lemma poll_close_path:
  assumes laws: "framed_laws fr obs" and close: "Mplex_poll_close fr w s = (r, s')"
  shows "mpath cfg (core_of obs s) [] (core_of obs s') \<and> steady obs s s'"
proof (cases "status s")
  case StatusOpen
  let ?s1 = "NotifierWrite_register w s"
  obtain x r2 where fl: "f_close fr (io ?s1) = (x, r2)" by force
  have un: "unobserved obs (io s) r2" using framed_lawsD(3) [OF laws fl] by simp
  have s': "s' = (case x of
      Pending \<Rightarrow> ?s1\<lparr>io := r2\<rparr>
    | Ready (Inl e) \<Rightarrow> on_error (IoError e) (?s1\<lparr>io := r2\<rparr>)
    | Ready (Inr _) \<Rightarrow> ?s1\<lparr>io := r2, pending_frames := [], open_buffer := [], substreams := Mapping.empty,
        status := StatusClosed\<rparr>)"
    using close StatusOpen fl by (auto simp: Mplex_poll_close_def Let_def split: poll.splits sum.splits)
  have "core_of obs s' \<in> {core_of obs s, (core_of obs s)\<lparr>c_sub := Mapping.empty, c_pending := []\<rparr>}"
    "steady obs s s'"
    using un by (auto simp: s' core_of_def on_error_def steady_def unobserved_def split: poll.splits sum.splits)
  then show ?thesis using clear_path mpath_refl by auto
qed (use close in \<open>auto simp: Mplex_poll_close_def mpath_refl steady_refl\<close>)


definition frame_read ::
  "'r observers \<Rightarrow> MplexConfig \<Rightarrow> ('r, 'w, 'e) Multiplexed \<Rightarrow> RemoteStreamId Frame \<Rightarrow> ('r, 'w, 'e) Multiplexed \<Rightarrow> bool" where
  "frame_read obs cfg s f s' \<longleftrightarrow>
     (\<exists>c fs outs. mpath cfg (core_of obs s) [] c \<and> c = (core_of obs s)\<lparr>c_pending := fs, c_out := outs\<rparr> \<and>
        core_of obs s' = c\<lparr>c_in := c_in c @ [f]\<rparr> \<and> c_block c = None) \<and>
     status s' = status s \<and> available obs (io s') < available obs (io s) \<and>
     (\<forall>i. f = Open i \<longrightarrow> remote_role i = Dialer)"

definition read_result ::
  "'r observers \<Rightarrow> MplexConfig \<Rightarrow> ('r, 'w, 'e) Multiplexed \<Rightarrow>
   ('e mplex_error + RemoteStreamId Frame) poll \<Rightarrow> ('r, 'w, 'e) Multiplexed \<Rightarrow> bool" where
  "read_result obs cfg s r s' \<longleftrightarrow>
     steady obs s s' \<and>
     (case r of
        Ready (Inr f) \<Rightarrow> frame_read obs cfg s f s'
      | Ready (Inl e) \<Rightarrow> mpath cfg (core_of obs s) [] (core_of obs s')
      | Pending \<Rightarrow> mpath cfg (core_of obs s) [] (core_of obs s') \<and> only_sent obs s s')"

lemma core_fields:
  "c_sub (core_of obs s) = substreams s" "c_pending (core_of obs s) = pending_frames s"
  "c_block (core_of obs s) = blocking_stream s" "c_next (core_of obs s) = next_outbound s"
  "c_in (core_of obs s) = delivered obs (io s)" "c_out (core_of obs s) = accepted obs (io s)"
  by (simp_all add: core_of_def)

lemma read_frame_unblocked_result:
  assumes laws: "framed_laws fr obs" and free: "\<forall>i. interest = Some i \<longrightarrow> blocking_stream s \<noteq> Some i"
  shows "\<exists>r s'. read_frame_unblocked fr w interest s = Some (r, s') \<and> read_result obs cfg s r s'"
proof (cases "blocking_stream s")
  case (Some b)
  obtain u s1 where wake: "wake_read_stream b s = (u, s1)" by force
  then have same: "same_but_wakers s s1" using waker_ops(3) [of s b] by simp
  have "same_but_wakers s (wake_current w s1)" "same_but_wakers s (register_next_stream w s1)"
    "same_but_wakers s (register_read_stream w i s1)" for i
    using same by (simp_all add: same_but_wakers_def)
  then have "read_result obs cfg s Pending s'"
    if "s' \<in> {wake_current w s1, register_next_stream w s1} \<union> range (\<lambda>i. register_read_stream w i s1)" for s'
    using that core_of_wakers [of s s' obs]
    by (auto simp: read_result_def same_but_wakers_def mpath_refl intro!: only_sent_refl)
  then show ?thesis
    using Some wake free by (auto simp: read_frame_unblocked_def split: option.splits)
next
  case None
  define s1 where "s1 = (case interest of Some i \<Rightarrow> register_read_stream w i s | None \<Rightarrow> register_next_stream w s)"
  have same: "same_but_wakers s s1" by (auto simp: s1_def waker_ops split: option.splits)
  obtain x r where nx: "f_next fr (io s1) = (x, r)" by force
  then have run: "read_frame_unblocked fr w interest s = Some (case x of
      Pending \<Rightarrow> (Pending, s1\<lparr>io := r\<rparr>)
    | Ready (Some (Inr f)) \<Rightarrow> (Ready (Inr f), s1\<lparr>io := r\<rparr>)
    | Ready (Some (Inl e)) \<Rightarrow> (Ready (Inl (IoError e)), on_error (IoError e) (s1\<lparr>io := r\<rparr>))
    | Ready None \<Rightarrow> (Ready (Inl UnexpectedEofError), on_error UnexpectedEofError (s1\<lparr>io := r\<rparr>)))"
    using None by (simp add: read_frame_unblocked_def s1_def Let_def split: poll.splits option.splits sum.splits)
  have io: "io s1 = io s" using same by (simp add: same_but_wakers_def)
  show ?thesis
  proof (cases "\<exists>f. x = Ready (Some (Inr f))")
    case True
    then obtain f where f: "x = Ready (Some (Inr f))" by blast
    have "frame_read obs cfg s f (s1\<lparr>io := r\<rparr>)"
      using framed_lawsD(6) [OF laws nx [unfolded f]] same None mpath_refl
      unfolding frame_read_def
      by (intro conjI exI [of _ "core_of obs s"] exI [of _ "pending_frames s"] exI [of _ "accepted obs (io s)"])
        (auto simp: core_of_def same_but_wakers_def)
    moreover have "steady obs s (s1\<lparr>io := r\<rparr>)"
      using framed_lawsD(6) [OF laws nx [unfolded f]] same by (simp add: steady_def same_but_wakers_def)
    ultimately show ?thesis using run f by (simp add: read_result_def)
  next
    case False
    then have un: "unobserved obs (io s1) r"
      using framed_lawsD(7-9) [OF laws] nx by (metis sum.exhaust option.exhaust poll.exhaust)
    have core: "core_of obs (s1\<lparr>io := r\<rparr>) = core_of obs s" "steady obs s (s1\<lparr>io := r\<rparr>)"
      using un same by (auto simp: core_of_def same_but_wakers_def unobserved_def steady_def)
    have "mpath cfg (core_of obs s) [] (core_of obs (on_error e (s1\<lparr>io := r\<rparr>)))" for e
      using clear_path by (simp add: core_of_error core(1))
    then have failed: "read_result obs cfg s (Ready (Inl e')) (on_error e (s1\<lparr>io := r\<rparr>))" for e e'
      using core(2) by (simp add: read_result_def steady_def)
    have "read_result obs cfg s Pending (s1\<lparr>io := r\<rparr>)"
      using core same by (auto simp: read_result_def mpath_refl same_but_wakers_def intro!: only_sent_refl)
    then show ?thesis
      using run failed False by (cases x) (auto split: option.splits sum.splits)
  qed
qed

lemma only_sentD:
  assumes "only_sent obs s s'"
  shows "substreams s' = substreams s" "blocking_stream s' = blocking_stream s" "status s' = status s"
    "next_outbound s' = next_outbound s" "delivered obs (io s') = delivered obs (io s)"
  using assms by (auto simp: only_sent_def core_of_def)

lemma read_result_after:
  assumes sent: "only_sent obs s s1" and path: "mpath cfg (core_of obs s) [] (core_of obs s1)"
    and steady: "steady obs s s1" and res: "read_result obs cfg s1 r s'"
  shows "read_result obs cfg s r s'"
proof -
  have st: "steady obs s s'" using steady res steady_trans by (auto simp: read_result_def)
  show ?thesis
  proof (cases "\<exists>f. r = Ready (Inr f)")
    case True
    then obtain f where f: "r = Ready (Inr f)" by blast
    then obtain c fs outs where c: "mpath cfg (core_of obs s1) [] c"
      "c = (core_of obs s1)\<lparr>c_pending := fs, c_out := outs\<rparr>" "core_of obs s' = c\<lparr>c_in := c_in c @ [f]\<rparr>"
      "c_block c = None" "status s' = status s1" "available obs (io s') < available obs (io s1)"
      "\<forall>i. f = Open i \<longrightarrow> remote_role i = Dialer"
      using res by (auto simp: read_result_def frame_read_def)
    have "mpath cfg (core_of obs s) [] c" using mpath_trans [OF c(1) path] by simp
    moreover have "c = (core_of obs s)\<lparr>c_pending := fs, c_out := outs\<rparr>"
      using sent c(2) by (auto simp: only_sent_def)
    moreover have "available obs (io s') < available obs (io s)" using c(6) steady by (simp add: steady_def)
    moreover have "status s' = status s" using c(5) sent by (simp add: only_sent_def)
    ultimately have "frame_read obs cfg s f s'"
      unfolding frame_read_def using c(3,4,7) by (intro conjI exI [of _ c] exI [of _ fs] exI [of _ outs]) auto
    then show ?thesis using st f by (simp add: read_result_def)
  next
    case False
    then show ?thesis
      using res st sent mpath_trans [OF _ path] only_sent_trans
      by (auto simp: read_result_def split: poll.splits sum.splits)
  qed
qed

lemma poll_read_frame_result:
  assumes laws: "framed_laws fr obs" and free: "\<forall>i. interest = Some i \<longrightarrow> blocking_stream s \<noteq> Some i"
  shows "\<exists>r s'. poll_read_frame fr w interest s = Some (r, s') \<and> read_result obs cfg s r s'"
proof -
  obtain r1 s1 where send: "send_pending_frames fr w s = (r1, s1)" by force
  note path = send_pending_frames_path [OF laws send, of cfg]
  show ?thesis
  proof (cases "\<exists>e. r1 = Ready (Inl e)")
    case True
    then show ?thesis
      using send path by (auto simp: poll_read_frame_def read_result_def)
  next
    case False
    then have sent: "only_sent obs s s1" using path by blast
    have free1: "\<forall>i. interest = Some i \<longrightarrow> blocking_stream s1 \<noteq> Some i"
      using free only_sentD(2) [OF sent] by simp
    define flush where "flush = (case interest of Some i \<Rightarrow> i \<in> pending_flush_open s1 | None \<Rightarrow> False)"
    obtain r2 s2 where fl: "Mplex_poll_flush fr w s1 = (r2, s2)" by force
    note path2 = poll_flush_path [OF laws fl, of cfg]
    have run: "poll_read_frame fr w interest s =
        (if flush then (case (r2, s2) of
            (Pending, s2) \<Rightarrow> Some (Pending, s2)
          | (Ready (Inl e), s2) \<Rightarrow> Some (Ready (Inl e), s2)
          | (Ready (Inr _), s2) \<Rightarrow> read_frame_unblocked fr w interest (s2\<lparr>pending_flush_open := {}\<rparr>))
         else read_frame_unblocked fr w interest s1)"
      using send False fl by (auto simp: poll_read_frame_def flush_def split: poll.splits sum.splits)
    have "\<exists>r s'. poll_read_frame fr w interest s = Some (r, s') \<and> read_result obs cfg s1 r s'"
    proof (cases flush)
      case True
      show ?thesis
      proof (cases "\<exists>u. r2 = Ready (Inr u)")
        case True
        let ?s3 = "s2\<lparr>pending_flush_open := {}\<rparr>"
        have same: "core_of obs ?s3 = core_of obs s2" "status ?s3 = status s2" "steady obs s2 ?s3"
          by (simp_all add: core_of_def steady_def)
        have sent2: "only_sent obs s1 ?s3"
          using True path2 only_sent_refl [OF same(1,2)] only_sent_trans by blast
        have path3: "mpath cfg (core_of obs s1) [] (core_of obs ?s3)" "steady obs s1 ?s3"
          using path2 same by (auto intro: steady_trans)
        have free3: "\<forall>i. interest = Some i \<longrightarrow> blocking_stream ?s3 \<noteq> Some i"
          using free1 only_sentD(2) [OF sent2] by simp
        obtain r s' where rd: "read_frame_unblocked fr w interest ?s3 = Some (r, s')" "read_result obs cfg ?s3 r s'"
          using read_frame_unblocked_result [OF laws free3, of w cfg] by (elim exE conjE)
        have "poll_read_frame fr w interest s = Some (r, s')" using run \<open>flush\<close> True rd(1) by auto
        then show ?thesis using read_result_after [OF sent2 path3 rd(2)] by blast
      next
        case False
        have "r2 = Pending \<or> (\<exists>e. r2 = Ready (Inl e))" using False by (metis poll.exhaust sum.exhaust)
        then show ?thesis
          using run \<open>flush\<close> path2 by (auto simp: read_result_def)
      qed
    next
      case False
      then show ?thesis using run read_frame_unblocked_result [OF laws free1] by simp
    qed
    then show ?thesis using read_result_after [OF sent] path by blast
  qed
qed

text \<open>What the handlers of received frames do to the core and to other streams.\<close>

definition others_kept :: "LocalStreamId \<Rightarrow> ('r, 'w, 'e) Multiplexed \<Rightarrow> ('r, 'w, 'e) Multiplexed \<Rightarrow> bool" where
  "others_kept i s s' \<longleftrightarrow>
     (\<forall>j. j \<noteq> i \<longrightarrow> Mapping.lookup (substreams s') j = Mapping.lookup (substreams s) j)"

lemma check_max_pending_frames_cases:
  "check_max_pending_frames s =
     (if length (pending_frames s) < frame_limit (config s) then (Inr (), s)
      else (Inl TooManyPendingFrames, on_error TooManyPendingFrames s))"
  by (auto simp: check_max_pending_frames_def frame_limit_def)

lemma core_of_upd:
  "core_of obs (s\<lparr>substreams := m\<rparr>) = (core_of obs s)\<lparr>c_sub := m\<rparr>"
  "core_of obs (s\<lparr>pending_frames := fs\<rparr>) = (core_of obs s)\<lparr>c_pending := fs\<rparr>"
  "core_of obs (s\<lparr>blocking_stream := b\<rparr>) = (core_of obs s)\<lparr>c_block := b\<rparr>"
  by (simp_all add: core_of_def)

lemma core_in:
  assumes "core_of obs s = c\<lparr>c_in := xs\<rparr>"
  shows "core_of obs (s\<lparr>substreams := m\<rparr>) = c\<lparr>c_sub := m, c_in := xs\<rparr>"
    "core_of obs (s\<lparr>pending_frames := fs\<rparr>) = c\<lparr>c_pending := fs, c_in := xs\<rparr>"
    "substreams s = c_sub c" "pending_frames s = c_pending c" "blocking_stream s = c_block c"
    "core_of obs (on_error e s) = c\<lparr>c_sub := Mapping.empty, c_pending := [], c_in := xs\<rparr>"
  using assms core_fields [of obs s] by (simp_all add: core_of_upd core_of_error)

lemma mapping_update_twice: "Mapping.update i x (Mapping.update i y m) = Mapping.update i x m"
  by (rule mapping_eqI) (simp add: Mapping.lookup_update')

lemma on_open_step:
  assumes core: "core_of obs s = c\<lparr>c_in := c_in c @ [Open ri]\<rparr>" and cfg: "config s = cfg"
    and c: "c_block c = None" "remote_role ri = Dialer" and run: "on_open ri s = (x, s')"
  shows "mstep cfg c [] (core_of obs s') \<and> steady obs s s' \<and>
    ((\<exists>e. x = Inl e) \<or> others_kept (into_local ri) s s')"
proof -
  let ?i = "into_local ri"
  note fields = core_in(3,4) [OF core]
  have failed: "mstep cfg c [] (core_of obs (on_error e s))" for e
    using m_clear [of "[Open ri]" c cfg] c(1) by (simp add: core_in [OF core])
  have opened: "Mapping.lookup (c_sub c) ?i = None \<Longrightarrow> Mapping.size (c_sub c) < max_substreams cfg \<Longrightarrow>
      mstep cfg c [] (core_of obs (s\<lparr>substreams := Mapping.update ?i (SubOpen []) (substreams s)\<rparr>))"
    using m_opened [OF c(1) refl c(2)] by (simp add: core_in [OF core])
  have refused: "Mapping.lookup (c_sub c) ?i = None \<Longrightarrow> length (c_pending c) < frame_limit cfg \<Longrightarrow>
      mstep cfg c [] (core_of obs (s\<lparr>pending_frames := Reset ?i # pending_frames s\<rparr>))"
    using m_refused [OF c(1) refl c(2)] by (simp add: core_in [OF core])
  show ?thesis
    using run failed opened refused cfg fields
    by (auto simp: on_open_def Let_def check_max_pending_frames_cases steady_def others_kept_def Mapping.lookup_update'
        split: if_splits)
qed

lemma on_close_step:
  assumes core: "core_of obs s = c\<lparr>c_in := c_in c @ [Close ri]\<rparr>" and c: "c_block c = None"
  shows "mstep cfg c [] (core_of obs (on_close (into_local ri) s)) \<and>
    steady obs s (on_close (into_local ri) s) \<and> others_kept (into_local ri) s (on_close (into_local ri) s)"
proof -
  let ?i = "into_local ri"
  note fields = core_in(3) [OF core]
  have wake: "core_of obs (snd (wake_read_stream ?i t)) = core_of obs t"
    "steady obs s (snd (wake_read_stream ?i t)) = steady obs s t" for t
    by (simp_all add: core_of_def steady_def)
  have ign: "Option.bind (Mapping.lookup (c_sub c) ?i) recv_buf_open = None \<Longrightarrow> mstep cfg c [] (core_of obs s)"
    using m_ignored [OF c, of "Close ri"] core by simp
  have close: "Mapping.lookup (c_sub c) ?i = Some st \<Longrightarrow> recv_buf_open st \<noteq> None \<Longrightarrow>
      mstep cfg c [] (core_of obs (s\<lparr>substreams := Mapping.update ?i (recv_closed st) (substreams s)\<rparr>))" for st
    using m_recv_close [OF c refl] by (simp add: core_in [OF core])
  show ?thesis
    using ign close [of "SubOpen _"] close [of "SubSendClosed _"] fields
    by (auto simp: on_close_def wake steady_def others_kept_def Mapping.lookup_update'
        split: option.splits SubstreamState.splits)
qed

lemma on_reset_step:
  assumes core: "core_of obs s = c\<lparr>c_in := c_in c @ [Reset ri]\<rparr>" and c: "c_block c = None"
  shows "mstep cfg c [] (core_of obs (on_reset (into_local ri) s)) \<and>
    steady obs s (on_reset (into_local ri) s) \<and> others_kept (into_local ri) s (on_reset (into_local ri) s)"
proof -
  let ?i = "into_local ri"
  note fields = core_in(3) [OF core]
  have wake: "core_of obs (snd (wake_read_stream ?i t)) = core_of obs t"
    "steady obs s (snd (wake_read_stream ?i t)) = steady obs s t" for t
    by (simp_all add: core_of_def steady_def)
  have ign: "Mapping.lookup (c_sub c) ?i = None \<Longrightarrow> mstep cfg c [] (core_of obs s)"
    using m_ignored [OF c, of "Reset ri"] core by simp
  have reset: "Mapping.lookup (c_sub c) ?i = Some st \<Longrightarrow>
      mstep cfg c [] (core_of obs (s\<lparr>substreams := Mapping.update ?i (SubReset (recv_buf st)) (substreams s)\<rparr>))" for st
    using m_recv_reset [OF c refl] by (simp add: core_in [OF core])
  have removed: "Mapping.lookup (c_sub c) ?i = Some st \<Longrightarrow> recv_buf_open st = None \<Longrightarrow>
      mstep cfg c [] (core_of obs (s\<lparr>substreams := Mapping.delete ?i (substreams s)\<rparr>))" for st
    using m_recv_reset_removed [OF c refl] by (simp add: core_in [OF core])
  show ?thesis
    using ign reset removed fields
    by (auto simp: on_reset_def wake steady_def others_kept_def Mapping.lookup_update' lookup_delete_if
        split: option.splits SubstreamState.splits)
qed


lemma buffer_data_step:
  assumes core: "core_of obs s = c\<lparr>c_in := c_in c @ [Data ri d]\<rparr>" and cfg: "config s = cfg"
    and c: "c_block c = None" and inv: "core_inv cfg c"
  shows "\<exists>x s'. buffer_data (into_local ri) d s = Some (x, s') \<and> mstep cfg c [] (core_of obs s') \<and>
    steady obs s s' \<and> ((\<exists>e. x = Inl e) \<or> others_kept (into_local ri) s s')"
proof (cases "Option.bind (Mapping.lookup (substreams s) (into_local ri)) recv_buf_open")
  case None
  then show ?thesis
    using m_ignored [OF c, of "Data ri d"] core core_in(3) [OF core]
    by (simp add: buffer_data_def steady_def others_kept_def)
next
  case (Some buf)
  let ?i = "into_local ri"
  obtain st where st: "Mapping.lookup (c_sub c) ?i = Some st" "recv_buf_open st = Some buf"
    using Some core_in(3) [OF core] by (auto simp: bind_eq_Some_conv)
  have len: "length buf \<le> max_buffer_len cfg"
    using core_invD(6) [OF inv st] c by (metis not_None_eq not_le_imp_less option.distinct(1))
  define s1 where "s1 = snd (wake_read_stream ?i
      (s\<lparr>substreams := Mapping.update ?i (set_recv_buf (buf @ [d]) st) (c_sub c)\<rparr>))"
  have s1: "core_of obs s1 = c\<lparr>c_sub := Mapping.update ?i (set_recv_buf (buf @ [d]) st) (c_sub c),
      c_in := c_in c @ [Data ri d]\<rparr>" "config s1 = cfg" "steady obs s s1" "pending_frames s1 = c_pending c"
      "substreams s1 = Mapping.update ?i (set_recv_buf (buf @ [d]) st) (c_sub c)"
    using core_in [OF core] cfg
      core_of_wakers(1) [OF waker_ops(3), of obs ?i "s\<lparr>substreams := Mapping.update ?i (set_recv_buf (buf @ [d]) st) (c_sub c)\<rparr>"]
    by (simp_all add: s1_def steady_def)
  have run: "buffer_data ?i d s = Some (if max_buffer_len cfg < Suc (length buf)
      then (case max_buffer_behaviour cfg of
              ResetStream \<Rightarrow>
                if length (c_pending c) < frame_limit cfg
                then (Inr (), s1\<lparr>substreams := Mapping.update ?i (SubReset (buf @ [d])) (substreams s1),
                                 pending_frames := Reset ?i # pending_frames s1\<rparr>)
                else (Inl TooManyPendingFrames, on_error TooManyPendingFrames s1)
            | Block \<Rightarrow> (Inr (), s1\<lparr>blocking_stream := Some ?i\<rparr>))
      else (Inr (), s1))"
    using Some st len cfg s1(2,4) core_in(3,4) [OF core]
    by (simp add: buffer_data_def Let_def check_max_pending_frames_cases s1_def [symmetric]
        split: MaxBufferBehaviour.splits)
  have kept: "others_kept ?i s t" if "substreams t = Mapping.update ?i x (c_sub c)" for x and t :: "('a, 'b, 'c) Multiplexed"
    using that core_in(3) [OF core] by (simp add: others_kept_def Mapping.lookup_update')
  show ?thesis
  proof (cases "max_buffer_len cfg < Suc (length buf)")
    case False
    then show ?thesis
      using run s1 kept [of s1] m_buffered [OF c refl st, of cfg d] by simp
  next
    case full: True
    show ?thesis
    proof (cases "max_buffer_behaviour cfg")
      case Block
      let ?t = "s1\<lparr>blocking_stream := Some ?i\<rparr>"
      have "core_of obs ?t = c\<lparr>c_sub := Mapping.update ?i (set_recv_buf (buf @ [d]) st) (c_sub c),
          c_block := Some ?i, c_in := c_in c @ [Data ri d]\<rparr>"
        by (simp add: core_of_upd s1(1))
      then have "mstep cfg c [] (core_of obs ?t)" using m_blocked [OF c refl st len Block, of d] by simp
      moreover have "steady obs s ?t" "others_kept ?i s ?t"
        using s1(3,5) kept [of ?t] by (simp_all add: steady_def)
      ultimately show ?thesis using run full Block by simp
    next
      case ResetStream
      show ?thesis
      proof (cases "length (c_pending c) < frame_limit cfg")
        case True
        let ?t = "s1\<lparr>substreams := Mapping.update ?i (SubReset (buf @ [d])) (substreams s1),
            pending_frames := Reset ?i # pending_frames s1\<rparr>"
        have "core_of obs ?t = c\<lparr>c_sub := Mapping.update ?i (SubReset (buf @ [d])) (c_sub c),
            c_pending := Reset ?i # c_pending c, c_in := c_in c @ [Data ri d]\<rparr>"
          by (simp add: core_of_upd s1 mapping_update_twice)
        then have "mstep cfg c [] (core_of obs ?t)" using m_overflow [OF c refl st len ResetStream True, of d] by simp
        moreover have "steady obs s ?t" "others_kept ?i s ?t"
          using s1(3,5) kept [of ?t] by (simp_all add: steady_def mapping_update_twice)
        ultimately show ?thesis using run full ResetStream True by simp
      next
        case False
        have "core_of obs (on_error TooManyPendingFrames s1) =
            c\<lparr>c_sub := Mapping.empty, c_pending := [], c_in := c_in c @ [Data ri d]\<rparr>"
          by (simp add: core_of_error s1(1))
        then have "mstep cfg c [] (core_of obs (on_error TooManyPendingFrames s1))"
          using m_clear [of "[Data ri d]" c cfg] c by simp
        then show ?thesis using run full ResetStream False s1(3) by (simp add: steady_def)
      qed
    qed
  qed
qed

text \<open>A frame that was read and then handled by one step.\<close>

lemma frame_handled:
  assumes fr: "frame_read obs cfg s f s1" and inv: "core_inv cfg (core_of obs s)"
  obtains c where "core_of obs s1 = c\<lparr>c_in := c_in c @ [f]\<rparr>" "c_block c = None" "core_inv cfg c"
    "c_sub c = substreams s"
    "\<And>ds c'. mstep cfg c ds c' \<Longrightarrow> mpath cfg (core_of obs s) ds c'"
proof -
  obtain c fs outs where c: "mpath cfg (core_of obs s) [] c" "c = (core_of obs s)\<lparr>c_pending := fs, c_out := outs\<rparr>"
    "core_of obs s1 = c\<lparr>c_in := c_in c @ [f]\<rparr>" "c_block c = None"
    using fr by (auto simp: frame_read_def)
  have "mpath cfg (core_of obs s) ds c'" if m: "mstep cfg c ds c'" for ds c'
    using mpath_trans [OF mpath_one [OF m] c(1)] by simp
  moreover have "c_sub c = substreams s" using c(2) by (simp add: core_fields)
  ultimately show thesis using that [OF c(3,4) mpath_inv [OF c(1) inv]] by blast
qed

definition loop_result ::
  "'r observers \<Rightarrow> MplexConfig \<Rightarrow> ('r, 'w, 'e) Multiplexed \<Rightarrow> (LocalStreamId \<times> bytes) list \<Rightarrow>
   ('r, 'w, 'e) Multiplexed \<Rightarrow> bool" where
  "loop_result obs cfg s ds s' \<longleftrightarrow> mpath cfg (core_of obs s) ds (core_of obs s') \<and> steady obs s s'"

lemma loop_result_trans:
  "loop_result obs cfg s [] s1 \<Longrightarrow> loop_result obs cfg s1 ds s' \<Longrightarrow> loop_result obs cfg s ds s'"
  unfolding loop_result_def using mpath_trans steady_trans by fastforce

lemma loop_result_wakers: "same_but_wakers s s' \<Longrightarrow> loop_result obs cfg s [] s'"
  by (simp add: loop_result_def core_of_wakers mpath_refl)

lemma next_stream_loop_result:
  assumes laws: "framed_laws fr obs"
  shows "core_inv cfg (core_of obs s) \<Longrightarrow> config s = cfg \<Longrightarrow>
    \<exists>r s'. next_stream_loop fr w n s = Some (r, s') \<and> loop_result obs cfg s [] s'"
proof (induction "available obs (io s)" arbitrary: s n rule: less_induct)
  case less
  note inv = less.prems(1) and cfg = less.prems(2)
  show ?case
  proof (cases "n = max_buffer_len (config s)")
    case True
    then show ?thesis
      using loop_result_wakers [OF waker_ops(10), of obs cfg s w] by (subst next_stream_loop.simps) simp
  next
    case False
    have "\<exists>r s'. poll_read_frame fr w None s = Some (r, s') \<and> read_result obs cfg s r s'"
      by (rule poll_read_frame_result [OF laws]) simp
    then obtain r1 s1 where read: "poll_read_frame fr w None s = Some (r1, s1)" "read_result obs cfg s r1 s1"
      by (elim exE conjE)
    have steady: "steady obs s s1" using read(2) by (simp add: read_result_def)
    note simps = next_stream_loop.simps [of fr w n s]
    show ?thesis
    proof (cases "\<exists>f. r1 = Ready (Inr f)")
      case no: False
      then have "loop_result obs cfg s [] s1"
        using read(2) by (cases r1) (auto simp: read_result_def loop_result_def split: sum.splits)
      then show ?thesis
        using no False read(1) simps by (cases r1) (auto split: sum.splits)
    next
      case True
      then obtain f where f: "r1 = Ready (Inr f)" by blast
      then have fr: "frame_read obs cfg s f s1" using read(2) by (simp add: read_result_def)
      then have less1: "available obs (io s1) < available obs (io s)"
        and role: "\<forall>i. f = Open i \<longrightarrow> remote_role i = Dialer" by (auto simp: frame_read_def)
      obtain c where c: "core_of obs s1 = c\<lparr>c_in := c_in c @ [f]\<rparr>" "c_block c = None" "core_inv cfg c"
        "\<And>ds c'. mstep cfg c ds c' \<Longrightarrow> mpath cfg (core_of obs s) ds c'"
        using frame_handled [OF fr inv] by metis
      have cfg1: "config s1 = cfg" using steady cfg by (simp add: steady_def)
      have step: "loop_result obs cfg s [] s2" if "mstep cfg c [] (core_of obs s2)" "steady obs s1 s2" for s2
        using c(4) [OF that(1)] steady_trans [OF steady that(2)] by (simp add: loop_result_def)
      have rec: "\<exists>r s'. next_stream_loop fr w k s2 = Some (r, s') \<and> loop_result obs cfg s [] s'"
        if m: "mstep cfg c [] (core_of obs s2)" "steady obs s1 s2" for s2 k
      proof -
        have "available obs (io s2) < available obs (io s)" "config s2 = cfg"
          using m(2) less1 cfg1 by (simp_all add: steady_def)
        moreover have "core_inv cfg (core_of obs s2)" using mstep_inv [OF m(1) c(3)] .
        ultimately obtain r s' where "next_stream_loop fr w k s2 = Some (r, s')" "loop_result obs cfg s2 [] s'"
          using less.hyps [of s2 k] by blast
        then show ?thesis using loop_result_trans [OF step [OF m]] by blast
      qed
      show ?thesis
      proof (cases f)
        case (Open ri)
        obtain x s2 where h: "on_open ri s1 = (x, s2)" by force
        have "mstep cfg c [] (core_of obs s2)" "steady obs s1 s2"
          using on_open_step [OF c(1) [unfolded Open] cfg1 c(2) _ h] role Open by auto
        then show ?thesis
          using False read(1) f Open h step [of s2] rec [of s2 n] simps
          by (cases x) (auto split: option.splits)
      next
        case (Data ri d)
        obtain x s2 where h: "buffer_data (into_local ri) d s1 = Some (x, s2)" "mstep cfg c [] (core_of obs s2)"
          "steady obs s1 s2"
          using buffer_data_step [OF c(1) [unfolded Data] cfg1 c(2,3)] by blast
        then show ?thesis
          using False read(1) f Data step [of s2] rec [of s2 "n + 1"] simps by (cases x) auto
      next
        case (Close ri)
        then show ?thesis
          using False read(1) f on_close_step [OF c(1) [unfolded Close] c(2), of cfg]
            rec [of "on_close (into_local ri) s1" n] simps by auto
      next
        case (Reset ri)
        then show ?thesis
          using False read(1) f on_reset_step [OF c(1) [unfolded Reset] c(2), of cfg]
            rec [of "on_reset (into_local ri) s1" n] simps by auto
      qed
    qed
  qed
qed

definition read_output :: "LocalStreamId \<Rightarrow> ('e mplex_error + bytes option) poll \<Rightarrow> (LocalStreamId \<times> bytes) list" where
  "read_output i r = (case r of Ready (Inr (Some d)) \<Rightarrow> [(i, d)] | _ \<Rightarrow> [])"

lemma can_read_iff:
  "can_read i s \<longleftrightarrow> (\<exists>st. Mapping.lookup (substreams s) i = Some st \<and> recv_buf_open st \<noteq> None)"
  by (auto simp: can_read_def split: option.splits SubstreamState.splits)

lemma read_stream_loop_result:
  assumes laws: "framed_laws fr obs"
  shows "core_inv cfg (core_of obs s) \<Longrightarrow> config s = cfg \<Longrightarrow>
    \<forall>st. Mapping.lookup (substreams s) i = Some st \<longrightarrow> recv_buf st = [] \<Longrightarrow>
    \<exists>r s'. read_stream_loop fr w i n s = Some (r, s') \<and> loop_result obs cfg s (read_output i r) s'"
proof (induction "available obs (io s)" arbitrary: s n rule: less_induct)
  case less
  note inv = less.prems(1) and cfg = less.prems(2) and empty = less.prems(3)
  note simps = read_stream_loop.simps [of fr w i n s]
  have stay: "loop_result obs cfg s [] s" "loop_result obs cfg s [] (wake_current w s)"
    using loop_result_wakers [OF waker_ops(10), of obs cfg s w] by (auto simp: loop_result_def mpath_refl steady_refl)
  show ?case
  proof (cases "n = max_buffer_len (config s) \<or> \<not> can_read i s")
    case True
    then show ?thesis using stay simps by (auto simp: read_output_def)
  next
    case False
    then obtain st where st: "Mapping.lookup (substreams s) i = Some st" "recv_buf_open st = Some []"
      using empty recv_buf_open_Some by (auto simp: can_read_iff)
    then have "blocking_stream s \<noteq> Some i"
      using core_invD(7) [OF inv, of i st] empty by (auto simp: core_fields)
    then have "\<exists>r s'. poll_read_frame fr w (Some i) s = Some (r, s') \<and> read_result obs cfg s r s'"
      by (intro poll_read_frame_result [OF laws]) simp
    then obtain r1 s1 where read: "poll_read_frame fr w (Some i) s = Some (r1, s1)" "read_result obs cfg s r1 s1"
      by (elim exE conjE)
    have steady: "steady obs s s1" using read(2) by (simp add: read_result_def)
    show ?thesis
    proof (cases "\<exists>f. r1 = Ready (Inr f)")
      case no: False
      then have "loop_result obs cfg s [] s1"
        using read(2) by (cases r1) (auto simp: read_result_def loop_result_def split: sum.splits)
      then show ?thesis
        using no False read(1) simps by (cases r1) (auto simp: read_output_def split: sum.splits)
    next
      case True
      then obtain f where f: "r1 = Ready (Inr f)" by blast
      then have fr: "frame_read obs cfg s f s1" using read(2) by (simp add: read_result_def)
      then have less1: "available obs (io s1) < available obs (io s)"
        and role: "\<forall>i. f = Open i \<longrightarrow> remote_role i = Dialer" by (auto simp: frame_read_def)
      obtain c where c: "core_of obs s1 = c\<lparr>c_in := c_in c @ [f]\<rparr>" "c_block c = None" "core_inv cfg c"
        "c_sub c = substreams s" "\<And>ds c'. mstep cfg c ds c' \<Longrightarrow> mpath cfg (core_of obs s) ds c'"
        using frame_handled [OF fr inv] by metis
      have st1: "Mapping.lookup (substreams s1) i = Some st" "Mapping.lookup (c_sub c) i = Some st"
        using st(1) c(4) core_in(3) [OF c(1)] by simp_all
      have cfg1: "config s1 = cfg" using steady cfg by (simp add: steady_def)
      have step: "loop_result obs cfg s ds s2" if "mstep cfg c ds (core_of obs s2)" "steady obs s1 s2" for s2 ds
        using c(5) [OF that(1)] steady_trans [OF steady that(2)] by (simp add: loop_result_def)
      have rec: "\<exists>r s'. read_stream_loop fr w i k s2 = Some (r, s') \<and> loop_result obs cfg s (read_output i r) s'"
        if m: "mstep cfg c [] (core_of obs s2)" "steady obs s1 s2"
          "Mapping.lookup (substreams s2) i = Mapping.lookup (substreams s1) i" for s2 k
      proof -
        have "available obs (io s2) < available obs (io s)" "config s2 = cfg"
          using m(2) less1 cfg1 by (simp_all add: steady_def)
        moreover have "core_inv cfg (core_of obs s2)" using mstep_inv [OF m(1) c(3)] .
        moreover have "\<forall>st. Mapping.lookup (substreams s2) i = Some st \<longrightarrow> recv_buf st = []"
          using m(3) st1(1) st(1) empty by simp
        ultimately obtain r s' where "read_stream_loop fr w i k s2 = Some (r, s')"
          "loop_result obs cfg s2 (read_output i r) s'"
          using less.hyps [of s2 k] by blast
        then show ?thesis using loop_result_trans [OF step [OF m(1,2)]] by blast
      qed
      have cont: "n \<noteq> max_buffer_len (config s)" "can_read i s" using False by auto
      show ?thesis
      proof (cases f)
        case (Open ri)
        obtain x s2 where h: "on_open ri s1 = (x, s2)" by force
        have m: "mstep cfg c [] (core_of obs s2)" "steady obs s1 s2" "(\<exists>e. x = Inl e) \<or> others_kept (into_local ri) s1 s2"
          using on_open_step [OF c(1) [unfolded Open] cfg1 c(2) _ h] role Open by auto
        show ?thesis
        proof (cases x)
          case (Inl e)
          then show ?thesis using cont read(1) f Open h step [OF m(1,2)] simps
            by (auto simp: read_output_def remote_id_def)
        next
          case (Inr j)
          then have "into_local ri \<noteq> i" using h st1 by (auto simp: on_open_def Let_def)
          then have same: "Mapping.lookup (substreams s2) i = Mapping.lookup (substreams s1) i"
            using m(3) Inr by (auto simp: others_kept_def)
          have "core_of obs (wake_next_stream (s2\<lparr>open_buffer := ks\<rparr>)) = core_of obs s2"
            "steady obs s1 (wake_next_stream (s2\<lparr>open_buffer := ks\<rparr>))" for ks
            using m(2) by (simp_all add: core_of_def steady_def)
          then have "\<exists>r s'. read_stream_loop fr w i n (wake_next_stream (s2\<lparr>open_buffer := ks\<rparr>)) = Some (r, s') \<and>
              loop_result obs cfg s (read_output i r) s'" for ks
            using rec [of "wake_next_stream (s2\<lparr>open_buffer := ks\<rparr>)" n] m(1) same by simp
          then show ?thesis
            using cont read(1) f Open h Inr rec [OF m(1,2) same, of n] simps
            by (auto simp: remote_id_def split: option.splits)
        qed
      next
        case (Data ri d)
        show ?thesis
        proof (cases "into_local ri = i")
          case True
          then have "mstep cfg c [(i, d)] (core_of obs s1)"
            using m_direct [OF c(2) refl, of ri st cfg d] st1(2) st(2) c(1) Data by simp
          then show ?thesis
            using cont read(1) f Data True step [OF _ steady_refl] simps by (auto simp: read_output_def)
        next
          case other: False
          obtain x s2 where h: "buffer_data (into_local ri) d s1 = Some (x, s2)" "mstep cfg c [] (core_of obs s2)"
            "steady obs s1 s2" "(\<exists>e. x = Inl e) \<or> others_kept (into_local ri) s1 s2"
            using buffer_data_step [OF c(1) [unfolded Data] cfg1 c(2,3)] by blast
          then show ?thesis
            using cont read(1) f Data other step [OF h(2,3)] rec [OF h(2,3), of "n + 1"] simps
            by (cases x) (auto simp: read_output_def others_kept_def)
        qed
      next
        case (Close ri)
        note h = on_close_step [OF c(1) [unfolded Close] c(2), of cfg]
        then show ?thesis
          using cont read(1) f Close step [of "[]" "on_close (into_local ri) s1"]
            rec [of "on_close (into_local ri) s1" n] simps
          by (auto simp: Let_def read_output_def others_kept_def)
      next
        case (Reset ri)
        note h = on_reset_step [OF c(1) [unfolded Reset] c(2), of cfg]
        then show ?thesis
          using cont read(1) f Reset step [of "[]" "on_reset (into_local ri) s1"]
            rec [of "on_reset (into_local ri) s1" n] simps
          by (auto simp: Let_def read_output_def others_kept_def)
      qed
    qed
  qed
qed

lemma poll_next_stream_result:
  assumes "framed_laws fr obs" "core_inv cfg (core_of obs s)" "config s = cfg"
  shows "\<exists>r s'. poll_next_stream fr w s = Some (r, s') \<and> loop_result obs cfg s [] s'"
  using next_stream_loop_result [OF assms, of w 0]
  by (auto simp: poll_next_stream_def loop_result_def mpath_refl steady_def core_of_def split: sum.splits)

lemma poll_read_stream_result:
  assumes laws: "framed_laws fr obs" and inv: "core_inv cfg (core_of obs s)" and cfg: "config s = cfg"
  shows "\<exists>r s'. poll_read_stream fr w i s = Some (r, s') \<and> loop_result obs cfg s (read_output i r) s'"
proof (cases "\<exists>st d rest. guard_open s = Inr () \<and> Mapping.lookup (substreams s) i = Some st \<and> recv_buf st = d # rest")
  case True
  then obtain st d rest where st: "guard_open s = Inr ()" "Mapping.lookup (substreams s) i = Some st" "recv_buf st = d # rest"
    by blast
  define s1 where "s1 = (if blocking_stream s = Some i then NotifierRead_wake (s\<lparr>blocking_stream := None\<rparr>) else s)"
  let ?s2 = "s1\<lparr>substreams := Mapping.update i (set_recv_buf rest st) (substreams s1)\<rparr>"
  have run: "poll_read_stream fr w i s = Some (Ready (Inr (Some d)), ?s2)"
    using st by (simp add: poll_read_stream_def s1_def Let_def)
  have "core_of obs s1 = (core_of obs s)\<lparr>c_block := (if blocking_stream s = Some i then None else blocking_stream s)\<rparr>"
    by (simp add: s1_def core_of_wakers(1) [OF waker_ops(5)] core_of_upd) (simp add: core_of_def)
  moreover have "substreams s1 = substreams s" "steady obs s s1" by (simp_all add: s1_def steady_def)
  ultimately have "core_of obs ?s2 = (core_of obs s)\<lparr>c_sub := Mapping.update i (set_recv_buf rest st) (c_sub (core_of obs s)),
      c_block := (if c_block (core_of obs s) = Some i then None else c_block (core_of obs s))\<rparr>" "steady obs s ?s2"
    by (simp_all add: core_of_upd core_fields steady_def)
  moreover have "Mapping.lookup (c_sub (core_of obs s)) i = Some st" using st(2) by (simp add: core_fields)
  ultimately have "loop_result obs cfg s [(i, d)] ?s2"
    using mpath_one [OF m_read [of "core_of obs s" i st d rest cfg]] st(3) by (simp add: loop_result_def)
  then show ?thesis using run by (simp add: read_output_def)
next
  case False
  then have "\<forall>st. Mapping.lookup (substreams s) i = Some st \<longrightarrow> recv_buf st = []" if "guard_open s = Inr ()"
    using that by (metis list.exhaust)
  then show ?thesis
    using False read_stream_loop_result [OF laws inv cfg, of i w 0]
    by (cases "guard_open s"; cases "Mapping.lookup (substreams s) i")
      (auto simp: poll_read_stream_def read_output_def loop_result_def mpath_refl steady_refl split: list.splits)
qed

definition open_result :: "'r observers \<Rightarrow> MplexConfig \<Rightarrow> ('r, 'w, 'e) Multiplexed \<Rightarrow> ('r, 'w, 'e) Multiplexed \<Rightarrow> bool" where
  "open_result obs cfg s s' \<longleftrightarrow>
     mpath cfg (core_of obs s) [] (core_of obs s') \<and> config s' = config s \<and>
     (next_outbound s' = next_outbound s \<or> LocalStreamId_next (next_outbound s) = Some (next_outbound s'))"

lemma poll_open_stream_result:
  assumes laws: "framed_laws fr obs" and cfg: "config s = cfg" and room: "local_num (next_outbound s) \<noteq> - 1"
  shows "\<exists>r s'. poll_open_stream fr w s = Some (r, s') \<and> open_result obs cfg s s'"
proof (cases "guard_open s = Inr () \<and> Mapping.size (substreams s) < max_substreams (config s)")
  case True
  let ?s1 = "NotifierWrite_register w s" and ?i = "next_outbound s"
  let ?n = "?i\<lparr>local_num := local_num ?i + 1\<rparr>"
  obtain x r where rd: "f_ready fr (io s) = (x, r)" by force
  obtain y r' where sd: "f_send fr (Open ?i) r = (y, r')" by force
  have un: "unobserved obs (io s) r" using framed_lawsD(1) [OF laws rd] .
  have nid: "LocalStreamId_next ?i = Some ?n" using room by (simp add: LocalStreamId_next_def)
  have run: "poll_open_stream fr w s = Some (case x of
      Pending \<Rightarrow> (Pending, ?s1\<lparr>io := r\<rparr>)
    | Ready (Inl e) \<Rightarrow> (Ready (Inl (IoError e)), on_error (IoError e) (?s1\<lparr>io := r\<rparr>))
    | Ready (Inr _) \<Rightarrow>
        (case y of
           Inl e \<Rightarrow> (Ready (Inl (IoError e)), on_error (IoError e) (?s1\<lparr>next_outbound := ?n, io := r'\<rparr>))
         | Inr _ \<Rightarrow> (Ready (Inr ?i), ?s1\<lparr>next_outbound := ?n, io := r',
             substreams := Mapping.update ?i (SubOpen []) (substreams s),
             pending_flush_open := insert ?i (pending_flush_open s)\<rparr>)))"
    using True rd sd nid
    by (auto simp: poll_open_stream_def take_outbound_id_def Let_def split: poll.splits sum.splits)
  have "open_result obs cfg s (?s1\<lparr>io := r\<rparr>)" "open_result obs cfg s (on_error e (?s1\<lparr>io := r\<rparr>))" for e
    using un clear_path [of cfg "core_of obs s"] mpath_refl
    by (simp_all add: open_result_def core_of_def on_error_def steady_def unobserved_def)
  moreover have "open_result obs cfg s (on_error e' (?s1\<lparr>next_outbound := ?n, io := r'\<rparr>))" if "y = Inl e" for e e'
    using un framed_lawsD(4) [OF laws sd [unfolded that]]
      mpath_one [OF m_open_failed [of "core_of obs s" ?n cfg]] nid
    by (simp add: open_result_def core_of_def on_error_def steady_def unobserved_def)
  moreover have "open_result obs cfg s (?s1\<lparr>next_outbound := ?n, io := r',
      substreams := Mapping.update ?i (SubOpen []) (substreams s),
      pending_flush_open := insert ?i (pending_flush_open s)\<rparr>)" if "y = Inr u" for u
    using un framed_lawsD(5) [OF laws sd [unfolded that]] True cfg nid
      mpath_one [OF m_open [of "core_of obs s" cfg ?n]]
    by (simp add: open_result_def core_of_def steady_def unobserved_def)
  ultimately show ?thesis
    using run by (auto split: poll.splits sum.splits)
next
  case False
  then show ?thesis
    using core_of_wakers(1) [OF waker_ops(8), of obs w s]
    by (cases "guard_open s") (auto simp: poll_open_stream_def open_result_def mpath_refl)
qed

lemma poll_write_stream_result:
  assumes laws: "framed_laws fr obs" and cfg: "config s = cfg" and run: "poll_write_stream fr w i buf s = (r, s')"
  shows "loop_result obs cfg s [] s'"
proof (cases "guard_open s = Inr () \<and> (\<exists>b. Mapping.lookup (substreams s) i \<in> {Some (SubOpen b), Some (SubRecvClosed b)})")
  case True
  define d where "d = take (min (length buf) (split_send_size (config s))) buf"
  obtain x s1 where send: "poll_send_frame fr w (Data i d) s = (x, s1)" by force
  have s': "s' = s1"
    using run True send by (auto simp: poll_write_stream_def Let_def d_def split: poll.splits sum.splits)
  obtain st b where st: "Mapping.lookup (c_sub (core_of obs s)) i = Some st" "st \<in> {SubOpen b, SubRecvClosed b}"
    using True by (auto simp: core_fields)
  have len: "length d \<le> split_send_size cfg" using cfg by (simp add: d_def)
  note eff = poll_send_frame_core [OF laws send]
  have path: "mpath cfg (core_of obs s) [] (core_of obs s1)"
    using eff(2) clear_path mpath_refl mpath_one [OF m_write [OF st len]] by (auto split: poll.splits sum.splits)
  then show ?thesis using eff(1) by (simp add: loop_result_def s')
next
  case False
  then have "s' = s"
    using run by (auto simp: poll_write_stream_def Let_def split: sum.splits option.splits SubstreamState.splits)
  then show ?thesis by (simp add: loop_result_def mpath_refl steady_refl)
qed

lemma close_with_result:
  assumes laws: "framed_laws fr obs" and run: "close_with fr w i st st' s = (r, s')"
    and st: "Mapping.lookup (substreams s) i = Some st"
      "(st, st') \<in> {(SubOpen b, SubSendClosed b), (SubRecvClosed b, SubClosed b)}"
  shows "loop_result obs cfg s [] s'"
proof -
  let ?s0 = "s\<lparr>substreams := Mapping.delete i (substreams s)\<rparr>"
  obtain x s1 where send: "poll_send_frame fr w (Close i) ?s0 = (x, s1)" by force
  note eff = poll_send_frame_core [OF laws send]
  have put: "Mapping.update i t (Mapping.delete i m) = Mapping.update i t m" for t and m :: "(LocalStreamId, SubstreamState) mapping"
    by (rule mapping_eqI) (simp add: Mapping.lookup_update' lookup_delete_if)
  have same: "Mapping.update i st (substreams s) = substreams s"
    using st(1) by (intro mapping_eqI) (auto simp: Mapping.lookup_update')
  have steady: "steady obs s s1" using eff(1) by (simp add: steady_def)
  have path: "mpath cfg (core_of obs s) [] (core_of obs s')" and "steady obs s s'"
  proof -
    show "mpath cfg (core_of obs s) [] (core_of obs s')"
    proof (cases x)
      case Pending
      then have s1: "core_of obs s1 = (core_of obs s)\<lparr>c_sub := Mapping.delete i (substreams s)\<rparr>"
        using eff(2) by (simp add: core_of_upd)
      then have "substreams s1 = Mapping.delete i (substreams s)" using core_fields(1) [of obs s1] by simp
      then have "s' = s1\<lparr>substreams := substreams s\<rparr>" using run send Pending by (simp add: close_with_def put same)
      then have "core_of obs s' = (core_of obs s)\<lparr>c_sub := substreams s\<rparr>" using s1 by (simp add: core_of_upd)
      also have "\<dots> = core_of obs s" by (simp add: core_of_def)
      finally show ?thesis by (simp add: mpath_refl)
    next
      case (Ready y)
      show ?thesis
      proof (cases y)
        case (Inl e)
        then have "core_of obs s' = (core_of obs s)\<lparr>c_sub := Mapping.empty, c_pending := []\<rparr>"
          using run send eff(2) Ready by (auto simp: close_with_def core_of_upd)
        then show ?thesis using clear_path by simp
      next
        case (Inr u)
        then have s1: "core_of obs s1 = (core_of obs s)\<lparr>c_sub := Mapping.delete i (substreams s),
            c_out := c_out (core_of obs s) @ [Close i]\<rparr>"
          using eff(2) Ready by (simp add: core_of_upd)
        then have "substreams s1 = Mapping.delete i (substreams s)" using core_fields(1) [of obs s1] by simp
        then have "s' = s1\<lparr>substreams := Mapping.update i st' (substreams s)\<rparr>"
          using run send Ready Inr by (simp add: close_with_def put)
        then have "core_of obs s' = (core_of obs s)\<lparr>c_sub := Mapping.update i st' (substreams s),
            c_out := c_out (core_of obs s) @ [Close i]\<rparr>"
          using s1 by (simp add: core_of_upd)
        then show ?thesis using mpath_one [OF m_close [of "core_of obs s" i st st' b cfg]] st by (simp add: core_fields)
      qed
    qed
    show "steady obs s s'"
      using run send steady by (auto simp: close_with_def steady_def split: poll.splits sum.splits)
  qed
  then show ?thesis by (simp add: loop_result_def)
qed

lemma poll_close_stream_result:
  assumes laws: "framed_laws fr obs" and run: "poll_close_stream fr w i s = (r, s')"
  shows "loop_result obs cfg s [] s'"
proof -
  have "s' = s \<or> (\<exists>b st st'. close_with fr w i st st' s = (r, s') \<and> Mapping.lookup (substreams s) i = Some st \<and>
      (st, st') \<in> {(SubOpen b, SubSendClosed b), (SubRecvClosed b, SubClosed b)})"
    using run by (auto simp: poll_close_stream_def split: sum.splits option.splits SubstreamState.splits)
  then show ?thesis
  proof (elim disjE exE conjE)
    assume "s' = s"
    then show ?thesis by (simp add: loop_result_def mpath_refl steady_refl)
  next
    fix b st st'
    assume "close_with fr w i st st' s = (r, s')" "Mapping.lookup (substreams s) i = Some st"
      "(st, st') \<in> {(SubOpen b, SubSendClosed b), (SubRecvClosed b, SubClosed b)}"
    then show ?thesis by (rule close_with_result [OF laws])
  qed
qed

lemma drop_stream_result:
  assumes inv: "core_inv cfg (core_of obs s)" and cfg: "config s = cfg"
  shows "\<exists>s'. drop_stream i s = Some s' \<and> loop_result obs cfg s [] s'"
proof (cases "status s = StatusOpen \<and> Mapping.lookup (substreams s) i \<noteq> None")
  case True
  then obtain st where st: "Mapping.lookup (substreams s) i = Some st" by blast
  have fin: "finite (Mapping.keys (substreams s))" "Mapping.size (substreams s) \<le> max_substreams cfg"
    using core_invD(1,2) [OF inv] by (simp_all add: core_fields)
  moreover have "Mapping.size (substreams s) \<noteq> 0"
    using fin(1) st in_keys_lookup [of i "substreams s"] by (auto simp: Mapping.size_def)
  ultimately have pos: "1 \<le> max_substreams cfg" by simp
  define s1 where "s1 = (snd (wake_read_stream i s))\<lparr>substreams := Mapping.delete i (substreams s)\<rparr>"
  define s2 where "s2 = (if Mapping.size (substreams s1) = max_substreams cfg - 1 then NotifierOpen_wake_all s1 else s1)"
  have s2: "core_of obs s2 = (core_of obs s)\<lparr>c_sub := Mapping.delete i (c_sub (core_of obs s))\<rparr>" "steady obs s s2"
    "config s2 = cfg" "next_outbound s2 = next_outbound s" "pending_frames s2 = c_pending (core_of obs s)"
    using core_of_wakers(1) [OF waker_ops(9), of obs s1] core_of_wakers(1) [OF waker_ops(3), of obs i s] cfg
    by (auto simp: s2_def s1_def core_of_upd core_fields steady_def)
  let ?ok = "length (c_pending (core_of obs s)) < frame_limit cfg"
  have run: "drop_stream i s = Some (case st of
      SubRecvClosed _ \<Rightarrow> if ?ok then s2\<lparr>pending_frames := Close i # pending_frames s2\<rparr> else on_error TooManyPendingFrames s2
    | SubOpen _ \<Rightarrow> if ?ok then s2\<lparr>pending_frames := Reset i # pending_frames s2\<rparr> else on_error TooManyPendingFrames s2
    | _ \<Rightarrow> s2)"
  proof -
    have "drop_stream i s = Some (case st of
        SubRecvClosed _ \<Rightarrow> (case check_max_pending_frames s2 of
            (Inl _, s3) \<Rightarrow> s3 | (Inr _, s3) \<Rightarrow> s3\<lparr>pending_frames := Close i # pending_frames s3\<rparr>)
      | SubOpen _ \<Rightarrow> (case check_max_pending_frames s2 of
            (Inl _, s3) \<Rightarrow> s3 | (Inr _, s3) \<Rightarrow> s3\<lparr>pending_frames := Reset i # pending_frames s3\<rparr>)
      | _ \<Rightarrow> s2)"
      unfolding s2_def s1_def drop_stream_def
      using True st pos cfg by (cases st) (simp_all add: Let_def split del: if_split)
    then show ?thesis
      using s2(3,5) by (simp add: check_max_pending_frames_cases split: SubstreamState.splits)
  qed
  have st': "Mapping.lookup (c_sub (core_of obs s)) i = Some st" using st by (simp add: core_fields)
  have failed: "loop_result obs cfg s [] (on_error e s2)" for e
    using clear_path [of cfg "core_of obs s"] s2(1,2) by (simp add: loop_result_def core_of_error steady_def)
  have queued: "loop_result obs cfg s [] (s2\<lparr>pending_frames := f # pending_frames s2\<rparr>)"
    if "(st, f) \<in> {(SubOpen b, Reset i), (SubRecvClosed b, Close i)}" ?ok for f b
    using mpath_one [OF m_drop_frame [OF st' that]] s2(1,2,5) by (simp add: loop_result_def core_of_upd steady_def)
  have plain: "loop_result obs cfg s [] s2" if "\<forall>b. st \<noteq> SubOpen b \<and> st \<noteq> SubRecvClosed b"
    using mpath_one [OF m_drop [OF st' that]] s2(1,2) by (simp add: loop_result_def)
  show ?thesis
    using run failed queued plain s2(4)
    by (cases st) (auto simp: on_error_def)
next
  case False
  then have "drop_stream i s = Some (if status s = StatusOpen then snd (wake_read_stream i s) else s)"
    by (simp add: drop_stream_def)
  then show ?thesis
    using loop_result_wakers [OF waker_ops(3), of obs cfg s i] by (simp add: loop_result_def mpath_refl steady_refl)
qed

end
