(* ===== verification/Mplex_Streams.thy ===== *)
theory Mplex_Streams
  imports Mplex_IoSafety
begin

text \<open>
  What the streams of the multiplexer of theory Mplex_Io promise in every run: the resources stay
  within the configured limits, the reader of a stream gets the data of the stream in order, and the
  frames sent for a stream follow the protocol.
\<close>

section \<open>Runs\<close>

datatype ('r, 'w) mplex_op =
    Flush 'w
  | CloseAll 'w
  | NextStream 'w
  | OpenStream 'w
  | DropStream LocalStreamId
  | WriteStream 'w LocalStreamId bytes
  | ReadStream 'w LocalStreamId
  | FlushStream 'w LocalStreamId
  | CloseStream 'w LocalStreamId
  | WakeReaders
  | WakeWriters
  | IoChange "'r \<Rightarrow> 'r"

text \<open>One operation, with the data it hands to a reader.\<close>

fun mplex_step ::
  "('r, 'e) framed \<Rightarrow> ('r, 'w, 'e) Multiplexed \<Rightarrow> ('r, 'w) mplex_op \<Rightarrow>
   ((LocalStreamId \<times> bytes) list \<times> ('r, 'w, 'e) Multiplexed) option" where
  "mplex_step fr s (Flush w) = Some ([], snd (Mplex_poll_flush fr w s))"
| "mplex_step fr s (CloseAll w) = Some ([], snd (Mplex_poll_close fr w s))"
| "mplex_step fr s (NextStream w) = map_option (\<lambda>(_, s1). ([], s1)) (poll_next_stream fr w s)"
| "mplex_step fr s (OpenStream w) = map_option (\<lambda>(_, s1). ([], s1)) (poll_open_stream fr w s)"
| "mplex_step fr s (DropStream i) = map_option (\<lambda>s1. ([], s1)) (drop_stream i s)"
| "mplex_step fr s (WriteStream w i d) = Some ([], snd (poll_write_stream fr w i d s))"
| "mplex_step fr s (ReadStream w i) = map_option (\<lambda>(r, s1). (read_output i r, s1)) (poll_read_stream fr w i s)"
| "mplex_step fr s (FlushStream w i) = Some ([], snd (poll_flush_stream fr w i s))"
| "mplex_step fr s (CloseStream w i) = Some ([], snd (poll_close_stream fr w i s))"
| "mplex_step fr s WakeReaders = Some ([], NotifierRead_wake s)"
| "mplex_step fr s WakeWriters = Some ([], NotifierWrite_wake s)"
| "mplex_step fr s (IoChange g) = Some ([], s\<lparr>io := g (io s)\<rparr>)"

fun mplex_run ::
  "('r, 'e) framed \<Rightarrow> ('r, 'w) mplex_op list \<Rightarrow> ('r, 'w, 'e) Multiplexed \<Rightarrow>
   ((LocalStreamId \<times> bytes) list \<times> ('r, 'w, 'e) Multiplexed) option" where
  "mplex_run fr [] s = Some ([], s)"
| "mplex_run fr (x # xs) s =
     do {
       (ds, s1) \<leftarrow> mplex_step fr s x;
       (es, s2) \<leftarrow> mplex_run fr xs s1;
       Some (ds @ es, s2)
     }"

text \<open>The I/O resource may change by itself, for example when bytes arrive, but not its histories.\<close>

fun op_ok :: "'r observers \<Rightarrow> ('r, 'w) mplex_op \<Rightarrow> bool" where
  "op_ok obs (IoChange g) \<longleftrightarrow>
     (\<forall>r. delivered obs (g r) = delivered obs r \<and> accepted obs (g r) = accepted obs r)"
| "op_ok obs _ \<longleftrightarrow> True"

fun opens :: "('r, 'w) mplex_op \<Rightarrow> bool" where
  "opens (OpenStream _) \<longleftrightarrow> True"
| "opens _ \<longleftrightarrow> False"

definition data_read :: "LocalStreamId \<Rightarrow> (LocalStreamId \<times> bytes) list \<Rightarrow> bytes list" where
  "data_read i ds = map snd (filter (\<lambda>p. fst p = i) ds)"

text \<open>The data of a stream among received frames, up to the frame that ends it.\<close>

fun readable :: "LocalStreamId \<Rightarrow> RemoteStreamId Frame list \<Rightarrow> bytes list" where
  "readable i [] = []"
| "readable i (Open ri # fs) = readable i fs"
| "readable i (Data ri d # fs) = (if into_local ri = i then d # readable i fs else readable i fs)"
| "readable i (Close ri # fs) = (if into_local ri = i then [] else readable i fs)"
| "readable i (Reset ri # fs) = (if into_local ri = i then [] else readable i fs)"

definition ends :: "LocalStreamId \<Rightarrow> RemoteStreamId Frame \<Rightarrow> bool" where
  "ends i f \<longleftrightarrow> (\<exists>ri. into_local ri = i \<and> (f = Close ri \<or> f = Reset ri))"

text \<open>The protocol of the frames sent for a stream that was opened here.\<close>

datatype sent_phase = Fresh | Writing | Shut | Gone

fun next_phase :: "LocalStreamId Frame \<Rightarrow> sent_phase \<Rightarrow> sent_phase option" where
  "next_phase (Open _) Fresh = Some Writing"
| "next_phase (Data _ _) Writing = Some Writing"
| "next_phase (Close _) Writing = Some Shut"
| "next_phase (Reset _) Writing = Some Gone"
| "next_phase (Reset _) Shut = Some Gone"
| "next_phase _ _ = None"

fun phase_after :: "LocalStreamId \<Rightarrow> LocalStreamId Frame list \<Rightarrow> sent_phase \<Rightarrow> sent_phase option" where
  "phase_after i [] ph = Some ph"
| "phase_after i (f # fs) ph =
     (if stream_id f = i then Option.bind (next_phase f ph) (phase_after i fs) else phase_after i fs ph)"

section \<open>Runs are paths\<close>

lemma mplex_step_path:
  assumes laws: "framed_laws fr obs" and inv: "core_inv cfg (core_of obs s)" and cfg: "config s = cfg"
    and x: "op_ok obs x" and room: "opens x \<longrightarrow> local_num (next_outbound s) \<noteq> - 1"
  shows "\<exists>ds s'. mplex_step fr s x = Some (ds, s') \<and> mpath cfg (core_of obs s) ds (core_of obs s') \<and>
    config s' = cfg \<and>
    (next_outbound s' = next_outbound s \<or> opens x \<and> LocalStreamId_next (next_outbound s) = Some (next_outbound s'))"
proof (cases x)
  case (Flush w)
  then show ?thesis
    using poll_flush_path [OF laws, of w s _ _ cfg] cfg
    by (cases "Mplex_poll_flush fr w s") (auto simp: steady_def)
next
  case (CloseAll w)
  then show ?thesis
    using poll_close_path [OF laws, of w s _ _ cfg] cfg
    by (cases "Mplex_poll_close fr w s") (auto simp: steady_def)
next
  case (NextStream w)
  then show ?thesis
    using poll_next_stream_result [OF laws inv cfg, of w] cfg by (auto simp: loop_result_def steady_def)
next
  case (OpenStream w)
  then show ?thesis
    using poll_open_stream_result [OF laws cfg, of w] room cfg by (auto simp: open_result_def)
next
  case (DropStream i)
  then show ?thesis
    using drop_stream_result [OF inv cfg, of i] cfg by (auto simp: loop_result_def steady_def)
next
  case (WriteStream w i d)
  then show ?thesis
    using poll_write_stream_result [OF laws cfg, of w i d] cfg
    by (cases "poll_write_stream fr w i d s") (auto simp: loop_result_def steady_def)
next
  case (ReadStream w i)
  then show ?thesis
    using poll_read_stream_result [OF laws inv cfg, of w i] cfg by (auto simp: loop_result_def steady_def)
next
  case (FlushStream w i)
  then show ?thesis
    using poll_flush_path [OF laws, of w s _ _ cfg] cfg mpath_refl
    by (cases "Mplex_poll_flush fr w s") (auto simp: steady_def poll_flush_stream_def split: sum.splits)
next
  case (CloseStream w i)
  then show ?thesis
    using poll_close_stream_result [OF laws, of w i s _ _ cfg] cfg
    by (cases "poll_close_stream fr w i s") (auto simp: loop_result_def steady_def)
next
  case WakeReaders
  then show ?thesis using core_of_wakers(1) [OF waker_ops(5), of obs s] cfg mpath_refl by auto
next
  case WakeWriters
  then show ?thesis using core_of_wakers(1) [OF waker_ops(7), of obs s] cfg mpath_refl by auto
next
  case (IoChange g)
  then have "core_of obs (s\<lparr>io := g (io s)\<rparr>) = core_of obs s" using x by (simp add: core_of_def)
  then show ?thesis using IoChange cfg mpath_refl by auto
qed

lemma mplex_run_path:
  assumes laws: "framed_laws fr obs"
  shows "core_inv cfg (core_of obs s) \<Longrightarrow> config s = cfg \<Longrightarrow> list_all (op_ok obs) xs \<Longrightarrow>
    unat (local_num (next_outbound s)) + length (filter opens xs) < 2 ^ 64 \<Longrightarrow>
    \<exists>ds s'. mplex_run fr xs s = Some (ds, s') \<and> mpath cfg (core_of obs s) ds (core_of obs s') \<and> config s' = cfg \<and>
      unat (local_num (next_outbound s')) \<le> unat (local_num (next_outbound s)) + length (filter opens xs)"
proof (induction xs arbitrary: s)
  case (Cons x xs)
  have "opens x \<longrightarrow> local_num (next_outbound s) \<noteq> - 1"
    using Cons.prems(4) by (auto simp: unsigned_minus_1_eq_mask mask_eq_exp_minus_1)
  then obtain ds s1 where s1: "mplex_step fr s x = Some (ds, s1)" "mpath cfg (core_of obs s) ds (core_of obs s1)"
    "config s1 = cfg"
    "next_outbound s1 = next_outbound s \<or> opens x \<and> LocalStreamId_next (next_outbound s) = Some (next_outbound s1)"
    using mplex_step_path [OF laws Cons.prems(1,2)] Cons.prems(3) by fastforce
  have num: "unat (local_num (next_outbound s1)) \<le> unat (local_num (next_outbound s)) + (if opens x then 1 else 0)"
    using s1(4) next_id_number by auto
  then have "unat (local_num (next_outbound s1)) + length (filter opens xs) < 2 ^ 64"
    using Cons.prems(4) by (auto split: if_splits)
  then obtain es s2 where "mplex_run fr xs s1 = Some (es, s2)" "mpath cfg (core_of obs s1) es (core_of obs s2)"
    "config s2 = cfg" "unat (local_num (next_outbound s2)) \<le> unat (local_num (next_outbound s1)) + length (filter opens xs)"
    using Cons.IH [OF mpath_inv [OF s1(2) Cons.prems(1)] s1(3)] Cons.prems(3) by auto
  then show ?case
    using s1(1) mpath_trans [OF _ s1(2)] num by (auto split: if_splits)
qed (simp add: mpath_refl)

definition initial_core :: "'r observers \<Rightarrow> 'r \<Rightarrow> core" where
  "initial_core obs r =
     \<lparr>c_sub = Mapping.empty, c_pending = [], c_block = None, c_next = LocalStreamId_dialer 0,
      c_in = delivered obs r, c_out = accepted obs r\<rparr>"

lemma new_core: "core_of obs (Multiplexed_new r cfg) = initial_core obs r"
  by (simp add: core_of_def Multiplexed_new_def initial_core_def)

lemma new_inv: "core_inv cfg (initial_core obs r)"
  by (simp add: core_inv_def initial_core_def LocalStreamId_dialer_def Mapping.size_def)

lemma mplex_run_new:
  fixes fr :: "('r, 'e) framed" and xs :: "('r, 'w) mplex_op list"
  assumes "framed_laws fr obs" "list_all (op_ok obs) xs" "length (filter opens xs) < 2 ^ 64"
  obtains ds s where "mplex_run fr xs (Multiplexed_new r cfg) = Some (ds, s)" "config s = cfg"
    "mpath cfg (initial_core obs r) ds (core_of obs s)" "core_inv cfg (core_of obs s)"
    "unat (local_num (next_outbound s)) \<le> length (filter opens xs)"
proof -
  define n :: "('r, 'w, 'e) Multiplexed" where "n = Multiplexed_new r cfg"
  have n: "core_of obs n = initial_core obs r" "config n = cfg" "unat (local_num (next_outbound n)) = 0"
    by (simp_all add: n_def new_core) (simp_all add: Multiplexed_new_def LocalStreamId_dialer_def)
  have "core_inv cfg (core_of obs n)" using n(1) new_inv by simp
  from mplex_run_path [OF assms(1) this n(2) assms(2)]
  obtain ds s where s: "mplex_run fr xs n = Some (ds, s)" "config s = cfg"
    "mpath cfg (initial_core obs r) ds (core_of obs s)"
    "unat (local_num (next_outbound s)) \<le> length (filter opens xs)"
    using assms(3) n by auto
  show thesis
    by (rule that [OF s(1) [unfolded n_def] s(2,3) mpath_inv [OF s(3) new_inv] s(4)])
qed

section \<open>Reading in order\<close>

lemma readable_snoc:
  "readable i (fs @ [f]) =
     (if \<exists>g \<in> set fs. ends i g then readable i fs
      else readable i fs @ (case f of Data ri d \<Rightarrow> if into_local ri = i then [d] else [] | _ \<Rightarrow> []))"
proof (induction fs)
  case Nil
  show ?case by (cases f) auto
next
  case (Cons g fs)
  then show ?case by (cases g) (auto simp: ends_def)
qed

lemma data_read_append: "data_read i (ds @ es) = data_read i ds @ data_read i es"
  by (simp add: data_read_def)

text \<open>
  The state of reading stream \<open>i\<close> after the frames \<open>fs\<close> and the deliveries \<open>ds\<close> since it was opened.
\<close>

definition reading :: "MplexConfig \<Rightarrow> LocalStreamId \<Rightarrow> RemoteStreamId Frame list \<Rightarrow> bytes list \<Rightarrow> core \<Rightarrow> bool" where
  "reading cfg i fs out c \<longleftrightarrow>
     (local_role i = Dialer \<longrightarrow> local_num i < local_num (c_next c)) \<and>
     ((\<forall>ri. into_local ri = i \<longrightarrow> Open ri \<notin> set fs) \<longrightarrow>
      (case Mapping.lookup (c_sub c) i of
         None \<Rightarrow> True
       | Some st \<Rightarrow>
           if recv_buf_open st \<noteq> None
           then out @ recv_buf st = readable i fs \<and> (\<forall>g \<in> set fs. \<not> ends i g)
           else (\<exists>rest. readable i fs = out @ recv_buf st @ rest) \<and>
                (max_buffer_behaviour cfg = Block \<longrightarrow>
                   out @ recv_buf st = readable i fs \<and> (\<exists>g \<in> set fs. ends i g))))"

lemma reading_sub:
  assumes "reading cfg i fs out c" "Mapping.lookup (c_sub c') i = Mapping.lookup (c_sub c) i" "c_next c' = c_next c"
  shows "reading cfg i fs out c'"
  using assms by (simp add: reading_def)

lemma reading_frame:
  assumes "reading cfg i fs out c" "Mapping.lookup (c_sub c') i = Mapping.lookup (c_sub c) i" "c_next c' = c_next c"
    and "\<forall>ri. into_local ri = i \<longrightarrow> (\<forall>d. f \<noteq> Data ri d) \<and> f \<noteq> Close ri \<and> f \<noteq> Reset ri"
  shows "reading cfg i (fs @ [f]) out c'"
proof -
  have e: "\<not> ends i f" using assms(4) by (auto simp: ends_def)
  have d: "(case f of Data ri d \<Rightarrow> if into_local ri = i then [d] else [] | _ \<Rightarrow> []) = []"
    using assms(4) by (cases f) auto
  show ?thesis
    using assms(1-3) e unfolding reading_def readable_snoc d by (auto split: option.splits)
qed

lemma reading_gone:
  assumes "reading cfg i fs out c" "Mapping.lookup (c_sub c') i = None"
    "local_num (c_next c) \<le> local_num (c_next c')"
  shows "reading cfg i fs' out' c'"
  using assms by (auto simp: reading_def)

lemma reading_step:
  assumes step: "mstep cfg c es c'" and inv: "core_inv cfg c" and rd: "reading cfg i fs out c"
  shows "\<exists>gs. c_in c' = c_in c @ gs \<and> reading cfg i (fs @ gs) (out @ data_read i es) c'"
  using step
proof cases
  case (m_clear gs)
  then show ?thesis using reading_gone [OF rd, of c'] by auto
next
  case (m_send_pending fs f)
  then show ?thesis using reading_sub [OF rd, of c'] by (auto simp: data_read_def)
next
  case (m_ignored f)
  show ?thesis
  proof (cases "\<exists>ri. into_local ri = i \<and> ((\<exists>d. f = Data ri d) \<or> f = Close ri \<or> f = Reset ri)")
    case True
    then have closed: "Option.bind (Mapping.lookup (c_sub c) i) recv_buf_open = None" using m_ignored(4) by auto
    have "reading cfg i (fs @ [f]) out c'"
      using rd m_ignored closed unfolding reading_def readable_snoc
      by (auto split: option.splits)
    then show ?thesis using m_ignored by (auto simp: data_read_def)
  next
    case False
    then show ?thesis using reading_frame [OF rd, of c' f] m_ignored by (auto simp: data_read_def)
  qed
next
  case (m_opened j ri)
  show ?thesis
  proof (cases "j = i")
    case True
    then have "reading cfg i (fs @ [Open ri]) out c'" using rd m_opened by (auto simp: reading_def)
    then show ?thesis using m_opened by (auto simp: data_read_def)
  next
    case False
    then show ?thesis
      using reading_frame [OF rd, of c' "Open ri"] m_opened by (auto simp: data_read_def Mapping.lookup_update')
  qed
next
  case (m_refused j ri)
  then show ?thesis using reading_frame [OF rd, of c' "Open ri"] by (auto simp: data_read_def)
next
  case (m_buffered j ri st b d)
  show ?thesis
  proof (cases "j = i")
    case True
    then have "reading cfg i (fs @ [Data ri d]) out c'"
      using rd m_buffered unfolding reading_def readable_snoc by (auto simp: recv_buf_open_Some ends_def)
    then show ?thesis using m_buffered by (auto simp: data_read_def)
  next
    case False
    then show ?thesis
      using reading_frame [OF rd, of c' "Data ri d"] m_buffered by (auto simp: data_read_def Mapping.lookup_update')
  qed
next
  case (m_blocked j ri st b d)
  show ?thesis
  proof (cases "j = i")
    case True
    then have "reading cfg i (fs @ [Data ri d]) out c'"
      using rd m_blocked unfolding reading_def readable_snoc by (auto simp: recv_buf_open_Some ends_def)
    then show ?thesis using m_blocked by (auto simp: data_read_def)
  next
    case False
    then show ?thesis
      using reading_frame [OF rd, of c' "Data ri d"] m_blocked by (auto simp: data_read_def Mapping.lookup_update')
  qed
next
  case (m_overflow j ri st b d)
  show ?thesis
  proof (cases "j = i")
    case True
    then have "reading cfg i (fs @ [Data ri d]) out c'"
      using rd m_overflow unfolding reading_def readable_snoc
      by (auto simp: recv_buf_open_Some ends_def) (metis append_assoc)+
    then show ?thesis using m_overflow by (auto simp: data_read_def)
  next
    case False
    then show ?thesis
      using reading_frame [OF rd, of c' "Data ri d"] m_overflow by (auto simp: data_read_def Mapping.lookup_update')
  qed
next
  case (m_direct j ri st d)
  show ?thesis
  proof (cases "j = i")
    case True
    then have "reading cfg i (fs @ [Data ri d]) (out @ [d]) c'"
      using rd m_direct unfolding reading_def readable_snoc by (auto simp: recv_buf_open_Some ends_def)
    then show ?thesis using m_direct True by (auto simp: data_read_def)
  next
    case False
    then show ?thesis
      using reading_frame [OF rd, of c' "Data ri d"] m_direct by (auto simp: data_read_def)
  qed
next
  case (m_recv_close j ri st)
  show ?thesis
  proof (cases "j = i")
    case True
    then have "reading cfg i (fs @ [Close ri]) out c'"
      using rd m_recv_close unfolding reading_def readable_snoc
      by (auto simp: ends_def) (metis append_Nil2 append_assoc)+
    then show ?thesis using m_recv_close by (auto simp: data_read_def)
  next
    case False
    then show ?thesis
      using reading_frame [OF rd, of c' "Close ri"] m_recv_close by (auto simp: data_read_def Mapping.lookup_update')
  qed
next
  case (m_recv_reset j ri st)
  show ?thesis
  proof (cases "j = i")
    case True
    then have "reading cfg i (fs @ [Reset ri]) out c'"
      using rd m_recv_reset unfolding reading_def readable_snoc by (auto simp: ends_def split: if_splits) (metis append_Nil2 append_assoc)+
    then show ?thesis using m_recv_reset by (auto simp: data_read_def)
  next
    case False
    then show ?thesis
      using reading_frame [OF rd, of c' "Reset ri"] m_recv_reset by (auto simp: data_read_def Mapping.lookup_update')
  qed
next
  case (m_recv_reset_removed j ri st)
  show ?thesis
  proof (cases "j = i")
    case True
    then show ?thesis using reading_gone [OF rd, of c'] m_recv_reset_removed by (auto simp: lookup_delete_if)
  next
    case False
    then show ?thesis
      using reading_frame [OF rd, of c' "Reset ri"] m_recv_reset_removed by (auto simp: data_read_def lookup_delete_if)
  qed
next
  case (m_read j st d rest)
  show ?thesis
  proof (cases "j = i")
    case True
    then have "reading cfg i fs (out @ [d]) c'"
      using rd m_read unfolding reading_def by (auto split: if_splits)
    then show ?thesis using m_read True by (auto simp: data_read_def)
  next
    case False
    then show ?thesis
      using reading_sub [OF rd, of c'] m_read by (auto simp: data_read_def Mapping.lookup_update')
  qed
next
  case (m_open n)
  have "c_next c \<noteq> i" using rd core_invD(4) [OF inv] by (auto simp: reading_def)
  then have "reading cfg i fs out c'"
    using rd m_open next_id_greater(1) [OF m_open(4)] by (auto simp: reading_def Mapping.lookup_update')
  then show ?thesis using m_open by (auto simp: data_read_def)
next
  case (m_open_failed n)
  then show ?thesis using reading_gone [OF rd, of c'] next_id_greater(1) [OF m_open_failed(3)] by auto
next
  case (m_write j st b d)
  then show ?thesis using reading_sub [OF rd, of c'] by (auto simp: data_read_def)
next
  case (m_close j st st' b)
  have "reading cfg i fs out c'"
    using rd m_close by (cases "j = i") (auto simp: reading_def Mapping.lookup_update')
  then show ?thesis using m_close by (auto simp: data_read_def)
next
  case (m_drop j st)
  then show ?thesis
    using reading_gone [OF rd, of c' fs out] reading_sub [OF rd, of c']
    by (cases "j = i") (auto simp: data_read_def lookup_delete_if)
next
  case (m_drop_frame j st f b)
  then show ?thesis
    using reading_gone [OF rd, of c' fs out] reading_sub [OF rd, of c']
    by (cases "j = i") (auto simp: data_read_def lookup_delete_if)
qed

lemma reading_path:
  "mpath cfg c ds c' \<Longrightarrow> core_inv cfg c \<Longrightarrow> reading cfg i fs out c \<Longrightarrow>
   \<exists>gs. c_in c' = c_in c @ gs \<and> reading cfg i (fs @ gs) (out @ data_read i ds) c'"
proof (induction rule: mpath.induct)
  case (mpath_step c ds c' es c'')
  then obtain gs where gs: "c_in c' = c_in c @ gs" "reading cfg i (fs @ gs) (out @ data_read i ds) c'" by blast
  from reading_step [OF mpath_step.hyps(2) mpath_inv [OF mpath_step.hyps(1) mpath_step.prems(1)] gs(2)]
  obtain hs where "c_in c'' = c_in c' @ hs"
    "reading cfg i ((fs @ gs) @ hs) ((out @ data_read i ds) @ data_read i es) c''" by blast
  then have "c_in c'' = c_in c @ (gs @ hs)" "reading cfg i (fs @ (gs @ hs)) (out @ data_read i (ds @ es)) c''"
    using gs(1) by (simp_all add: data_read_append)
  then show ?case by blast
qed (auto simp: data_read_def)

section \<open>Frames sent\<close>

lemma phase_after_append: "phase_after i (fs @ gs) ph = Option.bind (phase_after i fs ph) (phase_after i gs)"
  by (induction fs arbitrary: ph) (auto split: Option.bind_splits)

text \<open>
  How the state of a stream opened here relates to the frames sent for it: a queued frame of the
  stream is at most one, and the protocol accepts it.
\<close>

definition queued :: "LocalStreamId \<Rightarrow> core \<Rightarrow> LocalStreamId Frame list" where
  "queued i c = filter (\<lambda>f. stream_id f = i) (c_pending c)"

definition last_frame_ok :: "LocalStreamId \<Rightarrow> LocalStreamId Frame list \<Rightarrow> sent_phase \<Rightarrow> bool" where
  "last_frame_ok i fs ph \<longleftrightarrow>
     fs = [] \<or> fs = [Reset i] \<and> ph \<in> {Writing, Shut} \<or> fs = [Close i] \<and> ph = Writing"

fun send_ok :: "LocalStreamId \<Rightarrow> bool \<Rightarrow> SubstreamState option \<Rightarrow> LocalStreamId Frame list \<Rightarrow> sent_phase \<Rightarrow> bool" where
  "send_ok i used None fs ph \<longleftrightarrow> (if used then last_frame_ok i fs ph else ph = Fresh \<and> fs = [])"
| "send_ok i used (Some (SubOpen _)) fs ph \<longleftrightarrow> ph = Writing \<and> fs = []"
| "send_ok i used (Some (SubRecvClosed _)) fs ph \<longleftrightarrow> ph = Writing \<and> fs = []"
| "send_ok i used (Some (SubSendClosed _)) fs ph \<longleftrightarrow> ph = Shut \<and> fs = []"
| "send_ok i used (Some (SubClosed _)) fs ph \<longleftrightarrow> ph = Shut \<and> fs = []"
| "send_ok i used (Some (SubReset _)) fs ph \<longleftrightarrow> last_frame_ok i fs ph"

definition sending :: "LocalStreamId \<Rightarrow> sent_phase \<Rightarrow> core \<Rightarrow> bool" where
  "sending i ph c \<longleftrightarrow>
     send_ok i (local_num i < local_num (c_next c)) (Mapping.lookup (c_sub c) i) (queued i c) ph"

lemma next_id_between:
  assumes "LocalStreamId_next j = Some n"
  shows "x < local_num n \<longleftrightarrow> x \<le> local_num j"
proof -
  have n: "n = j\<lparr>local_num := local_num j + 1\<rparr>" "local_num j \<noteq> - 1"
    using assms by (auto simp: LocalStreamId_next_def split: if_splits)
  then have "1 + local_num j \<noteq> 0" by (metis add.commute add_eq_0_iff)
  then have "unat (1 + local_num j) = Suc (unat (local_num j))" by (rule unatSuc)
  then show ?thesis using n(1) by (simp add: word_less_nat_alt word_le_nat_alt add.commute less_Suc_eq_le)
qed

lemma inbound_id: "remote_role ri = Dialer \<Longrightarrow> local_role (into_local ri) = Listener"
  by (simp add: into_local_def)

lemma send_ok_set_recv_buf [simp]: "send_ok i u (Some (set_recv_buf b st)) fs ph \<longleftrightarrow> send_ok i u (Some st) fs ph"
  by (cases st) auto

lemma send_ok_recv_closed [simp]: "send_ok i u (Some (recv_closed st)) fs ph \<longleftrightarrow> send_ok i u (Some st) fs ph"
  by (cases st) auto

lemma send_ok_reset: "send_ok i u (Some st) fs ph \<Longrightarrow> send_ok i u (Some (SubReset b)) fs ph"
  by (cases st) (auto simp: last_frame_ok_def)

lemma send_ok_removed: "send_ok i True (Some st) fs ph \<Longrightarrow> send_ok i True None fs ph"
  by (cases st) (auto simp: last_frame_ok_def)

lemma sending_kept:
  assumes "sending i ph c" "Mapping.lookup (c_sub c') i = Mapping.lookup (c_sub c) i"
    "queued i c' = queued i c" "c_next c' = c_next c" "c_out c' = c_out c"
  shows "\<exists>gs ph'. c_out c' = c_out c @ gs \<and> phase_after i gs ph = Some ph' \<and> sending i ph' c'"
proof -
  have "sending i ph c'" using assms by (simp add: sending_def)
  then show ?thesis using assms(5) by (metis append_Nil2 phase_after.simps(1))
qed

lemma sending_other:
  assumes "sending i ph c" "Mapping.lookup (c_sub c') i = Mapping.lookup (c_sub c) i"
    "queued i c' = queued i c" "c_next c' = c_next c" "c_out c' = c_out c @ [f]" "stream_id f \<noteq> i"
  shows "\<exists>gs ph'. c_out c' = c_out c @ gs \<and> phase_after i gs ph = Some ph' \<and> sending i ph' c'"
proof -
  have "sending i ph c'" "phase_after i [f] ph = Some ph" using assms by (simp_all add: sending_def)
  then show ?thesis using assms(5) by blast
qed

lemma sending_removed:
  assumes inv: "core_inv cfg c" and i: "local_role i = Dialer" and snd: "sending i ph c"
    and st: "Mapping.lookup (c_sub c) i = Some st" "Mapping.lookup (c_sub c') i = None"
    and eq: "queued i c' = queued i c" "c_next c' = c_next c" "c_out c' = c_out c"
  shows "\<exists>gs ph'. c_out c' = c_out c @ gs \<and> phase_after i gs ph = Some ph' \<and> sending i ph' c'"
proof -
  have "local_num i < local_num (c_next c)" using core_invD(8) [OF inv i] st(1) by simp
  then have "sending i ph c'" using snd st eq send_ok_removed unfolding sending_def by fastforce
  then show ?thesis using eq(3) by (metis append_Nil2 phase_after.simps(1))
qed

lemma send_ok_last:
  assumes "send_ok i u st (fs @ [f]) ph"
  shows "\<exists>ph'. next_phase f ph = Some ph' \<and> send_ok i u st fs ph'"
  using assms by (cases "(i, u, st, fs @ [f], ph)" rule: send_ok.cases) (auto simp: last_frame_ok_def split: if_splits)

lemma sending_step:
  assumes step: "mstep cfg c es c'" and inv: "core_inv cfg c" and i: "local_role i = Dialer" and snd: "sending i ph c"
  shows "\<exists>gs ph'. c_out c' = c_out c @ gs \<and> phase_after i gs ph = Some ph' \<and> sending i ph' c'"
  using step
proof cases
  case (m_clear gs)
  then have "sending i ph c'" using snd core_invD(8) [OF inv i] unfolding sending_def queued_def
    by (cases "Mapping.lookup (c_sub c) i") (auto simp: last_frame_ok_def)
  then show ?thesis using m_clear by auto
next
  case (m_send_pending fs f)
  show ?thesis
  proof (cases "stream_id f = i")
    case True
    then have q: "queued i c = queued i c' @ [f]" using m_send_pending by (simp add: queued_def)
    then obtain ph' where "next_phase f ph = Some ph'" "sending i ph' c'"
      using send_ok_last snd m_send_pending unfolding sending_def by fastforce
    then show ?thesis using m_send_pending True by (intro exI [of _ "[f]"] exI [of _ ph']) simp
  next
    case False
    then show ?thesis using sending_other [OF snd, of c' f] m_send_pending by (simp add: queued_def)
  qed
next
  case (m_ignored f)
  then show ?thesis using sending_kept [OF snd, of c'] by (simp add: queued_def)
next
  case (m_opened j ri)
  then have "j \<noteq> i" using i inbound_id by auto
  then show ?thesis using m_opened sending_kept [OF snd, of c'] by (simp add: queued_def Mapping.lookup_update')
next
  case (m_refused j ri)
  then have "j \<noteq> i" using i inbound_id by auto
  then show ?thesis using m_refused sending_kept [OF snd, of c'] by (simp add: queued_def)
next
  case (m_buffered j ri st b d)
  then have "sending i ph c'" using snd by (auto simp: sending_def queued_def Mapping.lookup_update')
  then show ?thesis using m_buffered by auto
next
  case (m_blocked j ri st b d)
  then have "sending i ph c'" using snd by (auto simp: sending_def queued_def Mapping.lookup_update')
  then show ?thesis using m_blocked by auto
next
  case (m_overflow j ri st b d)
  then have "sending i ph c'" using snd
    by (cases st) (auto simp: sending_def queued_def Mapping.lookup_update' last_frame_ok_def)
  then show ?thesis using m_overflow by auto
next
  case (m_direct j ri st d)
  then show ?thesis using sending_kept [OF snd, of c'] by (simp add: queued_def)
next
  case (m_recv_close j ri st)
  then have "sending i ph c'" using snd by (auto simp: sending_def queued_def Mapping.lookup_update')
  then show ?thesis using m_recv_close by auto
next
  case (m_recv_reset j ri st)
  then have "sending i ph c'" using snd send_ok_reset
    by (auto simp: sending_def queued_def Mapping.lookup_update' simp del: send_ok.simps)
  then show ?thesis using m_recv_reset by auto
next
  case (m_recv_reset_removed j ri st)
  then show ?thesis
    using sending_kept [OF snd, of c'] sending_removed [OF inv i snd, of st c']
    by (cases "j = i") (auto simp: queued_def lookup_delete_if)
next
  case (m_read j st d rest)
  then have "sending i ph c'" using snd by (auto simp: sending_def queued_def Mapping.lookup_update')
  then show ?thesis using m_read by auto
next
  case (m_open n)
  note used = next_id_between [OF m_open(4), of "local_num i"]
  show ?thesis
  proof (cases "c_next c = i")
    case True
    then have "Mapping.lookup (c_sub c) i = None"
      using core_invD(8) [OF inv i] by (metis order_less_irrefl)
    then have "ph = Fresh" "sending i Writing c'"
      using snd m_open True by (auto simp: sending_def queued_def)
    then show ?thesis using m_open True by (intro exI [of _ "[Open i]"] exI [of _ Writing]) simp
  next
    case False
    then have "local_num i \<noteq> local_num (c_next c)" using i core_invD(4) [OF inv] by auto
    then have "sending i ph c'" "phase_after i [Open (c_next c)] ph = Some ph"
      using snd m_open used False by (auto simp: sending_def queued_def Mapping.lookup_update' order.order_iff_strict)
    then show ?thesis using m_open by auto
  qed
next
  case (m_open_failed n)
  have "sending i ph c'"
    using snd m_open_failed next_id_between [OF m_open_failed(3), of "local_num i"] core_invD(8) [OF inv i]
    unfolding sending_def queued_def
    by (cases "Mapping.lookup (c_sub c) i") (auto simp: last_frame_ok_def)
  then show ?thesis using m_open_failed by auto
next
  case (m_write j st b d)
  then show ?thesis using sending_other [OF snd, of c' "Data j d"] snd
    by (cases "j = i") (auto simp: sending_def queued_def)
next
  case (m_close j st st' b)
  then show ?thesis using sending_other [OF snd, of c' "Close j"] snd
    by (cases "j = i") (auto simp: sending_def queued_def Mapping.lookup_update')
next
  case (m_drop j st)
  then show ?thesis
    using sending_kept [OF snd, of c'] sending_removed [OF inv i snd, of st c']
    by (cases "j = i") (auto simp: queued_def lookup_delete_if)
next
  case (m_drop_frame j st f b)
  show ?thesis
  proof (cases "j = i")
    case True
    then have "sending i ph c'"
      using m_drop_frame snd core_invD(8) [OF inv i]
      by (auto simp: sending_def queued_def lookup_delete_if last_frame_ok_def)
    then show ?thesis using m_drop_frame by auto
  next
    case False
    then show ?thesis
      using sending_kept [OF snd, of c'] m_drop_frame by (auto simp: queued_def lookup_delete_if)
  qed
qed

lemma sending_path:
  "mpath cfg c ds c' \<Longrightarrow> core_inv cfg c \<Longrightarrow> local_role i = Dialer \<Longrightarrow> sending i ph c \<Longrightarrow>
   \<exists>gs ph'. c_out c' = c_out c @ gs \<and> phase_after i gs ph = Some ph' \<and> sending i ph' c'"
proof (induction rule: mpath.induct)
  case (mpath_refl c)
  then show ?case using sending_kept [of i ph c c] by simp
next
  case (mpath_step c ds c' es c'')
  then obtain gs ph' where gs: "c_out c' = c_out c @ gs" "phase_after i gs ph = Some ph'" "sending i ph' c'" by blast
  from sending_step [OF mpath_step.hyps(2) mpath_inv [OF mpath_step.hyps(1) mpath_step.prems(1)] mpath_step.prems(2) gs(3)]
  obtain hs ph'' where "c_out c'' = c_out c' @ hs" "phase_after i hs ph' = Some ph''" "sending i ph'' c''" by blast
  then show ?case using gs
    by (intro exI [of _ "gs @ hs"] exI [of _ ph'']) (simp add: phase_after_append)
qed

section \<open>A blocking stream that is gone\<close>

definition stuck :: "LocalStreamId \<Rightarrow> core \<Rightarrow> bool" where
  "stuck b c \<longleftrightarrow> c_block c = Some b \<and> Mapping.lookup (c_sub c) b = None"

lemma stuck_step:
  assumes "mstep cfg c es c'" and inv: "core_inv cfg c" and "stuck b c"
  shows "stuck b c' \<and> c_in c' = c_in c"
proof -
  have "c_next c \<noteq> b" using core_invD(4) [OF inv] core_invD(8) [OF inv, of b] assms(3) by (auto simp: stuck_def)
  with assms(1,3) show ?thesis
    by (auto elim!: mstep.cases simp: stuck_def Mapping.lookup_update' lookup_delete_if)
qed

lemma stuck_path:
  "mpath cfg c ds c' \<Longrightarrow> core_inv cfg c \<Longrightarrow> stuck b c \<Longrightarrow> stuck b c' \<and> c_in c' = c_in c"
proof (induction rule: mpath.induct)
  case (mpath_step c ds c' es c'')
  then show ?case using stuck_step [OF mpath_step.hyps(2) mpath_inv [OF mpath_step.hyps(1)]] by auto
qed simp

lemma drop_stream_sub:
  assumes "drop_stream i s = Some s'" "status s = StatusOpen"
  shows "Mapping.lookup (substreams s') i = None" "blocking_stream s' = blocking_stream s"
    "delivered obs (io s') = delivered obs (io s)" "next_outbound s' = next_outbound s"
proof -
  have "Mapping.lookup (substreams s') i = None \<and> blocking_stream s' = blocking_stream s \<and> io s' = io s \<and>
      next_outbound s' = next_outbound s"
    using assms unfolding drop_stream_def
    by (auto simp: Let_def check_max_pending_frames_cases lookup_delete_if on_error_def
        split: option.splits SubstreamState.splits if_splits bind_splits)
  then show "Mapping.lookup (substreams s') i = None" "blocking_stream s' = blocking_stream s"
    "delivered obs (io s') = delivered obs (io s)" "next_outbound s' = next_outbound s"
    by simp_all
qed

section \<open>An example of an I/O resource\<close>

text \<open>Queues of frames in both directions, which never fail.\<close>

record queues =
  to_read :: "RemoteStreamId Frame list"
  was_read :: "RemoteStreamId Frame list"
  was_sent :: "LocalStreamId Frame list"

fun role_ok :: "RemoteStreamId Frame \<Rightarrow> bool" where
  "role_ok (Open ri) \<longleftrightarrow> remote_role ri = Dialer"
| "role_ok _ \<longleftrightarrow> True"

definition queue_io :: "(queues, unit) framed" where
  "queue_io =
     \<lparr>f_ready = (\<lambda>r. (Ready (Inr ()), r)),
      f_send = (\<lambda>f r. (Inr (), r\<lparr>was_sent := was_sent r @ [f]\<rparr>)),
      f_flush = (\<lambda>r. (Ready (Inr ()), r)),
      f_close = (\<lambda>r. (Ready (Inr ()), r)),
      f_next = (\<lambda>r. case to_read r of
          [] \<Rightarrow> (Pending, r)
        | f # fs \<Rightarrow> if role_ok f then (Ready (Some (Inr f)), r\<lparr>to_read := fs, was_read := was_read r @ [f]\<rparr>)
                    else (Pending, r))\<rparr>"

definition queue_obs :: "queues observers" where
  "queue_obs = \<lparr>delivered = was_read, accepted = was_sent, available = (\<lambda>r. length (to_read r))\<rparr>"

lemma queue_laws: "framed_laws queue_io queue_obs"
  by (auto simp: framed_laws_def unobserved_def queue_io_def queue_obs_def split: list.splits)

definition arriving :: "RemoteStreamId Frame list \<Rightarrow> queues" where
  "arriving fs = \<lparr>to_read = fs, was_read = [], was_sent = []\<rparr>"

definition inbound :: RemoteStreamId where
  "inbound = \<lparr>remote_num = 0, remote_role = Dialer\<rparr>"

lemma open_run:
  "\<exists>s. mplex_run queue_io [OpenStream (0 :: nat)] (Multiplexed_new (arriving fs) MplexConfig_default) = Some ([], s) \<and>
     Mapping.lookup (substreams s) (LocalStreamId_dialer 0) = Some (SubOpen []) \<and> was_read (io s) = []"
  by (simp add: poll_open_stream_def Multiplexed_new_def guard_open_def MplexConfig_default_def send_pending_frames.simps
      poll_send_frame_def NotifierWrite_register_def queue_io_def arriving_def take_outbound_id_def
      LocalStreamId_next_def LocalStreamId_dialer_def Let_def Mapping.size_def)

definition blocked_state :: "(queues, nat, unit) Multiplexed" where
  "blocked_state =
     (Multiplexed_new \<lparr>to_read = [Data inbound [3]], was_read = [Open inbound, Data inbound [1], Data inbound [2]],
                        was_sent = []\<rparr> (set_max_buffer_size 1 MplexConfig_default))
       \<lparr>blocking_stream := Some (into_local inbound),
        substreams := Mapping.update (into_local inbound) (SubOpen [[1], [2]]) Mapping.empty,
        next_stream := Some 0, woken := {0}\<rparr>"

lemma blocked_run:
  "mplex_run queue_io [NextStream 0, NextStream 0, NextStream 0]
     (Multiplexed_new (arriving [Open inbound, Data inbound [1], Data inbound [2], Data inbound [3]])
        (set_max_buffer_size 1 MplexConfig_default)) = Some ([], blocked_state)"
proof -
  note defs = poll_next_stream_def guard_open_def poll_read_frame_def send_pending_frames.simps
    read_frame_unblocked_def Let_def register_next_stream_def on_open_def Mapping.size_def buffer_data_def
    wake_read_stream_def wake_current_def Multiplexed_new_def set_max_buffer_size_def MplexConfig_default_def
    mapping_update_twice
  define cfg where "cfg = set_max_buffer_size 1 MplexConfig_default"
  define s1 :: "(queues, nat, unit) Multiplexed" where
    "s1 = (Multiplexed_new \<lparr>to_read = [Data inbound [1], Data inbound [2], Data inbound [3]],
                            was_read = [Open inbound], was_sent = []\<rparr> cfg)
       \<lparr>substreams := Mapping.update (into_local inbound) (SubOpen []) Mapping.empty, next_stream := Some 0\<rparr>"
  define s2 :: "(queues, nat, unit) Multiplexed" where
    "s2 = (Multiplexed_new \<lparr>to_read = [Data inbound [2], Data inbound [3]],
                            was_read = [Open inbound, Data inbound [1]], was_sent = []\<rparr> cfg)
       \<lparr>substreams := Mapping.update (into_local inbound) (SubOpen [[1]]) Mapping.empty,
        next_stream := Some 0, woken := {0}\<rparr>"
  have "poll_next_stream queue_io 0
      (Multiplexed_new (arriving [Open inbound, Data inbound [1], Data inbound [2], Data inbound [3]]) cfg) =
      Some (Ready (Inr (into_local inbound)), s1)"
    unfolding cfg_def s1_def
    by (simp add: defs) (subst next_stream_loop.simps, simp add: defs queue_io_def arriving_def inbound_def)
  moreover have "poll_next_stream queue_io 0 s1 = Some (Pending, s2)"
    unfolding cfg_def s1_def s2_def
    by (simp add: defs)
      (subst next_stream_loop.simps, simp add: defs queue_io_def, subst next_stream_loop.simps, simp add: defs)
  moreover have "poll_next_stream queue_io 0 s2 = Some (Pending, blocked_state)"
    unfolding cfg_def s2_def blocked_state_def
    by (simp add: defs)
      (subst next_stream_loop.simps, simp add: defs queue_io_def, subst next_stream_loop.simps, simp add: defs)
  ultimately show ?thesis by (simp add: cfg_def)
qed

section \<open>Properties\<close>

lemma mplex_run_split:
  fixes fr :: "('r, 'e) framed" and xs ys :: "('r, 'w) mplex_op list"
  assumes laws: "framed_laws fr obs" and ok: "list_all (op_ok obs) (xs @ ys)"
    and room: "length (filter opens (xs @ ys)) < 2 ^ 64"
    and run: "mplex_run fr xs (Multiplexed_new r cfg) = Some (ds, s)"
  obtains "core_inv cfg (core_of obs s)" "config s = cfg"
    "unat (local_num (next_outbound s)) + length (filter opens ys) < 2 ^ 64"
proof -
  have "list_all (op_ok obs) xs" "length (filter opens xs) < 2 ^ 64" using ok room by auto
  from mplex_run_new [OF laws this, of r cfg]
  have "config s = cfg" "core_inv cfg (core_of obs s)" "unat (local_num (next_outbound s)) \<le> length (filter opens xs)"
    using run by auto
  then show thesis using that room by simp
qed



text \<open>
  C3. The reader of a stream gets the data of the stream, in order and without loss. From a state of
  a run where stream \<open>i\<close> is open for reading and has nothing buffered, let the run go on and let
  \<open>fs\<close> be the frames received from then on, with no new \<open>Open\<close> for the stream. While the stream
  exists, the data handed to its readers followed by what is in its buffer is the beginning of the data
  the peer sent on it before ending it. It is all of that data unless an overflowing buffer has reset the
  stream, which is never the case while the stream is open for reading or when the behaviour is
  \<open>Block\<close>; and then the stream is closed for reading only if the peer ended it.
\<close>
theorem mplex_reads_in_order:
  fixes fr :: "('r, 'e) framed" and xs ys :: "('r, 'w) mplex_op list"
  assumes "framed_laws fr obs" "list_all (op_ok obs) (xs @ ys)" "length (filter opens (xs @ ys)) < 2 ^ 64"
    and "mplex_run fr xs (Multiplexed_new r cfg) = Some (ds, s)"
    and new: "Mapping.lookup (substreams s) i = Some st" "recv_buf_open st = Some []"
  shows "\<exists>es s' fs. mplex_run fr ys s = Some (es, s') \<and> delivered obs (io s') = delivered obs (io s) @ fs \<and>
    (\<forall>st'. Mapping.lookup (substreams s') i = Some st' \<longrightarrow> (\<forall>ri. into_local ri = i \<longrightarrow> Open ri \<notin> set fs) \<longrightarrow>
       (\<exists>rest. readable i fs = data_read i es @ recv_buf st' @ rest) \<and>
       (recv_buf_open st' \<noteq> None \<or> max_buffer_behaviour cfg = Block \<longrightarrow>
          data_read i es @ recv_buf st' = readable i fs \<and>
          (recv_buf_open st' = None \<longleftrightarrow> (\<exists>g \<in> set fs. ends i g))))"
proof -
  have s: "core_inv cfg (core_of obs s)" "config s = cfg"
    "unat (local_num (next_outbound s)) + length (filter opens ys) < 2 ^ 64"
    by (rule mplex_run_split [OF assms(1-4)]; assumption)+
  obtain es s' where run: "mplex_run fr ys s = Some (es, s')" "mpath cfg (core_of obs s) es (core_of obs s')"
    using mplex_run_path [OF assms(1) s(1,2) _ s(3)] assms(2) by auto
  have "reading cfg i [] [] (core_of obs s)"
    using new core_invD(8) [OF s(1)] recv_buf_open_Some [OF new(2)] by (auto simp: reading_def core_of_def)
  from reading_path [OF run(2) s(1) this]
  obtain fs where fs: "c_in (core_of obs s') = c_in (core_of obs s) @ fs"
    "reading cfg i fs (data_read i es) (core_of obs s')" by auto
  have "\<exists>rest. readable i fs = data_read i es @ recv_buf st' @ rest" if "data_read i es @ recv_buf st' = readable i fs" for st'
    using that by (metis append_Nil2 append_assoc)
  then show ?thesis
    using run(1) fs
    by (intro exI [of _ es] exI [of _ s'] exI [of _ fs]) (auto simp: reading_def core_of_def split: if_splits)
qed

theorem mplex_reads_in_order_witness:
  "\<exists>ds s. mplex_run queue_io [OpenStream (0 :: nat)]
       (Multiplexed_new (arriving [Data (into_remote (LocalStreamId_dialer 0)) [1, 2]]) MplexConfig_default) = Some (ds, s) \<and>
     (\<exists>es s' fs. mplex_run queue_io [ReadStream 0 (LocalStreamId_dialer 0)] s = Some (es, s') \<and> was_read (io s') = fs \<and>
        (\<forall>st'. Mapping.lookup (substreams s') (LocalStreamId_dialer 0) = Some st' \<longrightarrow>
           (\<forall>ri. into_local ri = LocalStreamId_dialer 0 \<longrightarrow> Open ri \<notin> set fs) \<longrightarrow>
           data_read (LocalStreamId_dialer 0) es @ recv_buf st' = readable (LocalStreamId_dialer 0) fs))"
proof -
  obtain s where s: "mplex_run queue_io [OpenStream (0 :: nat)]
       (Multiplexed_new (arriving [Data (into_remote (LocalStreamId_dialer 0)) [1, 2]]) MplexConfig_default) = Some ([], s)"
    "Mapping.lookup (substreams s) (LocalStreamId_dialer 0) = Some (SubOpen [])" "was_read (io s) = []"
    using open_run by blast
  from mplex_reads_in_order [OF queue_laws _ _ s(1,2), of "[ReadStream 0 (LocalStreamId_dialer 0)]"]
  show ?thesis using s(1,3) by (simp add: queue_obs_def MplexConfig_default_def) blast
qed

text \<open>
  C9. The frames sent for a stream that was opened here follow the protocol in every run: one \<open>Open\<close>
  first, then data, at most one \<open>Close\<close>, at most one \<open>Reset\<close>, no data after \<open>Close\<close> and nothing
  after \<open>Reset\<close>; an id is never opened twice.
\<close>
theorem mplex_frames_sent:
  fixes fr :: "('r, 'e) framed" and xs :: "('r, 'w) mplex_op list"
  assumes "framed_laws fr obs" "list_all (op_ok obs) xs" "length (filter opens xs) < 2 ^ 64"
    and i: "local_role i = Dialer"
  shows "\<exists>ds s fs ph. mplex_run fr xs (Multiplexed_new r cfg) = Some (ds, s) \<and>
    accepted obs (io s) = accepted obs r @ fs \<and> phase_after i fs Fresh = Some ph"
proof -
  obtain ds s where s: "mplex_run fr xs (Multiplexed_new r cfg) = Some (ds, s)"
    "mpath cfg (initial_core obs r) ds (core_of obs s)"
    by (rule mplex_run_new [OF assms(1-3), of r cfg])
  have "sending i Fresh (initial_core obs r)"
    by (simp add: sending_def initial_core_def queued_def LocalStreamId_dialer_def)
  from sending_path [OF s(2) new_inv i this]
  show ?thesis using s(1) by (auto simp: core_of_def initial_core_def)
qed

theorem mplex_frames_sent_witness:
  "\<exists>ds s fs ph. mplex_run queue_io
       [OpenStream (0 :: nat), WriteStream 0 (LocalStreamId_dialer 0) [1], DropStream (LocalStreamId_dialer 0), Flush 0]
       (Multiplexed_new (arriving []) MplexConfig_default) = Some (ds, s) \<and>
     was_sent (io s) = fs \<and> phase_after (LocalStreamId_dialer 0) fs Fresh = Some ph"
  using mplex_frames_sent [OF queue_laws, of
      "[OpenStream (0 :: nat), WriteStream 0 (LocalStreamId_dialer 0) [1], DropStream (LocalStreamId_dialer 0), Flush 0]"
      "LocalStreamId_dialer 0" "arriving []" MplexConfig_default]
  by (simp add: LocalStreamId_dialer_def queue_obs_def arriving_def)

text \<open>
  C39. Dropping the stream whose full buffer blocks the connection leaves the connection blocked: no
  frame is read from it ever again, whatever is done with the other streams, because only a read on the
  dropped stream would unblock it.
\<close>
theorem mplex_drop_blocks_reading:
  fixes fr :: "('r, 'e) framed" and xs ys :: "('r, 'w) mplex_op list"
  assumes "framed_laws fr obs" "list_all (op_ok obs) (xs @ ys)" "length (filter opens (xs @ ys)) < 2 ^ 64"
    and "mplex_run fr xs (Multiplexed_new r cfg) = Some (ds, s)"
    and "status s = StatusOpen" and "blocking_stream s = Some b"
  shows "\<exists>s1 es s2. drop_stream b s = Some s1 \<and> mplex_run fr ys s1 = Some (es, s2) \<and>
    blocking_stream s2 = Some b \<and> delivered obs (io s2) = delivered obs (io s)"
proof -
  have s: "core_inv cfg (core_of obs s)" "config s = cfg"
    "unat (local_num (next_outbound s)) + length (filter opens ys) < 2 ^ 64"
    by (rule mplex_run_split [OF assms(1-4)]; assumption)+
  obtain s1 where s1: "drop_stream b s = Some s1" "mpath cfg (core_of obs s) [] (core_of obs s1)" "config s1 = cfg"
    using drop_stream_result [OF s(1,2), of b] s(2) by (auto simp: loop_result_def steady_def)
  note drop = drop_stream_sub [OF s1(1) assms(5)]
  have inv: "core_inv cfg (core_of obs s1)" by (rule mpath_inv [OF s1(2) s(1)])
  obtain es s2 where run: "mplex_run fr ys s1 = Some (es, s2)" "mpath cfg (core_of obs s1) es (core_of obs s2)"
    using mplex_run_path [OF assms(1) inv s1(3), of ys] assms(2) s(3) drop(4) by auto
  have "stuck b (core_of obs s1)" using drop assms(6) by (simp add: stuck_def core_of_def)
  from stuck_path [OF run(2) inv this]
  show ?thesis using s1(1) run(1) drop(3) by (auto simp: stuck_def core_of_def)
qed

theorem mplex_drop_blocks_reading_witness:
  "\<exists>ds s s1 es s2. mplex_run queue_io [NextStream (0 :: nat), NextStream 0, NextStream 0]
        (Multiplexed_new (arriving [Open inbound, Data inbound [1], Data inbound [2], Data inbound [3]])
           (set_max_buffer_size 1 MplexConfig_default)) = Some (ds, s) \<and>
     drop_stream (into_local inbound) s = Some s1 \<and>
     mplex_run queue_io [NextStream 0, NextStream 0] s1 = Some (es, s2) \<and> was_read (io s2) = was_read (io s)"
proof -
  have "status blocked_state = StatusOpen" "blocking_stream blocked_state = Some (into_local inbound)"
    by (simp_all add: blocked_state_def Multiplexed_new_def)
  from mplex_drop_blocks_reading [OF queue_laws _ _ blocked_run this, of "[NextStream 0, NextStream 0]"]
  show ?thesis using blocked_run by (simp only: queue_obs_def) (simp, blast)
qed

end
