(* ===== verification/Multistream_Framing.thy ===== *)
theory Multistream_Framing
  imports Varint Async_Io
begin

text \<open>
  Length-delimited frames of multistream-select: \<open>misc/multistream-select/src/length_delimited.rs\<close>.

  The underlying I/O resource is a parameter: a record of its \<open>poll_read\<close>, \<open>poll_write\<close>, \<open>poll_flush\<close>
  and \<open>poll_close\<close> on a state of any type. A read is given the size of the buffer and returns the
  bytes it put there; a write returns how many bytes it took. What the framing relies on of it is
  stated as \<open>delivers\<close> and \<open>accepts_writes\<close>. The 16-bit varint encoder and decoder are parameters
  (theory Varint). Capacity reservations have no effect and are left out.
\<close>

section \<open>Definitions: asynchronous I/O\<close>

record 'r transport =
  t_read :: "nat \<Rightarrow> 'r \<Rightarrow> (io_error + bytes) poll \<times> 'r"
  t_write :: "bytes \<Rightarrow> 'r \<Rightarrow> (io_error + nat) poll \<times> 'r"
  t_write_vectored :: "bytes list \<Rightarrow> 'r \<Rightarrow> (io_error + nat) poll \<times> 'r"
  t_flush :: "'r \<Rightarrow> (io_error + unit) poll \<times> 'r"
  t_close :: "'r \<Rightarrow> (io_error + unit) poll \<times> 'r"

section \<open>Definitions: the framed resource\<close>

definition MAX_LEN_BYTES :: nat where
  "MAX_LEN_BYTES = 2"

definition MAX_FRAME_LEN :: nat where
  "MAX_FRAME_LEN = 2 ^ (MAX_LEN_BYTES * 8 - MAX_LEN_BYTES) - 1"

datatype ReadState = ReadLength bytes nat | ReadData nat nat

definition ReadState_default :: ReadState where
  "ReadState_default = ReadLength (replicate MAX_LEN_BYTES 0) 0"

record 'r LengthDelimited =
  ld_inner :: 'r
  ld_read_buffer :: bytes
  ld_write_buffer :: bytes
  ld_read_state :: ReadState

definition LD_new :: "'r \<Rightarrow> 'r LengthDelimited" where
  "LD_new r = \<lparr>ld_inner = r, ld_read_buffer = [], ld_write_buffer = [], ld_read_state = ReadState_default\<rparr>"

definition LD_into_inner :: "'r LengthDelimited \<Rightarrow> 'r option" where
  "LD_into_inner s = (if ld_read_buffer s = [] \<and> ld_write_buffer s = [] then Some (ld_inner s) else None)"

text \<open>\<open>advance(n)\<close> panics if fewer than \<open>n\<close> bytes are left.\<close>

function LD_poll_write_buffer :: "'r transport \<Rightarrow> 'r LengthDelimited \<Rightarrow> ((io_error + unit) poll \<times> 'r LengthDelimited) option" where
  "LD_poll_write_buffer tr s =
     (if ld_write_buffer s = [] then Some (Ready (Inr ()), s)
      else case t_write tr (ld_write_buffer s) (ld_inner s) of
             (Pending, r) \<Rightarrow> Some (Pending, s\<lparr>ld_inner := r\<rparr>)
           | (Ready (Inl e), r) \<Rightarrow> Some (Ready (Inl e), s\<lparr>ld_inner := r\<rparr>)
           | (Ready (Inr n), r) \<Rightarrow>
               if n = 0 then Some (Ready (Inl WriteZero), s\<lparr>ld_inner := r\<rparr>)
               else if n > length (ld_write_buffer s) then None
               else LD_poll_write_buffer tr (s\<lparr>ld_inner := r, ld_write_buffer := drop n (ld_write_buffer s)\<rparr>))"
  by pat_completeness auto
termination by (relation "measure (\<lambda>(_, s). length (ld_write_buffer s))") auto

declare LD_poll_write_buffer.simps [simp del]

definition resize :: "nat \<Rightarrow> bytes \<Rightarrow> bytes" where
  "resize n bs = take n bs @ replicate (n - length bs) 0"

text \<open>
  The \<open>loop\<close> of \<open>poll_next\<close>. The slices \<open>buf[pos..pos + 1]\<close> and \<open>read_buffer[pos..]\<close> panic if they are
  out of range, as does a read that reports more bytes than it was given room for.
\<close>

function LD_poll_next :: "uvi_decode \<Rightarrow> 'r transport \<Rightarrow> 'r LengthDelimited
    \<Rightarrow> ((io_error + bytes) option poll \<times> 'r LengthDelimited) option" where
  "LD_poll_next dec tr s =
     (case ld_read_state s of
        ReadLength buf pos \<Rightarrow>
          if pos \<ge> length buf then None
          else (case t_read tr 1 (ld_inner s) of
             (Pending, r) \<Rightarrow> Some (Pending, s\<lparr>ld_inner := r\<rparr>)
           | (Ready (Inl e), r) \<Rightarrow> Some (Ready (Some (Inl e)), s\<lparr>ld_inner := r\<rparr>)
           | (Ready (Inr []), r) \<Rightarrow>
               Some (Ready (if pos = 0 then None else Some (Inl UnexpectedEof)), s\<lparr>ld_inner := r\<rparr>)
           | (Ready (Inr (b # bs)), r) \<Rightarrow>
               if bs \<noteq> [] then None
               else
                 (let buf' = buf[pos := b]; pos' = pos + 1;
                      s' = s\<lparr>ld_inner := r, ld_read_state := ReadLength buf' pos'\<rparr>
                  in if b AND 0x80 = 0 then
                       (case dec buf' of
                          Inl e \<Rightarrow> Some (Ready (Some (Inl InvalidData)), s')
                        | Inr (len, _) \<Rightarrow>
                            if len \<ge> 1
                            then LD_poll_next dec tr
                                   (s'\<lparr>ld_read_state := ReadData len 0, ld_read_buffer := resize len (ld_read_buffer s)\<rparr>)
                            else Some (Ready (Some (Inr [])), s'\<lparr>ld_read_state := ReadState_default\<rparr>))
                     else if pos' = MAX_LEN_BYTES then Some (Ready (Some (Inl InvalidData)), s')
                     else LD_poll_next dec tr s'))
      | ReadData len pos \<Rightarrow>
          if pos > length (ld_read_buffer s) then None
          else (case t_read tr (length (ld_read_buffer s) - pos) (ld_inner s) of
             (Pending, r) \<Rightarrow> Some (Pending, s\<lparr>ld_inner := r\<rparr>)
           | (Ready (Inl e), r) \<Rightarrow> Some (Ready (Some (Inl e)), s\<lparr>ld_inner := r\<rparr>)
           | (Ready (Inr bs), r) \<Rightarrow>
               if bs = [] then Some (Ready (Some (Inl UnexpectedEof)), s\<lparr>ld_inner := r\<rparr>)
               else if length bs > length (ld_read_buffer s) - pos then None
               else
                 (let rb = take pos (ld_read_buffer s) @ bs @ drop (pos + length bs) (ld_read_buffer s);
                      pos' = pos + length bs;
                      s' = s\<lparr>ld_inner := r, ld_read_buffer := rb, ld_read_state := ReadData len pos'\<rparr>
                  in if pos' = len
                     then Some (Ready (Some (Inr rb)), s'\<lparr>ld_read_buffer := [], ld_read_state := ReadState_default\<rparr>)
                     else LD_poll_next dec tr s')))"
  by pat_completeness auto
termination
  by (relation "measures [\<lambda>(_, _, s). case ld_read_state s of ReadLength _ _ \<Rightarrow> 1 | _ \<Rightarrow> 0,
        \<lambda>(_, _, s). case ld_read_state s of ReadLength buf pos \<Rightarrow> length buf - pos | ReadData len pos \<Rightarrow> length (ld_read_buffer s) - pos]")
     (auto simp: neq_Nil_conv)

declare LD_poll_next.simps [simp del]

definition LD_poll_ready :: "'r transport \<Rightarrow> 'r LengthDelimited \<Rightarrow> ((io_error + unit) poll \<times> 'r LengthDelimited) option" where
  "LD_poll_ready tr s =
     (if length (ld_write_buffer s) \<ge> MAX_FRAME_LEN then LD_poll_write_buffer tr s else Some (Ready (Inr ()), s))"

definition LD_start_send :: "uvi_encode \<Rightarrow> bytes \<Rightarrow> 'r LengthDelimited \<Rightarrow> (io_error + unit) \<times> 'r LengthDelimited" where
  "LD_start_send enc item s =
     (if length item < 2 ^ 16 \<and> length item \<le> MAX_FRAME_LEN
      then (Inr (), s\<lparr>ld_write_buffer := ld_write_buffer s @ enc (length item) @ item\<rparr>)
      else (Inl InvalidData, s))"

text \<open>Writing the buffer out before an operation of the underlying resource.\<close>

definition LD_after_buffer :: "'r transport \<Rightarrow> ('r \<Rightarrow> (io_error + 'a) poll \<times> 'r) \<Rightarrow> 'r LengthDelimited
    \<Rightarrow> ((io_error + 'a) poll \<times> 'r LengthDelimited) option" where
  "LD_after_buffer tr f s =
     (case LD_poll_write_buffer tr s of
        None \<Rightarrow> None
      | Some (Pending, s1) \<Rightarrow> Some (Pending, s1)
      | Some (Ready (Inl e), s1) \<Rightarrow> Some (Ready (Inl e), s1)
      | Some (Ready (Inr ()), s1) \<Rightarrow> (let (x, r) = f (ld_inner s1) in Some (x, s1\<lparr>ld_inner := r\<rparr>)))"

definition LD_poll_flush :: "'r transport \<Rightarrow> 'r LengthDelimited \<Rightarrow> ((io_error + unit) poll \<times> 'r LengthDelimited) option" where
  "LD_poll_flush tr s = LD_after_buffer tr (t_flush tr) s"

definition LD_poll_close :: "'r transport \<Rightarrow> 'r LengthDelimited \<Rightarrow> ((io_error + unit) poll \<times> 'r LengthDelimited) option" where
  "LD_poll_close tr s = LD_after_buffer tr (t_close tr) s"

text \<open>
  \<open>LengthDelimitedReader\<close> wraps the same resource; its direct writes go out after the buffered frames.
\<close>

definition LDR_poll_write :: "'r transport \<Rightarrow> bytes \<Rightarrow> 'r LengthDelimited \<Rightarrow> ((io_error + nat) poll \<times> 'r LengthDelimited) option" where
  "LDR_poll_write tr buf s = LD_after_buffer tr (t_write tr buf) s"

definition LDR_poll_write_vectored :: "'r transport \<Rightarrow> bytes list \<Rightarrow> 'r LengthDelimited \<Rightarrow> ((io_error + nat) poll \<times> 'r LengthDelimited) option" where
  "LDR_poll_write_vectored tr bufs s = LD_after_buffer tr (t_write_vectored tr bufs) s"

section \<open>What is relied on of the underlying resource\<close>

text \<open>
  A reliable byte stream: \<open>content\<close> is what is still to be read. A read returns a prefix of it, no
  longer than asked for and empty only at the end, or is pending.
\<close>

definition delivers :: "'r transport \<Rightarrow> ('r \<Rightarrow> bytes) \<Rightarrow> bool" where
  "delivers tr content \<longleftrightarrow> (\<forall>k r. case t_read tr k r of
     (Pending, r') \<Rightarrow> content r' = content r
   | (Ready (Inr bs), r') \<Rightarrow> content r = bs @ content r' \<and> length bs \<le> k \<and> (bs = [] \<and> 0 < k \<longrightarrow> content r = [])
   | (Ready (Inl e), r') \<Rightarrow> False)"

text \<open>\<open>sent\<close> is what has been written: a write appends the part it took.\<close>

definition accepts_writes :: "'r transport \<Rightarrow> ('r \<Rightarrow> bytes) \<Rightarrow> bool" where
  "accepts_writes tr sent \<longleftrightarrow> (\<forall>bs r. case t_write tr bs r of
     (Ready (Inr n), r') \<Rightarrow> n \<le> length bs \<and> sent r' = sent r @ take n bs
   | (_, r') \<Rightarrow> sent r' = sent r)"

lemma deliversE:
  assumes "delivers tr content"
  obtains r' where "t_read tr k r = (Pending, r')" and "content r' = content r"
  | bs r' where "t_read tr k r = (Ready (Inr bs), r')" and "content r = bs @ content r'" and "length bs \<le> k"
      and "bs = [] \<and> 0 < k \<longrightarrow> content r = []"
proof -
  note d = spec [OF spec [OF assms [unfolded delivers_def], of k], of r]
  obtain x r' where x: "t_read tr k r = (x, r')" by fastforce
  show ?thesis using d x that by (cases x) (auto split: sum.splits)
qed

section \<open>Receiving a frame\<close>

text \<open>
  The state while a frame is received: what has been read, together with what the resource still
  holds, is the frame and what follows it.
\<close>

definition expecting :: "uvi_encode \<Rightarrow> bytes \<Rightarrow> bytes \<Rightarrow> bytes \<Rightarrow> 'r LengthDelimited \<Rightarrow> bool" where
  "expecting enc c frame rest s \<longleftrightarrow>
     (case ld_read_state s of
        ReadLength buf pos \<Rightarrow>
          pos < length (enc (length frame)) \<and> ld_read_buffer s = [] \<and>
          buf = take pos (enc (length frame)) @ replicate (MAX_LEN_BYTES - pos) 0 \<and>
          c = drop pos (enc (length frame)) @ frame @ rest
      | ReadData len pos \<Rightarrow>
          len = length frame \<and> pos < len \<and> length (ld_read_buffer s) = len \<and>
          take pos (ld_read_buffer s) = take pos frame \<and> c = drop pos frame @ rest)"

definition received_frame :: "('r \<Rightarrow> bytes) \<Rightarrow> bytes \<Rightarrow> bytes \<Rightarrow> 'r LengthDelimited \<Rightarrow> bool" where
  "received_frame content frame rest s \<longleftrightarrow>
     content (ld_inner s) = rest \<and> ld_read_buffer s = [] \<and> ld_read_state s = ReadState_default"

definition recv_ok :: "uvi_encode \<Rightarrow> ('r \<Rightarrow> bytes) \<Rightarrow> bytes \<Rightarrow> bytes \<Rightarrow> 'r LengthDelimited
    \<Rightarrow> ((io_error + bytes) option poll \<times> 'r LengthDelimited) option \<Rightarrow> bool" where
  "recv_ok enc content frame rest s x \<longleftrightarrow>
     (\<exists>s'. ld_write_buffer s' = ld_write_buffer s \<and>
        (x = Some (Pending, s') \<and> expecting enc (content (ld_inner s')) frame rest s' \<or>
         x = Some (Ready (Some (Inr frame)), s') \<and> received_frame content frame rest s'))"

lemma frame_prefix:
  assumes "uvi_laws 16 enc dec" and "length frame \<le> MAX_FRAME_LEN"
  shows "enc (length frame) \<noteq> []" and "length (enc (length frame)) \<le> 2"
    and "pos + 1 < length (enc (length frame)) \<Longrightarrow> enc (length frame) ! pos AND 0x80 \<noteq> 0"
    and "pos + 1 = length (enc (length frame)) \<Longrightarrow> enc (length frame) ! pos AND 0x80 = 0"
    and "dec (enc (length frame) @ zs) = Inr (length frame, zs)"
proof -
  have n: "length frame < 2 ^ (7 * 2)" "length frame < 2 ^ 16"
    using assms(2) by (simp_all add: MAX_FRAME_LEN_def MAX_LEN_BYTES_def)
  note f = uvi_formatD [OF uvi_lawsD(3) [OF assms(1)] n(2)]
  show "enc (length frame) \<noteq> []" "length (enc (length frame)) \<le> 2" using f(1) f(4) [OF _ n(1)] by auto
  show "dec (enc (length frame) @ zs) = Inr (length frame, zs)" by (rule uvi_lawsD(1) [OF assms(1) n(2)])
  show "enc (length frame) ! pos AND 0x80 \<noteq> 0" if "pos + 1 < length (enc (length frame))"
    using f(2) that by (auto simp: list_all_length nth_butlast)
  show "enc (length frame) ! pos AND 0x80 = 0" if "pos + 1 = length (enc (length frame))"
    using f(1,3) that by (metis add_diff_cancel_right' last_conv_nth)
qed

lemma prefix_step:
  assumes "pos < length E" and "length E \<le> 2"
  shows "(take pos E @ replicate (2 - pos) 0)[pos := E ! pos] = take (pos + 1) E @ replicate (2 - (pos + 1)) (0::u8)"
proof -
  have "replicate (2 - pos) (0::u8) = 0 # replicate (2 - (pos + 1)) 0" using assms by (cases "2 - pos") auto
  then show ?thesis using assms(1) by (simp add: list_update_append take_Suc_conv_app_nth)
qed

lemma append_prefix:
  assumes "xs @ ys = bs @ zs" and "length bs \<le> length xs"
  shows "bs = take (length bs) xs \<and> zs = drop (length bs) xs @ ys"
proof -
  have "take (length bs) (xs @ ys) = bs" "drop (length bs) (xs @ ys) = zs" using assms(1) by simp_all
  then show ?thesis using assms(2) by simp
qed

lemma recv_data:
  assumes tr: "delivers tr content"
  shows "ld_read_state s = ReadData len pos \<Longrightarrow> expecting enc (content (ld_inner s)) frame rest s \<Longrightarrow>
    recv_ok enc content frame rest s (LD_poll_next dec tr s)"
proof (induction "len - pos" arbitrary: s pos rule: less_induct)
  case less
  let ?rb = "ld_read_buffer s"
  from less.prems have e: "len = length frame" "pos < len" "length ?rb = len" "take pos ?rb = take pos frame"
      "content (ld_inner s) = drop pos frame @ rest"
    by (simp_all add: expecting_def)
  from tr show ?case
  proof (cases rule: deliversE [where k = "len - pos" and r = "ld_inner s"])
    case (1 r')
    then show ?thesis using less.prems e
      by (subst LD_poll_next.simps) (simp add: recv_ok_def expecting_def)
  next
    case (2 bs r')
    have ne: "bs \<noteq> []" using 2 e by auto
    have c: "drop pos frame @ rest = bs @ content r'" using 2 e by simp
    have le: "length bs \<le> length (drop pos frame)" using 2(3) e by simp
    from c le have bs: "bs = take (length bs) (drop pos frame)" "content r' = drop (length bs) (drop pos frame) @ rest"
      using append_prefix [OF c le] by blast+
    define rb where "rb = take pos ?rb @ bs @ drop (pos + length bs) ?rb"
    have len: "length rb = len" using e le by (simp add: rb_def)
    have pre: "take (pos + length bs) rb = take (pos + length bs) frame"
      using e bs(1) by (simp add: rb_def take_add)
    let ?s = "s\<lparr>ld_inner := r', ld_read_buffer := rb, ld_read_state := ReadData len (pos + length bs)\<rparr>"
    have step: "LD_poll_next dec tr s = (if pos + length bs = len
        then Some (Ready (Some (Inr rb)), ?s\<lparr>ld_read_buffer := [], ld_read_state := ReadState_default\<rparr>)
        else LD_poll_next dec tr ?s)"
      using less.prems(1) 2(1,3) e ne by (subst LD_poll_next.simps) (simp add: rb_def Let_def)
    show ?thesis
    proof (cases "pos + length bs = len")
      case True
      then have "rb = frame" using pre len e by simp
      then show ?thesis using True step bs(2) e by (simp add: recv_ok_def received_frame_def)
    next
      case False
      have "expecting enc (content (ld_inner ?s)) frame rest ?s"
        using False len pre bs(2) e le by (simp add: expecting_def add.commute)
      moreover have "len - (pos + length bs) < len - pos" using e(2) ne by (cases bs) auto
      ultimately have "recv_ok enc content frame rest ?s (LD_poll_next dec tr ?s)"
        using less.hyps [of "pos + length bs" ?s] by simp
      then show ?thesis using False step by (simp add: recv_ok_def)
    qed
  qed
qed

text \<open>The last byte of the length prefix: the frame is empty, or its payload follows.\<close>

lemma recv_prefix_end:
  assumes uvi: "uvi_laws 16 enc dec" and tr: "delivers tr content" and len: "length frame \<le> MAX_FRAME_LEN"
    and rs: "ld_read_state s = ReadLength buf pos" and e: "expecting enc (content (ld_inner s)) frame rest s"
    and last: "pos + 1 = length (enc (length frame))"
    and rd: "t_read tr 1 (ld_inner s) = (Ready (Inr [enc (length frame) ! pos]), r')"
    and c: "content r' = frame @ rest"
  shows "recv_ok enc content frame rest s (LD_poll_next dec tr s)"
proof -
  let ?E = "enc (length frame)"
  note f = frame_prefix [OF uvi len]
  have b: "pos < length buf" "buf[pos := ?E ! pos] = ?E @ replicate (2 - (pos + 1)) 0" "ld_read_buffer s = []"
    using e rs f(2) last prefix_step [of pos ?E] by (auto simp: expecting_def MAX_LEN_BYTES_def)
  let ?s = "s\<lparr>ld_inner := r', ld_read_state := ReadData (length frame) 0, ld_read_buffer := resize (length frame) []\<rparr>"
  have step: "LD_poll_next dec tr s = (if 1 \<le> length frame then LD_poll_next dec tr ?s
      else Some (Ready (Some (Inr [])), s\<lparr>ld_inner := r', ld_read_state := ReadState_default\<rparr>))"
    using rs rd b f(4) [OF last] f(5) by (subst LD_poll_next.simps) (simp add: Let_def)
  show ?thesis
  proof (cases "frame = []")
    case True
    then show ?thesis using step c b(3) by (auto simp: recv_ok_def received_frame_def)
  next
    case False
    then have "expecting enc (content (ld_inner ?s)) frame rest ?s"
      using c by (simp add: expecting_def resize_def)
    then have "recv_ok enc content frame rest ?s (LD_poll_next dec tr ?s)" by (intro recv_data [OF tr]) auto
    then show ?thesis using False step by (simp add: recv_ok_def Suc_le_eq)
  qed
qed

lemma recv_length:
  assumes uvi: "uvi_laws 16 enc dec" and tr: "delivers tr content" and len: "length frame \<le> MAX_FRAME_LEN"
  shows "ld_read_state s = ReadLength buf pos \<Longrightarrow> expecting enc (content (ld_inner s)) frame rest s \<Longrightarrow>
    recv_ok enc content frame rest s (LD_poll_next dec tr s)"
proof (induction "2 - pos" arbitrary: s buf pos rule: less_induct)
  case less
  let ?E = "enc (length frame)"
  note f = frame_prefix [OF uvi len]
  from less.prems have e: "pos < length ?E" "buf = take pos ?E @ replicate (2 - pos) 0"
      "content (ld_inner s) = drop pos ?E @ frame @ rest" "ld_read_buffer s = []"
    by (simp_all add: expecting_def MAX_LEN_BYTES_def)
  have d: "drop pos ?E = ?E ! pos # drop (pos + 1) ?E" using e(1) by (simp add: Cons_nth_drop_Suc)
  from tr show ?case
  proof (cases rule: deliversE [where k = 1 and r = "ld_inner s"])
    case (1 r')
    then show ?thesis using less.prems e f(2)
      by (subst LD_poll_next.simps) (simp add: recv_ok_def expecting_def)
  next
    case (2 bs r')
    then have bs: "bs = [?E ! pos]" "content r' = drop (pos + 1) ?E @ frame @ rest"
      using e(3) d by (cases bs; simp)+
    show ?thesis
    proof (cases "pos + 1 = length ?E")
      case True
      then show ?thesis using recv_prefix_end [OF uvi tr len less.prems True] 2(1) bs by simp
    next
      case False
      then have more: "pos + 1 < length ?E" using e(1) by simp
      let ?s = "s\<lparr>ld_inner := r', ld_read_state := ReadLength (buf[pos := ?E ! pos]) (pos + 1)\<rparr>"
      have step: "LD_poll_next dec tr s = LD_poll_next dec tr ?s"
        using less.prems(1) 2(1) bs(1) e f(2) f(3) [OF more] more
        by (subst LD_poll_next.simps) (simp add: Let_def MAX_LEN_BYTES_def)
      have "expecting enc (content (ld_inner ?s)) frame rest ?s"
        using more bs e prefix_step [OF e(1) f(2)] by (simp add: expecting_def MAX_LEN_BYTES_def)
      then have "recv_ok enc content frame rest ?s (LD_poll_next dec tr ?s)"
        using less.hyps [of "pos + 1" ?s] f(2) more by simp
      then show ?thesis using step by (simp add: recv_ok_def)
    qed
  qed
qed

lemma recv_complete:
  assumes "uvi_laws 16 enc dec" and "delivers tr content" and "length frame \<le> MAX_FRAME_LEN"
    and "expecting enc (content (ld_inner s)) frame rest s"
  shows "recv_ok enc content frame rest s (LD_poll_next dec tr s)"
proof (cases "ld_read_state s")
  case (ReadLength buf pos)
  from recv_length [OF assms(1-3) this assms(4)] show ?thesis .
next
  case (ReadData len pos)
  from recv_data [OF assms(2) this assms(4)] show ?thesis .
qed

text \<open>
  C31. Receiving a frame from a reliable byte stream, however the stream cuts it up and however often
  it is pending: no poll panics or fails; every poll either is pending, with all that was read of the
  frame kept, or returns exactly the frame, having read no byte beyond it and with an empty buffer.
\<close>
theorem ld_receive_frame:
  assumes "uvi_laws 16 enc dec" and "delivers tr content" and "length frame \<le> MAX_FRAME_LEN"
    and "expecting enc (content (ld_inner s)) frame rest s"
  shows "\<exists>s'. ld_write_buffer s' = ld_write_buffer s \<and>
           (LD_poll_next dec tr s = Some (Pending, s') \<and> expecting enc (content (ld_inner s')) frame rest s' \<or>
            LD_poll_next dec tr s = Some (Ready (Some (Inr frame)), s') \<and>
              content (ld_inner s') = rest \<and> ld_read_buffer s' = [] \<and> ld_read_state s' = ReadState_default)"
  using recv_complete [OF assms] unfolding recv_ok_def received_frame_def .

text \<open>A fresh resource, or one that has just returned a frame, expects the next frame of its input.\<close>

lemma expecting_start:
  assumes "uvi_laws 16 enc dec" and "length frame \<le> MAX_FRAME_LEN"
    and "ld_read_buffer s = []" and "ld_read_state s = ReadState_default"
  shows "expecting enc (enc (length frame) @ frame @ rest) frame rest s"
  using frame_prefix(1) [OF assms(1,2)] assms(3,4) by (simp add: expecting_def ReadState_default_def)

text \<open>A transport in memory that moves at most one byte at a time: the bytes to be read and those written.\<close>

definition mem_transport :: "(bytes \<times> bytes) transport" where
  "mem_transport =
     \<lparr>t_read = \<lambda>k (i, out). (Ready (Inr (take (min k 1) i)), drop (min k 1) i, out),
      t_write = \<lambda>bs (i, out). (Ready (Inr (min 1 (length bs))), i, out @ take 1 bs),
      t_write_vectored = \<lambda>bufs (i, out). (Ready (Inr (min 1 (length (concat bufs)))), i, out @ take 1 (concat bufs)),
      t_flush = \<lambda>r. (Ready (Inr ()), r),
      t_close = \<lambda>r. (Ready (Inr ()), r)\<rparr>"

lemma mem_transport_laws: "delivers mem_transport fst" "accepts_writes mem_transport snd"
  by (auto simp: delivers_def accepts_writes_def mem_transport_def min_def take_all_iff split: prod.splits)

theorem ld_receive_frame_witness:
  "\<exists>s'. LD_poll_next (leb_dec 16) mem_transport (LD_new (leb_enc 2 @ [7, 8] @ [9], [])) = Some (Ready (Some (Inr [7, 8])), s') \<and>
        fst (ld_inner s') = [9]"
proof -
  let ?s = "LD_new (leb_enc 2 @ [7, 8] @ [9], [])"
  have enc: "leb_enc 2 = [2]" by (simp add: leb_enc.simps)
  have rs: "ReadState_default = ReadLength [0, 0] 0" "resize 2 [] = [0, 0]"
    by (simp_all add: ReadState_default_def MAX_LEN_BYTES_def resize_def numeral_2_eq_2)
  have len: "length [7, 8 :: u8] = 2" "length [7, 8 :: u8] \<le> MAX_FRAME_LEN" by (simp_all add: MAX_FRAME_LEN_def MAX_LEN_BYTES_def)
  have "expecting leb_enc (fst (ld_inner ?s)) [7, 8] [9] ?s"
    using expecting_start [OF leb_laws len(2), of ?s "[9]"] unfolding len(1) by (simp add: LD_new_def)
  with ld_receive_frame [OF leb_laws mem_transport_laws(1), of "[7, 8]" ?s "[9]"]
  obtain s' where "LD_poll_next (leb_dec 16) mem_transport ?s = Some (Pending, s') \<or>
      LD_poll_next (leb_dec 16) mem_transport ?s = Some (Ready (Some (Inr [7, 8])), s') \<and> fst (ld_inner s') = [9]"
    by (auto simp: MAX_FRAME_LEN_def MAX_LEN_BYTES_def)
  moreover have "LD_poll_next (leb_dec 16) mem_transport ?s \<noteq> Some (Pending, s')"
    unfolding enc by (simp add: LD_poll_next.simps LD_new_def mem_transport_def rs leb_dec_def Let_def)
  ultimately show ?thesis by blast
qed

section \<open>Sending frames\<close>

text \<open>Writing the buffer out loses, repeats and reorders nothing.\<close>

definition write_ok :: "('r \<Rightarrow> bytes) \<Rightarrow> 'r LengthDelimited \<Rightarrow> ((io_error + unit) poll \<times> 'r LengthDelimited) option \<Rightarrow> bool" where
  "write_ok sent s x \<longleftrightarrow>
     (\<exists>res s'. x = Some (res, s') \<and> sent (ld_inner s') @ ld_write_buffer s' = sent (ld_inner s) @ ld_write_buffer s \<and>
        (res = Ready (Inr ()) \<longrightarrow> ld_write_buffer s' = []) \<and> length (ld_write_buffer s') \<le> length (ld_write_buffer s) \<and>
        ld_read_buffer s' = ld_read_buffer s \<and> ld_read_state s' = ld_read_state s)"

lemma write_buffer_ok:
  assumes tr: "accepts_writes tr sent"
  shows "write_ok sent s (LD_poll_write_buffer tr s)"
proof (induction "length (ld_write_buffer s)" arbitrary: s rule: less_induct)
  case less
  let ?wb = "ld_write_buffer s"
  obtain x r where w: "t_write tr ?wb (ld_inner s) = (x, r)" by fastforce
  note law = spec [OF spec [OF tr [unfolded accepts_writes_def], of ?wb], of "ld_inner s"]
  show ?case
  proof (cases "?wb \<noteq> [] \<and> (\<exists>n. x = Ready (Inr n) \<and> 0 < n)")
    case True
    then obtain n where n: "?wb \<noteq> []" "x = Ready (Inr n)" "0 < n" by blast
    then have l: "n \<le> length ?wb" "sent r = sent (ld_inner s) @ take n ?wb" using law w by auto
    let ?s = "s\<lparr>ld_inner := r, ld_write_buffer := drop n ?wb\<rparr>"
    have "LD_poll_write_buffer tr s = LD_poll_write_buffer tr ?s"
      using n w l by (subst LD_poll_write_buffer.simps) simp
    moreover have "write_ok sent ?s (LD_poll_write_buffer tr ?s)" using n l by (intro less.hyps) simp
    ultimately show ?thesis using l by (auto simp: write_ok_def)
  next
    case False
    then show ?thesis using w law
      by (subst LD_poll_write_buffer.simps) (auto simp: write_ok_def split: poll.splits sum.splits)
  qed
qed

text \<open>
  Sending a frame. Once \<open>poll_ready\<close> is ready, \<open>start_send\<close> takes every frame within the limit and
  refuses every other without effect; what has been written together with the write buffer is what
  it was, followed by the length prefix and the frame; and the write buffer stays below twice the
  maximum frame length (plus the two bytes of the prefix).
\<close>
theorem ld_send_frame:
  assumes uvi: "uvi_laws 16 enc dec" and tr: "accepts_writes tr sent"
    and ready: "LD_poll_ready tr s = Some (Ready (Inr ()), s1)"
  shows "\<exists>r s2. LD_start_send enc item s1 = (r, s2) \<and>
     (if length item \<le> MAX_FRAME_LEN
      then r = Inr () \<and> sent (ld_inner s2) @ ld_write_buffer s2 =
             sent (ld_inner s) @ ld_write_buffer s @ enc (length item) @ item \<and>
           length (ld_write_buffer s2) < 2 * MAX_FRAME_LEN + 2
      else r = Inl InvalidData \<and> s2 = s1)"
proof -
  have s1: "sent (ld_inner s1) @ ld_write_buffer s1 = sent (ld_inner s) @ ld_write_buffer s" "length (ld_write_buffer s1) < MAX_FRAME_LEN"
    using ready write_buffer_ok [OF tr, of s]
    by (auto simp: LD_poll_ready_def write_ok_def MAX_FRAME_LEN_def MAX_LEN_BYTES_def split: if_splits)
  have "length (enc (length item)) \<le> 2" if "length item \<le> MAX_FRAME_LEN"
    by (rule frame_prefix(2) [OF uvi that])
  moreover have "length item < 2 ^ 16" if "length item \<le> MAX_FRAME_LEN"
    using that by (simp add: MAX_FRAME_LEN_def MAX_LEN_BYTES_def)
  ultimately show ?thesis using s1 by (auto simp: LD_start_send_def)
qed

theorem ld_send_frame_witness:
  "\<exists>r s2. LD_start_send leb_enc [5] (LD_new ([], []) :: (bytes \<times> bytes) LengthDelimited) = (r, s2) \<and>
     snd (ld_inner s2) @ ld_write_buffer s2 = leb_enc 1 @ [5]"
proof -
  have "LD_poll_ready mem_transport (LD_new ([], [])) = Some (Ready (Inr ()), LD_new ([], []))"
    by (simp add: LD_poll_ready_def LD_new_def MAX_FRAME_LEN_def MAX_LEN_BYTES_def)
  from ld_send_frame [OF leb_laws mem_transport_laws(2) this, of "[5]"] show ?thesis
    by (auto simp: LD_new_def MAX_FRAME_LEN_def MAX_LEN_BYTES_def)
qed

end
