(* ===== verification/Multistream_Message.thy ===== *)
theory Multistream_Message
  imports Multistream_Framing
begin

text \<open>
  The messages of multistream-select and their exchange over length-delimited frames:
  \<open>misc/multistream-select/src/protocol.rs\<close>, with the versions of \<open>src/lib.rs\<close> of that crate.

  The varint encoder and decoder for \<open>usize\<close> are parameters, as are those for the 16-bit frame
  length. An I/O error made from a varint error keeps only its kind.
\<close>

section \<open>Definitions\<close>

datatype Version = V1 | V1Lazy

datatype HeaderLine = HeaderV1

fun HeaderLine_from :: "Version \<Rightarrow> HeaderLine" where
  "HeaderLine_from V1 = HeaderV1"
| "HeaderLine_from V1Lazy = HeaderV1"

abbreviation newline :: u8 where
  "newline \<equiv> 10"

definition MAX_PROTOCOLS :: nat where
  "MAX_PROTOCOLS = 1000"

definition MSG_MULTISTREAM_1_0 :: bytes where
  "MSG_MULTISTREAM_1_0 = ascii ''/multistream/1.0.0'' @ [newline]"

definition MSG_PROTOCOL_NA :: bytes where
  "MSG_PROTOCOL_NA = ascii ''na'' @ [newline]"

definition MSG_LS :: bytes where
  "MSG_LS = ascii ''ls'' @ [newline]"

datatype ProtocolError = IoError io_error | InvalidMessage | InvalidProtocol | TooManyProtocols

datatype Protocol = Protocol (protocol_name: bytes)

definition starts_with_slash :: "bytes \<Rightarrow> bool" where
  "starts_with_slash bs \<longleftrightarrow> take 1 bs = ascii ''/''"

definition Protocol_try_from :: "bytes \<Rightarrow> ProtocolError + Protocol" where
  "Protocol_try_from value = (if \<not> starts_with_slash value then Inl InvalidProtocol else Inr (Protocol value))"

datatype Message = MHeader HeaderLine | MProtocol Protocol | MListProtocols | MProtocols "Protocol list" | MNotAvailable

fun encode_protocols :: "uvi_encode \<Rightarrow> Protocol list \<Rightarrow> bytes" where
  "encode_protocols enc [] = []"
| "encode_protocols enc (p # ps) =
     enc (length (protocol_name p) + 1) @ protocol_name p @ [newline] @ encode_protocols enc ps"

fun Message_encode :: "uvi_encode \<Rightarrow> Message \<Rightarrow> bytes" where
  "Message_encode enc (MHeader HeaderV1) = MSG_MULTISTREAM_1_0"
| "Message_encode enc (MProtocol p) = protocol_name p @ [newline]"
| "Message_encode enc MListProtocols = MSG_LS"
| "Message_encode enc (MProtocols ps) = encode_protocols enc ps @ [newline]"
| "Message_encode enc MNotAvailable = MSG_PROTOCOL_NA"

text \<open>
  The \<open>loop\<close> over an \<open>ls\<close> response. \<open>k\<close> is \<open>MAX_PROTOCOLS\<close> less the number of protocols found so far.
\<close>

fun decode_protocols :: "uvi_decode \<Rightarrow> nat \<Rightarrow> bytes \<Rightarrow> Protocol list \<Rightarrow> ProtocolError + Message" where
  "decode_protocols dec 0 remaining protocols =
     (if remaining = [newline] then Inr (MProtocols protocols) else Inl TooManyProtocols)"
| "decode_protocols dec (Suc k) remaining protocols =
     (if remaining = [newline] then Inr (MProtocols protocols)
      else case dec remaining of
             Inl e \<Rightarrow> Inl (IoError InvalidData)
           | Inr (len, tail) \<Rightarrow>
               if len = 0 \<or> len > length tail \<or> tail ! (len - 1) \<noteq> newline then Inl InvalidMessage
               else (case Protocol_try_from (take (len - 1) tail) of
                       Inl e \<Rightarrow> Inl e
                     | Inr p \<Rightarrow> decode_protocols dec k (drop len tail) (protocols @ [p])))"

definition Message_decode :: "uvi_decode \<Rightarrow> bytes \<Rightarrow> ProtocolError + Message" where
  "Message_decode dec msg =
     (if msg = MSG_MULTISTREAM_1_0 then Inr (MHeader HeaderV1)
      else if msg = MSG_PROTOCOL_NA then Inr MNotAvailable
      else if msg = MSG_LS then Inr MListProtocols
      else if starts_with_slash msg \<and> last msg = newline \<and> newline \<notin> set (butlast msg)
        then map_sum id MProtocol (Protocol_try_from (butlast msg))
      else decode_protocols dec MAX_PROTOCOLS msg [])"

text \<open>\<open>MessageIO\<close> and \<open>MessageReader\<close>: newtypes around the framed resource.\<close>

definition MessageIO_new :: "'r \<Rightarrow> 'r LengthDelimited" where
  "MessageIO_new r = LD_new r"

definition MessageIO_into_inner :: "'r LengthDelimited \<Rightarrow> 'r option" where
  "MessageIO_into_inner s = LD_into_inner s"

fun map_poll :: "('a \<Rightarrow> 'b) \<Rightarrow> 'a poll \<Rightarrow> 'b poll" where
  "map_poll f Pending = Pending"
| "map_poll f (Ready x) = Ready (f x)"

definition MessageIO_poll_ready :: "'r transport \<Rightarrow> 'r LengthDelimited \<Rightarrow> ((ProtocolError + unit) poll \<times> 'r LengthDelimited) option" where
  "MessageIO_poll_ready tr s = map_option (map_prod (map_poll (map_sum IoError id)) id) (LD_poll_ready tr s)"

definition MessageIO_start_send :: "uvi_encode \<Rightarrow> uvi_encode \<Rightarrow> Message \<Rightarrow> 'r LengthDelimited \<Rightarrow> (ProtocolError + unit) \<times> 'r LengthDelimited" where
  "MessageIO_start_send enc enc16 m s = map_prod (map_sum IoError id) id (LD_start_send enc16 (Message_encode enc m) s)"

definition MessageIO_poll_flush :: "'r transport \<Rightarrow> 'r LengthDelimited \<Rightarrow> ((ProtocolError + unit) poll \<times> 'r LengthDelimited) option" where
  "MessageIO_poll_flush tr s = map_option (map_prod (map_poll (map_sum IoError id)) id) (LD_poll_flush tr s)"

definition MessageIO_poll_close :: "'r transport \<Rightarrow> 'r LengthDelimited \<Rightarrow> ((ProtocolError + unit) poll \<times> 'r LengthDelimited) option" where
  "MessageIO_poll_close tr s = map_option (map_prod (map_poll (map_sum IoError id)) id) (LD_poll_close tr s)"

definition poll_stream :: "uvi_decode \<Rightarrow> uvi_decode \<Rightarrow> 'r transport \<Rightarrow> 'r LengthDelimited
    \<Rightarrow> ((ProtocolError + Message) option poll \<times> 'r LengthDelimited) option" where
  "poll_stream dec dec16 tr s =
     (case LD_poll_next dec16 tr s of
        None \<Rightarrow> None
      | Some (Pending, s1) \<Rightarrow> Some (Pending, s1)
      | Some (Ready None, s1) \<Rightarrow> Some (Ready None, s1)
      | Some (Ready (Some (Inl e)), s1) \<Rightarrow> Some (Ready (Some (Inl (IoError e))), s1)
      | Some (Ready (Some (Inr msg)), s1) \<Rightarrow> Some (Ready (Some (Message_decode dec msg)), s1))"

section \<open>Round trip\<close>

definition wf_protocol :: "Protocol \<Rightarrow> bool" where
  "wf_protocol p \<longleftrightarrow> starts_with_slash (protocol_name p) \<and> length (protocol_name p) + 1 < 2 ^ 64"

text \<open>
  The messages a peer can be understood by: a proposed protocol name has no line feed and is not the
  name of the header line; a list has at most \<open>MAX_PROTOCOLS\<close> names.
\<close>

fun wf_message :: "Message \<Rightarrow> bool" where
  "wf_message (MProtocol p) \<longleftrightarrow> wf_protocol p \<and> newline \<notin> set (protocol_name p) \<and> protocol_name p \<noteq> ascii ''/multistream/1.0.0''"
| "wf_message (MProtocols ps) \<longleftrightarrow> list_all wf_protocol ps \<and> length ps \<le> MAX_PROTOCOLS"
| "wf_message _ \<longleftrightarrow> True"

lemmas msg_consts = MSG_MULTISTREAM_1_0_def MSG_PROTOCOL_NA_def MSG_LS_def ascii_def

lemma consts_distinct:
  "MSG_PROTOCOL_NA \<noteq> MSG_MULTISTREAM_1_0" "MSG_LS \<noteq> MSG_MULTISTREAM_1_0" "MSG_LS \<noteq> MSG_PROTOCOL_NA"
  "\<not> starts_with_slash MSG_PROTOCOL_NA" "\<not> starts_with_slash MSG_LS"
  by (simp_all add: msg_consts starts_with_slash_def of_char_def)

lemma one_newline: "newline \<notin> set (butlast MSG_MULTISTREAM_1_0)" "newline \<notin> set (butlast MSG_PROTOCOL_NA)"
  "newline \<notin> set (butlast MSG_LS)"
  by (simp_all add: msg_consts of_char_def)

lemma decode_encode_protocols:
  assumes uvi: "uvi_laws 64 enc dec"
  shows "list_all wf_protocol ps \<Longrightarrow>
    decode_protocols dec k (encode_protocols enc ps @ [newline]) acc =
      (if length ps \<le> k then Inr (MProtocols (acc @ ps)) else Inl TooManyProtocols)"
proof (induction ps arbitrary: k acc)
  case Nil
  show ?case by (cases k) auto
next
  case (Cons p ps)
  let ?n = "length (protocol_name p) + 1" and ?rest = "encode_protocols enc ps @ [newline]"
  have n: "?n < 2 ^ 64" "starts_with_slash (protocol_name p)" using Cons.prems by (auto simp: wf_protocol_def)
  have ne: "encode_protocols enc (p # ps) @ [newline] \<noteq> [newline]" by simp
  have "dec (encode_protocols enc (p # ps) @ [newline]) = Inr (?n, protocol_name p @ newline # ?rest)"
    using uvi_lawsD(1) [OF uvi n(1), of "protocol_name p @ newline # ?rest"] by simp
  then show ?case
    using ne Cons.IH [of _ "acc @ [p]"] Cons.prems n(2)
    by (cases k) (simp_all add: Protocol_try_from_def)
qed

lemma list_message_last:
  "newline \<in> set (butlast (encode_protocols enc (p # ps) @ [newline]))"
  by (simp only: butlast_snoc) simp

lemma decode_list_message:
  assumes "uvi_laws 64 enc dec" and "list_all wf_protocol ps"
  shows "Message_decode dec (encode_protocols enc ps @ [newline]) =
    (if length ps \<le> MAX_PROTOCOLS then Inr (MProtocols ps) else Inl TooManyProtocols)"
proof (cases ps)
  case Nil
  have "[newline] \<noteq> MSG_MULTISTREAM_1_0" "[newline] \<noteq> MSG_PROTOCOL_NA" "[newline] \<noteq> MSG_LS" "\<not> starts_with_slash [newline]"
    by (simp_all add: msg_consts starts_with_slash_def of_char_def)
  then show ?thesis using decode_encode_protocols [OF assms, of MAX_PROTOCOLS "[]"] Nil
    by (simp add: Message_decode_def)
next
  case (Cons p ps')
  let ?m = "encode_protocols enc ps @ [newline]"
  have nl: "newline \<in> set (butlast ?m)" unfolding Cons by (rule list_message_last)
  then have "?m \<noteq> MSG_MULTISTREAM_1_0" "?m \<noteq> MSG_PROTOCOL_NA" "?m \<noteq> MSG_LS" using one_newline by metis+
  then show ?thesis using decode_encode_protocols [OF assms, of MAX_PROTOCOLS "[]"] nl
    by (simp only: Message_decode_def if_False simp_thms append_Nil)
qed

lemma decode_protocol_message:
  assumes "wf_message (MProtocol p)"
  shows "Message_decode dec (protocol_name p @ [newline]) = Inr (MProtocol p)"
proof -
  have s: "starts_with_slash (protocol_name p @ [newline])" "starts_with_slash (protocol_name p)"
    using assms by (cases "protocol_name p"; simp add: wf_protocol_def starts_with_slash_def ascii_def)+
  have "protocol_name p @ [newline] \<noteq> MSG_MULTISTREAM_1_0" using assms by (simp add: MSG_MULTISTREAM_1_0_def)
  moreover have "protocol_name p @ [newline] \<noteq> MSG_PROTOCOL_NA" "protocol_name p @ [newline] \<noteq> MSG_LS"
    using s(1) consts_distinct(4,5) by metis+
  ultimately show ?thesis using s assms by (simp add: Message_decode_def Protocol_try_from_def)
qed

lemma message_decode_encode:
  assumes uvi: "uvi_laws 64 enc dec" and wf: "wf_message m"
  shows "Message_decode dec (Message_encode enc m) = Inr m"
proof (cases m)
  case (MHeader h)
  then show ?thesis by (cases h) (simp add: Message_decode_def)
next
  case (MProtocol p)
  then show ?thesis using decode_protocol_message wf by simp
next
  case (MProtocols qs)
  then show ?thesis using decode_list_message [OF uvi] wf by simp
qed (use consts_distinct in \<open>simp_all add: Message_decode_def\<close>)

text \<open>
  Messages survive encoding: every message a peer can be understood by is decoded as itself;
  and a list of too many protocols is refused as such.
\<close>
theorem message_round_trip:
  assumes uvi: "uvi_laws 64 enc dec"
  shows "(wf_message m \<longrightarrow> Message_decode dec (Message_encode enc m) = Inr m) \<and>
         (list_all wf_protocol ps \<and> length ps > MAX_PROTOCOLS \<longrightarrow>
            Message_decode dec (Message_encode enc (MProtocols ps)) = Inl TooManyProtocols)"
  using message_decode_encode [OF uvi] decode_list_message [OF uvi, of ps] by simp

definition sample_message :: Message where
  "sample_message = MProtocols [Protocol (ascii ''/a''), Protocol (ascii ''/b/1'')]"

theorem message_round_trip_witness:
  "Message_decode (leb_dec 64) (Message_encode leb_enc sample_message) = Inr sample_message"
proof -
  have "wf_message sample_message"
    by (simp add: sample_message_def wf_protocol_def starts_with_slash_def ascii_def MAX_PROTOCOLS_def)
  then show ?thesis using message_round_trip [OF leb_laws] by blast
qed

section \<open>Messages over the wire\<close>

text \<open>
  A message over the wire. If \<open>start_send\<close> accepts a well-formed message, exactly its frame is
  added to the write buffer; and a receiver whose byte stream continues with those bytes gets, after
  however many pending polls, this message and no error, and has read nothing beyond it.
\<close>
theorem message_over_wire:
  assumes uvi: "uvi_laws 64 enc dec" "uvi_laws 16 enc16 dec16" and tr: "delivers tr content" and wf: "wf_message m"
    and send: "MessageIO_start_send enc enc16 m a = (Inr (), a')"
    and recv: "ld_read_buffer b = []" "ld_read_state b = ReadState_default"
    and stream: "content (ld_inner b) = wire @ rest"
    and wire: "ld_write_buffer a' = ld_write_buffer a @ wire"
  shows "\<exists>b'. poll_stream dec dec16 tr b = Some (Pending, b') \<and>
                expecting enc16 (content (ld_inner b')) (Message_encode enc m) rest b' \<or>
              poll_stream dec dec16 tr b = Some (Ready (Some (Inr m)), b') \<and>
                content (ld_inner b') = rest \<and> ld_read_buffer b' = [] \<and> ld_read_state b' = ReadState_default"
proof -
  let ?f = "Message_encode enc m"
  have len: "length ?f \<le> MAX_FRAME_LEN" and w: "wire = enc16 (length ?f) @ ?f"
    using send wire by (auto simp: MessageIO_start_send_def LD_start_send_def split: if_splits)
  have "expecting enc16 (content (ld_inner b)) ?f rest b"
    using expecting_start [OF uvi(2) len recv] stream w by simp
  from recv_complete [OF uvi(2) tr len this] show ?thesis
    using message_decode_encode [OF uvi(1) wf] by (auto simp: poll_stream_def recv_ok_def received_frame_def)
qed

theorem message_over_wire_witness:
  "\<exists>b'. poll_stream (leb_dec 64) (leb_dec 16) mem_transport (LD_new (leb_enc 3 @ MSG_LS @ [9], [])) = Some (Pending, b') \<or>
        poll_stream (leb_dec 64) (leb_dec 16) mem_transport (LD_new (leb_enc 3 @ MSG_LS @ [9], [])) = Some (Ready (Some (Inr MListProtocols)), b') \<and>
          fst (ld_inner b') = [9]"
proof -
  let ?a = "LD_new ([], []) :: (bytes \<times> bytes) LengthDelimited"
  let ?a' = "?a\<lparr>ld_write_buffer := leb_enc 3 @ MSG_LS\<rparr>"
  let ?b = "LD_new (leb_enc 3 @ MSG_LS @ [9], []) :: (bytes \<times> bytes) LengthDelimited"
  have l: "length MSG_LS = 3" by (simp add: msg_consts)
  have "MessageIO_start_send leb_enc leb_enc MListProtocols ?a = (Inr (), ?a')"
    by (simp add: MessageIO_start_send_def LD_start_send_def LD_new_def l MAX_FRAME_LEN_def MAX_LEN_BYTES_def)
  moreover have "fst (ld_inner ?b) = (leb_enc 3 @ MSG_LS) @ [9]" "ld_read_buffer ?b = []" "ld_read_state ?b = ReadState_default"
    "ld_write_buffer ?a' = ld_write_buffer ?a @ leb_enc 3 @ MSG_LS" by (simp_all add: LD_new_def)
  ultimately show ?thesis
    using message_over_wire [OF leb_laws leb_laws mem_transport_laws(1), of MListProtocols ?a ?a' ?b "leb_enc 3 @ MSG_LS" "[9]"]
    by auto
qed

end
