(* ===== verification/Multistream_Select.thy ===== *)
theory Multistream_Select
  imports Multistream_Message
begin

text \<open>
  Protocol negotiation of multistream-select: \<open>dialer_select.rs\<close>, \<open>listener_select.rs\<close> and
  \<open>negotiated.rs\<close> of \<open>misc/multistream-select/src\<close>.

  Each future is a record of its fields and its message I/O; the source moves the I/O into and out of
  the state, here it stays in a field of its own. The operations of the message I/O are a parameter,
  \<open>MessageIO_ops\<close> gives those of theory Multistream_Message. The body of each \<open>loop\<close> is a function
  that returns the new state and, unless the loop goes on, the result of the poll. A protocol name is
  its byte string.
\<close>

section \<open>Definitions: message I/O\<close>

record 'm msg_io =
  io_poll_ready :: "'m \<Rightarrow> ((ProtocolError + unit) poll \<times> 'm) option"
  io_start_send :: "Message \<Rightarrow> 'm \<Rightarrow> (ProtocolError + unit) \<times> 'm"
  io_poll_flush :: "'m \<Rightarrow> ((ProtocolError + unit) poll \<times> 'm) option"
  io_poll_next :: "'m \<Rightarrow> ((ProtocolError + Message) option poll \<times> 'm) option"
  io_into_inner_ok :: "'m \<Rightarrow> bool"

definition MessageIO_ops :: "uvi_encode \<Rightarrow> uvi_decode \<Rightarrow> uvi_encode \<Rightarrow> uvi_decode \<Rightarrow> 'r transport \<Rightarrow> 'r LengthDelimited msg_io" where
  "MessageIO_ops enc dec enc16 dec16 tr =
     \<lparr>io_poll_ready = MessageIO_poll_ready tr,
      io_start_send = MessageIO_start_send enc enc16,
      io_poll_flush = MessageIO_poll_flush tr,
      io_poll_next = poll_stream dec dec16 tr,
      io_into_inner_ok = (\<lambda>s. MessageIO_into_inner s \<noteq> None)\<rparr>"

datatype NegotiationError = NegProtocolError ProtocolError | NegFailed

text \<open>The states of a \<open>Negotiated\<close> stream.\<close>

datatype NegotiatedState = NegExpecting Protocol "HeaderLine option" | NegCompleted | NegInvalid

text \<open>One turn of a \<open>loop\<close>: \<open>None\<close> is a panic; \<open>(None, s)\<close> goes on, \<open>(Some r, s)\<close> returns \<open>r\<close>.\<close>

type_synonym ('a, 's) turn = "('a poll option \<times> 's) option"

text \<open>
  A poll of the message I/O within a turn: pending puts the state back, an error leaves the state
  behind that \<open>mem::replace\<close> put there (\<open>done\<close>).
\<close>

definition poll_then :: "((ProtocolError + 'a) poll \<times> 'm) option \<Rightarrow> ('m \<Rightarrow> 's) \<Rightarrow> ('m \<Rightarrow> 's)
    \<Rightarrow> ('a \<Rightarrow> 'm \<Rightarrow> (NegotiationError + 'b, 's) turn) \<Rightarrow> (NegotiationError + 'b, 's) turn" where
  "poll_then x back done k =
     (case x of
        None \<Rightarrow> None
      | Some (Pending, io) \<Rightarrow> Some (Some Pending, back io)
      | Some (Ready (Inl e), io) \<Rightarrow> Some (Some (Ready (Inl (NegProtocolError e))), done io)
      | Some (Ready (Inr a), io) \<Rightarrow> k a io)"

text \<open>A \<open>poll_next\<close> that treats the end of the stream as a failed negotiation.\<close>

fun swap_eof :: "((ProtocolError + Message) option poll \<times> 'm) option \<Rightarrow> ((ProtocolError + Message option) poll \<times> 'm) option" where
  "swap_eof None = None"
| "swap_eof (Some (Pending, io)) = Some (Pending, io)"
| "swap_eof (Some (Ready None, io)) = Some (Ready (Inr None), io)"
| "swap_eof (Some (Ready (Some (Inl e)), io)) = Some (Ready (Inl e), io)"
| "swap_eof (Some (Ready (Some (Inr m)), io)) = Some (Ready (Inr (Some m)), io)"

section \<open>Definitions: the dialer, one protocol after the other\<close>

datatype SeqState = SeqSendHeader | SeqSendProtocol bytes | SeqFlushProtocol bytes | SeqAwaitProtocol bytes | SeqDone

record 'm DialerSelectSeq =
  sq_protocols :: "bytes list"
  sq_state :: SeqState
  sq_version :: Version
  sq_io :: 'm

definition dialer_select_proto_serial :: "'m \<Rightarrow> bytes list \<Rightarrow> Version \<Rightarrow> 'm DialerSelectSeq" where
  "dialer_select_proto_serial io protocols v =
     \<lparr>sq_protocols = protocols, sq_state = SeqSendHeader, sq_version = v, sq_io = io\<rparr>"

definition Seq_fail :: "'m DialerSelectSeq \<Rightarrow> NegotiationError \<Rightarrow> (NegotiationError + 'b, 'm DialerSelectSeq) turn" where
  "Seq_fail s e = Some (Some (Ready (Inl e)), s\<lparr>sq_state := SeqDone\<rparr>)"

definition Seq_turn :: "'m msg_io \<Rightarrow> 'm DialerSelectSeq \<Rightarrow> (NegotiationError + (bytes \<times> NegotiatedState), 'm DialerSelectSeq) turn" where
  "Seq_turn ops s =
     (let done = (\<lambda>io. s\<lparr>sq_io := io, sq_state := SeqDone\<rparr>); back = (\<lambda>io. s\<lparr>sq_io := io\<rparr>)
      in case sq_state s of
        SeqSendHeader \<Rightarrow>
          poll_then (io_poll_ready ops (sq_io s)) back done (\<lambda>_ io.
            case io_start_send ops (MHeader (HeaderLine_from (sq_version s))) io of
              (Inl e, io) \<Rightarrow> Seq_fail (back io) (NegProtocolError e)
            | (Inr _, io) \<Rightarrow>
                (case sq_protocols s of
                   [] \<Rightarrow> Seq_fail (back io) NegFailed
                 | p # ps \<Rightarrow> Some (None, s\<lparr>sq_io := io, sq_protocols := ps, sq_state := SeqSendProtocol p\<rparr>)))
      | SeqSendProtocol protocol \<Rightarrow>
          poll_then (io_poll_ready ops (sq_io s)) back done (\<lambda>_ io.
            case Protocol_try_from protocol of
              Inl e \<Rightarrow> Seq_fail (back io) (NegProtocolError e)
            | Inr p \<Rightarrow>
                (case io_start_send ops (MProtocol p) io of
                   (Inl e, io) \<Rightarrow> Seq_fail (back io) (NegProtocolError e)
                 | (Inr _, io) \<Rightarrow>
                     if sq_protocols s \<noteq> [] then Some (None, s\<lparr>sq_io := io, sq_state := SeqFlushProtocol protocol\<rparr>)
                     else (case sq_version s of
                             V1 \<Rightarrow> Some (None, s\<lparr>sq_io := io, sq_state := SeqFlushProtocol protocol\<rparr>)
                           | V1Lazy \<Rightarrow> Some (Some (Ready (Inr (protocol, NegExpecting p (Some (HeaderLine_from V1Lazy))))), done io))))
      | SeqFlushProtocol protocol \<Rightarrow>
          poll_then (io_poll_flush ops (sq_io s)) back done (\<lambda>_ io.
            Some (None, s\<lparr>sq_io := io, sq_state := SeqAwaitProtocol protocol\<rparr>))
      | SeqAwaitProtocol protocol \<Rightarrow>
          poll_then (swap_eof (io_poll_next ops (sq_io s))) back done (\<lambda>m io.
            case m of
              None \<Rightarrow> Seq_fail (back io) NegFailed
            | Some (MHeader v) \<Rightarrow>
                if v = HeaderLine_from (sq_version s) then Some (None, back io)
                else Seq_fail (back io) (NegProtocolError InvalidMessage)
            | Some (MProtocol p) \<Rightarrow>
                if protocol_name p = protocol
                then (if io_into_inner_ok ops io then Some (Some (Ready (Inr (protocol, NegCompleted))), done io) else None)
                else Seq_fail (back io) (NegProtocolError InvalidMessage)
            | Some MNotAvailable \<Rightarrow>
                (case sq_protocols s of
                   [] \<Rightarrow> Seq_fail (back io) NegFailed
                 | p # ps \<Rightarrow> Some (None, s\<lparr>sq_io := io, sq_protocols := ps, sq_state := SeqSendProtocol p\<rparr>))
            | Some _ \<Rightarrow> Seq_fail (back io) (NegProtocolError InvalidMessage))
      | SeqDone \<Rightarrow> None)"

section \<open>Definitions: the dialer, from the list of the remote\<close>

datatype ParState = ParSendHeader | ParSendProtocolsRequest | ParFlush | ParRecvProtocols | ParSendProtocol bytes | ParDone

record 'm DialerSelectPar =
  pr_protocols :: "bytes list"
  pr_state :: ParState
  pr_version :: Version
  pr_io :: 'm

definition dialer_select_proto_parallel :: "'m \<Rightarrow> bytes list \<Rightarrow> Version \<Rightarrow> 'm DialerSelectPar" where
  "dialer_select_proto_parallel io protocols v =
     \<lparr>pr_protocols = protocols, pr_state = ParSendHeader, pr_version = v, pr_io = io\<rparr>"

definition Par_fail :: "'m DialerSelectPar \<Rightarrow> NegotiationError \<Rightarrow> (NegotiationError + 'b, 'm DialerSelectPar) turn" where
  "Par_fail s e = Some (Some (Ready (Inl e)), s\<lparr>pr_state := ParDone\<rparr>)"

definition Par_turn :: "'m msg_io \<Rightarrow> 'm DialerSelectPar \<Rightarrow> (NegotiationError + (bytes \<times> NegotiatedState), 'm DialerSelectPar) turn" where
  "Par_turn ops s =
     (let done = (\<lambda>io. s\<lparr>pr_io := io, pr_state := ParDone\<rparr>); back = (\<lambda>io. s\<lparr>pr_io := io\<rparr>)
      in case pr_state s of
        ParSendHeader \<Rightarrow>
          poll_then (io_poll_ready ops (pr_io s)) back done (\<lambda>_ io.
            case io_start_send ops (MHeader (HeaderLine_from (pr_version s))) io of
              (Inl e, io) \<Rightarrow> Par_fail (back io) (NegProtocolError e)
            | (Inr _, io) \<Rightarrow> Some (None, s\<lparr>pr_io := io, pr_state := ParSendProtocolsRequest\<rparr>))
      | ParSendProtocolsRequest \<Rightarrow>
          poll_then (io_poll_ready ops (pr_io s)) back done (\<lambda>_ io.
            case io_start_send ops MListProtocols io of
              (Inl e, io) \<Rightarrow> Par_fail (back io) (NegProtocolError e)
            | (Inr _, io) \<Rightarrow> Some (None, s\<lparr>pr_io := io, pr_state := ParFlush\<rparr>))
      | ParFlush \<Rightarrow>
          poll_then (io_poll_flush ops (pr_io s)) back done (\<lambda>_ io.
            Some (None, s\<lparr>pr_io := io, pr_state := ParRecvProtocols\<rparr>))
      | ParRecvProtocols \<Rightarrow>
          poll_then (swap_eof (io_poll_next ops (pr_io s))) back done (\<lambda>m io.
            case m of
              None \<Rightarrow> Par_fail (back io) NegFailed
            | Some (MHeader h) \<Rightarrow>
                if h = HeaderLine_from (pr_version s) then Some (None, back io)
                else Par_fail (back io) (NegProtocolError InvalidMessage)
            | Some (MProtocols supported) \<Rightarrow>
                (case dropWhile (\<lambda>p. \<not> list_ex (\<lambda>q. protocol_name q = p) supported) (pr_protocols s) of
                   [] \<Rightarrow> Par_fail (s\<lparr>pr_io := io, pr_protocols := []\<rparr>) NegFailed
                 | p # ps \<Rightarrow> Some (None, s\<lparr>pr_io := io, pr_protocols := ps, pr_state := ParSendProtocol p\<rparr>))
            | Some _ \<Rightarrow> Par_fail (back io) (NegProtocolError InvalidMessage))
      | ParSendProtocol protocol \<Rightarrow>
          poll_then (io_poll_ready ops (pr_io s)) back done (\<lambda>_ io.
            case Protocol_try_from protocol of
              Inl e \<Rightarrow> Par_fail (back io) (NegProtocolError e)
            | Inr p \<Rightarrow>
                (case io_start_send ops (MProtocol p) io of
                   (Inl e, io) \<Rightarrow> Par_fail (back io) (NegProtocolError e)
                 | (Inr _, io) \<Rightarrow> Some (Some (Ready (Inr (protocol, NegExpecting p None))), done io)))
      | ParDone \<Rightarrow> None)"

text \<open>The choice between the two, by the upper bound of the iterator's size hint.\<close>

definition dialer_select_proto :: "'m \<Rightarrow> bytes list \<Rightarrow> nat option \<Rightarrow> Version \<Rightarrow> 'm DialerSelectSeq + 'm DialerSelectPar" where
  "dialer_select_proto io protocols hint v =
     (if (case hint of Some n \<Rightarrow> n \<le> 3 | None \<Rightarrow> False)
      then Inl (dialer_select_proto_serial io protocols v)
      else Inr (dialer_select_proto_parallel io protocols v))"

section \<open>Definitions: the listener\<close>

datatype ListenerState = LRecvHeader | LSendHeader | LRecvMessage | LSendMessage Message "bytes option" | LFlush "bytes option" | LDone

record 'm ListenerSelect =
  ls_protocols :: "(bytes \<times> Protocol) list"
  ls_state :: ListenerState
  ls_last_sent_na :: bool
  ls_io :: 'm

definition listener_select_proto :: "'m \<Rightarrow> bytes list \<Rightarrow> 'm ListenerSelect" where
  "listener_select_proto io protocols =
     \<lparr>ls_protocols = List.map_filter (\<lambda>n. case Protocol_try_from n of Inr p \<Rightarrow> Some (n, p) | Inl e \<Rightarrow> None) protocols,
      ls_state = LRecvHeader, ls_last_sent_na = False, ls_io = io\<rparr>"

definition Listener_fail :: "'m ListenerSelect \<Rightarrow> NegotiationError \<Rightarrow> (NegotiationError + 'b, 'm ListenerSelect) turn" where
  "Listener_fail s e = Some (Some (Ready (Inl e)), s\<lparr>ls_state := LDone\<rparr>)"

text \<open>An error read after a rejection: garbage or the end of the stream is a failed negotiation.\<close>

definition recv_error :: "bool \<Rightarrow> ProtocolError \<Rightarrow> NegotiationError" where
  "recv_error last_sent_na err =
     (if last_sent_na \<and> (err = InvalidMessage \<or> err = IoError UnexpectedEof) then NegFailed else NegProtocolError err)"

fun Listener_message :: "'m ListenerSelect \<Rightarrow> Message \<Rightarrow> (NegotiationError + 'b, 'm ListenerSelect) turn" where
  "Listener_message s MListProtocols = Some (None, s\<lparr>ls_state := LSendMessage (MProtocols (map snd (ls_protocols s))) None\<rparr>)"
| "Listener_message s (MProtocol p) =
     (let protocol = map_option fst (find (\<lambda>(name, proto). p = proto) (ls_protocols s));
          message = (if protocol \<noteq> None then MProtocol p else MNotAvailable)
      in Some (None, s\<lparr>ls_state := LSendMessage message protocol\<rparr>))"
| "Listener_message s _ = Listener_fail s (NegProtocolError InvalidMessage)"

definition Listener_turn :: "'m msg_io \<Rightarrow> 'm ListenerSelect \<Rightarrow> (NegotiationError + (bytes \<times> NegotiatedState), 'm ListenerSelect) turn" where
  "Listener_turn ops s =
     (let done = (\<lambda>io. s\<lparr>ls_io := io, ls_state := LDone\<rparr>); back = (\<lambda>io. s\<lparr>ls_io := io\<rparr>)
      in case ls_state s of
        LRecvHeader \<Rightarrow>
          poll_then (swap_eof (io_poll_next ops (ls_io s))) back done (\<lambda>m io.
            case m of
              None \<Rightarrow> Listener_fail (back io) NegFailed
            | Some (MHeader HeaderV1) \<Rightarrow> Some (None, s\<lparr>ls_io := io, ls_state := LSendHeader\<rparr>)
            | Some _ \<Rightarrow> Listener_fail (back io) (NegProtocolError InvalidMessage))
      | LSendHeader \<Rightarrow>
          poll_then (io_poll_ready ops (ls_io s)) back done (\<lambda>_ io.
            case io_start_send ops (MHeader HeaderV1) io of
              (Inl e, io) \<Rightarrow> Listener_fail (back io) (NegProtocolError e)
            | (Inr _, io) \<Rightarrow> Some (None, s\<lparr>ls_io := io, ls_state := LFlush None\<rparr>))
      | LRecvMessage \<Rightarrow>
          (case io_poll_next ops (ls_io s) of
             None \<Rightarrow> None
           | Some (Pending, io) \<Rightarrow> Some (Some Pending, back io)
           | Some (Ready None, io) \<Rightarrow> Listener_fail (back io) NegFailed
           | Some (Ready (Some (Inl err)), io) \<Rightarrow> Listener_fail (back io) (recv_error (ls_last_sent_na s) err)
           | Some (Ready (Some (Inr m)), io) \<Rightarrow> Listener_message (back io) m)
      | LSendMessage message protocol \<Rightarrow>
          poll_then (io_poll_ready ops (ls_io s)) back done (\<lambda>_ io.
            let s1 = s\<lparr>ls_last_sent_na := (message = MNotAvailable)\<rparr>
            in case io_start_send ops message io of
                 (Inl e, io) \<Rightarrow> Listener_fail (s1\<lparr>ls_io := io\<rparr>) (NegProtocolError e)
               | (Inr _, io) \<Rightarrow> Some (None, s1\<lparr>ls_io := io, ls_state := LFlush protocol\<rparr>))
      | LFlush protocol \<Rightarrow>
          poll_then (io_poll_flush ops (ls_io s)) back done (\<lambda>_ io.
            case protocol of
              Some p \<Rightarrow> if io_into_inner_ok ops io then Some (Some (Ready (Inr (p, NegCompleted))), done io) else None
            | None \<Rightarrow> Some (None, s\<lparr>ls_io := io, ls_state := LRecvMessage\<rparr>))
      | LDone \<Rightarrow> None)"

section \<open>Definitions: the negotiated stream\<close>

record 'm Negotiated =
  ng_state :: NegotiatedState
  ng_io :: 'm

text \<open>
  A turn of the loop of \<open>Negotiated::poll\<close> that reads the outstanding messages. \<open>Negotiated_flush\<close> is
  the flush before the loop, of which a \<open>WriteZero\<close> is ignored.
\<close>

definition Negotiated_turn :: "'m msg_io \<Rightarrow> 'm Negotiated \<Rightarrow> (NegotiationError + unit, 'm Negotiated) turn" where
  "Negotiated_turn ops s =
     (case ng_state s of
        NegExpecting protocol header \<Rightarrow>
          poll_then (swap_eof (io_poll_next ops (ng_io s))) (\<lambda>io. s\<lparr>ng_io := io\<rparr>) (\<lambda>io. s\<lparr>ng_io := io, ng_state := NegInvalid\<rparr>) (\<lambda>m io.
            case m of
              None \<Rightarrow> Some (Some (Ready (Inl (NegProtocolError (IoError UnexpectedEof)))), s\<lparr>ng_io := io, ng_state := NegInvalid\<rparr>)
            | Some msg \<Rightarrow>
                if (case msg of MHeader h \<Rightarrow> Some h = header | _ \<Rightarrow> False)
                then Some (None, s\<lparr>ng_io := io, ng_state := NegExpecting protocol None\<rparr>)
                else if (case msg of MProtocol p \<Rightarrow> protocol_name p = protocol_name protocol | _ \<Rightarrow> False)
                then (if io_into_inner_ok ops io then Some (Some (Ready (Inr ())), s\<lparr>ng_io := io, ng_state := NegCompleted\<rparr>) else None)
                else Some (Some (Ready (Inl NegFailed)), s\<lparr>ng_io := io, ng_state := NegInvalid\<rparr>))
      | _ \<Rightarrow> None)"

definition Negotiated_flush :: "'m msg_io \<Rightarrow> 'm Negotiated \<Rightarrow> (NegotiationError + unit, 'm Negotiated) turn" where
  "Negotiated_flush ops s =
     (if ng_state s = NegInvalid then None
      else case io_poll_flush ops (ng_io s) of
             None \<Rightarrow> None
           | Some (Pending, io) \<Rightarrow> Some (Some Pending, s\<lparr>ng_io := io\<rparr>)
           | Some (Ready x, io) \<Rightarrow>
               (case x of
                  Inl e \<Rightarrow> if e \<noteq> IoError WriteZero then Some (Some (Ready (Inl (NegProtocolError e))), s\<lparr>ng_io := io\<rparr>)
                           else if ng_state s = NegCompleted then Some (Some (Ready (Inr ())), s\<lparr>ng_io := io\<rparr>)
                           else Some (None, s\<lparr>ng_io := io\<rparr>)
                | Inr _ \<Rightarrow> if ng_state s = NegCompleted then Some (Some (Ready (Inr ())), s\<lparr>ng_io := io\<rparr>)
                           else Some (None, s\<lparr>ng_io := io\<rparr>)))"

section \<open>Two peers\<close>

text \<open>
  Message I/O over a pair of queues: messages are buffered until flushed, then in transit, then to be
  read. This is what theory Multistream_Message shows of the messages that are framed and sent over a
  reliable stream.
\<close>

record queue_io =
  q_in :: "Message list"
  q_eof :: bool
  q_wbuf :: "Message list"
  q_out :: "Message list"

definition queue_ops :: "queue_io msg_io" where
  "queue_ops =
     \<lparr>io_poll_ready = \<lambda>q. Some (Ready (Inr ()), q),
      io_start_send = \<lambda>m q. (Inr (), q\<lparr>q_wbuf := q_wbuf q @ [m]\<rparr>),
      io_poll_flush = \<lambda>q. Some (Ready (Inr ()), q\<lparr>q_out := q_out q @ q_wbuf q, q_wbuf := []\<rparr>),
      io_poll_next = \<lambda>q. (case q_in q of
          m # ms \<Rightarrow> Some (Ready (Some (Inr m)), q\<lparr>q_in := ms\<rparr>)
        | [] \<Rightarrow> Some (if q_eof q then Ready None else Pending, q)),
      io_into_inner_ok = \<lambda>q. q_wbuf q = []\<rparr>"

definition queue_new :: queue_io where
  "queue_new = \<lparr>q_in = [], q_eof = False, q_wbuf = [], q_out = []\<rparr>"

text \<open>The dialing peer: still selecting, settled on a protocol, or failed.\<close>

datatype dialer =
    DSeq "queue_io DialerSelectSeq" | DPar "queue_io DialerSelectPar"
  | DNeg bytes "queue_io Negotiated" | DErr NegotiationError queue_io

fun dialer_io :: "dialer \<Rightarrow> queue_io" where
  "dialer_io (DSeq d) = sq_io d"
| "dialer_io (DPar d) = pr_io d"
| "dialer_io (DNeg p n) = ng_io n"
| "dialer_io (DErr e q) = q"

fun set_dialer_io :: "queue_io \<Rightarrow> dialer \<Rightarrow> dialer" where
  "set_dialer_io q (DSeq d) = DSeq (d\<lparr>sq_io := q\<rparr>)"
| "set_dialer_io q (DPar d) = DPar (d\<lparr>pr_io := q\<rparr>)"
| "set_dialer_io q (DNeg p n) = DNeg p (n\<lparr>ng_io := q\<rparr>)"
| "set_dialer_io q (DErr e q') = DErr e q"

text \<open>What a turn of the dialer leads to: \<open>None\<close> is a panic, \<open>Some None\<close> is pending.\<close>

definition after_turn :: "('a, 's) turn \<Rightarrow> ('s \<Rightarrow> dialer) \<Rightarrow> ('a \<Rightarrow> 's \<Rightarrow> dialer) \<Rightarrow> dialer option option" where
  "after_turn t go ret =
     (case t of
        None \<Rightarrow> None
      | Some (None, s) \<Rightarrow> Some (Some (go s))
      | Some (Some Pending, s) \<Rightarrow> Some None
      | Some (Some (Ready r), s) \<Rightarrow> Some (Some (ret r s)))"

fun settle :: "(NegotiationError + (bytes \<times> NegotiatedState)) \<Rightarrow> queue_io \<Rightarrow> dialer" where
  "settle (Inl e) io = DErr e io"
| "settle (Inr (p, st)) io = DNeg p \<lparr>ng_state = st, ng_io = io\<rparr>"

fun dialer_turn :: "dialer \<Rightarrow> dialer option option" where
  "dialer_turn (DSeq d) = after_turn (Seq_turn queue_ops d) DSeq (\<lambda>r d'. settle r (sq_io d'))"
| "dialer_turn (DPar d) = after_turn (Par_turn queue_ops d) DPar (\<lambda>r d'. settle r (pr_io d'))"
| "dialer_turn (DNeg p n) =
     (if ng_state n = NegCompleted then Some None
      else after_turn (Negotiated_turn queue_ops n) (DNeg p) (\<lambda>r n'. case r of Inl e \<Rightarrow> DErr e (ng_io n') | Inr _ \<Rightarrow> DNeg p n'))"
| "dialer_turn (DErr e q) = Some None"

record system =
  sy_dialer :: dialer
  sy_listener :: "queue_io ListenerSelect"
  sy_result :: "(NegotiationError + bytes) option"

inductive sys_step :: "system \<Rightarrow> system \<Rightarrow> bool" where
  dialer_turn: "dialer_turn (sy_dialer s) = Some (Some d) \<Longrightarrow> sys_step s (s\<lparr>sy_dialer := d\<rparr>)"
| neg_flush: "sy_dialer s = DNeg p n \<Longrightarrow> q_wbuf (ng_io n) \<noteq> [] \<Longrightarrow>
    Negotiated_flush queue_ops n = Some (None, n') \<Longrightarrow> sys_step s (s\<lparr>sy_dialer := DNeg p n'\<rparr>)"
| listener_turn: "sy_result s = None \<Longrightarrow> Listener_turn queue_ops (sy_listener s) = Some (None, l) \<Longrightarrow>
    sys_step s (s\<lparr>sy_listener := l\<rparr>)"
| listener_end: "sy_result s = None \<Longrightarrow> Listener_turn queue_ops (sy_listener s) = Some (Some (Ready r), l) \<Longrightarrow>
    sys_step s (s\<lparr>sy_listener := l, sy_result := Some (map_sum id fst r)\<rparr>)"
| deliver_listener: "dialer_io (sy_dialer s) = q \<Longrightarrow> q_out q = m # ms \<Longrightarrow>
    sys_step s (s\<lparr>sy_dialer := set_dialer_io (q\<lparr>q_out := ms\<rparr>) (sy_dialer s),
      sy_listener := (sy_listener s)\<lparr>ls_io := (ls_io (sy_listener s))\<lparr>q_in := q_in (ls_io (sy_listener s)) @ [m]\<rparr>\<rparr>\<rparr>)"
| deliver_dialer: "ls_io (sy_listener s) = q \<Longrightarrow> q_out q = m # ms \<Longrightarrow>
    sys_step s (s\<lparr>sy_listener := (sy_listener s)\<lparr>ls_io := q\<lparr>q_out := ms\<rparr>\<rparr>,
      sy_dialer := set_dialer_io ((dialer_io (sy_dialer s))\<lparr>q_in := q_in (dialer_io (sy_dialer s)) @ [m]\<rparr>) (sy_dialer s)\<rparr>)"
| eof_listener: "sy_dialer s = DErr e q \<Longrightarrow> q_out q = [] \<Longrightarrow> \<not> q_eof (ls_io (sy_listener s)) \<Longrightarrow>
    sys_step s (s\<lparr>sy_listener := (sy_listener s)\<lparr>ls_io := (ls_io (sy_listener s))\<lparr>q_eof := True\<rparr>\<rparr>\<rparr>)"

text \<open>Both strategies of the dialer, and both versions.\<close>

definition sys_new :: "bytes list \<Rightarrow> bool \<Rightarrow> Version \<Rightarrow> bytes list \<Rightarrow> system" where
  "sys_new ps serial v ls =
     \<lparr>sy_dialer = (if serial then DSeq (dialer_select_proto_serial queue_new ps v)
                   else DPar (dialer_select_proto_parallel queue_new ps v)),
      sy_listener = listener_select_proto queue_new ls, sy_result = None\<rparr>"

section \<open>The invariant of a negotiation\<close>

abbreviation hdr :: Message where
  "hdr \<equiv> MHeader HeaderV1"

fun reply :: "bytes list \<Rightarrow> Message \<Rightarrow> Message" where
  "reply ls (MProtocol p) = (if protocol_name p \<in> set ls then MProtocol p else MNotAvailable)"
| "reply ls _ = MProtocols (map Protocol ls)"

fun sel :: "bytes list \<Rightarrow> Message \<Rightarrow> bytes option" where
  "sel ls (MProtocol p) = (if protocol_name p \<in> set ls then Some (protocol_name p) else None)"
| "sel ls _ = None"

fun is_request :: "Message \<Rightarrow> bool" where
  "is_request (MProtocol p) = True"
| "is_request MListProtocols = True"
| "is_request _ = False"

text \<open>
  The phases of the listener, given the request \<open>r\<close> the dialer waits to be answered, and whether the
  dialer has yet to read the listener's header (\<open>h\<close>). \<open>a\<close> are the messages sent to the dialer, \<open>w\<close>
  those the listener has buffered, \<open>q\<close> those the listener has yet to read.
\<close>

inductive lphase :: "bytes list \<Rightarrow> Message option \<Rightarrow> bool \<Rightarrow> ListenerState \<Rightarrow> (NegotiationError + bytes) option
    \<Rightarrow> Message list \<Rightarrow> Message list \<Rightarrow> Message list \<Rightarrow> bool" for ls where
  recv_header: "lphase ls r True LRecvHeader None [] [] (hdr # (case r of None \<Rightarrow> [] | Some m \<Rightarrow> [m]))"
| send_header: "lphase ls r True LSendHeader None [] [] (case r of None \<Rightarrow> [] | Some m \<Rightarrow> [m])"
| flush_header: "lphase ls r True (LFlush None) None [] [hdr] (case r of None \<Rightarrow> [] | Some m \<Rightarrow> [m])"
| recv_message: "lphase ls r h LRecvMessage None (if h then [hdr] else []) [] (case r of None \<Rightarrow> [] | Some m \<Rightarrow> [m])"
| send_message: "lphase ls (Some m) h (LSendMessage (reply ls m) (sel ls m)) None (if h then [hdr] else []) [] []"
| flush_message: "lphase ls (Some m) h (LFlush (sel ls m)) None (if h then [hdr] else []) [reply ls m] []"
| answered: "sel ls m = None \<Longrightarrow> lphase ls (Some m) h LRecvMessage None ((if h then [hdr] else []) @ [reply ls m]) [] []"
| selected: "sel ls m = Some p \<Longrightarrow> lphase ls (Some m) h LDone (Some (Inr p)) ((if h then [hdr] else []) @ [reply ls m]) [] []"

definition tried :: "bytes list \<Rightarrow> bytes list \<Rightarrow> bytes \<Rightarrow> bytes list \<Rightarrow> bool" where
  "tried ps ls p rest \<longleftrightarrow> (\<exists>pre. ps = pre @ p # rest \<and> set pre \<inter> set ls = {})"

text \<open>A protocol the dialer may settle on before it is confirmed: the last one, if it is not supported.\<close>

definition candidate :: "bytes list \<Rightarrow> bytes list \<Rightarrow> bytes \<Rightarrow> bool" where
  "candidate ps ls p \<longleftrightarrow> (\<exists>rest. tried ps ls p rest \<and> (p \<notin> set ls \<longrightarrow> rest = []))"

definition start_phase :: "ListenerState \<Rightarrow> (NegotiationError + bytes) option \<Rightarrow> Message list \<Rightarrow> Message list \<Rightarrow> Message list \<Rightarrow> bool" where
  "start_phase st res a w q \<longleftrightarrow> st = LRecvHeader \<and> res = None \<and> a = [] \<and> w = [] \<and> q = []"

abbreviation request :: "bytes \<Rightarrow> Message option" where
  "request p \<equiv> Some (MProtocol (Protocol p))"

fun seq_ok :: "bytes list \<Rightarrow> bytes list \<Rightarrow> bytes list \<Rightarrow> Message list \<Rightarrow> SeqState \<Rightarrow> ListenerState
    \<Rightarrow> (NegotiationError + bytes) option \<Rightarrow> Message list \<Rightarrow> Message list \<Rightarrow> Message list \<Rightarrow> bool" where
  "seq_ok ps ls rest wb SeqSendHeader st res a w q \<longleftrightarrow> rest = ps \<and> wb = [] \<and> start_phase st res a w q"
| "seq_ok ps ls rest wb (SeqSendProtocol p) st res a w q \<longleftrightarrow> tried ps ls p rest \<and> (\<exists>h. lphase ls None h st res a w q)"
| "seq_ok ps ls rest wb (SeqFlushProtocol p) st res a w q \<longleftrightarrow>
     tried ps ls p rest \<and> wb \<noteq> [] \<and> (\<exists>h. lphase ls (request p) h st res a w q)"
| "seq_ok ps ls rest wb (SeqAwaitProtocol p) st res a w q \<longleftrightarrow>
     tried ps ls p rest \<and> wb = [] \<and> (\<exists>h. lphase ls (request p) h st res a w q)"
| "seq_ok ps ls rest wb SeqDone st res a w q \<longleftrightarrow> False"

fun par_ok :: "bytes list \<Rightarrow> bytes list \<Rightarrow> bytes list \<Rightarrow> Message list \<Rightarrow> ParState \<Rightarrow> ListenerState
    \<Rightarrow> (NegotiationError + bytes) option \<Rightarrow> Message list \<Rightarrow> Message list \<Rightarrow> Message list \<Rightarrow> bool" where
  "par_ok ps ls rest wb ParSendHeader st res a w q \<longleftrightarrow> rest = ps \<and> wb = [] \<and> start_phase st res a w q"
| "par_ok ps ls rest wb ParSendProtocolsRequest st res a w q \<longleftrightarrow> rest = ps \<and> (\<exists>h. lphase ls None h st res a w q)"
| "par_ok ps ls rest wb ParFlush st res a w q \<longleftrightarrow> rest = ps \<and> wb \<noteq> [] \<and> (\<exists>h. lphase ls (Some MListProtocols) h st res a w q)"
| "par_ok ps ls rest wb ParRecvProtocols st res a w q \<longleftrightarrow> rest = ps \<and> wb = [] \<and> (\<exists>h. lphase ls (Some MListProtocols) h st res a w q)"
| "par_ok ps ls rest wb (ParSendProtocol p) st res a w q \<longleftrightarrow> tried ps ls p rest \<and> p \<in> set ls \<and> lphase ls None False st res a w q"
| "par_ok ps ls rest wb ParDone st res a w q \<longleftrightarrow> False"

fun neg_ok :: "bytes list \<Rightarrow> bytes list \<Rightarrow> bytes \<Rightarrow> NegotiatedState \<Rightarrow> ListenerState
    \<Rightarrow> (NegotiationError + bytes) option \<Rightarrow> Message list \<Rightarrow> Message list \<Rightarrow> Message list \<Rightarrow> bool" where
  "neg_ok ps ls p (NegExpecting pr header) st res a w q \<longleftrightarrow>
     pr = Protocol p \<and> candidate ps ls p \<and> (\<exists>h. lphase ls (request p) h st res a w q \<and> (h \<longrightarrow> header = Some HeaderV1))"
| "neg_ok ps ls p NegCompleted st res a w q \<longleftrightarrow> candidate ps ls p \<and> p \<in> set ls \<and> res = Some (Inr p) \<and> a = [] \<and> q = []"
| "neg_ok ps ls p NegInvalid st res a w q \<longleftrightarrow> False"

definition failed_ok :: "bytes list \<Rightarrow> bytes list \<Rightarrow> NegotiationError \<Rightarrow> queue_io \<Rightarrow> queue_io ListenerSelect
    \<Rightarrow> (NegotiationError + bytes) option \<Rightarrow> bool" where
  "failed_ok ps ls e dq l res \<longleftrightarrow>
     e = NegFailed \<and> set ps \<inter> set ls = {} \<and> q_out dq = [] \<and> q_in (ls_io l) = [] \<and>
     (res = None \<and> (ls_state l = LRecvHeader \<or> ls_state l = LRecvMessage) \<or> res = Some (Inl NegFailed))"

fun sys_phase :: "bytes list \<Rightarrow> bytes list \<Rightarrow> dialer \<Rightarrow> queue_io ListenerSelect \<Rightarrow> (NegotiationError + bytes) option
    \<Rightarrow> Message list \<Rightarrow> Message list \<Rightarrow> Message list \<Rightarrow> bool" where
  "sys_phase ps ls (DSeq d) l res a w q \<longleftrightarrow> seq_ok ps ls (sq_protocols d) (q_wbuf (sq_io d)) (sq_state d) (ls_state l) res a w q"
| "sys_phase ps ls (DPar d) l res a w q \<longleftrightarrow> par_ok ps ls (pr_protocols d) (q_wbuf (pr_io d)) (pr_state d) (ls_state l) res a w q"
| "sys_phase ps ls (DNeg p n) l res a w q \<longleftrightarrow> neg_ok ps ls p (ng_state n) (ls_state l) res a w q"
| "sys_phase ps ls (DErr e dq) l res a w q \<longleftrightarrow> failed_ok ps ls e dq l res"

definition to_dialer :: "dialer \<Rightarrow> queue_io ListenerSelect \<Rightarrow> Message list" where
  "to_dialer d l = q_in (dialer_io d) @ q_out (ls_io l)"

definition to_listener :: "dialer \<Rightarrow> queue_io ListenerSelect \<Rightarrow> Message list" where
  "to_listener d l = q_in (ls_io l) @ q_out (dialer_io d) @ q_wbuf (dialer_io d)"

definition sys_inv :: "bytes list \<Rightarrow> bytes list \<Rightarrow> system \<Rightarrow> bool" where
  "sys_inv ps ls s \<longleftrightarrow>
     ls_protocols (sy_listener s) = map (\<lambda>n. (n, Protocol n)) ls \<and>
     \<not> q_eof (dialer_io (sy_dialer s)) \<and>
     (q_eof (ls_io (sy_listener s)) \<longrightarrow> (\<exists>e q. sy_dialer s = DErr e q)) \<and>
     sys_phase ps ls (sy_dialer s) (sy_listener s) (sy_result s)
       (to_dialer (sy_dialer s) (sy_listener s)) (q_wbuf (ls_io (sy_listener s)))
       (to_listener (sy_dialer s) (sy_listener s))"

section \<open>Turns of the listener\<close>

lemma find_name:
  "map_option fst (find (\<lambda>(name, proto). p = proto) (map (\<lambda>n. (n, Protocol n)) ls)) =
     (if protocol_name p \<in> set ls then Some (protocol_name p) else None)"
  by (induction ls) (cases p; auto)+

lemma Listener_message_request:
  assumes "ls_protocols l = map (\<lambda>n. (n, Protocol n)) ls" and "is_request m"
  shows "Listener_message l m = Some (None, l\<lparr>ls_state := LSendMessage (reply ls m) (sel ls m)\<rparr>)"
proof (cases m)
  case (MProtocol p)
  then show ?thesis using find_name [of p ls] by (auto simp: Let_def assms(1))
qed (use assms in \<open>auto simp: comp_def\<close>)

definition lturn_ok :: "bytes list \<Rightarrow> Message option \<Rightarrow> bool \<Rightarrow> queue_io ListenerSelect \<Rightarrow> Message list \<Rightarrow> Message list
    \<Rightarrow> (NegotiationError + (bytes \<times> NegotiatedState), queue_io ListenerSelect) turn \<Rightarrow> bool" where
  "lturn_ok ls r h l a0 rest t \<longleftrightarrow>
     (\<exists>x l'. t = Some (x, l') \<and> ls_protocols l' = ls_protocols l \<and> q_eof (ls_io l') = q_eof (ls_io l) \<and>
       (case x of
          None \<Rightarrow> lphase ls r h (ls_state l') None (a0 @ q_out (ls_io l')) (q_wbuf (ls_io l')) (q_in (ls_io l') @ rest)
        | Some Pending \<Rightarrow> q_in (ls_io l) = []
        | Some (Ready y) \<Rightarrow> (\<exists>p. y = Inr (p, NegCompleted) \<and>
            lphase ls r h (ls_state l') (Some (Inr p)) (a0 @ q_out (ls_io l')) (q_wbuf (ls_io l')) (q_in (ls_io l') @ rest))))"

lemmas turn_simps = Let_def poll_then_def queue_ops_def

lemma listener_turn_ok:
  assumes "lphase ls r h (ls_state l) None a w q"
    and "a = a0 @ q_out (ls_io l)" and "w = q_wbuf (ls_io l)" and "q = q_in (ls_io l) @ rest"
    and prot: "ls_protocols l = map (\<lambda>n. (n, Protocol n)) ls" and "\<not> q_eof (ls_io l)" and req: "\<And>m. r = Some m \<Longrightarrow> is_request m"
  shows "lturn_ok ls r h l a0 rest (Listener_turn queue_ops l)"
proof -
  note e = assms(2-4)
  show ?thesis using assms(1)
  proof (cases rule: lphase.cases)
    case recv_header
    then show ?thesis using e assms(6) lphase.send_header [of ls r]
      by (cases "q_in (ls_io l)") (auto simp: lturn_ok_def Listener_turn_def turn_simps)
  next
    case send_header
    then show ?thesis using e lphase.flush_header [of ls r]
      by (auto simp: lturn_ok_def Listener_turn_def turn_simps)
  next
    case flush_header
    then show ?thesis using e lphase.recv_message [of ls r True]
      by (auto simp: lturn_ok_def Listener_turn_def turn_simps)
  next
    case recv_message
    show ?thesis
    proof (cases "q_in (ls_io l)")
      case Nil
      then show ?thesis using recv_message assms(6) by (simp add: lturn_ok_def Listener_turn_def turn_simps)
    next
      case (Cons m ms)
      then have r: "r = Some m" "ms = []" "rest = []" using recv_message e by (auto split: option.splits)
      let ?l = "l\<lparr>ls_io := (ls_io l)\<lparr>q_in := ms\<rparr>\<rparr>"
      have "Listener_turn queue_ops l = Listener_message ?l m"
        using Cons recv_message(1-2) by (simp add: Listener_turn_def turn_simps)
      also have "\<dots> = Some (None, ?l\<lparr>ls_state := LSendMessage (reply ls m) (sel ls m)\<rparr>)"
        using prot req [OF r(1)] by (intro Listener_message_request) simp_all
      finally show ?thesis using r recv_message e lphase.send_message [of ls m h] by (simp add: lturn_ok_def)
    qed
  next
    case (send_message m)
    then show ?thesis using e lphase.flush_message [of ls m h]
      by (auto simp: lturn_ok_def Listener_turn_def turn_simps)
  next
    case (flush_message m)
    then have a: "a0 @ q_out (ls_io l) @ [reply ls m] = (if h then [hdr] else []) @ [reply ls m]"
      using e(1) by (simp only: append_assoc [symmetric])
    show ?thesis using flush_message e lphase.answered [of ls m h, folded a] lphase.selected [of ls m _ h, folded a]
      by (auto simp: lturn_ok_def Listener_turn_def turn_simps split: option.splits)
  next
    case (answered m)
    then show ?thesis using e assms(6) by (auto simp: lturn_ok_def Listener_turn_def turn_simps)
  qed
qed

section \<open>Turns of the dialer\<close>

lemma send_header_phase: "start_phase st res a w q \<Longrightarrow> lphase ls None True st res a w (q @ [hdr])"
  using lphase.recv_header [of ls None] by (simp add: start_phase_def)

lemma send_request_phase:
  assumes "lphase ls None h st res a w q"
  shows "lphase ls (Some m) h st res a w (q @ [m])"
  using assms
proof (cases rule: lphase.cases)
  case recv_header
  then show ?thesis using lphase.recv_header [of ls "Some m"] by simp
next
  case send_header
  then show ?thesis using lphase.send_header [of ls "Some m"] by simp
next
  case flush_header
  then show ?thesis using lphase.flush_header [of ls "Some m"] by simp
next
  case recv_message
  then show ?thesis using lphase.recv_message [of ls "Some m" h] by simp
qed

text \<open>The next message the dialer reads is the header or the reply to its request.\<close>

lemma read_phase:
  assumes "lphase ls (Some m) h st res (x # a) w q"
  obtains "x = hdr" and "h" and "lphase ls (Some m) False st res a w q"
  | "x = reply ls m" and "\<not> h" and "a = []" and "w = []" and "q = []" and "sel ls m = None" and "st = LRecvMessage" and "res = None"
  | p where "x = reply ls m" and "\<not> h" and "a = []" and "w = []" and "q = []" and "sel ls m = Some p" and "st = LDone" and "res = Some (Inr p)"
  using assms
proof (cases rule: lphase.cases)
  case recv_message
  then show ?thesis using that(1) lphase.recv_message [of ls "Some m" False] by (simp split: if_splits)
next
  case send_message
  then show ?thesis using that(1) lphase.send_message [of ls m False] by (simp split: if_splits)
next
  case flush_message
  then show ?thesis using that(1) lphase.flush_message [of ls m False] by (simp split: if_splits)
next
  case answered
  then show ?thesis using that(1,2) lphase.answered [of ls m False] by (cases h) auto
next
  case (selected p)
  then show ?thesis using that(1,3) lphase.selected [of ls m p False] by (cases h) auto
qed

lemma idle_phase: "lphase ls None False LRecvMessage None [] [] []"
  using lphase.recv_message [of ls None False] by simp

definition dturn_ok :: "bytes list \<Rightarrow> bytes list \<Rightarrow> queue_io ListenerSelect \<Rightarrow> (NegotiationError + bytes) option
    \<Rightarrow> dialer \<Rightarrow> dialer option option \<Rightarrow> bool" where
  "dturn_ok ps ls l res d t \<longleftrightarrow>
     (\<exists>x. t = Some x \<and>
       (case x of
          None \<Rightarrow> q_in (dialer_io d) = []
        | Some d' \<Rightarrow> \<not> q_eof (dialer_io d') \<and>
            sys_phase ps ls d' l res (to_dialer d' l) (q_wbuf (ls_io l)) (to_listener d' l)))"

abbreviation dphase_ok :: "bytes list \<Rightarrow> bytes list \<Rightarrow> queue_io ListenerSelect \<Rightarrow> (NegotiationError + bytes) option \<Rightarrow> dialer \<Rightarrow> bool" where
  "dphase_ok ps ls l res d \<equiv> \<not> q_eof (dialer_io d) \<and>
     sys_phase ps ls d l res (to_dialer d l) (q_wbuf (ls_io l)) (to_listener d l)"

lemmas flow_defs = to_dialer_def to_listener_def after_turn_def

lemma tried_next:
  assumes "tried ps ls p (p' # rest)" and "p \<notin> set ls"
  shows "tried ps ls p' rest"
proof -
  from assms(1) obtain pre where "ps = pre @ p # p' # rest" "set pre \<inter> set ls = {}" by (auto simp: tried_def)
  then have "ps = (pre @ [p]) @ p' # rest" "set (pre @ [p]) \<inter> set ls = {}" using assms(2) by auto
  then show ?thesis unfolding tried_def by blast
qed

lemma tried_last: "tried ps ls p [] \<Longrightarrow> p \<notin> set ls \<Longrightarrow> set ps \<inter> set ls = {}"
  by (auto simp: tried_def)

lemma tried_in: "tried ps ls p rest \<Longrightarrow> p \<in> set ps"
  by (auto simp: tried_def)

lemma tried_first: "tried (p # ps) ls p ps"
  by (simp add: tried_def)

lemma seq_send_header:
  assumes "dphase_ok ps ls l res (DSeq d)" and "sq_state d = SeqSendHeader"
  shows "dturn_ok ps ls l res (DSeq d) (dialer_turn (DSeq d))"
proof (cases "sq_protocols d")
  case Nil
  then show ?thesis using assms
    by (simp add: dturn_ok_def flow_defs Seq_turn_def Seq_fail_def turn_simps failed_ok_def start_phase_def)
next
  case (Cons p rest)
  have "HeaderLine_from v = HeaderV1" for v by (cases v) auto
  moreover have "ps = p # rest" using assms Cons by simp
  ultimately show ?thesis
    using Cons assms send_header_phase [of "ls_state l" res "to_dialer (DSeq d) l" "q_wbuf (ls_io l)" "to_listener (DSeq d) l" ls]
      tried_first [of p rest ls]
    by (fastforce simp: dturn_ok_def flow_defs Seq_turn_def turn_simps)
qed

lemma seq_send_protocol:
  assumes "dphase_ok ps ls l res (DSeq d)" and "sq_state d = SeqSendProtocol p" and "\<forall>p \<in> set ps. starts_with_slash p"
  shows "dturn_ok ps ls l res (DSeq d) (dialer_turn (DSeq d))"
proof -
  from assms obtain h where t: "tried ps ls p (sq_protocols d)" and
    h: "lphase ls None h (ls_state l) res (to_dialer (DSeq d) l) (q_wbuf (ls_io l)) (to_listener (DSeq d) l)" by auto
  have p: "Protocol_try_from p = Inr (Protocol p)" using tried_in [OF t] assms(3) by (simp add: Protocol_try_from_def)
  note h' = send_request_phase [OF h, of "MProtocol (Protocol p)"]
  have "candidate ps ls p" if "sq_protocols d = []" using t that by (auto simp: candidate_def)
  then show ?thesis using t p h' assms(1,2)
    by (auto simp: dturn_ok_def flow_defs Seq_turn_def turn_simps split: Version.splits)
qed

lemma seq_flush:
  assumes "dphase_ok ps ls l res (DSeq d)" and "sq_state d = SeqFlushProtocol p"
  shows "dturn_ok ps ls l res (DSeq d) (dialer_turn (DSeq d))"
  using assms by (auto simp: dturn_ok_def flow_defs Seq_turn_def turn_simps)

lemma seq_await:
  assumes "dphase_ok ps ls l res (DSeq d)" and "sq_state d = SeqAwaitProtocol p"
  shows "dturn_ok ps ls l res (DSeq d) (dialer_turn (DSeq d))"
proof (cases "q_in (sq_io d)")
  case Nil
  then show ?thesis using assms by (simp add: dturn_ok_def flow_defs Seq_turn_def turn_simps)
next
  case (Cons x xs)
  from assms obtain h where t: "tried ps ls p (sq_protocols d)" and wb: "q_wbuf (sq_io d) = []" and
    "lphase ls (request p) h (ls_state l) res (to_dialer (DSeq d) l) (q_wbuf (ls_io l)) (to_listener (DSeq d) l)" by auto
  then have "lphase ls (request p) h (ls_state l) res (x # xs @ q_out (ls_io l)) (q_wbuf (ls_io l)) (to_listener (DSeq d) l)"
    using Cons by (simp add: to_dialer_def)
  then show ?thesis
  proof (cases rule: read_phase)
    case 1
    have "HeaderLine_from v = HeaderV1" for v by (cases v) auto
    then show ?thesis using 1 Cons assms t wb by (auto simp: dturn_ok_def flow_defs Seq_turn_def turn_simps)
  next
    case 2
    then have x: "x = MNotAvailable" "p \<notin> set ls" by (auto split: if_splits)
    show ?thesis
    proof (cases "sq_protocols d")
      case Nil
      then show ?thesis using 2 x Cons assms t wb tried_last [of ps ls p]
        by (auto simp: dturn_ok_def flow_defs Seq_turn_def Seq_fail_def turn_simps failed_ok_def)
    next
      case (Cons p' rest)
      then show ?thesis using 2 x \<open>q_in (sq_io d) = x # xs\<close> assms t wb tried_next [of ps ls p p' rest] idle_phase [of ls]
        by (auto simp: dturn_ok_def flow_defs Seq_turn_def turn_simps)
    qed
  next
    case (3 p')
    then have x: "x = MProtocol (Protocol p)" "p \<in> set ls" "p' = p" by (auto split: if_splits)
    have "candidate ps ls p" using t x(2) by (auto simp: candidate_def)
    then show ?thesis using 3 x Cons assms wb by (auto simp: dturn_ok_def flow_defs Seq_turn_def turn_simps)
  qed
qed

lemma find_supported:
  "dropWhile (\<lambda>p. \<not> list_ex (\<lambda>q. protocol_name q = p) (map Protocol ls)) ps = p # rest \<Longrightarrow> tried ps ls p rest \<and> p \<in> set ls"
  "dropWhile (\<lambda>p. \<not> list_ex (\<lambda>q. protocol_name q = p) (map Protocol ls)) ps = [] \<Longrightarrow> set ps \<inter> set ls = {}"
proof -
  let ?P = "\<lambda>p. \<not> list_ex (\<lambda>q. protocol_name q = p) (map Protocol ls)"
  have P: "?P p \<longleftrightarrow> p \<notin> set ls" for p by (auto simp: list_ex_iff)
  show "tried ps ls p rest \<and> p \<in> set ls" if d: "dropWhile ?P ps = p # rest"
  proof -
    have "ps = takeWhile ?P ps @ p # rest" using takeWhile_dropWhile_id [of ?P ps] d by simp
    moreover have "set (takeWhile ?P ps) \<inter> set ls = {}" using set_takeWhileD [of _ ?P ps] P by blast
    moreover have "p \<in> set ls" using dropWhile_eq_Cons_conv [of ?P ps p rest] d P by blast
    ultimately show ?thesis unfolding tried_def by blast
  qed
  show "set ps \<inter> set ls = {}" if "dropWhile ?P ps = []" using that P by (auto simp: dropWhile_eq_Nil_conv)
qed

lemma header_from [simp]: "HeaderLine_from v = HeaderV1"
  by (cases v) auto

lemma par_send:
  assumes "dphase_ok ps ls l res (DPar d)" and "pr_state d \<in> {ParSendHeader, ParSendProtocolsRequest, ParFlush}"
  shows "dturn_ok ps ls l res (DPar d) (dialer_turn (DPar d))"
proof -
  note q = assms(1) [unfolded flow_defs]
  consider "pr_state d = ParSendHeader" | "pr_state d = ParSendProtocolsRequest" | "pr_state d = ParFlush" using assms(2) by auto
  then show ?thesis
  proof cases
    case 1
    then show ?thesis using q send_header_phase [of "ls_state l" res "to_dialer (DPar d) l" "q_wbuf (ls_io l)" "to_listener (DPar d) l" ls]
      by (auto simp: dturn_ok_def flow_defs Par_turn_def turn_simps)
  next
    case 2
    with assms obtain h where ps: "pr_protocols d = ps" and
      h: "lphase ls None h (ls_state l) res (to_dialer (DPar d) l) (q_wbuf (ls_io l)) (to_listener (DPar d) l)" by auto
    then show ?thesis using 2 q send_request_phase [OF h, of MListProtocols]
      by (auto simp: dturn_ok_def flow_defs Par_turn_def turn_simps)
  next
    case 3
    then show ?thesis using q by (auto simp: dturn_ok_def flow_defs Par_turn_def turn_simps)
  qed
qed

lemma par_recv:
  assumes "dphase_ok ps ls l res (DPar d)" and "pr_state d = ParRecvProtocols"
  shows "dturn_ok ps ls l res (DPar d) (dialer_turn (DPar d))"
proof (cases "q_in (pr_io d)")
  case Nil
  then show ?thesis using assms by (simp add: dturn_ok_def flow_defs Par_turn_def turn_simps)
next
  case (Cons x xs)
  from assms obtain h where ps: "pr_protocols d = ps" and wb: "q_wbuf (pr_io d) = []" and
    "lphase ls (Some MListProtocols) h (ls_state l) res (to_dialer (DPar d) l) (q_wbuf (ls_io l)) (to_listener (DPar d) l)" by auto
  then have "lphase ls (Some MListProtocols) h (ls_state l) res (x # xs @ q_out (ls_io l)) (q_wbuf (ls_io l)) (to_listener (DPar d) l)"
    using Cons by (simp add: to_dialer_def)
  then show ?thesis
  proof (cases rule: read_phase)
    case 1
    then show ?thesis using Cons assms ps wb by (auto simp: dturn_ok_def flow_defs Par_turn_def turn_simps)
  next
    case 2
    let ?D = "dropWhile (\<lambda>p. \<not> list_ex (\<lambda>q. protocol_name q = p) (map Protocol ls)) ps"
    show ?thesis
    proof (cases ?D)
      case Nil
      have "dialer_turn (DPar d) = Some (Some (DErr NegFailed ((pr_io d)\<lparr>q_in := xs\<rparr>)))"
        using Nil 2(1) Cons assms(2) ps
        by (simp add: flow_defs Par_turn_def Par_fail_def turn_simps del: dropWhile_eq_Nil_conv)
      then show ?thesis using 2 assms(1) find_supported(2) [OF Nil] by (simp add: dturn_ok_def flow_defs failed_ok_def)
    next
      case (Cons p rest)
      have "dialer_turn (DPar d) = Some (Some (DPar (d\<lparr>pr_io := (pr_io d)\<lparr>q_in := xs\<rparr>, pr_protocols := rest, pr_state := ParSendProtocol p\<rparr>)))"
        using Cons 2(1) \<open>q_in (pr_io d) = x # xs\<close> assms(2) ps by (simp add: flow_defs Par_turn_def turn_simps)
      then show ?thesis using 2 assms(1) find_supported(1) [OF Cons] wb idle_phase [of ls] by (simp add: dturn_ok_def flow_defs)
    qed
  qed simp
qed

lemma par_send_protocol:
  assumes "dphase_ok ps ls l res (DPar d)" and "pr_state d = ParSendProtocol p" and "\<forall>p \<in> set ps. starts_with_slash p"
  shows "dturn_ok ps ls l res (DPar d) (dialer_turn (DPar d))"
proof -
  from assms have t: "tried ps ls p (pr_protocols d)" "p \<in> set ls" and
    h: "lphase ls None False (ls_state l) res (to_dialer (DPar d) l) (q_wbuf (ls_io l)) (to_listener (DPar d) l)" by auto
  have p: "Protocol_try_from p = Inr (Protocol p)" using tried_in [OF t(1)] assms(3) by (simp add: Protocol_try_from_def)
  have "candidate ps ls p" using t by (auto simp: candidate_def)
  then show ?thesis using p send_request_phase [OF h, of "MProtocol (Protocol p)"] assms(1,2)
    by (auto simp: dturn_ok_def flow_defs Par_turn_def turn_simps)
qed

lemma neg_turn:
  assumes "dphase_ok ps ls l res (DNeg p n)"
  shows "dturn_ok ps ls l res (DNeg p n) (dialer_turn (DNeg p n))"
proof (cases "ng_state n")
  case (NegExpecting pr header)
  show ?thesis
  proof (cases "q_in (ng_io n)")
    case Nil
    then show ?thesis using assms NegExpecting by (simp add: dturn_ok_def flow_defs Negotiated_turn_def turn_simps)
  next
    case (Cons x xs)
    from assms NegExpecting obtain h where pr: "pr = Protocol p" and c: "candidate ps ls p" and hh: "h \<longrightarrow> header = Some HeaderV1" and
      "lphase ls (request p) h (ls_state l) res (to_dialer (DNeg p n) l) (q_wbuf (ls_io l)) (to_listener (DNeg p n) l)" by auto
    then have "lphase ls (request p) h (ls_state l) res (x # xs @ q_out (ls_io l)) (q_wbuf (ls_io l)) (to_listener (DNeg p n) l)"
      using Cons by (simp add: to_dialer_def)
    then show ?thesis
    proof (cases rule: read_phase)
      case 1
      then show ?thesis using NegExpecting Cons assms pr c hh by (auto simp: dturn_ok_def flow_defs Negotiated_turn_def turn_simps)
    next
      case 2
      then have x: "x = MNotAvailable" "p \<notin> set ls" by (auto split: if_splits)
      then have "set ps \<inter> set ls = {}" using c tried_last [of ps ls p] by (auto simp: candidate_def)
      then show ?thesis using 2 x NegExpecting Cons assms
        by (auto simp: dturn_ok_def flow_defs Negotiated_turn_def turn_simps failed_ok_def)
    next
      case (3 p')
      then have x: "x = MProtocol (Protocol p)" "p \<in> set ls" "p' = p" by (auto split: if_splits)
      then show ?thesis using 3 NegExpecting Cons assms pr c
        by (auto simp: dturn_ok_def flow_defs Negotiated_turn_def turn_simps)
    qed
  qed
qed (use assms in \<open>auto simp: dturn_ok_def to_dialer_def\<close>)

lemma dialer_turn_ok:
  assumes "dphase_ok ps ls l res d" and "\<forall>p \<in> set ps. starts_with_slash p" and "\<nexists>e q. d = DErr e q"
  shows "dturn_ok ps ls l res d (dialer_turn d)"
proof (cases d)
  case (DSeq sd)
  show ?thesis unfolding DSeq
  proof (cases "sq_state sd")
    case SeqSendHeader
    then show "dturn_ok ps ls l res (DSeq sd) (dialer_turn (DSeq sd))" using assms(1) DSeq seq_send_header by blast
  next
    case (SeqSendProtocol p)
    then show "dturn_ok ps ls l res (DSeq sd) (dialer_turn (DSeq sd))" using assms(1,2) DSeq seq_send_protocol by blast
  next
    case (SeqFlushProtocol p)
    then show "dturn_ok ps ls l res (DSeq sd) (dialer_turn (DSeq sd))" using assms(1) DSeq seq_flush by blast
  next
    case (SeqAwaitProtocol p)
    then show "dturn_ok ps ls l res (DSeq sd) (dialer_turn (DSeq sd))" using assms(1) DSeq seq_await by blast
  qed (use assms DSeq in simp)
next
  case (DPar pd)
  show ?thesis unfolding DPar
  proof (cases "pr_state pd")
    case ParRecvProtocols
    then show "dturn_ok ps ls l res (DPar pd) (dialer_turn (DPar pd))" using assms(1) DPar par_recv by blast
  next
    case (ParSendProtocol p)
    then show "dturn_ok ps ls l res (DPar pd) (dialer_turn (DPar pd))" using assms(1,2) DPar par_send_protocol by blast
  next
    case ParDone
    then show "dturn_ok ps ls l res (DPar pd) (dialer_turn (DPar pd))" using assms(1) DPar by simp
  qed (use assms(1) DPar in \<open>blast intro: par_send\<close>)+
next
  case (DNeg p n)
  with assms show ?thesis using neg_turn by blast
qed (use assms in blast)

section \<open>Every step keeps the invariant\<close>

lemma set_dialer_io_simps [simp]:
  "dialer_io (set_dialer_io q d) = q"
  "set_dialer_io q d = DErr e q' \<longleftrightarrow> (\<exists>q0. d = DErr e q0 \<and> q' = q)"
  by (cases d; auto)+

lemma sys_phase_set_io:
  "(\<And>e q0. d \<noteq> DErr e q0) \<Longrightarrow> q_wbuf q = q_wbuf (dialer_io d) \<Longrightarrow>
   sys_phase ps ls (set_dialer_io q d) l res a w b = sys_phase ps ls d l res a w b"
  by (cases d) auto

text \<open>The request the dialer waits for, in terms of the phase of the listener.\<close>

lemma phase_cases:
  assumes "sys_phase ps ls d l res a w q" and "\<nexists>e dq. d = DErr e dq"
  obtains "start_phase (ls_state l) res a w q"
  | r h where "lphase ls r h (ls_state l) res a w q" and "\<And>m. r = Some m \<Longrightarrow> is_request m"
      and "\<And>l' res' a' w' q'. lphase ls r h (ls_state l') res' a' w' q' \<Longrightarrow> sys_phase ps ls d l' res' a' w' q'"
  | "res \<noteq> None" and "a = []" and "q = []" and "\<And>l' w'. sys_phase ps ls d l' res a w' q"
proof (cases d)
  case (DSeq sd)
  show ?thesis
  proof (cases "sq_state sd")
    case (SeqSendProtocol p)
    with assms(1) DSeq obtain h where "tried ps ls p (sq_protocols sd)" "lphase ls None h (ls_state l) res a w q" by auto
    then show ?thesis using DSeq SeqSendProtocol that(2) [of None h] by auto
  next
    case (SeqFlushProtocol p)
    with assms(1) DSeq obtain h where "tried ps ls p (sq_protocols sd)" "q_wbuf (sq_io sd) \<noteq> []"
      "lphase ls (request p) h (ls_state l) res a w q" by auto
    then show ?thesis using DSeq SeqFlushProtocol that(2) [of "request p" h] by auto
  next
    case (SeqAwaitProtocol p)
    with assms(1) DSeq obtain h where "tried ps ls p (sq_protocols sd)" "q_wbuf (sq_io sd) = []"
      "lphase ls (request p) h (ls_state l) res a w q" by auto
    then show ?thesis using DSeq SeqAwaitProtocol that(2) [of "request p" h] by auto
  qed (use assms(1) DSeq that(1) in auto)
next
  case (DPar pd)
  show ?thesis
  proof (cases "pr_state pd")
    case ParSendProtocolsRequest
    with assms(1) DPar obtain h where "pr_protocols pd = ps" "lphase ls None h (ls_state l) res a w q" by auto
    then show ?thesis using DPar ParSendProtocolsRequest that(2) [of None h] by auto
  next
    case ParFlush
    with assms(1) DPar obtain h where "pr_protocols pd = ps" "q_wbuf (pr_io pd) \<noteq> []" "lphase ls (Some MListProtocols) h (ls_state l) res a w q" by auto
    then show ?thesis using DPar ParFlush that(2) [of "Some MListProtocols" h] by auto
  next
    case ParRecvProtocols
    with assms(1) DPar obtain h where "pr_protocols pd = ps" "q_wbuf (pr_io pd) = []" "lphase ls (Some MListProtocols) h (ls_state l) res a w q" by auto
    then show ?thesis using DPar ParRecvProtocols that(2) [of "Some MListProtocols" h] by auto
  next
    case (ParSendProtocol p)
    then show ?thesis using assms(1) DPar that(2) [of None False] by auto
  qed (use assms(1) DPar that(1) in auto)
next
  case (DNeg p n)
  show ?thesis
  proof (cases "ng_state n")
    case (NegExpecting pr header)
    with assms(1) DNeg obtain h where "pr = Protocol p" "candidate ps ls p" "lphase ls (request p) h (ls_state l) res a w q"
      "h \<longrightarrow> header = Some HeaderV1" by auto
    then show ?thesis using DNeg NegExpecting that(2) [of "request p" h] by auto
  qed (use assms(1) DNeg that(3) in auto)
qed (use assms(2) in auto)

lemma dialer_failed: "dialer_turn (DErr e q) \<noteq> Some (Some d)"
  by simp

lemma inv_dialer_turn:
  assumes "sys_inv ps ls s" and "\<forall>p \<in> set ps. starts_with_slash p" and "dialer_turn (sy_dialer s) = Some (Some d)"
  shows "sys_inv ps ls (s\<lparr>sy_dialer := d\<rparr>)"
proof -
  have nd: "\<nexists>e q. sy_dialer s = DErr e q" using assms(3) by auto
  then have "dturn_ok ps ls (sy_listener s) (sy_result s) (sy_dialer s) (dialer_turn (sy_dialer s))"
    using assms(1,2) by (intro dialer_turn_ok) (auto simp: sys_inv_def)
  then show ?thesis using assms(1,3) nd by (auto simp: dturn_ok_def sys_inv_def)
qed

lemma inv_neg_flush:
  assumes "sys_inv ps ls s" and "sy_dialer s = DNeg p n" and "Negotiated_flush queue_ops n = Some (None, n')"
  shows "sys_inv ps ls (s\<lparr>sy_dialer := DNeg p n'\<rparr>)"
proof -
  from assms(3) have "n' = n\<lparr>ng_io := (ng_io n)\<lparr>q_out := q_out (ng_io n) @ q_wbuf (ng_io n), q_wbuf := []\<rparr>\<rparr>"
    by (auto simp: Negotiated_flush_def queue_ops_def split: if_splits)
  then show ?thesis using assms(1,2) by (simp add: sys_inv_def to_dialer_def to_listener_def)
qed

lemma failed_listener_turn:
  assumes "failed_ok ps ls e dq l None"
  shows "Listener_turn queue_ops l = Some (if q_eof (ls_io l) then (Some (Ready (Inl NegFailed)), l\<lparr>ls_state := LDone\<rparr>) else (Some Pending, l))"
  using assms by (auto simp: failed_ok_def Listener_turn_def Listener_fail_def turn_simps)

lemma start_listener_turn:
  assumes "start_phase (ls_state l) res a w q" and "q = q_in (ls_io l) @ rest" and "\<not> q_eof (ls_io l)"
  shows "Listener_turn queue_ops l = Some (Some Pending, l)"
  using assms by (simp add: start_phase_def Listener_turn_def turn_simps)

text \<open>The possible effects of a turn of the listener on the system.\<close>

definition listener_effect :: "bytes list \<Rightarrow> bytes list \<Rightarrow> system \<Rightarrow> bool" where
  "listener_effect ps ls s \<longleftrightarrow>
     (\<exists>l. Listener_turn queue_ops (sy_listener s) = Some (Some Pending, l) \<and> q_in (ls_io (sy_listener s)) = []) \<or>
     (\<exists>l. Listener_turn queue_ops (sy_listener s) = Some (None, l) \<and> sys_inv ps ls (s\<lparr>sy_listener := l\<rparr>)) \<or>
     (\<exists>r l. Listener_turn queue_ops (sy_listener s) = Some (Some (Ready r), l) \<and>
        sys_inv ps ls (s\<lparr>sy_listener := l, sy_result := Some (map_sum id fst r)\<rparr>))"

lemma failed_listener_effect:
  assumes inv: "sys_inv ps ls s" and res: "sy_result s = None" and d: "sy_dialer s = DErr e dq"
  shows "listener_effect ps ls s"
proof -
  from inv res d have f: "failed_ok ps ls e dq (sy_listener s) None" by (simp add: sys_inv_def)
  then have "sys_inv ps ls (s\<lparr>sy_listener := (sy_listener s)\<lparr>ls_state := LDone\<rparr>, sy_result := Some (Inl NegFailed)\<rparr>)"
    using d inv by (simp add: sys_inv_def failed_ok_def)
  moreover have "q_in (ls_io (sy_listener s)) = []" using f by (simp add: failed_ok_def)
  ultimately show ?thesis
    using failed_listener_turn [OF f] by (cases "q_eof (ls_io (sy_listener s))") (auto simp: listener_effect_def)
qed

lemma running_listener_effect:
  assumes inv: "sys_inv ps ls s" and res: "sy_result s = None" and d: "\<nexists>e q. sy_dialer s = DErr e q"
    and ph: "lphase ls r h (ls_state (sy_listener s)) None (to_dialer (sy_dialer s) (sy_listener s))
      (q_wbuf (ls_io (sy_listener s))) (to_listener (sy_dialer s) (sy_listener s))"
    and req: "\<And>m. r = Some m \<Longrightarrow> is_request m"
    and keep: "\<And>l' res' a' w' q'. lphase ls r h (ls_state l') res' a' w' q' \<Longrightarrow> sys_phase ps ls (sy_dialer s) l' res' a' w' q'"
  shows "listener_effect ps ls s"
proof -
  have eof: "\<not> q_eof (ls_io (sy_listener s))" and prot: "ls_protocols (sy_listener s) = map (\<lambda>n. (n, Protocol n)) ls"
    using inv d by (auto simp: sys_inv_def)
  note lt = listener_turn_ok [OF ph to_dialer_def refl to_listener_def prot eof req]
  from lt obtain x l' where
    t: "Listener_turn queue_ops (sy_listener s) = Some (x, l')" "ls_protocols l' = ls_protocols (sy_listener s)"
      "q_eof (ls_io l') = q_eof (ls_io (sy_listener s))" and
    x: "case x of None \<Rightarrow> lphase ls r h (ls_state l') None (to_dialer (sy_dialer s) l') (q_wbuf (ls_io l')) (to_listener (sy_dialer s) l')
      | Some Pending \<Rightarrow> q_in (ls_io (sy_listener s)) = []
      | Some (Ready y) \<Rightarrow> (\<exists>p. y = Inr (p, NegCompleted) \<and> lphase ls r h (ls_state l') (Some (Inr p))
          (to_dialer (sy_dialer s) l') (q_wbuf (ls_io l')) (to_listener (sy_dialer s) l'))"
    unfolding lturn_ok_def to_dialer_def [symmetric] to_listener_def [symmetric] by blast
  consider "x = None" | "x = Some Pending" | y where "x = Some (Ready y)" by (metis not_None_eq poll.exhaust)
  then show ?thesis
  proof cases
    case 1
    then show ?thesis using t x keep inv eof res by (auto simp: sys_inv_def listener_effect_def)
  next
    case 2
    then show ?thesis using t x by (auto simp: listener_effect_def)
  next
    case (3 y)
    then show ?thesis using t x keep inv eof by (auto simp: sys_inv_def listener_effect_def)
  qed
qed

lemma listener_effect:
  assumes inv: "sys_inv ps ls s" and res: "sy_result s = None"
  shows "listener_effect ps ls s"
proof (cases "\<exists>e q. sy_dialer s = DErr e q")
  case True
  then show ?thesis using failed_listener_effect [OF assms] by blast
next
  case False
  then have eof: "\<not> q_eof (ls_io (sy_listener s))"
    and "sys_phase ps ls (sy_dialer s) (sy_listener s) None (to_dialer (sy_dialer s) (sy_listener s))
      (q_wbuf (ls_io (sy_listener s))) (to_listener (sy_dialer s) (sy_listener s))" using inv res by (auto simp: sys_inv_def)
  from this(2) False show ?thesis
  proof (cases rule: phase_cases)
    case 1
    then show ?thesis using start_listener_turn [OF 1 to_listener_def eof] by (auto simp: listener_effect_def start_phase_def to_listener_def)
  next
    case (2 r h)
    then show ?thesis by (rule running_listener_effect [OF inv res False])
  qed simp
qed

lemma inv_deliver_listener:
  assumes inv: "sys_inv ps ls s" and q: "dialer_io (sy_dialer s) = q" "q_out q = m # ms"
  shows "sys_inv ps ls (s\<lparr>sy_dialer := set_dialer_io (q\<lparr>q_out := ms\<rparr>) (sy_dialer s),
      sy_listener := (sy_listener s)\<lparr>ls_io := (ls_io (sy_listener s))\<lparr>q_in := q_in (ls_io (sy_listener s)) @ [m]\<rparr>\<rparr>\<rparr>)"
proof -
  let ?l = "(sy_listener s)\<lparr>ls_io := (ls_io (sy_listener s))\<lparr>q_in := q_in (ls_io (sy_listener s)) @ [m]\<rparr>\<rparr>"
  let ?d = "set_dialer_io (q\<lparr>q_out := ms\<rparr>) (sy_dialer s)"
  have d: "\<nexists>e dq. sy_dialer s = DErr e dq"
    using inv q by (auto simp: sys_inv_def failed_ok_def)
  have f: "to_dialer ?d ?l = to_dialer (sy_dialer s) (sy_listener s)" "to_listener ?d ?l = to_listener (sy_dialer s) (sy_listener s)"
    using q by (simp_all add: to_dialer_def to_listener_def)
  have p: "sys_phase ps ls d ?l res a w b = sys_phase ps ls d (sy_listener s) res a w b" if "\<nexists>e dq. d = DErr e dq" for d res a w b
    using that by (cases d) auto
  have "sys_phase ps ls ?d ?l res a w b = sys_phase ps ls (sy_dialer s) (sy_listener s) res a w b" for res a w b
    using sys_phase_set_io [of "sy_dialer s" "q\<lparr>q_out := ms\<rparr>"] d q(1) p by auto
  then show ?thesis using inv f d q(1) by (auto simp: sys_inv_def)
qed

lemma inv_deliver_dialer:
  assumes inv: "sys_inv ps ls s" and q: "ls_io (sy_listener s) = q" "q_out q = m # ms"
  shows "sys_inv ps ls (s\<lparr>sy_listener := (sy_listener s)\<lparr>ls_io := q\<lparr>q_out := ms\<rparr>\<rparr>,
      sy_dialer := set_dialer_io ((dialer_io (sy_dialer s))\<lparr>q_in := q_in (dialer_io (sy_dialer s)) @ [m]\<rparr>) (sy_dialer s)\<rparr>)"
proof (cases "\<exists>e dq. sy_dialer s = DErr e dq")
  case True
  then show ?thesis using inv q by (auto simp: sys_inv_def failed_ok_def)
next
  case False
  let ?l = "(sy_listener s)\<lparr>ls_io := q\<lparr>q_out := ms\<rparr>\<rparr>"
  let ?dq = "(dialer_io (sy_dialer s))\<lparr>q_in := q_in (dialer_io (sy_dialer s)) @ [m]\<rparr>"
  let ?d = "set_dialer_io ?dq (sy_dialer s)"
  have f: "to_dialer ?d ?l = to_dialer (sy_dialer s) (sy_listener s)" "to_listener ?d ?l = to_listener (sy_dialer s) (sy_listener s)"
    using q by (simp_all add: to_dialer_def to_listener_def)
  have p: "sys_phase ps ls d ?l res a w b = sys_phase ps ls d (sy_listener s) res a w b" if "\<nexists>e dq. d = DErr e dq" for d res a w b
    using that by (cases d) auto
  have "sys_phase ps ls ?d ?l res a w b = sys_phase ps ls (sy_dialer s) (sy_listener s) res a w b" for res a w b
    using sys_phase_set_io [of "sy_dialer s" ?dq] False p by auto
  then show ?thesis using inv f False q(1) by (auto simp: sys_inv_def)
qed

lemma sys_step_inv:
  assumes "sys_step s s'" and inv: "sys_inv ps ls s" and names: "\<forall>p \<in> set ps. starts_with_slash p"
  shows "sys_inv ps ls s'"
  using assms(1)
proof (cases rule: sys_step.cases)
  case (dialer_turn d)
  then show ?thesis using inv_dialer_turn [OF inv names] by simp
next
  case (neg_flush p n n')
  then show ?thesis using inv_neg_flush [OF inv] by simp
next
  case (listener_turn l)
  then show ?thesis using listener_effect [OF inv] by (auto simp: listener_effect_def)
next
  case (listener_end r l)
  then show ?thesis using listener_effect [OF inv] by (auto simp: listener_effect_def)
next
  case (deliver_listener q m ms)
  then show ?thesis using inv_deliver_listener [OF inv] by simp
next
  case (deliver_dialer q m ms)
  then show ?thesis using inv_deliver_dialer [OF inv] by simp
next
  case (eof_listener e q)
  then show ?thesis using inv by (auto simp: sys_inv_def failed_ok_def)
qed

section \<open>Agreement\<close>

text \<open>The outcome both peers should reach: the first protocol of the dialer that the listener supports.\<close>

definition agreed :: "bytes list \<Rightarrow> bytes list \<Rightarrow> bytes option" where
  "agreed ps ls = find (\<lambda>p. p \<in> set ls \<and> starts_with_slash p) ps"

abbreviation valid_names :: "bytes list \<Rightarrow> bytes list" where
  "valid_names \<equiv> filter starts_with_slash"

lemma agreed_first: "tried ps (valid_names ls) p rest \<Longrightarrow> p \<in> set (valid_names ls) \<Longrightarrow> agreed ps ls = Some p"
proof -
  assume "tried ps (valid_names ls) p rest" "p \<in> set (valid_names ls)"
  then obtain pre where ps: "ps = pre @ p # rest" "\<forall>x \<in> set pre. \<not> (x \<in> set ls \<and> starts_with_slash x)"
    and p: "p \<in> set ls \<and> starts_with_slash p" by (auto simp: tried_def)
  have "find (\<lambda>p. p \<in> set ls \<and> starts_with_slash p) (pre @ p # rest) = Some p" using ps(2) p by (induction pre) auto
  then show ?thesis by (simp add: agreed_def ps(1))
qed

lemma agreed_none: "set ps \<inter> set (valid_names ls) = {} \<Longrightarrow> agreed ps ls = None"
  by (auto simp: agreed_def find_None_iff)

lemma candidate_agreed: "candidate ps (valid_names ls) p \<Longrightarrow> p \<in> set (valid_names ls) \<Longrightarrow> agreed ps ls = Some p"
  using agreed_first unfolding candidate_def by blast

lemma listener_names:
  "List.map_filter (\<lambda>n. case Protocol_try_from n of Inr p \<Rightarrow> Some (n, p) | Inl e \<Rightarrow> None) ls =
     map (\<lambda>n. (n, Protocol n)) (valid_names ls)"
  by (induction ls) (auto simp: List.map_filter_simps Protocol_try_from_def)

lemma sys_new_inv: "sys_inv ps (valid_names ls) (sys_new ps serial v ls)"
  by (auto simp: sys_inv_def sys_new_def dialer_select_proto_serial_def dialer_select_proto_parallel_def listener_select_proto_def
      queue_new_def listener_names to_dialer_def to_listener_def start_phase_def)

lemma sys_reach_inv:
  assumes "sys_step\<^sup>*\<^sup>* (sys_new ps serial v ls) s" and "\<forall>p \<in> set ps. starts_with_slash p"
  shows "sys_inv ps (valid_names ls) s"
  using assms(1) by (induction rule: rtranclp_induct) (use sys_new_inv sys_step_inv assms(2) in blast)+

text \<open>The protocol the listener has selected is the one the dialer asked for.\<close>

lemma selected_agreed:
  assumes "sys_phase ps (valid_names ls) d l (Some (Inr p)) a w q"
  shows "agreed ps ls = Some p"
proof (cases d)
  case (DSeq sd)
  have "agreed ps ls = Some p" if "lphase (valid_names ls) (request p') h st (Some (Inr p)) a w q" "tried ps (valid_names ls) p' rest" for p' h st rest
    using that by (cases rule: lphase.cases) (auto intro: agreed_first split: if_splits)
  moreover have "\<not> lphase (valid_names ls) None h st (Some (Inr p)) a w q" for h st by (auto elim: lphase.cases)
  ultimately show ?thesis using assms DSeq by (cases "sq_state sd") (auto simp: start_phase_def)
next
  case (DPar pd)
  have "\<not> lphase (valid_names ls) r h st (Some (Inr p)) a w q" if "r = None \<or> r = Some MListProtocols" for r h st
    using that by (auto elim: lphase.cases)
  then show ?thesis using assms DPar by (cases "pr_state pd") (auto simp: start_phase_def)
next
  case (DNeg p' n)
  have "agreed ps ls = Some p" if "lphase (valid_names ls) (request p') h st (Some (Inr p)) a w q" "candidate ps (valid_names ls) p'" for h st
    using that by (cases rule: lphase.cases) (auto intro: candidate_agreed split: if_splits)
  then show ?thesis using assms DNeg candidate_agreed by (cases "ng_state n") auto
qed (use assms in \<open>simp add: failed_ok_def\<close>)

lemma failed_agreed:
  assumes "sys_phase ps (valid_names ls) d l (Some (Inl e)) a w q"
  shows "e = NegFailed \<and> agreed ps ls = None"
proof -
  have no: "\<not> lphase (valid_names ls) r h st (Some (Inl e)) a w q" for r h st by (auto elim: lphase.cases)
  show ?thesis
  proof (cases d)
    case (DSeq sd)
    then show ?thesis using assms no by (cases "sq_state sd") (auto simp: start_phase_def)
  next
    case (DPar pd)
    then show ?thesis using assms no by (cases "pr_state pd") (auto simp: start_phase_def)
  next
    case (DNeg p n)
    then show ?thesis using assms no by (cases "ng_state n") auto
  next
    case (DErr e' dq)
    then show ?thesis using assms agreed_none by (auto simp: failed_ok_def)
  qed
qed


definition sample_names :: "bytes list" where
  "sample_names = [ascii ''/a'', ascii ''/b'']"

lemma sample_names_ok: "\<forall>p \<in> set sample_names. starts_with_slash p"
  by (simp add: sample_names_def starts_with_slash_def ascii_def)


section \<open>Progress\<close>

fun dialer_weight :: "dialer \<Rightarrow> nat" where
  "dialer_weight (DSeq d) = 13 * length (sq_protocols d) +
     (case sq_state d of SeqSendHeader \<Rightarrow> 10 | SeqSendProtocol p \<Rightarrow> 12 | SeqFlushProtocol p \<Rightarrow> 2 | SeqAwaitProtocol p \<Rightarrow> 1 | SeqDone \<Rightarrow> 0)"
| "dialer_weight (DPar d) =
     (case pr_state d of ParSendHeader \<Rightarrow> 32 | ParSendProtocolsRequest \<Rightarrow> 22 | ParFlush \<Rightarrow> 12 | ParRecvProtocols \<Rightarrow> 11
      | ParSendProtocol p \<Rightarrow> 11 | ParDone \<Rightarrow> 0)"
| "dialer_weight (DNeg p n) = (if ng_state n = NegCompleted then 0 else 1)"
| "dialer_weight (DErr e q) = 0"

fun listener_weight :: "ListenerState \<Rightarrow> nat" where
  "listener_weight LSendHeader = 6"
| "listener_weight (LSendMessage m p) = 6"
| "listener_weight LDone = 0"
| "listener_weight _ = 1"

text \<open>An upper bound of the steps to come: every message still has to be sent, delivered, read and answered.\<close>

definition weight :: "system \<Rightarrow> nat" where
  "weight s =
     (let dq = dialer_io (sy_dialer s); lq = ls_io (sy_listener s)
      in dialer_weight (sy_dialer s) + 9 * length (q_wbuf dq) + 8 * length (q_out dq) + 7 * length (q_in lq) +
         listener_weight (ls_state (sy_listener s)) + 3 * length (q_wbuf lq) + 2 * length (q_out lq) + length (q_in dq) +
         (if q_eof lq then 0 else 1))"

definition dialer_load :: "dialer \<Rightarrow> nat" where
  "dialer_load d = dialer_weight d + 9 * length (q_wbuf (dialer_io d)) + 8 * length (q_out (dialer_io d)) + length (q_in (dialer_io d))"

lemma seq_turn_load:
  assumes "dialer_turn (DSeq d) = Some (Some d')"
  shows "dialer_load d' < dialer_load (DSeq d)"
proof (cases "sq_state d")
  case (SeqAwaitProtocol p)
  show ?thesis
  proof (cases "q_in (sq_io d)")
    case Nil
    then show ?thesis using assms SeqAwaitProtocol
      by (auto simp: dialer_load_def after_turn_def Seq_turn_def Seq_fail_def turn_simps split: if_splits)
  next
    case (Cons x xs)
    then show ?thesis using assms SeqAwaitProtocol
      by (cases x) (auto simp: dialer_load_def after_turn_def Seq_turn_def Seq_fail_def turn_simps split: if_splits list.splits)
  qed
qed (use assms in \<open>auto simp: dialer_load_def after_turn_def Seq_turn_def Seq_fail_def turn_simps
      split: if_splits list.splits sum.splits Version.splits\<close>)

lemma par_turn_load:
  assumes "dialer_turn (DPar d) = Some (Some d')"
  shows "dialer_load d' < dialer_load (DPar d)"
proof (cases "pr_state d")
  case ParRecvProtocols
  show ?thesis
  proof (cases "q_in (pr_io d)")
    case Nil
    then show ?thesis using assms ParRecvProtocols
      by (auto simp: dialer_load_def after_turn_def Par_turn_def Par_fail_def turn_simps split: if_splits)
  next
    case (Cons x xs)
    then show ?thesis using assms ParRecvProtocols
      by (cases x) (auto simp: dialer_load_def after_turn_def Par_turn_def Par_fail_def turn_simps split: if_splits list.splits)
  qed
qed (use assms in \<open>auto simp: dialer_load_def after_turn_def Par_turn_def Par_fail_def turn_simps
      split: if_splits list.splits sum.splits\<close>)

lemma neg_turn_load:
  assumes "dialer_turn (DNeg p n) = Some (Some d')"
  shows "dialer_load d' < dialer_load (DNeg p n)"
proof (cases "ng_state n")
  case (NegExpecting pr header)
  show ?thesis
  proof (cases "q_in (ng_io n)")
    case Nil
    then show ?thesis using assms NegExpecting
      by (auto simp: dialer_load_def after_turn_def Negotiated_turn_def turn_simps split: if_splits)
  next
    case (Cons x xs)
    then show ?thesis using assms NegExpecting
      by (cases x) (auto simp: dialer_load_def after_turn_def Negotiated_turn_def turn_simps split: if_splits)
  qed
qed (use assms in \<open>auto simp: after_turn_def Negotiated_turn_def split: if_splits\<close>)

lemma dialer_turn_load: "dialer_turn d = Some (Some d') \<Longrightarrow> dialer_load d' < dialer_load d"
  using seq_turn_load par_turn_load neg_turn_load by (cases d) (auto simp del: dialer_turn.simps(1,2,3))

definition listener_load :: "queue_io ListenerSelect \<Rightarrow> nat" where
  "listener_load l = listener_weight (ls_state l) + 7 * length (q_in (ls_io l)) + 3 * length (q_wbuf (ls_io l)) + 2 * length (q_out (ls_io l))"

lemma listener_turn_load:
  assumes "Listener_turn queue_ops l = Some (x, l')" and "x \<noteq> Some Pending"
    and "ls_state l = LFlush None \<longrightarrow> q_wbuf (ls_io l) \<noteq> []"
  shows "listener_load l' < listener_load l \<and> q_eof (ls_io l') = q_eof (ls_io l)"
proof (cases "ls_state l")
  case LRecvHeader
  show ?thesis
  proof (cases "q_in (ls_io l)")
    case Nil
    then show ?thesis using assms LRecvHeader
      by (auto simp: listener_load_def Listener_turn_def Listener_fail_def turn_simps split: if_splits)
  next
    case (Cons m ms)
    then show ?thesis using assms LRecvHeader
      by (cases m) (auto simp: listener_load_def Listener_turn_def Listener_fail_def turn_simps split: HeaderLine.splits)
  qed
next
  case LRecvMessage
  show ?thesis
  proof (cases "q_in (ls_io l)")
    case Nil
    then show ?thesis using assms LRecvMessage
      by (auto simp: listener_load_def Listener_turn_def Listener_fail_def turn_simps split: if_splits)
  next
    case (Cons m ms)
    then show ?thesis using assms LRecvMessage
      by (cases m) (auto simp: listener_load_def Listener_turn_def Listener_fail_def turn_simps)
  qed
qed (use assms in \<open>auto simp: listener_load_def Listener_turn_def turn_simps neq_Nil_conv split: option.splits if_splits\<close>)

lemma weight_load: "weight s = dialer_load (sy_dialer s) + listener_load (sy_listener s) + (if q_eof (ls_io (sy_listener s)) then 0 else 1)"
  by (simp add: weight_def dialer_load_def listener_load_def Let_def)

lemma flush_nonempty:
  assumes "sys_inv ps ls s" and "sy_result s = None" and "ls_state (sy_listener s) = LFlush None"
  shows "q_wbuf (ls_io (sy_listener s)) \<noteq> []"
proof -
  have ph: "sys_phase ps ls (sy_dialer s) (sy_listener s) None (to_dialer (sy_dialer s) (sy_listener s))
      (q_wbuf (ls_io (sy_listener s))) (to_listener (sy_dialer s) (sy_listener s))" using assms by (simp add: sys_inv_def)
  show ?thesis
  proof (cases "\<exists>e q. sy_dialer s = DErr e q")
    case True
    then show ?thesis using ph assms(3) by (auto simp: failed_ok_def)
  next
    case False
    from ph False show ?thesis
    proof (cases rule: phase_cases)
      case (2 r h)
      from 2(1) assms(3) show ?thesis by (auto elim: lphase.cases)
    qed (use assms(3) in \<open>auto simp: start_phase_def\<close>)
  qed
qed

lemma set_dialer_io_load:
  "q_wbuf q = q_wbuf (dialer_io d) \<Longrightarrow> dialer_weight (set_dialer_io q d) = dialer_weight d"
  by (cases d) auto

lemma sys_step_weight:
  assumes "sys_step s s'" and inv: "sys_inv ps ls s"
  shows "weight s' < weight s"
  using assms(1)
proof (cases rule: sys_step.cases)
  case (dialer_turn d)
  then show ?thesis using dialer_turn_load by (simp add: weight_load)
next
  case (neg_flush p n n')
  then have "n' = n\<lparr>ng_io := (ng_io n)\<lparr>q_out := q_out (ng_io n) @ q_wbuf (ng_io n), q_wbuf := []\<rparr>\<rparr>"
    by (auto simp: Negotiated_flush_def queue_ops_def split: if_splits)
  then show ?thesis using neg_flush by (cases "q_wbuf (ng_io n)") (auto simp: weight_load dialer_load_def)
next
  case (listener_turn l)
  then show ?thesis using listener_turn_load [of "sy_listener s" None l] flush_nonempty [OF inv] by (auto simp: weight_load)
next
  case (listener_end r l)
  then show ?thesis using listener_turn_load [of "sy_listener s" "Some (Ready r)" l] flush_nonempty [OF inv] by (auto simp: weight_load)
next
  case (deliver_listener q m ms)
  then show ?thesis using set_dialer_io_load [of "q\<lparr>q_out := ms\<rparr>" "sy_dialer s"]
    by (auto simp: weight_load dialer_load_def listener_load_def)
next
  case (deliver_dialer q m ms)
  then show ?thesis
    using set_dialer_io_load [of "(dialer_io (sy_dialer s))\<lparr>q_in := q_in (dialer_io (sy_dialer s)) @ [m]\<rparr>" "sy_dialer s"]
    by (auto simp: weight_load dialer_load_def listener_load_def)
next
  case (eof_listener e q)
  then show ?thesis by (simp add: weight_load listener_load_def)
qed

text \<open>A dialer is pending only while it waits for a message.\<close>

lemma dialer_pending:
  assumes "dialer_turn d = Some None" and "sys_phase ps ls d l res a w q" and "\<nexists>e dq. d = DErr e dq"
  obtains m h where "lphase ls (Some m) h (ls_state l) res a w q" and "q_wbuf (dialer_io d) = [] \<or> (\<exists>p n. d = DNeg p n \<and> ng_state n \<noteq> NegCompleted)"
  | p n where "d = DNeg p n" and "ng_state n = NegCompleted" and "res = Some (Inr p)"
proof (cases d)
  case (DSeq sd)
  then show ?thesis using assms(1,2) that(1)
    by (cases "sq_state sd") (auto simp: after_turn_def Seq_turn_def Seq_fail_def turn_simps split: list.splits sum.splits if_splits Version.splits)
next
  case (DPar pd)
  then show ?thesis using assms(1,2) that(1)
    by (cases "pr_state pd") (auto simp: after_turn_def Par_turn_def Par_fail_def turn_simps split: list.splits sum.splits if_splits)
next
  case (DNeg p n)
  then show ?thesis using assms(1,2) that by (cases "ng_state n") auto
qed (use assms(3) in blast)

definition both_done :: "system \<Rightarrow> bytes option \<Rightarrow> bool" where
  "both_done s x \<longleftrightarrow>
     (case x of
        Some p \<Rightarrow> (\<exists>n. sy_dialer s = DNeg p n \<and> ng_state n = NegCompleted) \<and> sy_result s = Some (Inr p)
      | None \<Rightarrow> (\<exists>q. sy_dialer s = DErr NegFailed q) \<and> sy_result s = Some (Inl NegFailed))"

lemma stuck_failed:
  assumes inv: "sys_inv ps ls s" and stuck: "\<nexists>s'. sys_step s s'" and d: "sy_dialer s = DErr e q"
  shows "both_done s None"
proof -
  have f: "failed_ok ps ls e q (sy_listener s) (sy_result s)" using inv d by (simp add: sys_inv_def)
  then have "q_out q = []" by (simp add: failed_ok_def)
  then have eof: "q_eof (ls_io (sy_listener s))" using stuck sys_step.eof_listener [OF d] by blast
  have "sy_result s \<noteq> None"
  proof
    assume r: "sy_result s = None"
    then have "Listener_turn queue_ops (sy_listener s) = Some (Some (Ready (Inl NegFailed)), (sy_listener s)\<lparr>ls_state := LDone\<rparr>)"
      using failed_listener_turn [of ps ls e q "sy_listener s"] f eof by simp
    then show False using sys_step.listener_end [OF r] stuck by blast
  qed
  then show ?thesis using f d by (auto simp: failed_ok_def both_done_def)
qed

lemma stuck_queues:
  assumes inv: "sys_inv ps ls s" and stuck: "\<nexists>s'. sys_step s s'" and names: "\<forall>p \<in> set ps. starts_with_slash p"
    and d: "\<nexists>e q. sy_dialer s = DErr e q"
  shows "q_out (dialer_io (sy_dialer s)) = []" and "q_out (ls_io (sy_listener s)) = []" and "dialer_turn (sy_dialer s) = Some None"
    and "q_in (dialer_io (sy_dialer s)) = []"
    and "sy_result s = None \<Longrightarrow> \<exists>l. Listener_turn queue_ops (sy_listener s) = Some (Some Pending, l) \<and> q_in (ls_io (sy_listener s)) = []"
    and "sy_dialer s = DNeg p n \<Longrightarrow> ng_state n \<noteq> NegCompleted \<Longrightarrow> ng_state n \<noteq> NegInvalid \<Longrightarrow> q_wbuf (ng_io n) = []"
proof -
  show "q_out (dialer_io (sy_dialer s)) = []"
    using stuck sys_step.deliver_listener [OF refl, of s] by (cases "q_out (dialer_io (sy_dialer s))") blast+
  show "q_out (ls_io (sy_listener s)) = []"
    using stuck sys_step.deliver_dialer [OF refl, of s] by (cases "q_out (ls_io (sy_listener s))") blast+
  have "dturn_ok ps ls (sy_listener s) (sy_result s) (sy_dialer s) (dialer_turn (sy_dialer s))"
    using inv by (intro dialer_turn_ok [OF _ names d]) (simp add: sys_inv_def)
  moreover have "dialer_turn (sy_dialer s) \<noteq> Some (Some x)" for x using stuck sys_step.dialer_turn by blast
  ultimately show "dialer_turn (sy_dialer s) = Some None" "q_in (dialer_io (sy_dialer s)) = []"
    by (auto simp: dturn_ok_def split: option.splits)
  show "\<exists>l. Listener_turn queue_ops (sy_listener s) = Some (Some Pending, l) \<and> q_in (ls_io (sy_listener s)) = []" if "sy_result s = None"
    using listener_effect [OF inv that] stuck sys_step.listener_turn [OF that] sys_step.listener_end [OF that]
    unfolding listener_effect_def by blast
  show "q_wbuf (ng_io n) = []" if dn: "sy_dialer s = DNeg p n" and st: "ng_state n \<noteq> NegCompleted" "ng_state n \<noteq> NegInvalid"
  proof (rule ccontr)
    assume "q_wbuf (ng_io n) \<noteq> []"
    moreover obtain n' where "Negotiated_flush queue_ops n = Some (None, n')"
      using st by (simp add: Negotiated_flush_def queue_ops_def)
    ultimately show False using stuck sys_step.neg_flush [OF dn] by blast
  qed
qed

lemma stuck_done:
  assumes inv: "sys_inv ps ls s" and stuck: "\<nexists>s'. sys_step s s'" and names: "\<forall>p \<in> set ps. starts_with_slash p"
  shows "\<exists>x. both_done s x"
proof (cases "\<exists>e q. sy_dialer s = DErr e q")
  case True
  then show ?thesis using stuck_failed [OF inv stuck] by blast
next
  case False
  note q = stuck_queues [OF inv stuck names False]
  have ph: "sys_phase ps ls (sy_dialer s) (sy_listener s) (sy_result s) [] (q_wbuf (ls_io (sy_listener s)))
      (to_listener (sy_dialer s) (sy_listener s))" using inv q(2,4) by (simp add: sys_inv_def to_dialer_def)
  from q(3) ph False show ?thesis
  proof (cases rule: dialer_pending)
    case (1 m h)
    have "ng_state n \<noteq> NegInvalid" if "sy_dialer s = DNeg p n" for p n using ph that by (cases "ng_state n") auto
    then have "q_wbuf (dialer_io (sy_dialer s)) = []" using 1(2) q(6) by auto
    then have tl: "sy_result s = None \<Longrightarrow> to_listener (sy_dialer s) (sy_listener s) = []" using q(1,5) by (auto simp: to_listener_def)
    have "\<nexists>l. Listener_turn queue_ops (sy_listener s) = Some (Some Pending, l)"
      if "ls_state (sy_listener s) \<in> {LSendMessage x y, LFlush y}" for x y
      using that by (auto simp: Listener_turn_def turn_simps split: option.splits if_splits)
    with 1(1) tl q(5) have False by (cases rule: lphase.cases) auto
    then show ?thesis ..
  next
    case (2 p n)
    then show ?thesis by (auto simp: both_done_def intro: exI [of _ "Some p"])
  qed
qed

lemma run_weight:
  assumes "(sys_step ^^ k) (sys_new ps serial v ls) s" and names: "\<forall>p \<in> set ps. starts_with_slash p"
  shows "weight s + k \<le> weight (sys_new ps serial v ls) \<and> sys_inv ps (valid_names ls) s"
  using assms(1)
proof (induction k arbitrary: s)
  case 0
  then have "s = sys_new ps serial v ls" by simp
  then show ?case by (simp add: sys_new_inv)
next
  case (Suc k)
  then obtain s1 where s1: "(sys_step ^^ k) (sys_new ps serial v ls) s1" "sys_step s1 s" by auto
  then show ?case using Suc.IH [OF s1(1)] sys_step_weight [OF s1(2)] sys_step_inv [OF s1(2) _ names] by fastforce
qed



end
