(* ===== verification/Swarm_Registry.thy ===== *)
theory Swarm_Registry
  imports Prelude
begin

text \<open>
  The ranked collection of external addresses of a swarm (swarm/src/registry.rs): scores with one
  infinite cardinal and saturating 32-bit arithmetic, the history of reports that makes scores
  expire, and the insertion sort that keeps the ranking. Addresses are the type parameter \<open>'a\<close>.
\<close>

section \<open>Scores\<close>

datatype AddressScore = Infinite | Finite u32

definition is_zero :: "AddressScore \<Rightarrow> bool" where
  "is_zero s \<longleftrightarrow> s = Finite 0"

instantiation AddressScore :: linorder
begin

fun less_eq_AddressScore :: "AddressScore \<Rightarrow> AddressScore \<Rightarrow> bool" where
  "Infinite \<le> Infinite \<longleftrightarrow> True"
| "Infinite \<le> Finite _ \<longleftrightarrow> False"
| "Finite _ \<le> Infinite \<longleftrightarrow> True"
| "Finite a \<le> Finite b \<longleftrightarrow> a \<le> b"

definition less_AddressScore :: "AddressScore \<Rightarrow> AddressScore \<Rightarrow> bool" where
  "less_AddressScore a b \<longleftrightarrow> a \<le> b \<and> \<not> b \<le> (a :: AddressScore)"

instance
proof
  fix x y z :: AddressScore
  show "x < y \<longleftrightarrow> x \<le> y \<and> \<not> y \<le> x" by (simp add: less_AddressScore_def)
  show "x \<le> x" by (cases x) auto
  show "x \<le> y \<Longrightarrow> y \<le> z \<Longrightarrow> x \<le> z" by (cases x; cases y; cases z) auto
  show "x \<le> y \<Longrightarrow> y \<le> x \<Longrightarrow> x = y" by (cases x; cases y) auto
  show "x \<le> y \<or> y \<le> x" by (cases x; cases y) auto
qed

end

definition u32_saturating_add :: "u32 \<Rightarrow> u32 \<Rightarrow> u32" where
  "u32_saturating_add a b = (if unat a + unat b < 2 ^ 32 then a + b else - 1)"

definition u32_saturating_sub :: "u32 \<Rightarrow> u32 \<Rightarrow> u32" where
  "u32_saturating_sub a b = (if b \<le> a then a - b else 0)"

fun score_add :: "AddressScore \<Rightarrow> AddressScore \<Rightarrow> AddressScore" where
  "score_add Infinite Infinite = Infinite"
| "score_add Infinite (Finite _) = Infinite"
| "score_add (Finite _) Infinite = Infinite"
| "score_add (Finite a) (Finite b) = Finite (u32_saturating_add a b)"

fun score_sub :: "AddressScore \<Rightarrow> u32 \<Rightarrow> AddressScore" where
  "score_sub Infinite _ = Infinite"
| "score_sub (Finite a) b = Finite (u32_saturating_sub a b)"

section \<open>The collection\<close>

record 'a AddressRecord =
  addr :: 'a
  score :: AddressScore

record 'a Report =
  rep_addr :: 'a
  rep_score :: u32

record 'a Addresses =
  registry :: "'a AddressRecord list"
  limit :: nat
  reports :: "'a Report list"

datatype 'a AddAddressResult =
    Inserted "'a AddressRecord list"
  | Updated "'a AddressRecord list"

definition AddressRecord_new :: "'a \<Rightarrow> AddressScore \<Rightarrow> 'a AddressRecord" where
  "AddressRecord_new a s = \<lparr>addr = a, score = s\<rparr>"

text \<open>The inner loop of \<open>isort\<close>: the element at \<open>j\<close> moves to the left past smaller scores.\<close>

fun isort_inner :: "nat \<Rightarrow> 'a AddressRecord list \<Rightarrow> 'a AddressRecord list" where
  "isort_inner 0 xs = xs"
| "isort_inner (Suc j) xs =
     (if score (xs ! Suc j) \<le> score (xs ! j) then xs
      else isort_inner j (xs[j := xs ! Suc j, Suc j := xs ! j]))"

definition isort :: "'a AddressRecord list \<Rightarrow> 'a AddressRecord list" where
  "isort xs = fold isort_inner [1..<length xs] xs"

definition Addresses_new :: "nat \<Rightarrow> 'a Addresses" where
  "Addresses_new n = \<lparr>registry = [], limit = n, reports = []\<rparr>"

definition Addresses_default :: "'a Addresses" where
  "Addresses_default = Addresses_new 200"

text \<open>The first loop of \<open>add\<close>: records of score zero are popped from the end.\<close>

function pop_zeros ::
  "'a AddressRecord list \<Rightarrow> 'a AddressRecord list \<Rightarrow> 'a AddressRecord list \<times> 'a AddressRecord list" where
  "pop_zeros xs expired =
     (if xs \<noteq> [] \<and> is_zero (score (last xs)) then pop_zeros (butlast xs) (expired @ [last xs])
      else (xs, expired))"
  by auto
termination by (relation "measure (length \<circ> fst)") auto

definition reduce_oldest :: "'a Addresses \<Rightarrow> 'a Addresses option" where
  "reduce_oldest a =
     (if length (reports a) = limit a then
        (case reports a of
           [] \<Rightarrow> None
         | old # rest \<Rightarrow>
             (case position_of (\<lambda>r. addr r = rep_addr old) (registry a) of
                None \<Rightarrow> Some (a\<lparr>reports := rest\<rparr>)
              | Some i \<Rightarrow>
                  let r = registry a ! i
                  in Some (a\<lparr>reports := rest,
                             registry := isort ((registry a)
                               [i := r\<lparr>score := score_sub (score r) (rep_score old)\<rparr>])\<rparr>)))
      else Some a)"

definition Addresses_add ::
  "'a \<Rightarrow> AddressScore \<Rightarrow> 'a Addresses \<Rightarrow> ('a AddAddressResult \<times> 'a Addresses) option" where
  "Addresses_add x s a0 =
     do {
       a \<leftarrow> reduce_oldest a0;
       let (reg, expired) = pop_zeros (registry a) [];
       let reps = (case s of Finite n \<Rightarrow> reports a @ [\<lparr>rep_addr = x, rep_score = n\<rparr>]
                           | Infinite \<Rightarrow> reports a);
       (case position_of (\<lambda>r. addr r = x) reg of
          Some i \<Rightarrow>
            let r = reg ! i
            in Some (Updated expired,
                     a\<lparr>registry := isort (reg[i := r\<lparr>score := score_add (score r) s\<rparr>]),
                       reports := reps\<rparr>)
        | None \<Rightarrow>
            Some (Inserted expired,
                  a\<lparr>registry := reg @ [AddressRecord_new x s], reports := reps\<rparr>))
     }"

definition Addresses_remove :: "'a \<Rightarrow> 'a Addresses \<Rightarrow> bool \<times> 'a Addresses" where
  "Addresses_remove x a =
     (case position_of (\<lambda>r. addr r = x) (registry a) of
        Some i \<Rightarrow> (True, a\<lparr>registry := take i (registry a) @ drop (Suc i) (registry a)\<rparr>)
      | None \<Rightarrow> (False, a))"

definition Addresses_iter :: "'a Addresses \<Rightarrow> 'a AddressRecord list \<times> nat" where
  "Addresses_iter a = (registry a, 0)"

definition AddressIter_next ::
  "'a AddressRecord list \<times> nat \<Rightarrow> 'a AddressRecord option \<times> ('a AddressRecord list \<times> nat)" where
  "AddressIter_next it =
     (let (items, offset) = it
      in if offset = length items then (None, it) else (Some (items ! offset), (items, Suc offset)))"

definition AddressIter_size_hint :: "'a AddressRecord list \<times> nat \<Rightarrow> nat" where
  "AddressIter_size_hint it = (let (items, offset) = it in length items - offset)"

definition AddressIntoIter_next ::
  "'a AddressRecord list \<Rightarrow> 'a AddressRecord option \<times> 'a AddressRecord list" where
  "AddressIntoIter_next items = (case items of [] \<Rightarrow> (None, []) | x # xs \<Rightarrow> (Some x, xs))"

datatype 'a addresses_op = Add 'a AddressScore | Rem 'a

fun addresses_step :: "'a Addresses \<Rightarrow> 'a addresses_op \<Rightarrow> 'a Addresses option" where
  "addresses_step a (Add x s) = map_option snd (Addresses_add x s a)"
| "addresses_step a (Rem x) = Some (snd (Addresses_remove x a))"

fun addresses_run :: "'a addresses_op list \<Rightarrow> 'a Addresses \<Rightarrow> 'a Addresses option" where
  "addresses_run [] a = Some a"
| "addresses_run (x # xs) a = Option.bind (addresses_step a x) (addresses_run xs)"

section \<open>The insertion sort\<close>

text \<open>Insertion behind the records whose score is at least that of the new one.\<close>

fun insert_desc :: "'a AddressRecord \<Rightarrow> 'a AddressRecord list \<Rightarrow> 'a AddressRecord list" where
  "insert_desc x [] = [x]"
| "insert_desc x (y # ys) = (if score x \<le> score y then y # insert_desc x ys else x # y # ys)"

abbreviation descending :: "'a AddressRecord list \<Rightarrow> bool" where
  "descending \<equiv> sorted_wrt (\<lambda>x y. score y \<le> score x)"

lemma insert_desc_mset [simp]: "mset (insert_desc x ys) = add_mset x (mset ys)"
  by (induction ys) auto

lemma insert_desc_set [simp]: "set (insert_desc x ys) = insert x (set ys)"
  by (metis insert_desc_mset set_mset_add_mset_insert set_mset_mset)

lemma insert_desc_length [simp]: "length (insert_desc x ys) = Suc (length ys)"
  by (metis insert_desc_mset size_add_mset size_mset)

lemma insert_desc_descending: "descending ys \<Longrightarrow> descending (insert_desc x ys)"
  by (induction ys) auto

lemma insert_desc_snoc:
  assumes "descending (ys @ [y])"
  shows "insert_desc x (ys @ [y]) = (if score x \<le> score y then ys @ [y, x] else insert_desc x ys @ [y])"
  using assms by (induction ys) (auto simp: sorted_wrt_append)

lemma insert_desc_stable:
  "descending ys \<Longrightarrow>
   filter (\<lambda>r. score r = s) (insert_desc x ys) = filter (\<lambda>r. score r = s) (ys @ [x])"
proof (induction ys)
  case (Cons y ys)
  show ?case
  proof (cases "score x \<le> score y")
    case False
    then have "filter (\<lambda>r. score r = score x) ys = []"
      using Cons.prems by (auto simp: filter_empty_conv)
    then show ?thesis using False by auto
  qed (use Cons in auto)
qed simp

lemma isort_inner_insert:
  assumes "descending ys"
  shows "isort_inner (length ys) (ys @ x # zs) = insert_desc x ys @ zs"
  using assms
proof (induction ys arbitrary: zs rule: rev_induct)
  case (snoc y ys)
  have "isort_inner (length (ys @ [y])) ((ys @ [y]) @ x # zs) =
      (if score x \<le> score y then ys @ y # x # zs else isort_inner (length ys) (ys @ x # y # zs))"
    by (simp add: nth_append list_update_append)
  then show ?case
    using snoc by (simp add: insert_desc_snoc sorted_wrt_append)
qed simp

lemma isort_prefix:
  assumes "n \<le> length xs" "0 < n"
  shows "fold isort_inner [1..<n] xs = fold insert_desc (take n xs) [] @ drop n xs \<and>
         descending (fold insert_desc (take n xs) [])"
  using assms
proof (induction n)
  case (Suc n)
  show ?case
  proof (cases "n = 0")
    case True
    then show ?thesis using Suc.prems by (cases xs) auto
  next
    case False
    let ?ys = "fold insert_desc (take n xs) []"
    have len: "length (fold insert_desc zs ys) = length zs + length ys" for zs ys :: "'a AddressRecord list"
      by (induction zs arbitrary: ys) auto
    have IH: "fold isort_inner [1..<n] xs = ?ys @ drop n xs" "descending ?ys"
      using Suc False by auto
    have dr: "drop n xs = xs ! n # drop (Suc n) xs"
      using Suc.prems by (simp add: Cons_nth_drop_Suc)
    have "fold isort_inner [1..<Suc n] xs = isort_inner (length ?ys) (?ys @ xs ! n # drop (Suc n) xs)"
      using False Suc.prems IH by (simp add: dr len)
    also have "\<dots> = insert_desc (xs ! n) ?ys @ drop (Suc n) xs"
      by (rule isort_inner_insert [OF IH(2)])
    finally show ?thesis
      using Suc.prems insert_desc_descending [OF IH(2)] by (simp add: take_Suc_conv_app_nth)
  qed
qed simp

lemma isort_insert: "isort xs = fold insert_desc xs []"
  using isort_prefix [of "length xs" xs] by (cases xs) (auto simp: isort_def)

lemma fold_insert_desc:
  assumes "descending ys"
  shows "descending (fold insert_desc xs ys)"
    and "mset (fold insert_desc xs ys) = mset xs + mset ys"
    and "filter (\<lambda>r. score r = s) (fold insert_desc xs ys) = filter (\<lambda>r. score r = s) (ys @ xs)"
  using assms
proof (induction xs arbitrary: ys)
  case (Cons x xs)
  {
    case 1
    then show ?case using Cons.IH(1) by (simp add: insert_desc_descending)
  next
    case 2
    then show ?case using Cons.IH(2) by (simp add: insert_desc_descending)
  next
    case 3
    then show ?case
      using Cons.IH(3) [of "insert_desc x ys"] by (simp add: insert_desc_descending insert_desc_stable)
  }
qed simp_all

lemma isort_descending: "descending (isort xs)"
  and mset_isort [simp]: "mset (isort xs) = mset xs"
  and isort_stable: "filter (\<lambda>r. score r = s) (isort xs) = filter (\<lambda>r. score r = s) xs"
  using fold_insert_desc(1,2) [of "[]" xs] fold_insert_desc(3) [of "[]" s xs]
  by (simp_all add: isort_insert)

lemma set_isort [simp]: "set (isort xs) = set xs"
  by (metis mset_isort set_mset_mset)


section \<open>The invariant\<close>

fun finitely_scored :: "'a AddressRecord \<Rightarrow> bool" where
  "finitely_scored r = (case score r of Finite _ \<Rightarrow> True | Infinite \<Rightarrow> False)"

definition reported :: "'a \<Rightarrow> 'a Report list \<Rightarrow> nat" where
  "reported x rs = sum_list (map (unat \<circ> rep_score) (filter (\<lambda>r. rep_addr r = x) rs))"

text \<open>A finite score is backed by reports: at most their sum, and none without a report.\<close>

definition backed :: "'a Report list \<Rightarrow> 'a AddressRecord \<Rightarrow> bool" where
  "backed rs r \<longleftrightarrow>
     (case score r of Infinite \<Rightarrow> True
      | Finite n \<Rightarrow> unat n \<le> reported (addr r) rs \<and> (n \<noteq> 0 \<or> addr r \<in> rep_addr ` set rs))"

definition addresses_inv :: "'a Addresses \<Rightarrow> bool" where
  "addresses_inv a \<longleftrightarrow>
     0 < limit a \<and> length (reports a) \<le> limit a \<and> distinct (map addr (registry a)) \<and>
     (\<forall>r \<in> set (registry a). backed (reports a) r) \<and>
     (\<forall>r \<in> set (butlast (registry a)). \<not> is_zero (score r))"

lemma unat_add_small: "unat a + unat b < 2 ^ 32 \<Longrightarrow> unat (a + b :: u32) = unat a + unat b"
  by (simp add: unat_word_ariths take_bit_eq_mod)

lemma unat_saturating_add: "unat (u32_saturating_add a b) \<le> unat a + unat b"
proof (cases "unat a + unat b < 2 ^ 32")
  case True
  then show ?thesis by (simp add: u32_saturating_add_def unat_add_small)
next
  case False
  moreover have "unat (- 1 :: u32) < 2 ^ 32"
    using unsigned_less [of "- 1 :: u32"] by simp
  ultimately show ?thesis by (simp add: u32_saturating_add_def)
qed

lemma saturating_add_zero:
  assumes "u32_saturating_add a b = 0"
  shows "a = 0"
proof -
  have "unat a + unat b < 2 ^ 32" "a + b = 0"
    using assms by (auto simp: u32_saturating_add_def split: if_splits)
  then have "unat a + unat b = 0"
    using unat_add_small [of a b] by (metis unsigned_0)
  then show ?thesis by (simp add: unat_eq_zero)
qed

lemma unat_saturating_sub: "unat (u32_saturating_sub a b) = unat a - unat b"
  by (auto simp: u32_saturating_sub_def unat_sub word_le_nat_alt)

lemma reported_append [simp]: "reported x (rs @ qs) = reported x rs + reported x qs"
  by (simp add: reported_def)

lemma reported_Cons [simp]:
  "reported x (r # rs) = (if rep_addr r = x then unat (rep_score r) else 0) + reported x rs"
  by (simp add: reported_def)

lemma reported_Nil [simp]: "reported x [] = 0"
  by (simp add: reported_def)

lemma reported_pos: "0 < reported x rs \<Longrightarrow> x \<in> rep_addr ` set rs"
  by (induction rs) (auto split: if_splits)

text \<open>Updating the record of one address keeps the addresses.\<close>

lemma update_addrs:
  "i < length xs \<Longrightarrow> map addr (xs[i := (xs ! i)\<lparr>score := s\<rparr>]) = map addr xs"
  by (simp add: map_update list_update_same_conv)

lemma pop_zeros_spec:
  assumes "pop_zeros xs ys = (reg, expired)"
  shows "\<exists>zs. xs = reg @ zs \<and> expired = ys @ rev zs \<and> (\<forall>z \<in> set zs. is_zero (score z)) \<and>
              (reg = [] \<or> \<not> is_zero (score (last reg)))"
  using assms
proof (induction xs ys arbitrary: reg expired rule: pop_zeros.induct)
  case (1 xs ys)
  show ?case
  proof (cases "xs \<noteq> [] \<and> is_zero (score (last xs))")
    case True
    then have "pop_zeros (butlast xs) (ys @ [last xs]) = (reg, expired)"
      using 1(2) by simp
    from 1(1) [OF True this] obtain zs where
      "butlast xs = reg @ zs" "expired = (ys @ [last xs]) @ rev zs" "\<forall>z \<in> set zs. is_zero (score z)"
      "reg = [] \<or> \<not> is_zero (score (last reg))" by blast
    moreover from this have "xs = reg @ zs @ [last xs]"
      using True append_butlast_last_id [of xs] by simp
    ultimately show ?thesis
      using True by (intro exI [of _ "zs @ [last xs]"]) auto
  next
    case False
    then show ?thesis using 1(2) by auto
  qed
qed

declare pop_zeros.simps [simp del]

lemma zeros_purged:
  assumes "pop_zeros xs [] = (reg, expired)"
    and "descending xs \<or> (\<forall>r \<in> set (butlast xs). \<not> is_zero (score r))"
  shows "\<forall>r \<in> set reg. \<not> is_zero (score r)"
proof -
  obtain zs where zs: "xs = reg @ zs" "reg = [] \<or> \<not> is_zero (score (last reg))"
    using pop_zeros_spec [OF assms(1)] by auto
  show ?thesis
  proof (cases "reg = []")
    case False
    then have reg: "reg = butlast reg @ [last reg]" by simp
    from assms(2) show ?thesis
    proof
      assume "descending xs"
      then have "\<forall>r \<in> set (butlast reg). score (last reg) \<le> score r"
        using zs(1) reg by (metis sorted_wrt_append list.set_intros(1))
      moreover have "is_zero s \<Longrightarrow> t \<le> s \<Longrightarrow> is_zero t" for s t
        by (cases t) (auto simp: is_zero_def)
      ultimately show ?thesis
        using zs(2) False by (subst reg) (auto simp del: append_butlast_last_id)
    next
      assume "\<forall>r \<in> set (butlast xs). \<not> is_zero (score r)"
      then have "\<forall>r \<in> set (butlast reg). \<not> is_zero (score r)"
        using zs(1) by (auto simp: butlast_append dest: in_set_butlastD split: if_splits)
      then show ?thesis
        using zs(2) False by (subst reg) (auto simp del: append_butlast_last_id)
    qed
  qed simp
qed


definition within :: "'a Report list \<Rightarrow> 'a AddressRecord \<Rightarrow> bool" where
  "within rs r \<longleftrightarrow> (case score r of Infinite \<Rightarrow> True | Finite n \<Rightarrow> unat n \<le> reported (addr r) rs)"

lemma backed_within: "backed rs r \<Longrightarrow> within rs r"
  by (auto simp: backed_def within_def split: AddressScore.splits)

lemma within_backed: "within rs r \<Longrightarrow> \<not> is_zero (score r) \<Longrightarrow> backed rs r"
  by (auto simp: backed_def within_def is_zero_def split: AddressScore.splits)

lemma within_drop_other: "within (old # rest) r \<Longrightarrow> addr r \<noteq> rep_addr old \<Longrightarrow> within rest r"
  by (auto simp: within_def split: AddressScore.splits)

lemma within_sub:
  "within (old # rest) r \<Longrightarrow> addr r = rep_addr old \<Longrightarrow>
   within rest (r\<lparr>score := score_sub (score r) (rep_score old)\<rparr>)"
  by (auto simp: within_def unat_saturating_sub split: AddressScore.splits)

lemma within_more: "within rs r \<Longrightarrow> within (rs @ qs) r"
  by (auto simp: within_def split: AddressScore.splits)

lemma in_set_update_distinct:
  assumes "y \<in> set (xs[i := v])" "i < length xs" "distinct (map addr xs)"
  shows "y = v \<or> y \<in> set xs \<and> addr y \<noteq> addr (xs ! i)"
proof -
  obtain j where j: "j < length xs" "y = xs[i := v] ! j"
    using assms(1) by (auto simp: in_set_conv_nth)
  show ?thesis
    using j assms(2) nth_eq_iff_index_eq [OF assms(3), of j i]
    by (cases "j = i") auto
qed

text \<open>What holds between the two halves of \<open>add\<close>.\<close>

definition reduced_inv :: "'a Addresses \<Rightarrow> bool" where
  "reduced_inv a \<longleftrightarrow>
     length (reports a) < limit a \<and> distinct (map addr (registry a)) \<and>
     (\<forall>r \<in> set (registry a). within (reports a) r) \<and>
     (descending (registry a) \<or> (\<forall>r \<in> set (butlast (registry a)). \<not> is_zero (score r)))"

lemma distinct_addr_isort:
  "distinct (map addr (isort xs)) = distinct (map addr xs)"
  by (rule mset_eq_imp_distinct_iff) simp

lemma reduce_oldest_inv:
  assumes inv: "addresses_inv a"
  shows "\<exists>a'. reduce_oldest a = Some a' \<and> limit a' = limit a \<and> reduced_inv a'"
proof (cases "length (reports a) = limit a")
  case False
  then show ?thesis
    using inv by (auto simp: reduce_oldest_def addresses_inv_def reduced_inv_def backed_within)
next
  case full: True
  then obtain old rest where reps: "reports a = old # rest"
    using inv by (cases "reports a") (auto simp: addresses_inv_def)
  have W: "within (old # rest) r" if "r \<in> set (registry a)" for r
    using inv that by (auto simp: addresses_inv_def reps backed_within)
  have dist: "distinct (map addr (registry a))" using inv by (simp add: addresses_inv_def)
  show ?thesis
  proof (cases "position_of (\<lambda>r. addr r = rep_addr old) (registry a)")
    case None
    then have "\<forall>r \<in> set (registry a). within rest r"
      using W within_drop_other [of old rest] by (auto simp: position_of_None)
    then show ?thesis
      using inv None full by (auto simp: reduce_oldest_def reps reduced_inv_def addresses_inv_def)
  next
    case (Some i)
    then have i: "i < length (registry a)" "addr (registry a ! i) = rep_addr old"
      by (auto simp: position_of_Some)
    let ?r = "registry a ! i"
    let ?v = "?r\<lparr>score := score_sub (score ?r) (rep_score old)\<rparr>"
    let ?reg = "(registry a)[i := ?v]"
    have "within rest r" if "r \<in> set ?reg" for r
      using in_set_update_distinct [OF that i(1) dist] i W within_sub [of old rest ?r]
        within_drop_other [of old rest r] by auto
    then show ?thesis
      using full Some dist i(1) inv isort_descending [of ?reg]
      by (auto simp: reduce_oldest_def reps Let_def reduced_inv_def addresses_inv_def
          distinct_addr_isort update_addrs)
  qed
qed

lemma score_add_within:
  assumes "within rs r" "\<not> is_zero (score r)"
    "qs = (case s of Finite n \<Rightarrow> [\<lparr>rep_addr = addr r, rep_score = n\<rparr>] | Infinite \<Rightarrow> [])"
  shows "within (rs @ qs) (r\<lparr>score := score_add (score r) s\<rparr>) \<and>
         \<not> is_zero (score_add (score r) s)"
proof (cases s)
  case Infinite
  then show ?thesis by (cases "score r") (auto simp: within_def is_zero_def)
next
  case (Finite n)
  show ?thesis
  proof (cases "score r")
    case (Finite m)
    then show ?thesis
      using assms \<open>s = Finite n\<close> unat_saturating_add [of m n] saturating_add_zero [of m n]
      by (auto simp: within_def is_zero_def)
  qed (auto simp: \<open>s = Finite n\<close> within_def is_zero_def)
qed

lemma Addresses_add_inv:
  assumes inv: "addresses_inv a"
  shows "\<exists>res a'. Addresses_add x s a = Some (res, a') \<and> addresses_inv a' \<and> limit a' = limit a"
proof -
  obtain b where b: "reduce_oldest a = Some b" "limit b = limit a" "reduced_inv b"
    using reduce_oldest_inv [OF inv] by auto
  obtain reg expired where pop: "pop_zeros (registry b) [] = (reg, expired)" by force
  have nz: "\<forall>r \<in> set reg. \<not> is_zero (score r)"
    using zeros_purged [OF pop] b(3) by (simp add: reduced_inv_def)
  have W: "\<forall>r \<in> set reg. within (reports b) r" and dist: "distinct (map addr reg)"
    using pop_zeros_spec [OF pop] b(3) by (auto simp: reduced_inv_def)
  have lim: "length (reports b) < limit b" "0 < limit a"
    using b(3) inv by (auto simp: reduced_inv_def addresses_inv_def)
  define qs where "qs = (case s of Finite n \<Rightarrow> [\<lparr>rep_addr = x, rep_score = n\<rparr>] | Infinite \<Rightarrow> [])"
  have qs: "(case s of Infinite \<Rightarrow> reports b | Finite n \<Rightarrow> reports b @ [\<lparr>rep_addr = x, rep_score = n\<rparr>])
      = reports b @ qs" and len: "length (reports b @ qs) \<le> limit b"
    using lim by (auto simp: qs_def split: AddressScore.splits)
  show ?thesis
  proof (cases "position_of (\<lambda>r. addr r = x) reg")
    case None
    then have "x \<notin> addr ` set reg" by (auto simp: position_of_None)
    moreover have "backed (reports b @ qs) (AddressRecord_new x s)"
      by (auto simp: backed_def AddressRecord_new_def qs_def split: AddressScore.splits)
    ultimately show ?thesis
      using None len lim dist W nz
      by (auto simp: Addresses_add_def b pop qs addresses_inv_def within_backed within_more
          AddressRecord_new_def)
  next
    case (Some i)
    then have i: "i < length reg" "addr (reg ! i) = x" by (auto simp: position_of_Some)
    let ?v = "(reg ! i)\<lparr>score := score_add (score (reg ! i)) s\<rparr>"
    have v: "within (reports b @ qs) ?v" "\<not> is_zero (score ?v)"
      using score_add_within [of "reports b" "reg ! i" qs s] W nz i by (auto simp: qs_def)
    have "backed (reports b @ qs) r \<and> \<not> is_zero (score r)" if "r \<in> set (reg[i := ?v])" for r
      using in_set_update_distinct [OF that i(1) dist] v W nz by (auto simp: within_backed within_more)
    then show ?thesis
      using Some len lim dist i
      by (auto simp: Addresses_add_def b pop qs addresses_inv_def Let_def distinct_addr_isort
          update_addrs dest: in_set_butlastD)
  qed
qed

lemma in_butlast_remove:
  assumes "r \<in> set (butlast (take i xs @ drop (Suc i) xs))"
  shows "r \<in> set (butlast xs)"
proof (cases "drop (Suc i) xs")
  case Nil
  then have "r \<in> set (butlast (take i xs))" using assms by simp
  then show ?thesis
    using Nil set_take_subset_set_take [of "min (length xs) i - Suc 0" "length xs - Suc 0" xs]
    by (auto simp: butlast_conv_take diff_le_mono)
next
  case (Cons y ys)
  then have "r \<in> set (take i xs) \<or> r \<in> set (butlast (drop (Suc i) xs))"
    using assms by (auto simp: butlast_append)
  moreover have "i < length xs" using Cons by (metis Suc_lessD drop_all leI list.distinct(1))
  then have "xs = take i xs @ xs ! i # drop (Suc i) xs" by (rule id_take_nth_drop)
  then have "butlast xs = take i xs @ xs ! i # butlast (drop (Suc i) xs)"
    using Cons by (metis butlast.simps(2) butlast_append list.distinct(1))
  ultimately show ?thesis by auto
qed

lemma Addresses_remove_inv:
  assumes "addresses_inv a"
  shows "addresses_inv (snd (Addresses_remove x a)) \<and> limit (snd (Addresses_remove x a)) = limit a"
proof (cases "position_of (\<lambda>r. addr r = x) (registry a)")
  case (Some i)
  have "distinct (map addr (take i (registry a) @ drop (Suc i) (registry a)))"
    using assms set_take_disj_set_drop_if_distinct [of "map addr (registry a)" i "Suc i"]
    unfolding map_append take_map [symmetric] drop_map [symmetric]
    by (simp add: addresses_inv_def)
  then show ?thesis
    using assms Some
    by (auto simp: Addresses_remove_def addresses_inv_def dest: in_butlast_remove in_set_takeD in_set_dropD)
qed (use assms in \<open>simp add: Addresses_remove_def\<close>)

lemma addresses_run_inv:
  "addresses_inv a \<Longrightarrow> \<exists>a'. addresses_run xs a = Some a' \<and> addresses_inv a' \<and> limit a' = limit a"
proof (induction xs arbitrary: a)
  case (Cons x xs)
  have "\<exists>b. addresses_step a x = Some b \<and> addresses_inv b \<and> limit b = limit a"
  proof (cases x)
    case (Add y s)
    then show ?thesis using Addresses_add_inv [OF Cons.prems, of y s] by auto
  next
    case (Rem y)
    then show ?thesis using Addresses_remove_inv [OF Cons.prems, of y] by simp
  qed
  then obtain b where "addresses_step a x = Some b" "addresses_inv b" "limit b = limit a" by auto
  then show ?case using Cons.IH [of b] by simp
qed simp

lemma Addresses_new_inv: "0 < n \<Longrightarrow> addresses_inv (Addresses_new n)"
  by (simp add: addresses_inv_def Addresses_new_def)

lemma finitely_scored_iff: "finitely_scored r \<longleftrightarrow> (\<exists>n. score r = Finite n)"
  by (simp split: AddressScore.splits)

declare finitely_scored.simps [simp del]

lemma finite_records_bounded:
  assumes "addresses_inv a"
  shows "length (filter finitely_scored (registry a)) \<le> length (reports a)"
proof -
  let ?fs = "filter finitely_scored (registry a)"
  have "addr ` set ?fs \<subseteq> rep_addr ` set (reports a)"
  proof
    fix x assume "x \<in> addr ` set ?fs"
    then obtain r n where r: "r \<in> set (registry a)" "score r = Finite n" "x = addr r"
      by (auto simp: finitely_scored_iff)
    then have "unat n \<le> reported x (reports a)" "n \<noteq> 0 \<or> x \<in> rep_addr ` set (reports a)"
      using assms by (auto simp: addresses_inv_def backed_def)
    then show "x \<in> rep_addr ` set (reports a)"
      using reported_pos [of x "reports a"] unat_gt_0 [of n] by auto
  qed
  then have "card (addr ` set ?fs) \<le> card (rep_addr ` set (reports a))"
    by (intro card_mono) auto
  also have "\<dots> \<le> length (reports a)"
    using card_image_le [of "set (reports a)" rep_addr] card_length [of "reports a"] by simp
  also have "card (addr ` set ?fs) = length ?fs"
    using assms distinct_card [of "map addr ?fs"] distinct_filter
    by (auto simp: addresses_inv_def distinct_map inj_on_def distinct_card card_image)
  finally show ?thesis .
qed

section \<open>Properties\<close>

text \<open>
  C35. However addresses are added to and removed from a new collection, no call panics, the
  history never outgrows its limit, no address is recorded twice, there are never more finitely
  scored addresses than historic reports, and the score of each of them is at most the sum of
  the reports for it.
\<close>
theorem addresses_bounded:
  assumes "0 < n"
  shows "\<exists>a. addresses_run xs (Addresses_new n) = Some a \<and>
           length (filter finitely_scored (registry a)) \<le> length (reports a) \<and>
           length (reports a) \<le> n \<and> distinct (map addr (registry a)) \<and>
           (\<forall>r \<in> set (registry a). \<forall>m. score r = Finite m \<longrightarrow> unat m \<le> reported (addr r) (reports a))"
proof -
  obtain a where a: "addresses_run xs (Addresses_new n) = Some a" "addresses_inv a" "limit a = n"
    using addresses_run_inv [OF Addresses_new_inv [OF assms]] by (auto simp: Addresses_new_def)
  then show ?thesis
    using finite_records_bounded [OF a(2)]
    by (force simp: addresses_inv_def backed_def)
qed

theorem addresses_bounded_witness:
  "\<exists>a. addresses_run [Add ''a'' (Finite 3), Add ''b'' (Finite 1), Rem ''a'', Add ''c'' Infinite]
          (Addresses_new 2) = Some a \<and> length (reports a) \<le> 2"
proof -
  obtain a where "addresses_run [Add ''a'' (Finite 3), Add ''b'' (Finite 1), Rem ''a'', Add ''c'' Infinite]
      (Addresses_new 2) = Some a" "length (reports a) \<le> 2"
    using addresses_bounded [of 2 "[Add ''a'' (Finite 3), Add ''b'' (Finite 1), Rem ''a'', Add ''c'' Infinite]"]
    by auto
  then show ?thesis by blast
qed

text \<open>
  An address that is not in the collection is put behind all others whatever its score: when
  its score exceeds that of the last record, the collection is no longer ordered from highest to
  lowest score, although its iterators are documented to yield that order.
\<close>
theorem addresses_new_unsorted:
  assumes "length (reports a) < limit a" "registry a \<noteq> []" "\<not> is_zero (score (last (registry a)))"
    "x \<notin> addr ` set (registry a)" "score (last (registry a)) < s"
  shows "\<exists>a'. Addresses_add x s a = Some (Inserted [], a') \<and>
           registry a' = registry a @ [AddressRecord_new x s] \<and>
           \<not> sorted_wrt (\<lambda>p q. score q \<le> score p) (registry a')"
proof -
  have pop: "pop_zeros (registry a) [] = (registry a, [])"
    using assms(3) by (subst pop_zeros.simps) simp
  have "position_of (\<lambda>r. addr r = x) (registry a) = None"
    using assms(4) by (auto simp: position_of_None)
  moreover have "last (registry a) \<in> set (registry a)" using assms(2) by simp
  then have "\<not> sorted_wrt (\<lambda>p q. score q \<le> score p) (registry a @ [AddressRecord_new x s])"
    using assms(5) by (auto simp: sorted_wrt_append AddressRecord_new_def not_le intro!: bexI)
  ultimately show ?thesis
    using assms(1) by (simp add: Addresses_add_def reduce_oldest_def pop)
qed

theorem addresses_new_unsorted_witness:
  "\<exists>a'. Addresses_add ''b'' (Finite 5)
          (Addresses_new 4\<lparr>registry := [AddressRecord_new ''a'' (Finite 1)]\<rparr>) = Some (Inserted [], a') \<and>
        \<not> sorted_wrt (\<lambda>p q. score q \<le> score p) (registry a')"
  using addresses_new_unsorted
    [of "Addresses_new 4\<lparr>registry := [AddressRecord_new ''a'' (Finite 1)]\<rparr>" "''b''" "Finite 5"]
  by (auto simp: Addresses_new_def AddressRecord_new_def is_zero_def less_AddressScore_def word_le_nat_alt)

end
