(* ===== verification/Swarm_Pool.thy ===== *)
theory Swarm_Pool
  imports Core_Connection
begin

text \<open>
  The connection pool of a swarm (swarm/src/connection/pool.rs) with its counters and limits, and
  the background tasks that drive the connections (swarm/src/connection/pool/task.rs).

  The tasks run concurrently with the pool and report to it through two channels. A system state
  holds the pool, the tasks that have not ended and the events in the two channels; a run is a
  sequence of steps, each an operation of the pool or one move of one task. What a transport or a
  connection handler does is data of the step. A panic is \<open>None\<close>.

  The counters are the source's \<open>u32\<close> values as naturals, with the overflow checks written out. A
  vector of connection ids collected from a hash map, whose order is unspecified, is a set.
\<close>

section \<open>Limits and counters\<close>

definition u32_add :: "nat \<Rightarrow> nat \<Rightarrow> nat option" where
  "u32_add a b = (if a + b < 2 ^ 32 then Some (a + b) else None)"

record ConnectionLimit =
  lim_limit :: nat
  lim_current :: nat

record ConnectionLimits =
  max_pending_incoming :: "nat option"
  max_pending_outgoing :: "nat option"
  max_established_incoming :: "nat option"
  max_established_outgoing :: "nat option"
  max_established_per_peer :: "nat option"
  max_established_total :: "nat option"

definition ConnectionLimits_default :: ConnectionLimits where
  "ConnectionLimits_default =
     \<lparr>max_pending_incoming = None, max_pending_outgoing = None, max_established_incoming = None,
      max_established_outgoing = None, max_established_per_peer = None, max_established_total = None\<rparr>"

definition with_max_pending_incoming :: "nat option \<Rightarrow> ConnectionLimits \<Rightarrow> ConnectionLimits" where
  "with_max_pending_incoming l s = s\<lparr>max_pending_incoming := l\<rparr>"

definition with_max_pending_outgoing :: "nat option \<Rightarrow> ConnectionLimits \<Rightarrow> ConnectionLimits" where
  "with_max_pending_outgoing l s = s\<lparr>max_pending_outgoing := l\<rparr>"

definition with_max_established_incoming :: "nat option \<Rightarrow> ConnectionLimits \<Rightarrow> ConnectionLimits" where
  "with_max_established_incoming l s = s\<lparr>max_established_incoming := l\<rparr>"

definition with_max_established_outgoing :: "nat option \<Rightarrow> ConnectionLimits \<Rightarrow> ConnectionLimits" where
  "with_max_established_outgoing l s = s\<lparr>max_established_outgoing := l\<rparr>"

definition with_max_established :: "nat option \<Rightarrow> ConnectionLimits \<Rightarrow> ConnectionLimits" where
  "with_max_established l s = s\<lparr>max_established_total := l\<rparr>"

definition with_max_established_per_peer :: "nat option \<Rightarrow> ConnectionLimits \<Rightarrow> ConnectionLimits" where
  "with_max_established_per_peer l s = s\<lparr>max_established_per_peer := l\<rparr>"

record ConnectionCounters =
  limits :: ConnectionLimits
  pending_incoming :: nat
  pending_outgoing :: nat
  established_incoming :: nat
  established_outgoing :: nat

definition Counters_new :: "ConnectionLimits \<Rightarrow> ConnectionCounters" where
  "Counters_new l =
     \<lparr>limits = l, pending_incoming = 0, pending_outgoing = 0, established_incoming = 0,
      established_outgoing = 0\<rparr>"

definition num_pending :: "ConnectionCounters \<Rightarrow> nat option" where
  "num_pending c = u32_add (pending_incoming c) (pending_outgoing c)"

definition num_established :: "ConnectionCounters \<Rightarrow> nat option" where
  "num_established c = u32_add (established_outgoing c) (established_incoming c)"

definition num_connections :: "ConnectionCounters \<Rightarrow> nat option" where
  "num_connections c =
     do { a \<leftarrow> num_pending c; b \<leftarrow> num_established c; u32_add a b }"

fun inc_pending :: "'a PendingPoint \<Rightarrow> ConnectionCounters \<Rightarrow> ConnectionCounters option" where
  "inc_pending (PendingDialer _) c =
     map_option (\<lambda>n. c\<lparr>pending_outgoing := n\<rparr>) (u32_add (pending_outgoing c) 1)"
| "inc_pending (PendingListener _ _) c =
     map_option (\<lambda>n. c\<lparr>pending_incoming := n\<rparr>) (u32_add (pending_incoming c) 1)"

definition inc_pending_incoming :: "ConnectionCounters \<Rightarrow> ConnectionCounters option" where
  "inc_pending_incoming c =
     map_option (\<lambda>n. c\<lparr>pending_incoming := n\<rparr>) (u32_add (pending_incoming c) 1)"

fun dec_pending :: "'a PendingPoint \<Rightarrow> ConnectionCounters \<Rightarrow> ConnectionCounters option" where
  "dec_pending (PendingDialer _) c =
     map_option (\<lambda>n. c\<lparr>pending_outgoing := n\<rparr>) (checked_sub (pending_outgoing c) 1)"
| "dec_pending (PendingListener _ _) c =
     map_option (\<lambda>n. c\<lparr>pending_incoming := n\<rparr>) (checked_sub (pending_incoming c) 1)"

fun inc_established :: "'a ConnectedPoint \<Rightarrow> ConnectionCounters \<Rightarrow> ConnectionCounters option" where
  "inc_established (ConnectedDialer _ _) c =
     map_option (\<lambda>n. c\<lparr>established_outgoing := n\<rparr>) (u32_add (established_outgoing c) 1)"
| "inc_established (ConnectedListener _ _) c =
     map_option (\<lambda>n. c\<lparr>established_incoming := n\<rparr>) (u32_add (established_incoming c) 1)"

fun dec_established :: "'a ConnectedPoint \<Rightarrow> ConnectionCounters \<Rightarrow> ConnectionCounters option" where
  "dec_established (ConnectedDialer _ _) c =
     map_option (\<lambda>n. c\<lparr>established_outgoing := n\<rparr>) (checked_sub (established_outgoing c) 1)"
| "dec_established (ConnectedListener _ _) c =
     map_option (\<lambda>n. c\<lparr>established_incoming := n\<rparr>) (checked_sub (established_incoming c) 1)"

definition check :: "nat \<Rightarrow> nat option \<Rightarrow> ConnectionLimit + unit" where
  "check current l =
     (case l of
        Some m \<Rightarrow> if m \<le> current then Inl \<lparr>lim_limit = m, lim_current = current\<rparr> else Inr ()
      | None \<Rightarrow> Inr ())"

definition check_max_pending_outgoing :: "ConnectionCounters \<Rightarrow> ConnectionLimit + unit" where
  "check_max_pending_outgoing c = check (pending_outgoing c) (max_pending_outgoing (limits c))"

definition check_max_pending_incoming :: "ConnectionCounters \<Rightarrow> ConnectionLimit + unit" where
  "check_max_pending_incoming c = check (pending_incoming c) (max_pending_incoming (limits c))"

definition check_max_established ::
  "'a ConnectedPoint \<Rightarrow> ConnectionCounters \<Rightarrow> (ConnectionLimit + unit) option" where
  "check_max_established endpoint c =
     do {
       n \<leftarrow> num_established c;
       Some (case check n (max_established_total (limits c)) of
               Inl e \<Rightarrow> Inl e
             | Inr _ \<Rightarrow>
                 (case endpoint of
                    ConnectedDialer _ _ \<Rightarrow>
                      check (established_outgoing c) (max_established_outgoing (limits c))
                  | ConnectedListener _ _ \<Rightarrow>
                      check (established_incoming c) (max_established_incoming (limits c))))
     }"

definition check_max_established_per_peer :: "nat \<Rightarrow> ConnectionCounters \<Rightarrow> ConnectionLimit + unit" where
  "check_max_established_per_peer current c = check current (max_established_per_peer (limits c))"

section \<open>Configuration\<close>

text \<open>The type of executors and that of protocol versions are parameters.\<close>

record ('e, 'v) PoolConfig =
  executor :: "'e option"
  task_command_buffer_size :: nat
  task_event_buffer_size :: nat
  dial_concurrency_factor :: nat
  substream_upgrade_protocol_override :: "'v option"

definition PoolConfig_default :: "('e, 'v) PoolConfig" where
  "PoolConfig_default =
     \<lparr>executor = None, task_command_buffer_size = 7, task_event_buffer_size = 32,
      dial_concurrency_factor = 1, substream_upgrade_protocol_override = None\<rparr>"

definition with_executor :: "'e \<Rightarrow> ('e, 'v) PoolConfig \<Rightarrow> ('e, 'v) PoolConfig" where
  "with_executor e c = c\<lparr>executor := Some e\<rparr>"

definition or_else_with_executor :: "'e option \<Rightarrow> ('e, 'v) PoolConfig \<Rightarrow> ('e, 'v) PoolConfig" where
  "or_else_with_executor f c = c\<lparr>executor := (case executor c of Some e \<Rightarrow> Some e | None \<Rightarrow> f)\<rparr>"

text \<open>The argument of \<open>with_notify_handler_buffer_size\<close> is a \<open>NonZeroUsize\<close>.\<close>

definition with_notify_handler_buffer_size :: "nat \<Rightarrow> ('e, 'v) PoolConfig \<Rightarrow> ('e, 'v) PoolConfig" where
  "with_notify_handler_buffer_size n c = c\<lparr>task_command_buffer_size := n - 1\<rparr>"

definition with_connection_event_buffer_size :: "nat \<Rightarrow> ('e, 'v) PoolConfig \<Rightarrow> ('e, 'v) PoolConfig" where
  "with_connection_event_buffer_size n c = c\<lparr>task_event_buffer_size := n\<rparr>"

definition with_dial_concurrency_factor :: "nat \<Rightarrow> ('e, 'v) PoolConfig \<Rightarrow> ('e, 'v) PoolConfig" where
  "with_dial_concurrency_factor n c = c\<lparr>dial_concurrency_factor := n\<rparr>"

definition with_substream_upgrade_protocol_override :: "'v \<Rightarrow> ('e, 'v) PoolConfig \<Rightarrow> ('e, 'v) PoolConfig" where
  "with_substream_upgrade_protocol_override v c = c\<lparr>substream_upgrade_protocol_override := Some v\<rparr>"

section \<open>The pool\<close>

text \<open>A command channel is the list of the commands that its task has not received yet.\<close>

datatype 'i Command = NotifyHandler 'i | Close

text \<open>The answer of the channel to \<open>try_send\<close>, which the futures crate decides.\<close>

datatype send_result = Sent | Full | Disconnected

record ('p, 'a, 'i) EstablishedConnectionInfo =
  eci_peer_id :: 'p
  eci_endpoint :: "'a ConnectedPoint"
  eci_sender :: "'i Command list"

record ('p, 'a, 'h) PendingConnectionInfo =
  pci_peer_id :: "'p option"
  pci_handler :: 'h
  pci_endpoint :: "'a PendingPoint"
  pci_abort_notifier :: bool

record ('p, 'a, 'h, 'i) Pool =
  local_id :: 'p
  counters :: ConnectionCounters
  established :: "('p, (nat, ('p, 'a, 'i) EstablishedConnectionInfo) mapping) mapping"
  pending :: "(nat, ('p, 'a, 'h) PendingConnectionInfo) mapping"
  next_connection_id :: nat

datatype ('p, 'a, 't) PendingConnectionError =
    Transport 't
  | ConnectionLimitError ConnectionLimit
  | Aborted
  | WrongPeerId 'p "'a ConnectedPoint"
  | PendingIO

datatype ('p, 'a, 't) PendingConnectionEvent =
    PendingEstablished nat 'p "('a \<times> ('a \<times> 't) list) option"
  | PendingFailed nat
      "('p, 'a, ('a \<times> 't) list) PendingConnectionError + ('p, 'a, 't) PendingConnectionError"

datatype ('p, 'a, 'o, 'x, 'd) EstablishedConnectionEvent =
    EstAddressChange nat 'p 'a
  | EstNotify nat 'p 'o
  | EstClosed nat 'p "'x option" 'd

datatype ('p, 'a, 'h, 't, 'o, 'x, 'd) PoolEvent =
    ConnectionEstablished nat 'p "'a ConnectedPoint" "nat set" "('a \<times> 't) list option"
  | ConnectionClosed nat 'p "'a ConnectedPoint" "'x option" "nat set" 'd
  | PendingOutboundConnectionError nat "('p, 'a, ('a \<times> 't) list) PendingConnectionError" 'h "'p option"
  | PendingInboundConnectionError nat 'a 'a "('p, 'a, 't) PendingConnectionError" 'h
  | ConnectionEvent nat 'p 'o
  | AddressChange nat 'p "'a ConnectedPoint" "'a ConnectedPoint"

definition Pool_new :: "'p \<Rightarrow> ConnectionLimits \<Rightarrow> ('p, 'a, 'h, 'i) Pool" where
  "Pool_new p l =
     \<lparr>local_id = p, counters = Counters_new l, established = Mapping.empty,
      pending = Mapping.empty, next_connection_id = 0\<rparr>"

datatype pool_connection = IsPending | IsEstablished

definition Pool_get :: "nat \<Rightarrow> ('p, 'a, 'h, 'i) Pool \<Rightarrow> pool_connection option" where
  "Pool_get n s =
     (if Mapping.lookup (pending s) n \<noteq> None then Some IsPending
      else if Mapping.is_empty
                (Mapping.filter (\<lambda>_ cs. Mapping.lookup cs n \<noteq> None) (established s)) then None
      else Some IsEstablished)"

definition get_established :: "nat \<Rightarrow> ('p, 'a, 'h, 'i) Pool \<Rightarrow> bool" where
  "get_established n s = (Pool_get n s = Some IsEstablished)"

definition iter_pending_info ::
  "('p, 'a, 'h, 'i) Pool \<Rightarrow> (nat, 'a PendingPoint \<times> 'p option) mapping" where
  "iter_pending_info s = Mapping.map_values (\<lambda>_ i. (pci_endpoint i, pci_peer_id i)) (pending s)"

definition iter_connected :: "('p, 'a, 'h, 'i) Pool \<Rightarrow> 'p set" where
  "iter_connected s = Mapping.keys (established s)"

definition is_connected :: "'p \<Rightarrow> ('p, 'a, 'h, 'i) Pool \<Rightarrow> bool" where
  "is_connected p s = (Mapping.lookup (established s) p \<noteq> None)"

definition num_peers :: "('p, 'a, 'h, 'i) Pool \<Rightarrow> nat" where
  "num_peers s = Mapping.size (established s)"

definition iter_established_connections_of_peer :: "'p \<Rightarrow> ('p, 'a, 'h, 'i) Pool \<Rightarrow> nat set" where
  "iter_established_connections_of_peer p s =
     (case Mapping.lookup (established s) p of Some cs \<Rightarrow> Mapping.keys cs | None \<Rightarrow> {})"

text \<open>
  A command \<open>Close\<close> is sent through a fresh clone of the sender, for which a slot is reserved: that
  the channel is full is asserted not to happen.
\<close>

definition start_close ::
  "send_result \<Rightarrow> ('p, 'a, 'i) EstablishedConnectionInfo \<Rightarrow>
   ('p, 'a, 'i) EstablishedConnectionInfo option" where
  "start_close answer c =
     (case answer of
        Sent \<Rightarrow> Some (c\<lparr>eci_sender := eci_sender c @ [Close]\<rparr>)
      | Disconnected \<Rightarrow> Some c
      | Full \<Rightarrow> None)"

definition notify_handler ::
  "send_result \<Rightarrow> 'i \<Rightarrow> ('p, 'a, 'i) EstablishedConnectionInfo \<Rightarrow>
   ('i + unit) \<times> ('p, 'a, 'i) EstablishedConnectionInfo" where
  "notify_handler answer ev c =
     (case answer of
        Sent \<Rightarrow> (Inr (), c\<lparr>eci_sender := eci_sender c @ [NotifyHandler ev]\<rparr>)
      | _ \<Rightarrow> (Inl ev, c))"

definition PendingConnection_abort ::
  "('p, 'a, 'h) PendingConnectionInfo \<Rightarrow> ('p, 'a, 'h) PendingConnectionInfo" where
  "PendingConnection_abort c = c\<lparr>pci_abort_notifier := False\<rparr>"

definition Pool_disconnect ::
  "(nat \<Rightarrow> send_result) \<Rightarrow> 'p \<Rightarrow> ('p, 'a, 'h, 'i) Pool \<Rightarrow> ('p, 'a, 'h, 'i) Pool option" where
  "Pool_disconnect answer p s =
     do {
       est \<leftarrow> (case Mapping.lookup (established s) p of
                 None \<Rightarrow> Some (established s)
               | Some cs \<Rightarrow>
                   if \<exists>n \<in> Mapping.keys cs. answer n = Full then None
                   else Some (Mapping.update p
                          (Mapping.map_values (\<lambda>n c. the (start_close (answer n) c)) cs)
                          (established s)));
       Some (s\<lparr>established := est,
               pending := Mapping.map_values
                 (\<lambda>_ c. if pci_peer_id c = Some p then PendingConnection_abort c else c) (pending s)\<rparr>)
     }"

text \<open>\<open>next_connection_id\<close>, with the overflow of a 64-bit \<open>usize\<close>.\<close>

definition take_connection_id :: "('p, 'a, 'h, 'i) Pool \<Rightarrow> (nat \<times> ('p, 'a, 'h, 'i) Pool) option" where
  "take_connection_id s =
     (if next_connection_id s + 1 < 2 ^ 64
      then Some (next_connection_id s, s\<lparr>next_connection_id := next_connection_id s + 1\<rparr>)
      else None)"

definition add_outgoing ::
  "'p option \<Rightarrow> 'h \<Rightarrow> Endpoint \<Rightarrow> ('p, 'a, 'h, 'i) Pool \<Rightarrow>
   ((ConnectionLimit \<times> 'h + nat) \<times> ('p, 'a, 'h, 'i) Pool) option" where
  "add_outgoing peer handler role s =
     (case check_max_pending_outgoing (counters s) of
        Inl l \<Rightarrow> Some (Inl (l, handler), s)
      | Inr _ \<Rightarrow>
          do {
            (n, s1) \<leftarrow> take_connection_id s;
            let endpoint = PendingDialer role;
            c \<leftarrow> inc_pending endpoint (counters s1);
            Some (Inr n,
                  s1\<lparr>counters := c,
                     pending := Mapping.update n
                       \<lparr>pci_peer_id = peer, pci_handler = handler, pci_endpoint = endpoint,
                        pci_abort_notifier = True\<rparr> (pending s1)\<rparr>)
          })"

definition to_connected_point :: "'a \<Rightarrow> 'a \<Rightarrow> 'a ConnectedPoint" where
  "to_connected_point la sba = ConnectedListener la sba"

definition add_incoming ::
  "'h \<Rightarrow> 'a \<Rightarrow> 'a \<Rightarrow> ('p, 'a, 'h, 'i) Pool \<Rightarrow>
   ((ConnectionLimit \<times> 'h + nat) \<times> ('p, 'a, 'h, 'i) Pool) option" where
  "add_incoming handler la sba s =
     (let endpoint = to_connected_point la sba in
      case check_max_pending_incoming (counters s) of
        Inl l \<Rightarrow> Some (Inl (l, handler), s)
      | Inr _ \<Rightarrow>
          do {
            (n, s1) \<leftarrow> take_connection_id s;
            c \<leftarrow> inc_pending_incoming (counters s1);
            Some (Inr n,
                  s1\<lparr>counters := c,
                     pending := Mapping.update n
                       \<lparr>pci_peer_id = None, pci_handler = handler,
                        pci_endpoint = PendingPoint_from endpoint, pci_abort_notifier = True\<rparr>
                       (pending s1)\<rparr>)
          })"

definition num_peer_established ::
  "('p, (nat, ('p, 'a, 'i) EstablishedConnectionInfo) mapping) mapping \<Rightarrow> 'p \<Rightarrow> nat option" where
  "num_peer_established est p =
     (case Mapping.lookup est p of
        None \<Rightarrow> Some 0
      | Some cs \<Rightarrow> if Mapping.size cs < 2 ^ 32 then Some (Mapping.size cs) else None)"

section \<open>Polling\<close>

text \<open>The first match of \<open>poll\<close>: an event of an established connection.\<close>

fun poll_established ::
  "('p, 'a, 'o, 'x, 'd) EstablishedConnectionEvent \<Rightarrow> ('p, 'a, 'h, 'i) Pool \<Rightarrow>
   (('p, 'a, 'h, 't, 'o, 'x, 'd) PoolEvent \<times> ('p, 'a, 'h, 'i) Pool) option" where
  "poll_established (EstNotify n p ev) s =
     do {
       cs \<leftarrow> Mapping.lookup (established s) p;
       _ \<leftarrow> Mapping.lookup cs n;
       Some (ConnectionEvent n p ev, s)
     }"
| "poll_established (EstAddressChange n p new) s =
     do {
       cs \<leftarrow> Mapping.lookup (established s) p;
       c \<leftarrow> Mapping.lookup cs n;
       let new_endpoint = set_remote_address new (eci_endpoint c);
       let s1 = s\<lparr>established := Mapping.update p
                     (Mapping.update n (c\<lparr>eci_endpoint := new_endpoint\<rparr>) cs) (established s)\<rparr>;
       (if Pool_get n s1 = Some IsEstablished
        then Some (AddressChange n p new_endpoint (eci_endpoint c), s1) else None)
     }"
| "poll_established (EstClosed n p error handler) s =
     do {
       cs \<leftarrow> Mapping.lookup (established s) p;
       c \<leftarrow> Mapping.lookup cs n;
       let cs1 = Mapping.delete n cs;
       ctr \<leftarrow> dec_established (eci_endpoint c) (counters s);
       let remaining = Mapping.keys cs1;
       Some (ConnectionClosed n p (eci_endpoint c) error remaining handler,
             s\<lparr>counters := ctr,
               established := (if remaining = {} then Mapping.delete p (established s)
                               else Mapping.update p cs1 (established s))\<rparr>)
     }"

text \<open>The endpoint of a connection that is established, from that of the pending one.\<close>

fun established_endpoint ::
  "'a PendingPoint \<Rightarrow> ('a \<times> ('a \<times> 't) list) option \<Rightarrow>
   ('a ConnectedPoint \<times> ('a \<times> 't) list option) option" where
  "established_endpoint (PendingDialer role) (Some (a, errors)) = Some (ConnectedDialer a role, Some errors)"
| "established_endpoint (PendingListener la sba) None = Some (ConnectedListener la sba, None)"
| "established_endpoint (PendingDialer role) None = None"
| "established_endpoint (PendingListener la sba) (Some _) = None"

text \<open>The checks that a new connection has to pass, in the order of the source.\<close>

definition check_new_connection ::
  "'p option \<Rightarrow> 'p \<Rightarrow> 'a ConnectedPoint \<Rightarrow> ('p, 'a, 'h, 'i) Pool \<Rightarrow>
   (('p, 'a, 't) PendingConnectionError + unit) option" where
  "check_new_connection expected obtained endpoint s =
     do {
       r \<leftarrow> check_max_established endpoint (counters s);
       (case r of
          Inl l \<Rightarrow> Some (Inl (ConnectionLimitError l))
        | Inr _ \<Rightarrow>
            do {
              k \<leftarrow> num_peer_established (established s) obtained;
              Some (case check_max_established_per_peer k (counters s) of
                      Inl l \<Rightarrow> Inl (ConnectionLimitError l)
                    | Inr _ \<Rightarrow>
                        if expected \<noteq> None \<and> expected \<noteq> Some obtained
                        then Inl (WrongPeerId obtained endpoint)
                        else if local_id s = obtained then Inl (WrongPeerId obtained endpoint)
                        else Inr ())
            })
     }"

definition insert_established ::
  "nat \<Rightarrow> 'p \<Rightarrow> 'a ConnectedPoint \<Rightarrow> ('p, 'a, 'h, 'i) Pool \<Rightarrow>
   (nat set \<times> ('p, 'a, 'h, 'i) Pool) option" where
  "insert_established n p endpoint s =
     (let cs = Mapping.lookup_default Mapping.empty (established s) p in
      do {
        ctr \<leftarrow> inc_established endpoint (counters s);
        Some (Mapping.keys cs,
              s\<lparr>counters := ctr,
                established := Mapping.update p
                  (Mapping.update n
                     \<lparr>eci_peer_id = p, eci_endpoint = endpoint, eci_sender = []\<rparr> cs)
                  (established s)\<rparr>)
      })"

text \<open>
  The second match of \<open>poll\<close>: an event of a pending connection. The event \<open>None\<close> continues the loop.
\<close>

fun poll_pending_event ::
  "('p, 'a, 't) PendingConnectionEvent \<Rightarrow> ('p, 'a, 'h, 'i) Pool \<Rightarrow>
   (('p, 'a, 'h, 't, 'o, 'x, 'd) PoolEvent option \<times> ('p, 'a, 'h, 'i) Pool) option" where
  "poll_pending_event (PendingEstablished n obtained outgoing) s0 =
     do {
       info \<leftarrow> Mapping.lookup (pending s0) n;
       ctr \<leftarrow> dec_pending (pci_endpoint info) (counters s0);
       let s = s0\<lparr>pending := Mapping.delete n (pending s0), counters := ctr\<rparr>;
       (endpoint, dial_errors) \<leftarrow> established_endpoint (pci_endpoint info) outgoing;
       r \<leftarrow> check_new_connection (pci_peer_id info) obtained endpoint s;
       (case r of
          Inl err \<Rightarrow>
            (case endpoint of
               ConnectedDialer _ _ \<Rightarrow>
                 Some (Some (PendingOutboundConnectionError n
                        (map_PendingConnectionError id id (\<lambda>t. [(get_remote_address endpoint, t)]) err)
                        (pci_handler info)
                        (case pci_peer_id info of Some p \<Rightarrow> Some p | None \<Rightarrow> Some obtained)), s)
             | ConnectedListener la sba \<Rightarrow>
                 Some (Some (PendingInboundConnectionError n sba la err (pci_handler info)), s))
        | Inr _ \<Rightarrow>
            do {
              (others, s1) \<leftarrow> insert_established n obtained endpoint s;
              (if Pool_get n s1 = Some IsEstablished
               then Some (Some (ConnectionEstablished n obtained endpoint others dial_errors), s1)
               else None)
            })
     }"
| "poll_pending_event (PendingFailed n error) s =
     (case Mapping.lookup (pending s) n of
        None \<Rightarrow> Some (None, s)
      | Some info \<Rightarrow>
          do {
            ctr \<leftarrow> dec_pending (pci_endpoint info) (counters s);
            let s1 = s\<lparr>pending := Mapping.delete n (pending s), counters := ctr\<rparr>;
            (case (pci_endpoint info, error) of
               (PendingDialer _, Inl e) \<Rightarrow>
                 Some (Some (PendingOutboundConnectionError n e (pci_handler info) (pci_peer_id info)), s1)
             | (PendingListener la sba, Inr e) \<Rightarrow>
                 Some (Some (PendingInboundConnectionError n sba la e (pci_handler info)), s1)
             | _ \<Rightarrow> None)
          })"

fun poll_pending ::
  "('p, 'a, 't) PendingConnectionEvent list \<Rightarrow> ('p, 'a, 'h, 'i) Pool \<Rightarrow>
   (('p, 'a, 'h, 't, 'o, 'x, 'd) PoolEvent option \<times> ('p, 'a, 't) PendingConnectionEvent list \<times>
    ('p, 'a, 'h, 'i) Pool) option" where
  "poll_pending [] s = Some (None, [], s)"
| "poll_pending (e # es) s =
     do {
       (r, s1) \<leftarrow> poll_pending_event e s;
       (case r of Some ev \<Rightarrow> Some (Some ev, es, s1) | None \<Rightarrow> poll_pending es s1)
     }"


section \<open>Tasks\<close>

text \<open>
  What ends the race of a pending task: its abort notifier was dropped, or the dial or upgrade
  came to an end. The error of an incoming upgrade is wrapped as a transport error already.
\<close>

datatype ('p, 'a, 't) outgoing_outcome = OutCanceled | OutOk 'a 'p "('a \<times> 't) list" | OutErr "('a \<times> 't) list"

datatype ('p, 't) incoming_outcome = InCanceled | InOk 'p | InErr 't

fun new_for_pending_outgoing_connection ::
  "nat \<Rightarrow> ('p, 'a, 't) outgoing_outcome \<Rightarrow> ('p, 'a, 't) PendingConnectionEvent" where
  "new_for_pending_outgoing_connection n OutCanceled = PendingFailed n (Inl Aborted)"
| "new_for_pending_outgoing_connection n (OutOk a p errs) = PendingEstablished n p (Some (a, errs))"
| "new_for_pending_outgoing_connection n (OutErr errs) = PendingFailed n (Inl (Transport errs))"

fun new_for_pending_incoming_connection ::
  "nat \<Rightarrow> ('p, 't) incoming_outcome \<Rightarrow> ('p, 'a, 't) PendingConnectionEvent" where
  "new_for_pending_incoming_connection n InCanceled = PendingFailed n (Inr Aborted)"
| "new_for_pending_incoming_connection n (InOk p) = PendingEstablished n p None"
| "new_for_pending_incoming_connection n (InErr t) = PendingFailed n (Inr (Transport t))"

text \<open>
  What one turn of the loop of an established connection's task sees: a command, with the outcome
  of closing the muxer and the handler should it be \<open>Close\<close>, or an event or error of the connection.
\<close>

datatype ('a, 'o, 'x, 'd) connection_move =
    MoveCommand "'x option" 'd
  | MoveHandler 'o
  | MoveAddress 'a
  | MoveError 'x 'd

text \<open>The result is the event that is sent, the commands that are left, and whether the task goes on.\<close>

fun established_turn ::
  "nat \<Rightarrow> 'p \<Rightarrow> 'i Command list \<Rightarrow> ('a, 'o, 'x, 'd) connection_move \<Rightarrow>
   ('p, 'a, 'o, 'x, 'd) EstablishedConnectionEvent option \<times> 'i Command list \<times> bool" where
  "established_turn n p [] (MoveCommand err d) = (None, [], True)"
| "established_turn n p (NotifyHandler ev # cs) (MoveCommand err d) = (None, cs, True)"
| "established_turn n p (Close # cs) (MoveCommand err d) = (Some (EstClosed n p err d), cs, False)"
| "established_turn n p cs (MoveHandler ev) = (Some (EstNotify n p ev), cs, True)"
| "established_turn n p cs (MoveAddress a) = (Some (EstAddressChange n p a), cs, True)"
| "established_turn n p cs (MoveError x d) = (Some (EstClosed n p (Some x) d), cs, False)"

section \<open>The system of pool and tasks\<close>

datatype 'p task = OutTask | InTask | EstTask 'p

record ('p, 'a, 'h, 'i, 't, 'o, 'x, 'd) sys =
  sys_pool :: "('p, 'a, 'h, 'i) Pool"
  sys_tasks :: "(nat, 'p task) mapping"
  pending_rx :: "('p, 'a, 't) PendingConnectionEvent list"
  established_rx :: "('p, 'a, 'o, 'x, 'd) EstablishedConnectionEvent list"

datatype ('p, 'a, 'h, 'i, 't, 'o, 'x, 'd) label =
    AddOutgoing "'p option" 'h Endpoint
  | AddIncoming 'h 'a 'a
  | OutgoingMove nat "('p, 'a, 't) outgoing_outcome"
  | IncomingMove nat "('p, 't) incoming_outcome"
  | EstablishedMove nat "('a, 'o, 'x, 'd) connection_move"
  | Disconnect "nat \<Rightarrow> send_result" 'p
  | StartClose 'p nat send_result
  | Notify 'p nat send_result 'i
  | Abort nat
  | Poll

definition sys_new :: "'p \<Rightarrow> ConnectionLimits \<Rightarrow> ('p, 'a, 'h, 'i, 't, 'o, 'x, 'd) sys" where
  "sys_new p l =
     \<lparr>sys_pool = Pool_new p l, sys_tasks = Mapping.empty, pending_rx = [], established_rx = []\<rparr>"

definition est_lookup ::
  "('p, 'a, 'h, 'i) Pool \<Rightarrow> 'p \<Rightarrow> nat \<Rightarrow> ('p, 'a, 'i) EstablishedConnectionInfo option" where
  "est_lookup s p n = Option.bind (Mapping.lookup (established s) p) (\<lambda>cs. Mapping.lookup cs n)"

definition est_update ::
  "'p \<Rightarrow> nat \<Rightarrow> ('p, 'a, 'i) EstablishedConnectionInfo \<Rightarrow> ('p, 'a, 'h, 'i) Pool \<Rightarrow>
   ('p, 'a, 'h, 'i) Pool" where
  "est_update p n c s =
     s\<lparr>established := Mapping.update p
        (Mapping.update n c (Mapping.lookup_default Mapping.empty (established s) p)) (established s)\<rparr>"

definition aborted :: "nat \<Rightarrow> ('p, 'a, 'h, 'i) Pool \<Rightarrow> bool" where
  "aborted n s = (case Mapping.lookup (pending s) n of Some i \<Rightarrow> \<not> pci_abort_notifier i | None \<Rightarrow> True)"

definition sys_poll ::
  "('p, 'a, 'h, 'i, 't, 'o, 'x, 'd) sys \<Rightarrow>
   (('p, 'a, 'h, 't, 'o, 'x, 'd) PoolEvent option \<times> ('p, 'a, 'h, 'i, 't, 'o, 'x, 'd) sys) option" where
  "sys_poll s =
     (case established_rx s of
        e # es \<Rightarrow>
          do {
            (ev, p) \<leftarrow> poll_established e (sys_pool s);
            Some (Some ev, s\<lparr>sys_pool := p, established_rx := es\<rparr>)
          }
      | [] \<Rightarrow>
          do {
            (r, es, p) \<leftarrow> poll_pending (pending_rx s) (sys_pool s);
            Some (r, s\<lparr>sys_pool := p, pending_rx := es,
                       sys_tasks := (case r of
                          Some (ConnectionEstablished n q _ _ _) \<Rightarrow>
                            Mapping.update n (EstTask q) (sys_tasks s)
                        | _ \<Rightarrow> sys_tasks s)\<rparr>)
          })"

text \<open>A step that is not enabled, such as a move of a task that has ended, changes nothing.\<close>

fun sys_step ::
  "('p, 'a, 'h, 'i, 't, 'o, 'x, 'd) sys \<Rightarrow> ('p, 'a, 'h, 'i, 't, 'o, 'x, 'd) label \<Rightarrow>
   ('p, 'a, 'h, 'i, 't, 'o, 'x, 'd) sys option" where
  "sys_step s (AddOutgoing peer h role) =
     do {
       (r, p) \<leftarrow> add_outgoing peer h role (sys_pool s);
       Some (s\<lparr>sys_pool := p,
               sys_tasks := (case r of Inr n \<Rightarrow> Mapping.update n OutTask (sys_tasks s)
                                     | Inl _ \<Rightarrow> sys_tasks s)\<rparr>)
     }"
| "sys_step s (AddIncoming h la sba) =
     do {
       (r, p) \<leftarrow> add_incoming h la sba (sys_pool s);
       Some (s\<lparr>sys_pool := p,
               sys_tasks := (case r of Inr n \<Rightarrow> Mapping.update n InTask (sys_tasks s)
                                     | Inl _ \<Rightarrow> sys_tasks s)\<rparr>)
     }"
| "sys_step s (OutgoingMove n out) =
     Some (if Mapping.lookup (sys_tasks s) n = Some OutTask \<and>
              (out = OutCanceled \<longrightarrow> aborted n (sys_pool s))
           then s\<lparr>sys_tasks := Mapping.delete n (sys_tasks s),
                  pending_rx := pending_rx s @ [new_for_pending_outgoing_connection n out]\<rparr>
           else s)"
| "sys_step s (IncomingMove n out) =
     Some (if Mapping.lookup (sys_tasks s) n = Some InTask \<and>
              (out = InCanceled \<longrightarrow> aborted n (sys_pool s))
           then s\<lparr>sys_tasks := Mapping.delete n (sys_tasks s),
                  pending_rx := pending_rx s @ [new_for_pending_incoming_connection n out]\<rparr>
           else s)"
| "sys_step s (EstablishedMove n mv) =
     (case Mapping.lookup (sys_tasks s) n of
        Some (EstTask p) \<Rightarrow>
          do {
            c \<leftarrow> est_lookup (sys_pool s) p n;
            let (ev, cs, goes_on) = established_turn n p (eci_sender c) mv;
            Some (s\<lparr>sys_pool := est_update p n (c\<lparr>eci_sender := cs\<rparr>) (sys_pool s),
                    sys_tasks := (if goes_on then sys_tasks s else Mapping.delete n (sys_tasks s)),
                    established_rx := established_rx s @ (case ev of Some e \<Rightarrow> [e] | None \<Rightarrow> [])\<rparr>)
          }
      | _ \<Rightarrow> Some s)"
| "sys_step s (Disconnect answer p) =
     map_option (\<lambda>q. s\<lparr>sys_pool := q\<rparr>) (Pool_disconnect answer p (sys_pool s))"
| "sys_step s (StartClose p n answer) =
     (case est_lookup (sys_pool s) p n of
        Some c \<Rightarrow>
          map_option (\<lambda>c'. s\<lparr>sys_pool := est_update p n c' (sys_pool s)\<rparr>) (start_close answer c)
      | None \<Rightarrow> Some s)"
| "sys_step s (Notify p n answer ev) =
     (case est_lookup (sys_pool s) p n of
        Some c \<Rightarrow> Some (s\<lparr>sys_pool := est_update p n (snd (notify_handler answer ev c)) (sys_pool s)\<rparr>)
      | None \<Rightarrow> Some s)"
| "sys_step s (Abort n) =
     (case Mapping.lookup (pending (sys_pool s)) n of
        Some c \<Rightarrow>
          Some (s\<lparr>sys_pool := (sys_pool s)\<lparr>pending :=
                    Mapping.update n (PendingConnection_abort c) (pending (sys_pool s))\<rparr>\<rparr>)
      | None \<Rightarrow> Some s)"
| "sys_step s Poll = map_option snd (sys_poll s)"

fun sys_run ::
  "('p, 'a, 'h, 'i, 't, 'o, 'x, 'd) label list \<Rightarrow> ('p, 'a, 'h, 'i, 't, 'o, 'x, 'd) sys \<Rightarrow>
   ('p, 'a, 'h, 'i, 't, 'o, 'x, 'd) sys option" where
  "sys_run [] s = Some s"
| "sys_run (x # xs) s = Option.bind (sys_step s x) (sys_run xs)"

text \<open>
  The channel law: a fresh clone of a sender has a slot of its own, so a \<open>Close\<close> command sent
  through it never finds the channel full.
\<close>

fun clone_has_slot :: "('p, 'a, 'h, 'i, 't, 'o, 'x, 'd) label \<Rightarrow> bool" where
  "clone_has_slot (Disconnect answer p) \<longleftrightarrow> (\<forall>n. answer n \<noteq> Full)"
| "clone_has_slot (StartClose p n answer) \<longleftrightarrow> answer \<noteq> Full"
| "clone_has_slot _ \<longleftrightarrow> True"

fun adds :: "('p, 'a, 'h, 'i, 't, 'o, 'x, 'd) label \<Rightarrow> bool" where
  "adds (AddOutgoing _ _ _) \<longleftrightarrow> True"
| "adds (AddIncoming _ _ _) \<longleftrightarrow> True"
| "adds _ \<longleftrightarrow> False"

end
