(* ===== verification/Swarm_PoolSafety.thy ===== *)
theory Swarm_PoolSafety
  imports Swarm_Pool
begin

text \<open>
  The safety of the connection pool of theory Swarm_Pool together with its tasks: in every
  interleaving the counters are the numbers of connections, the limits hold and nothing panics.

  The proofs look at a pool through two functions: the kind of each pending connection and the
  kind of each established one, true for outgoing and false for incoming.
\<close>

section \<open>Views of a pool\<close>

definition pending_kind :: "('p, 'a, 'h, 'i) Pool \<Rightarrow> nat \<Rightarrow> bool option" where
  "pending_kind s n =
     map_option (\<lambda>i. case pci_endpoint i of PendingDialer _ \<Rightarrow> True | PendingListener _ _ \<Rightarrow> False)
       (Mapping.lookup (pending s) n)"

definition conn_kind :: "('p, 'a, 'h, 'i) Pool \<Rightarrow> 'p \<times> nat \<Rightarrow> bool option" where
  "conn_kind s x =
     map_option (\<lambda>c. ConnectedPoint_is_dialer (eci_endpoint c)) (est_lookup s (fst x) (snd x))"

definition kind_count :: "('k \<Rightarrow> bool option) \<Rightarrow> bool \<Rightarrow> nat" where
  "kind_count f b = card {x. f x = Some b}"

definition within_limit :: "nat \<Rightarrow> nat option \<Rightarrow> bool" where
  "within_limit n l \<longleftrightarrow> (case l of Some m \<Rightarrow> n \<le> m | None \<Rightarrow> True)"

text \<open>The counters are the numbers of connections of each kind, and they keep to the limits.\<close>

definition counters_ok :: "('p, 'a, 'h, 'i) Pool \<Rightarrow> bool" where
  "counters_ok s \<longleftrightarrow>
     (let c = counters s; l = limits c in
      pending_outgoing c = kind_count (pending_kind s) True \<and>
      pending_incoming c = kind_count (pending_kind s) False \<and>
      established_outgoing c = kind_count (conn_kind s) True \<and>
      established_incoming c = kind_count (conn_kind s) False \<and>
      within_limit (pending_outgoing c) (max_pending_outgoing l) \<and>
      within_limit (pending_incoming c) (max_pending_incoming l) \<and>
      within_limit (established_outgoing c) (max_established_outgoing l) \<and>
      within_limit (established_incoming c) (max_established_incoming l) \<and>
      within_limit (established_outgoing c + established_incoming c) (max_established_total l))"

text \<open>The established connections of a peer: a non-empty finite map within the limit per peer.\<close>

definition peers_ok :: "('p, 'a, 'h, 'i) Pool \<Rightarrow> bool" where
  "peers_ok s \<longleftrightarrow>
     (\<forall>p cs. Mapping.lookup (established s) p = Some cs \<longrightarrow>
        finite (Mapping.keys cs) \<and> Mapping.keys cs \<noteq> {} \<and> p \<noteq> local_id s \<and>
        within_limit (Mapping.size cs) (max_established_per_peer (limits (counters s))))"

text \<open>Connection ids are unique and below the next one.\<close>

definition ids_ok :: "('p, 'a, 'h, 'i) Pool \<Rightarrow> bool" where
  "ids_ok s \<longleftrightarrow>
     finite (dom (pending_kind s)) \<and> finite (dom (conn_kind s)) \<and>
     (\<forall>n k. pending_kind s n = Some k \<longrightarrow> n < next_connection_id s) \<and>
     (\<forall>p n k. conn_kind s (p, n) = Some k \<longrightarrow> n < next_connection_id s \<and> pending_kind s n = None) \<and>
     (\<forall>p q n j k. conn_kind s (p, n) = Some j \<longrightarrow> conn_kind s (q, n) = Some k \<longrightarrow> p = q) \<and>
     kind_count (pending_kind s) True + kind_count (pending_kind s) False +
       kind_count (conn_kind s) True + kind_count (conn_kind s) False \<le> next_connection_id s"

definition pool_ok :: "('p, 'a, 'h, 'i) Pool \<Rightarrow> bool" where
  "pool_ok s \<longleftrightarrow> counters_ok s \<and> peers_ok s \<and> ids_ok s"

lemma pool_okD:
  assumes "pool_ok s"
  shows "pending_kind s n = Some j \<Longrightarrow> n < next_connection_id s"
    and "conn_kind s (p, n) = Some k \<Longrightarrow> n < next_connection_id s"
    and "conn_kind s (p, n) = Some k \<Longrightarrow> pending_kind s n = None"
    and "conn_kind s (p, n) = Some k \<Longrightarrow> conn_kind s (q, n) = Some j \<Longrightarrow> p = q"
    and "finite (dom (pending_kind s))" "finite (dom (conn_kind s))"
    and "kind_count (pending_kind s) True + kind_count (pending_kind s) False +
       kind_count (conn_kind s) True + kind_count (conn_kind s) False \<le> next_connection_id s"
  using assms unfolding pool_ok_def ids_ok_def by blast+

lemma count_insert:
  assumes "finite (dom f)" "f x = None"
  shows "kind_count (f(x \<mapsto> b)) c = kind_count f c + (if b = c then 1 else 0)"
proof -
  have fin: "finite {y. f y = Some c}" using assms(1) by (rule rev_finite_subset) auto
  have "{y. (f(x \<mapsto> b)) y = Some c} = (if b = c then insert x {y. f y = Some c} else {y. f y = Some c})"
    using assms(2) by auto
  then show ?thesis using assms(2) fin by (simp add: kind_count_def)
qed

lemma count_remove:
  assumes "finite (dom f)" "f x = Some b"
  shows "kind_count (f(x := None)) c = kind_count f c - (if b = c then 1 else 0)"
proof -
  have fin: "finite {y. f y = Some c}" using assms(1) by (rule rev_finite_subset) auto
  have "{y. (f(x := None)) y = Some c} = (if b = c then {y. f y = Some c} - {x} else {y. f y = Some c})"
    using assms(2) by auto
  then show ?thesis using assms(2) fin by (simp add: kind_count_def)
qed

lemma count_pos: "finite (dom f) \<Longrightarrow> f x = Some b \<Longrightarrow> 0 < kind_count f b"
  unfolding kind_count_def by (subst card_gt_0_iff) (auto intro: rev_finite_subset [of "dom f"])

lemma conn_kind_None: "conn_kind s (p, n) = None \<longleftrightarrow> est_lookup s p n = None"
  by (simp add: conn_kind_def)

text \<open>Pools that have the same views, counters and sizes are equally good.\<close>

definition same_view :: "('p, 'a, 'h, 'i) Pool \<Rightarrow> ('p, 'a, 'h, 'i) Pool \<Rightarrow> bool" where
  "same_view s s' \<longleftrightarrow>
     pending_kind s' = pending_kind s \<and> conn_kind s' = conn_kind s \<and> counters s' = counters s \<and>
     next_connection_id s' = next_connection_id s \<and> local_id s' = local_id s \<and>
     (\<forall>p. map_option Mapping.keys (Mapping.lookup (established s') p) =
          map_option Mapping.keys (Mapping.lookup (established s) p))"

lemma mapping_size_keys: "finite (Mapping.keys m) \<Longrightarrow> Mapping.size m = card (Mapping.keys m)"
  by (simp add: Mapping.size_def)

lemma same_view_ok:
  assumes view: "same_view s s'" and ok: "pool_ok s"
  shows "pool_ok s'"
proof -
  have "peers_ok s'"
    unfolding peers_ok_def
  proof (intro allI impI)
    fix p cs assume "Mapping.lookup (established s') p = Some cs"
    then obtain cs0 where "Mapping.lookup (established s) p = Some cs0" "Mapping.keys cs0 = Mapping.keys cs"
      using view by (cases "Mapping.lookup (established s) p") (auto simp: same_view_def dest: spec [of _ p])
    moreover from this have "Mapping.size cs0 = Mapping.size cs" by (simp add: Mapping.size_def)
    moreover have "finite (Mapping.keys cs0) \<and> Mapping.keys cs0 \<noteq> {} \<and> p \<noteq> local_id s \<and>
        within_limit (Mapping.size cs0) (max_established_per_peer (limits (counters s)))"
      using ok calculation(1) by (simp add: pool_ok_def peers_ok_def)
    ultimately show "finite (Mapping.keys cs) \<and> Mapping.keys cs \<noteq> {} \<and> p \<noteq> local_id s' \<and>
        within_limit (Mapping.size cs) (max_established_per_peer (limits (counters s')))"
      using view by (simp add: same_view_def)
  qed
  moreover have "pending_kind s' = pending_kind s" "conn_kind s' = conn_kind s"
    "counters s' = counters s" "next_connection_id s' = next_connection_id s"
    using view by (simp_all add: same_view_def)
  then have "counters_ok s' = counters_ok s" "ids_ok s' = ids_ok s"
    by (simp_all only: counters_ok_def ids_ok_def)
  ultimately show ?thesis using ok by (simp add: pool_ok_def)
qed

lemma est_lookup_update:
  "est_lookup (est_update p n c s) p' n' = (if p' = p \<and> n' = n then Some c else est_lookup s p' n')"
  by (auto simp: est_lookup_def est_update_def Mapping.lookup_update' Mapping.lookup_default_def
      split: option.splits)

lemma est_update_view:
  assumes "est_lookup s p n = Some c"
    and "ConnectedPoint_is_dialer (eci_endpoint c') = ConnectedPoint_is_dialer (eci_endpoint c)"
  shows "same_view s (est_update p n c' s)"
proof -
  obtain cs where cs: "Mapping.lookup (established s) p = Some cs" "Mapping.lookup cs n = Some c"
    using assms(1) by (auto simp: est_lookup_def bind_eq_Some_conv)
  have "conn_kind (est_update p n c' s) = conn_kind s"
    using assms by (auto simp: conn_kind_def est_lookup_update fun_eq_iff)
  moreover have "insert n (Mapping.keys cs) = Mapping.keys cs"
    using cs(2) by (auto simp: in_keys_lookup)
  ultimately show ?thesis
    using cs(1)
    by (auto simp: same_view_def est_update_def pending_kind_def Mapping.lookup_update'
        Mapping.lookup_default_def fun_eq_iff)
qed

lemma within_limit_mono: "within_limit n l \<Longrightarrow> m \<le> n \<Longrightarrow> within_limit m l"
  by (auto simp: within_limit_def split: option.splits)

lemma check_Inr: "check n l = Inr () \<Longrightarrow> within_limit (Suc n) l"
  by (auto simp: check_def within_limit_def split: option.splits if_splits)

section \<open>Pending connections\<close>

text \<open>A new pending connection of a kind that is below its limit.\<close>

lemma pending_insert_ok:
  assumes ok: "pool_ok s" and kind: "(case pci_endpoint i of PendingDialer _ \<Rightarrow> True | _ \<Rightarrow> False) = b"
    and ctr: "c = (if b then (counters s)\<lparr>pending_outgoing := Suc (pending_outgoing (counters s))\<rparr>
                   else (counters s)\<lparr>pending_incoming := Suc (pending_incoming (counters s))\<rparr>)"
    and lim: "if b then within_limit (Suc (pending_outgoing (counters s))) (max_pending_outgoing (limits (counters s)))
              else within_limit (Suc (pending_incoming (counters s))) (max_pending_incoming (limits (counters s)))"
    and s': "s' = s\<lparr>next_connection_id := Suc (next_connection_id s), counters := c,
                    pending := Mapping.update (next_connection_id s) i (pending s)\<rparr>"
  shows "pool_ok s' \<and> pending_kind s' = (pending_kind s)(next_connection_id s \<mapsto> b) \<and>
    conn_kind s' = conn_kind s"
proof -
  let ?n = "next_connection_id s"
  have pk: "pending_kind s' = (pending_kind s)(?n \<mapsto> b)"
    using kind by (auto simp: pending_kind_def s' Mapping.lookup_update' fun_eq_iff split: PendingPoint.splits)
  have ck: "conn_kind s' = conn_kind s"
    by (simp add: conn_kind_def est_lookup_def s' fun_eq_iff)
  note fin = pool_okD(5) [OF ok]
  have fresh: "pending_kind s ?n = None" "conn_kind s (p, ?n) = None" for p
    using pool_okD(1,2) [OF ok] by (metis less_irrefl not_None_eq)+
  note cnt = count_insert [OF fin fresh(1)]
  have sel: "counters s' = c" "next_connection_id s' = Suc ?n" "established s' = established s"
    "local_id s' = local_id s"
    by (simp_all add: s')
  have "counters_ok s'"
    using ok lim by (auto simp: pool_ok_def counters_ok_def Let_def pk ck cnt sel ctr)
  moreover have "peers_ok s'"
    using ok by (auto simp: pool_ok_def peers_ok_def sel ctr)
  moreover have "ids_ok s'"
    unfolding ids_ok_def pk ck sel
    using pool_okD [OF ok] fresh cnt by (auto intro: less_SucI)
  ultimately show ?thesis using pk ck by (simp add: pool_ok_def)
qed

lemma counts_bounded:
  assumes "pool_ok s" "next_connection_id s < 2 ^ 32"
  shows "pending_outgoing (counters s) < 2 ^ 32" "pending_incoming (counters s) < 2 ^ 32"
    "established_outgoing (counters s) + established_incoming (counters s) < 2 ^ 32"
    "pending_outgoing (counters s) \<le> next_connection_id s" "pending_incoming (counters s) \<le> next_connection_id s"
    "established_outgoing (counters s) + established_incoming (counters s) \<le> next_connection_id s"
  using assms by (auto simp: pool_ok_def ids_ok_def counters_ok_def Let_def)

lemma add_outgoing_ok:
  assumes ok: "pool_ok s" and room: "Suc (next_connection_id s) < 2 ^ 32"
  shows "\<exists>r s'. add_outgoing peer h role s = Some (r, s') \<and> pool_ok s' \<and>
    (case r of Inl _ \<Rightarrow> s' = s
     | Inr n \<Rightarrow> n = next_connection_id s \<and> next_connection_id s' = Suc n \<and>
               pending_kind s' = (pending_kind s)(n \<mapsto> True) \<and> conn_kind s' = conn_kind s)"
proof (cases "check_max_pending_outgoing (counters s)")
  case (Inl l)
  then show ?thesis using ok by (simp add: add_outgoing_def)
next
  case (Inr u)
  then have lim: "within_limit (Suc (pending_outgoing (counters s))) (max_pending_outgoing (limits (counters s)))"
    using check_Inr by (simp add: check_max_pending_outgoing_def)
  have less: "Suc (pending_outgoing (counters s)) < 2 ^ 32"
    using counts_bounded(4) [OF ok] room by simp
  let ?i = "\<lparr>pci_peer_id = peer, pci_handler = h, pci_endpoint = PendingDialer role,
             pci_abort_notifier = True\<rparr>"
  let ?s = "s\<lparr>next_connection_id := Suc (next_connection_id s),
              counters := (counters s)\<lparr>pending_outgoing := Suc (pending_outgoing (counters s))\<rparr>,
              pending := Mapping.update (next_connection_id s) ?i (pending s)\<rparr>"
  have "add_outgoing peer h role s = Some (Inr (next_connection_id s), ?s)"
    using Inr less room by (simp add: add_outgoing_def take_connection_id_def u32_add_def)
  then show ?thesis
    using pending_insert_ok [OF ok, of ?i True "counters ?s" ?s] lim by simp
qed

lemma add_incoming_ok:
  assumes ok: "pool_ok s" and room: "Suc (next_connection_id s) < 2 ^ 32"
  shows "\<exists>r s'. add_incoming h la sba s = Some (r, s') \<and> pool_ok s' \<and>
    (case r of Inl _ \<Rightarrow> s' = s
     | Inr n \<Rightarrow> n = next_connection_id s \<and> next_connection_id s' = Suc n \<and>
               pending_kind s' = (pending_kind s)(n \<mapsto> False) \<and> conn_kind s' = conn_kind s)"
proof (cases "check_max_pending_incoming (counters s)")
  case (Inl l)
  then show ?thesis using ok by (simp add: add_incoming_def)
next
  case (Inr u)
  then have lim: "within_limit (Suc (pending_incoming (counters s))) (max_pending_incoming (limits (counters s)))"
    using check_Inr by (simp add: check_max_pending_incoming_def)
  have less: "Suc (pending_incoming (counters s)) < 2 ^ 32"
    using counts_bounded(5) [OF ok] room by simp
  let ?i = "\<lparr>pci_peer_id = None, pci_handler = h, pci_endpoint = PendingListener la sba,
             pci_abort_notifier = True\<rparr>"
  let ?s = "s\<lparr>next_connection_id := Suc (next_connection_id s),
              counters := (counters s)\<lparr>pending_incoming := Suc (pending_incoming (counters s))\<rparr>,
              pending := Mapping.update (next_connection_id s) ?i (pending s)\<rparr>"
  have "add_incoming h la sba s = Some (Inr (next_connection_id s), ?s)"
    using Inr less room
    by (simp add: add_incoming_def take_connection_id_def u32_add_def inc_pending_incoming_def
        to_connected_point_def)
  then show ?thesis
    using pending_insert_ok [OF ok, of ?i False "counters ?s" ?s] lim by simp
qed

lemma remove_pending_ok:
  assumes ok: "pool_ok s" and info: "Mapping.lookup (pending s) n = Some i"
  shows "\<exists>c. dec_pending (pci_endpoint i) (counters s) = Some c \<and>
    (let s' = s\<lparr>pending := Mapping.delete n (pending s), counters := c\<rparr> in
     pool_ok s' \<and> pending_kind s' = (pending_kind s)(n := None) \<and> conn_kind s' = conn_kind s \<and>
     kind_count (pending_kind s') True + kind_count (pending_kind s') False +
       kind_count (conn_kind s') True + kind_count (conn_kind s') False < next_connection_id s)"
proof -
  define b where "b = (case pci_endpoint i of PendingDialer _ \<Rightarrow> True | _ \<Rightarrow> False)"
  define c where "c = (if b then (counters s)\<lparr>pending_outgoing := pending_outgoing (counters s) - 1\<rparr>
                       else (counters s)\<lparr>pending_incoming := pending_incoming (counters s) - 1\<rparr>)"
  define s' where "s' = s\<lparr>pending := Mapping.delete n (pending s), counters := c\<rparr>"
  have sel: "counters s' = c" "next_connection_id s' = next_connection_id s"
    "established s' = established s" "local_id s' = local_id s"
    by (simp_all add: s'_def)
  have kind: "pending_kind s n = Some b"
    using info by (simp add: pending_kind_def b_def split: PendingPoint.splits)
  have fin: "finite (dom (pending_kind s))" using ok by (simp add: pool_ok_def ids_ok_def)
  have pos: "0 < kind_count (pending_kind s) b" by (rule count_pos [OF fin kind])
  have cnts: "pending_outgoing (counters s) = kind_count (pending_kind s) True"
    "pending_incoming (counters s) = kind_count (pending_kind s) False"
    using ok by (simp_all add: pool_ok_def counters_ok_def Let_def)
  have dec: "dec_pending (pci_endpoint i) (counters s) = Some c"
    using pos cnts by (cases "pci_endpoint i") (auto simp: b_def c_def Suc_le_eq)
  have pk: "pending_kind s' = (pending_kind s)(n := None)"
    by (auto simp: pending_kind_def lookup_delete_if fun_eq_iff s'_def)
  have ck: "conn_kind s' = conn_kind s"
    by (simp add: conn_kind_def est_lookup_def fun_eq_iff s'_def)
  note cnt = count_remove [OF fin kind]
  have "counters_ok s'"
    using ok by (auto simp: pool_ok_def counters_ok_def Let_def pk ck cnt c_def sel
        intro: within_limit_mono)
  moreover have "peers_ok s'" using ok by (auto simp: pool_ok_def peers_ok_def c_def sel)
  moreover have "ids_ok s'"
    unfolding ids_ok_def pk ck sel
    using pool_okD [OF ok] cnt by auto
  moreover have "kind_count (pending_kind s') True + kind_count (pending_kind s') False +
       kind_count (conn_kind s') True + kind_count (conn_kind s') False < next_connection_id s"
    using ok pos by (cases b) (auto simp: pool_ok_def ids_ok_def pk ck cnt)
  ultimately show ?thesis
    using dec pk ck by (simp add: pool_ok_def Let_def flip: s'_def)
qed


section \<open>Established connections\<close>

lemma conn_count_peer:
  assumes ok: "pool_ok s" and cs: "Mapping.lookup (established s) p = Some cs"
  shows "Mapping.size cs \<le> next_connection_id s"
proof -
  have "Mapping.keys cs \<subseteq> {..<next_connection_id s}"
  proof
    fix n assume "n \<in> Mapping.keys cs"
    then obtain k where "conn_kind s (p, n) = Some k"
      using cs by (auto simp: in_keys_lookup conn_kind_def est_lookup_def)
    then show "n \<in> {..<next_connection_id s}" using pool_okD(2) [OF ok] by simp
  qed
  then have "card (Mapping.keys cs) \<le> card {..<next_connection_id s}" by (intro card_mono) auto
  then show ?thesis by (simp add: Mapping.size_def)
qed

lemma check_new_connection_some:
  assumes ok: "pool_ok s" and room: "next_connection_id s < 2 ^ 32"
  shows "\<exists>r. check_new_connection expected p endpoint s = Some r"
proof -
  have "num_established (counters s) = Some (established_outgoing (counters s) + established_incoming (counters s))"
    using counts_bounded(3) [OF ok room] by (simp add: num_established_def u32_add_def)
  moreover have "\<exists>k. num_peer_established (established s) p = Some k"
    using conn_count_peer [OF ok, of p] room
    by (cases "Mapping.lookup (established s) p") (auto simp: num_peer_established_def)
  ultimately show ?thesis
    by (auto simp: check_new_connection_def check_max_established_def split: sum.splits)
qed

text \<open>What a passed check means for the limits.\<close>

lemma check_new_connection_passed:
  assumes "check_new_connection expected p endpoint s = Some (Inr ())"
  shows "within_limit (Suc (established_outgoing (counters s) + established_incoming (counters s)))
           (max_established_total (limits (counters s)))"
    and "if ConnectedPoint_is_dialer endpoint
         then within_limit (Suc (established_outgoing (counters s))) (max_established_outgoing (limits (counters s)))
         else within_limit (Suc (established_incoming (counters s))) (max_established_incoming (limits (counters s)))"
    and "within_limit (Suc (case Mapping.lookup (established s) p of Some cs \<Rightarrow> Mapping.size cs | None \<Rightarrow> 0))
           (max_established_per_peer (limits (counters s)))"
    and "p \<noteq> local_id s" "expected = None \<or> expected = Some p"
proof -
  obtain r where r: "check_max_established endpoint (counters s) = Some r"
    using assms by (auto simp: check_new_connection_def bind_eq_Some_conv)
  then have r': "r = Inr ()"
    using assms by (cases r) (auto simp: check_new_connection_def)
  obtain k where k: "num_peer_established (established s) p = Some k"
    using assms r r' by (auto simp: check_new_connection_def bind_eq_Some_conv)
  have peer: "check_max_established_per_peer k (counters s) = Inr ()"
    using assms r r' k
    by (cases "check_max_established_per_peer k (counters s)") (auto simp: check_new_connection_def)
  then show "p \<noteq> local_id s" "expected = None \<or> expected = Some p"
    using assms r r' k by (auto simp: check_new_connection_def split: if_splits)
  have "k = (case Mapping.lookup (established s) p of Some cs \<Rightarrow> Mapping.size cs | None \<Rightarrow> 0)"
    using k by (auto simp: num_peer_established_def split: option.splits if_splits)
  then show "within_limit (Suc (case Mapping.lookup (established s) p of Some cs \<Rightarrow> Mapping.size cs | None \<Rightarrow> 0))
      (max_established_per_peer (limits (counters s)))"
    using check_Inr peer by (simp add: check_max_established_per_peer_def)
  let ?c = "counters s"
  have total: "check (established_outgoing ?c + established_incoming ?c) (max_established_total (limits ?c)) = Inr ()"
    using r r' by (cases "check (established_outgoing ?c + established_incoming ?c) (max_established_total (limits ?c))")
      (auto simp: check_max_established_def num_established_def u32_add_def bind_eq_Some_conv split: if_splits)
  then show "within_limit (Suc (established_outgoing ?c + established_incoming ?c)) (max_established_total (limits ?c))"
    by (rule check_Inr)
  show "if ConnectedPoint_is_dialer endpoint
      then within_limit (Suc (established_outgoing ?c)) (max_established_outgoing (limits ?c))
      else within_limit (Suc (established_incoming ?c)) (max_established_incoming (limits ?c))"
    using r r' total check_Inr
    by (cases endpoint)
      (auto simp: check_max_established_def num_established_def u32_add_def bind_eq_Some_conv split: if_splits)
qed

lemma Pool_get_view:
  "Pool_get n s =
     (if pending_kind s n \<noteq> None then Some IsPending
      else if \<exists>p. conn_kind s (p, n) \<noteq> None then Some IsEstablished else None)"
proof -
  let ?m = "Mapping.filter (\<lambda>_ cs. Mapping.lookup cs n \<noteq> None) (established s)"
  have "Mapping.lookup ?m p = None \<longleftrightarrow> est_lookup s p n = None" for p
    by (cases "Mapping.lookup (established s) p") (auto simp: Mapping.lookup_filter est_lookup_def)
  then have "Mapping.is_empty ?m \<longleftrightarrow> (\<forall>p. est_lookup s p n = None)"
    unfolding Mapping.is_empty_def set_eq_iff in_keys_lookup by simp
  then show ?thesis by (auto simp: Pool_get_def pending_kind_def conn_kind_None)
qed

lemma Pool_get_same_view: "same_view s q \<Longrightarrow> Pool_get n q = Pool_get n s"
  by (simp add: Pool_get_view same_view_def)

lemma insert_established_ok:
  assumes ok: "pool_ok s" and room: "next_connection_id s < 2 ^ 32"
    and passed: "check_new_connection expected p endpoint s = Some (Inr ())"
    and fresh: "n < next_connection_id s" "pending_kind s n = None" "\<forall>q. conn_kind s (q, n) = None"
    and less: "kind_count (pending_kind s) True + kind_count (pending_kind s) False +
       kind_count (conn_kind s) True + kind_count (conn_kind s) False < next_connection_id s"
  shows "\<exists>others s'. insert_established n p endpoint s = Some (others, s') \<and> pool_ok s' \<and>
    pending_kind s' = pending_kind s \<and> next_connection_id s' = next_connection_id s \<and>
    conn_kind s' = (conn_kind s)((p, n) \<mapsto> ConnectedPoint_is_dialer endpoint)"
proof -
  let ?b = "ConnectedPoint_is_dialer endpoint" and ?c = "counters s"
  let ?info = "\<lparr>eci_peer_id = p, eci_endpoint = endpoint, eci_sender = []\<rparr>"
  let ?cs = "Mapping.lookup_default Mapping.empty (established s) p"
  define c where "c = (if ?b then ?c\<lparr>established_outgoing := Suc (established_outgoing ?c)\<rparr>
                       else ?c\<lparr>established_incoming := Suc (established_incoming ?c)\<rparr>)"
  define s' where "s' = s\<lparr>counters := c,
      established := Mapping.update p (Mapping.update n ?info ?cs) (established s)\<rparr>"
  have sel: "counters s' = c" "next_connection_id s' = next_connection_id s" "local_id s' = local_id s"
    by (simp_all add: s'_def)
  have "Suc (established_outgoing ?c) < 2 ^ 32" "Suc (established_incoming ?c) < 2 ^ 32"
    using less ok room by (auto simp: pool_ok_def counters_ok_def Let_def)
  then have ins: "insert_established n p endpoint s = Some (Mapping.keys ?cs, s')"
    by (cases endpoint) (simp_all add: insert_established_def u32_add_def c_def s'_def Let_def)
  have "est_lookup s' q m = est_lookup (est_update p n ?info s) q m" for q m
    by (simp add: est_lookup_def s'_def est_update_def)
  then have ck: "conn_kind s' = (conn_kind s)((p, n) \<mapsto> ?b)"
    by (auto simp: conn_kind_def est_lookup_update fun_eq_iff)
  have pk: "pending_kind s' = pending_kind s" by (simp add: pending_kind_def s'_def fun_eq_iff)
  note cnt = count_insert [OF pool_okD(6) [OF ok], of "(p, n)"]
  note lim = check_new_connection_passed [OF passed]
  have "counters_ok s'"
    using ok lim(1,2) fresh(3) by (auto simp: pool_ok_def counters_ok_def Let_def pk ck cnt sel c_def)
  moreover have "ids_ok s'"
    unfolding ids_ok_def pk ck sel
    using pool_okD [OF ok] fresh cnt less by auto
  moreover have "peers_ok s'"
    unfolding peers_ok_def
  proof (intro allI impI)
    fix q qs assume qs: "Mapping.lookup (established s') q = Some qs"
    have lims: "limits (counters s') = limits ?c" by (simp add: sel c_def)
    have old: "finite (Mapping.keys cs) \<and> Mapping.keys cs \<noteq> {} \<and> q \<noteq> local_id s \<and>
        within_limit (Mapping.size cs) (max_established_per_peer (limits ?c))"
      if "Mapping.lookup (established s) q = Some cs" for cs
      using ok that by (simp add: pool_ok_def peers_ok_def)
    show "finite (Mapping.keys qs) \<and> Mapping.keys qs \<noteq> {} \<and> q \<noteq> local_id s' \<and>
        within_limit (Mapping.size qs) (max_established_per_peer (limits (counters s')))"
    proof (cases "q = p")
      case False
      then show ?thesis using qs old lims by (simp add: s'_def)
    next
      case True
      then have qs: "qs = Mapping.update n ?info ?cs" using qs by (simp add: s'_def)
      have "n \<notin> Mapping.keys ?cs"
        using fresh(3) [rule_format, of p] by (auto simp: in_keys_lookup conn_kind_None est_lookup_def
            Mapping.lookup_default_def split: option.splits)
      moreover have fin: "finite (Mapping.keys ?cs)"
        using old True by (auto simp: Mapping.lookup_default_def split: option.splits)
      ultimately have "Mapping.size qs = Suc (Mapping.size ?cs)"
        by (simp add: qs Mapping.size_update)
      moreover have "Mapping.size ?cs =
          (case Mapping.lookup (established s) p of Some cs \<Rightarrow> Mapping.size cs | None \<Rightarrow> 0)"
        by (simp add: Mapping.lookup_default_def split: option.splits)
      ultimately show ?thesis using lim(3,4) lims fin True by (simp add: qs sel)
    qed
  qed
  ultimately show ?thesis using ins pk ck sel by (auto simp: pool_ok_def)
qed

text \<open>The end of an established connection.\<close>

lemma remove_established_ok:
  assumes ok: "pool_ok s" and conn: "est_lookup s p n = Some c"
  shows "\<exists>cs ctr. Mapping.lookup (established s) p = Some cs \<and> Mapping.lookup cs n = Some c \<and>
    dec_established (eci_endpoint c) (counters s) = Some ctr \<and>
    (let cs1 = Mapping.delete n cs;
         s' = s\<lparr>counters := ctr,
                established := (if Mapping.keys cs1 = {} then Mapping.delete p (established s)
                                else Mapping.update p cs1 (established s))\<rparr>
     in pool_ok s' \<and> pending_kind s' = pending_kind s \<and> conn_kind s' = (conn_kind s)((p, n) := None))"
proof -
  obtain cs where cs: "Mapping.lookup (established s) p = Some cs" "Mapping.lookup cs n = Some c"
    using conn by (auto simp: est_lookup_def bind_eq_Some_conv)
  let ?b = "ConnectedPoint_is_dialer (eci_endpoint c)" and ?c = "counters s"
  define ctr where "ctr = (if ?b then ?c\<lparr>established_outgoing := established_outgoing ?c - 1\<rparr>
                       else ?c\<lparr>established_incoming := established_incoming ?c - 1\<rparr>)"
  let ?cs1 = "Mapping.delete n cs"
  define s' where "s' = s\<lparr>counters := ctr,
      established := (if Mapping.keys ?cs1 = {} then Mapping.delete p (established s)
                      else Mapping.update p ?cs1 (established s))\<rparr>"
  have sel: "counters s' = ctr" "next_connection_id s' = next_connection_id s" "local_id s' = local_id s"
    by (simp_all add: s'_def)
  have kind: "conn_kind s (p, n) = Some ?b" using conn by (simp add: conn_kind_def)
  note fin = pool_okD(6) [OF ok]
  have pos: "0 < kind_count (conn_kind s) ?b" by (rule count_pos [OF fin kind])
  have cnts: "established_outgoing ?c = kind_count (conn_kind s) True"
    "established_incoming ?c = kind_count (conn_kind s) False"
    using ok by (simp_all add: pool_ok_def counters_ok_def Let_def)
  have dec: "dec_established (eci_endpoint c) ?c = Some ctr"
    using pos cnts by (cases "eci_endpoint c") (auto simp: ctr_def Suc_le_eq)
  have empty: "Mapping.keys ?cs1 = {} \<Longrightarrow> Mapping.lookup cs m = None \<or> m = n" for m
    using in_keys_lookup [of m ?cs1] by (auto simp: lookup_delete_if)
  have "est_lookup s' q m = (if q = p \<and> m = n then None else est_lookup s q m)" for q m
    using cs empty [of m] by (auto simp: est_lookup_def s'_def Mapping.lookup_update' lookup_delete_if)
  then have ck: "conn_kind s' = (conn_kind s)((p, n) := None)"
    by (auto simp: conn_kind_def fun_eq_iff)
  have pk: "pending_kind s' = pending_kind s" by (simp add: pending_kind_def s'_def fun_eq_iff)
  note cnt = count_remove [OF fin kind]
  have "counters_ok s'"
    using ok by (auto simp: pool_ok_def counters_ok_def Let_def pk ck cnt sel ctr_def
        intro: within_limit_mono)
  moreover have "ids_ok s'"
    unfolding ids_ok_def pk ck sel using pool_okD [OF ok] cnt by auto
  moreover have "peers_ok s'"
    unfolding peers_ok_def
  proof (intro allI impI)
    fix q qs assume qs: "Mapping.lookup (established s') q = Some qs"
    have lims: "limits (counters s') = limits ?c" by (simp add: sel ctr_def)
    have old: "finite (Mapping.keys ks) \<and> Mapping.keys ks \<noteq> {} \<and> q \<noteq> local_id s \<and>
        within_limit (Mapping.size ks) (max_established_per_peer (limits ?c))"
      if "Mapping.lookup (established s) q = Some ks" for ks
      using ok that by (simp add: pool_ok_def peers_ok_def)
    show "finite (Mapping.keys qs) \<and> Mapping.keys qs \<noteq> {} \<and> q \<noteq> local_id s' \<and>
        within_limit (Mapping.size qs) (max_established_per_peer (limits (counters s')))"
    proof (cases "q = p")
      case False
      then show ?thesis
        using qs old lims by (auto simp: s'_def lookup_delete_if split: if_splits)
    next
      case True
      then have "qs = ?cs1" "Mapping.keys ?cs1 \<noteq> {}"
        using qs by (auto simp: s'_def split: if_splits)
      then show ?thesis
        using old [of cs] cs(1) True lims sel(3) by (auto simp: Mapping.size_delete intro: within_limit_mono)
    qed
  qed
  ultimately have "pool_ok s'" by (simp add: pool_ok_def)
  then show ?thesis
    using cs dec pk ck unfolding s'_def Let_def by blast
qed


section \<open>The invariant of the system\<close>

fun pev_id :: "('p, 'a, 't) PendingConnectionEvent \<Rightarrow> nat" where
  "pev_id (PendingEstablished n _ _) = n"
| "pev_id (PendingFailed n _) = n"

fun pev_kind :: "('p, 'a, 't) PendingConnectionEvent \<Rightarrow> bool" where
  "pev_kind (PendingEstablished _ _ outgoing) = (outgoing \<noteq> None)"
| "pev_kind (PendingFailed _ err) = isl err"

fun eev_conn :: "('p, 'a, 'o, 'x, 'd) EstablishedConnectionEvent \<Rightarrow> 'p \<times> nat" where
  "eev_conn (EstAddressChange n p _) = (p, n)"
| "eev_conn (EstNotify n p _) = (p, n)"
| "eev_conn (EstClosed n p _ _) = (p, n)"

fun eev_closed :: "('p, 'a, 'o, 'x, 'd) EstablishedConnectionEvent \<Rightarrow> bool" where
  "eev_closed (EstClosed _ _ _ _) = True"
| "eev_closed _ = False"

text \<open>No event of a connection comes after the one that reports its end.\<close>

fun closed_last :: "('p, 'a, 'o, 'x, 'd) EstablishedConnectionEvent list \<Rightarrow> bool" where
  "closed_last [] = True"
| "closed_last (e # es) =
     ((eev_closed e \<longrightarrow> (\<forall>e' \<in> set es. eev_conn e' \<noteq> eev_conn e)) \<and> closed_last es)"

text \<open>
  A task that has not ended belongs to a connection of its kind; a pending task has sent nothing
  yet, and an established one has not reported its end.
\<close>

definition task_ok :: "('p, 'a, 'h, 'i) Pool \<Rightarrow> nat \<Rightarrow> 'p task option \<Rightarrow> bool" where
  "task_ok s n t \<longleftrightarrow>
     (case t of
        None \<Rightarrow> True
      | Some OutTask \<Rightarrow> pending_kind s n = Some True
      | Some InTask \<Rightarrow> pending_kind s n = Some False
      | Some (EstTask p) \<Rightarrow> conn_kind s (p, n) \<noteq> None)"

definition sys_ok :: "('p, 'a, 'h, 'i, 't, 'o, 'x, 'd) sys \<Rightarrow> bool" where
  "sys_ok s \<longleftrightarrow>
     pool_ok (sys_pool s) \<and>
     (\<forall>n. task_ok (sys_pool s) n (Mapping.lookup (sys_tasks s) n)) \<and>
     distinct (map pev_id (pending_rx s)) \<and> closed_last (established_rx s) \<and>
     (\<forall>e \<in> set (pending_rx s).
        pending_kind (sys_pool s) (pev_id e) = Some (pev_kind e) \<and>
        Mapping.lookup (sys_tasks s) (pev_id e) = None) \<and>
     (\<forall>e \<in> set (established_rx s).
        conn_kind (sys_pool s) (eev_conn e) \<noteq> None \<and>
        (eev_closed e \<longrightarrow> Mapping.lookup (sys_tasks s) (snd (eev_conn e)) = None))"

lemma sys_okD:
  assumes "sys_ok s"
  shows "pool_ok (sys_pool s)" "task_ok (sys_pool s) n (Mapping.lookup (sys_tasks s) n)"
    "distinct (map pev_id (pending_rx s))" "closed_last (established_rx s)"
    "e \<in> set (pending_rx s) \<Longrightarrow> pending_kind (sys_pool s) (pev_id e) = Some (pev_kind e)"
    "e \<in> set (pending_rx s) \<Longrightarrow> Mapping.lookup (sys_tasks s) (pev_id e) = None"
    "f \<in> set (established_rx s) \<Longrightarrow> conn_kind (sys_pool s) (eev_conn f) \<noteq> None"
    "f \<in> set (established_rx s) \<Longrightarrow> eev_closed f \<Longrightarrow> Mapping.lookup (sys_tasks s) (snd (eev_conn f)) = None"
  using assms unfolding sys_ok_def by blast+

lemma closed_last_snoc:
  "closed_last (es @ [e]) \<longleftrightarrow>
     closed_last es \<and> (\<forall>e' \<in> set es. eev_closed e' \<longrightarrow> eev_conn e \<noteq> eev_conn e')"
  by (induction es) auto

lemma task_ok_view:
  assumes "pending_kind s' = pending_kind s" "conn_kind s' = conn_kind s"
  shows "task_ok s' = task_ok s"
  using assms by (simp add: task_ok_def fun_eq_iff split: option.splits task.splits)

lemma sys_ok_view:
  assumes ok: "sys_ok s" and view: "same_view (sys_pool s) q"
  shows "sys_ok (s\<lparr>sys_pool := q\<rparr>)"
proof -
  have "pending_kind q = pending_kind (sys_pool s)" "conn_kind q = conn_kind (sys_pool s)"
    using view by (simp_all add: same_view_def)
  moreover have "pool_ok q" using same_view_ok [OF view] sys_okD(1) [OF ok] .
  ultimately show ?thesis
    using ok task_ok_view [of q "sys_pool s"] by (simp add: sys_ok_def)
qed

text \<open>A new connection: its id is fresh, so the rest of the system does not know it.\<close>

lemma sys_ok_add:
  assumes ok: "sys_ok s" and q: "pool_ok q" "pending_kind q = (pending_kind (sys_pool s))(n \<mapsto> b)"
      "conn_kind q = conn_kind (sys_pool s)"
    and fresh: "n = next_connection_id (sys_pool s)"
  shows "sys_ok (s\<lparr>sys_pool := q, sys_tasks := Mapping.update n (if b then OutTask else InTask) (sys_tasks s)\<rparr>)"
proof -
  let ?p = "sys_pool s"
  have pk: "pending_kind ?p n = None" and ck: "conn_kind ?p (r, n) = None" for r
    using pool_okD(1,2) [OF sys_okD(1) [OF ok]] fresh by (metis less_irrefl not_None_eq)+
  have "pev_id e \<noteq> n" if "e \<in> set (pending_rx s)" for e
    using sys_okD(5) [OF ok that] pk by auto
  moreover have "snd (eev_conn e) \<noteq> n" if "e \<in> set (established_rx s)" for e
    using sys_okD(7) [OF ok that] ck by (metis prod.collapse)
  moreover have "task_ok q m (Mapping.lookup (Mapping.update n (if b then OutTask else InTask) (sys_tasks s)) m)" for m
    using sys_okD(2) [OF ok, of m] q
    by (auto simp: task_ok_def Mapping.lookup_update' split: option.splits task.splits)
  ultimately show ?thesis
    using ok q unfolding sys_ok_def by (auto simp: Mapping.lookup_update')
qed

lemma sys_ok_pending_sent:
  assumes ok: "sys_ok s" and task: "Mapping.lookup (sys_tasks s) n = Some (if b then OutTask else InTask)"
    and e: "pev_id e = n" "pev_kind e = b"
  shows "sys_ok (s\<lparr>sys_tasks := Mapping.delete n (sys_tasks s), pending_rx := pending_rx s @ [e]\<rparr>)"
proof -
  have kind: "pending_kind (sys_pool s) n = Some b"
    using sys_okD(2) [OF ok, of n] task by (auto simp: task_ok_def split: if_splits)
  have "n \<notin> pev_id ` set (pending_rx s)"
    using sys_okD(6) [OF ok] task by fastforce
  moreover have "task_ok (sys_pool s) m (Mapping.lookup (Mapping.delete n (sys_tasks s)) m)" for m
    using sys_okD(2) [OF ok, of m] by (simp add: task_ok_def lookup_delete_if)
  ultimately show ?thesis
    using ok kind e by (auto simp: sys_ok_def lookup_delete_if)
qed

lemma established_turn_event:
  assumes "established_turn n p cs mv = (ev, cs', goes_on)"
  shows "case ev of None \<Rightarrow> goes_on | Some e \<Rightarrow> eev_conn e = (p, n) \<and> (eev_closed e \<longleftrightarrow> \<not> goes_on)"
  using assms by (cases "(n, p, cs, mv)" rule: established_turn.cases) auto


lemma sys_ok_established_sent:
  assumes ok: "sys_ok s" and task: "Mapping.lookup (sys_tasks s) n = Some (EstTask p)"
    and ev: "case ev of None \<Rightarrow> goes_on | Some e \<Rightarrow> eev_conn e = (p, n) \<and> (eev_closed e \<longleftrightarrow> \<not> goes_on)"
  shows "sys_ok (s\<lparr>sys_tasks := (if goes_on then sys_tasks s else Mapping.delete n (sys_tasks s)),
    established_rx := established_rx s @ (case ev of Some e \<Rightarrow> [e] | None \<Rightarrow> [])\<rparr>)"
proof -
  have conn: "conn_kind (sys_pool s) (p, n) \<noteq> None"
    using sys_okD(2) [OF ok, of n] task by (simp add: task_ok_def)
  have last: "\<forall>f \<in> set (established_rx s). eev_closed f \<longrightarrow> (p, n) \<noteq> eev_conn f"
    using sys_okD(8) [OF ok] task by (metis option.distinct(1) snd_conv)
  have tasks: "task_ok (sys_pool s) m (Mapping.lookup (Mapping.delete n (sys_tasks s)) m)" for m
    using sys_okD(2) [OF ok, of m] by (simp add: task_ok_def lookup_delete_if)
  show ?thesis
  proof (cases ev)
    case None
    then show ?thesis using ok ev by (simp add: sys_ok_def)
  next
    case (Some e)
    then show ?thesis
      using ok ev conn last tasks unfolding sys_ok_def
      by (cases goes_on) (auto simp: closed_last_snoc lookup_delete_if)
  qed
qed

text \<open>A step of the system keeps the invariant and does not panic; ids grow by at most one.\<close>

definition step_ok :: "('p, 'a, 'h, 'i, 't, 'o, 'x, 'd) sys \<Rightarrow> nat \<Rightarrow> ('p, 'a, 'h, 'i, 't, 'o, 'x, 'd) sys option \<Rightarrow> bool" where
  "step_ok s k r \<longleftrightarrow>
     (\<exists>s'. r = Some s' \<and> sys_ok s' \<and>
           next_connection_id (sys_pool s') \<le> next_connection_id (sys_pool s) + k)"

lemma step_ok_view:
  "sys_ok s \<Longrightarrow> same_view (sys_pool s) q \<Longrightarrow> step_ok s k (Some (s\<lparr>sys_pool := q\<rparr>))"
  using sys_ok_view by (auto simp: step_ok_def same_view_def)

lemma start_close_endpoint: "start_close a c = Some c' \<Longrightarrow> eci_endpoint c' = eci_endpoint c"
  by (auto simp: start_close_def split: send_result.splits)

lemma notify_handler_endpoint: "eci_endpoint (snd (notify_handler a ev c)) = eci_endpoint c"
  by (auto simp: notify_handler_def split: send_result.splits)

lemma abort_kind: "pci_endpoint (PendingConnection_abort c) = pci_endpoint c"
  by (simp add: PendingConnection_abort_def)

lemma abort_view:
  "Mapping.lookup (pending s) n = Some c \<Longrightarrow>
   same_view s (s\<lparr>pending := Mapping.update n (PendingConnection_abort c) (pending s)\<rparr>)"
  by (auto simp: same_view_def pending_kind_def conn_kind_def est_lookup_def
      Mapping.lookup_update' abort_kind fun_eq_iff)

lemma Pool_disconnect_view:
  assumes "\<forall>n. answer n \<noteq> Full"
  shows "\<exists>q. Pool_disconnect answer p s = Some q \<and> same_view s q"
proof -
  let ?close = "Mapping.map_values (\<lambda>n c. the (start_close (answer n) c))"
  have ep: "eci_endpoint (the (start_close (answer n) c)) = eci_endpoint c" for n c
    using assms [rule_format, of n] by (auto simp: start_close_def split: send_result.splits)
  define est where "est = (case Mapping.lookup (established s) p of
      None \<Rightarrow> established s | Some cs \<Rightarrow> Mapping.update p (?close cs) (established s))"
  let ?q = "s\<lparr>established := est, pending := Mapping.map_values
      (\<lambda>_ c. if pci_peer_id c = Some p then PendingConnection_abort c else c) (pending s)\<rparr>"
  have "Pool_disconnect answer p s = Some ?q"
    using assms by (simp add: Pool_disconnect_def est_def split: option.splits)
  moreover have "pending_kind ?q = pending_kind s"
  proof
    fix n show "pending_kind ?q n = pending_kind s n"
      by (cases "Mapping.lookup (pending s) n")
        (simp_all add: pending_kind_def Mapping.lookup_map_values abort_kind)
  qed
  moreover have "conn_kind ?q (r, n) = conn_kind s (r, n)" for r n
    by (cases "Mapping.lookup (established s) p"; cases "r = p")
      (auto simp: conn_kind_def est_lookup_def est_def Mapping.lookup_map_values option.map_comp
        comp_def ep)
  then have "conn_kind ?q = conn_kind s" by (auto simp: fun_eq_iff)
  ultimately show ?thesis
    by (auto simp: same_view_def est_def Mapping.lookup_update' split: option.splits)
qed


section \<open>Polling\<close>

text \<open>What an event that the pool reports says about the change of the pool.\<close>

fun event_effect ::
  "('p, 'a, 'h, 't, 'o, 'x, 'd) PoolEvent \<Rightarrow> ('p, 'a, 'h, 'i) Pool \<Rightarrow> ('p, 'a, 'h, 'i) Pool \<Rightarrow> bool" where
  "event_effect (ConnectionEstablished n p endpoint _ _) s q \<longleftrightarrow>
     pending_kind s n \<noteq> None \<and> pending_kind q = (pending_kind s)(n := None) \<and>
     conn_kind q = (conn_kind s)((p, n) \<mapsto> ConnectedPoint_is_dialer endpoint)"
| "event_effect (ConnectionClosed n p _ _ _ _) s q \<longleftrightarrow>
     conn_kind s (p, n) \<noteq> None \<and> pending_kind q = pending_kind s \<and>
     conn_kind q = (conn_kind s)((p, n) := None)"
| "event_effect (PendingOutboundConnectionError n _ _ _) s q \<longleftrightarrow>
     pending_kind s n \<noteq> None \<and> pending_kind q = (pending_kind s)(n := None) \<and> conn_kind q = conn_kind s"
| "event_effect (PendingInboundConnectionError n _ _ _ _) s q \<longleftrightarrow>
     pending_kind s n \<noteq> None \<and> pending_kind q = (pending_kind s)(n := None) \<and> conn_kind q = conn_kind s"
| "event_effect (ConnectionEvent n p _) s q \<longleftrightarrow>
     conn_kind s (p, n) \<noteq> None \<and> pending_kind q = pending_kind s \<and> conn_kind q = conn_kind s"
| "event_effect (AddressChange n p _ _) s q \<longleftrightarrow>
     conn_kind s (p, n) \<noteq> None \<and> pending_kind q = pending_kind s \<and> conn_kind q = conn_kind s"

lemma sys_ok_closed:
  assumes ok: "sys_ok s" and rx: "established_rx s = e # es" and closed: "eev_closed e"
    and q: "pool_ok q" "pending_kind q = pending_kind (sys_pool s)"
      "conn_kind q = (conn_kind (sys_pool s))(eev_conn e := None)"
  shows "sys_ok (s\<lparr>sys_pool := q, established_rx := es\<rparr>)"
proof -
  have none: "Mapping.lookup (sys_tasks s) (snd (eev_conn e)) = None"
    using sys_okD(8) [OF ok, of e] rx closed by simp
  have "task_ok q m (Mapping.lookup (sys_tasks s) m)" for m
  proof (cases "m = snd (eev_conn e)")
    case True
    then show ?thesis using none by (simp add: task_ok_def)
  next
    case False
    then have "(r, m) \<noteq> eev_conn e" for r by (metis snd_conv)
    then have "conn_kind q (r, m) = conn_kind (sys_pool s) (r, m)" for r using q(3) by simp
    then show ?thesis
      using sys_okD(2) [OF ok, of m] q(2) by (simp add: task_ok_def split: option.splits task.splits)
  qed
  moreover have "\<forall>f \<in> set es. eev_conn f \<noteq> eev_conn e" "closed_last es"
    using sys_okD(4) [OF ok] rx closed by auto
  ultimately show ?thesis
    using ok q rx unfolding sys_ok_def by auto
qed

lemma poll_established_ok:
  fixes s :: "('p, 'a, 'h, 'i, 't, 'o, 'x, 'd) sys"
  assumes ok: "sys_ok s" and rx: "established_rx s = e # es"
  shows "\<exists>(ev :: ('p, 'a, 'h, 't, 'o, 'x, 'd) PoolEvent) q. poll_established e (sys_pool s) = Some (ev, q) \<and>
    sys_ok (s\<lparr>sys_pool := q, established_rx := es\<rparr>) \<and>
    next_connection_id q = next_connection_id (sys_pool s) \<and> event_effect ev (sys_pool s) q"
proof -
  let ?p = "sys_pool s"
  obtain p n where conn: "eev_conn e = (p, n)" by force
  obtain c where c: "est_lookup ?p p n = Some c"
    using sys_okD(7) [OF ok, of e] rx conn by (auto simp: conn_kind_def)
  then have known: "conn_kind ?p (p, n) \<noteq> None" by (simp add: conn_kind_def)
  obtain cs where cs: "Mapping.lookup (established ?p) p = Some cs" "Mapping.lookup cs n = Some c"
    using c by (auto simp: est_lookup_def bind_eq_Some_conv)
  have rest: "sys_ok (s\<lparr>established_rx := es\<rparr>)" using ok rx by (simp add: sys_ok_def)
  show ?thesis
  proof (cases e)
    case (EstNotify m r ev)
    then show ?thesis using conn cs rest known by auto
  next
    case (EstAddressChange m r a)
    let ?c = "c\<lparr>eci_endpoint := set_remote_address a (eci_endpoint c)\<rparr>"
    have view: "same_view ?p (est_update p n ?c ?p)" by (rule est_update_view [OF c]) simp
    have "Pool_get n ?p = Some IsEstablished"
      using known pool_okD(3) [OF sys_okD(1) [OF ok]] by (auto simp: Pool_get_view)
    then have get: "Pool_get n (est_update p n ?c ?p) = Some IsEstablished"
      using Pool_get_same_view [OF view] by simp
    have "sys_ok (s\<lparr>established_rx := es, sys_pool := est_update p n ?c ?p\<rparr>)"
      using sys_ok_view [OF rest] view by simp
    moreover have "s\<lparr>established_rx := es, sys_pool := r\<rparr> = s\<lparr>sys_pool := r, established_rx := es\<rparr>" for r
      by simp
    ultimately have "sys_ok (s\<lparr>sys_pool := est_update p n ?c ?p, established_rx := es\<rparr>)" by (simp only:)
    moreover have "poll_established e ?p =
        Some (AddressChange n p (eci_endpoint ?c) (eci_endpoint c), est_update p n ?c ?p)"
      using EstAddressChange conn cs get by (auto simp: est_update_def Mapping.lookup_default_def Let_def)
    moreover have "event_effect (AddressChange n p (eci_endpoint ?c) (eci_endpoint c)) ?p (est_update p n ?c ?p)"
      using view known by (simp add: same_view_def)
    moreover have "next_connection_id (est_update p n ?c ?p) = next_connection_id ?p"
      using view by (simp add: same_view_def)
    ultimately show ?thesis by blast
  next
    case (EstClosed m r err d)
    obtain ks ctr where ks: "Mapping.lookup (established ?p) p = Some ks" "Mapping.lookup ks n = Some c"
      and dec: "dec_established (eci_endpoint c) (counters ?p) = Some ctr"
      and rem: "let cs1 = Mapping.delete n ks;
         q = ?p\<lparr>counters := ctr,
                established := (if Mapping.keys cs1 = {} then Mapping.delete p (established ?p)
                                else Mapping.update p cs1 (established ?p))\<rparr>
       in pool_ok q \<and> pending_kind q = pending_kind ?p \<and> conn_kind q = (conn_kind ?p)((p, n) := None)"
      using remove_established_ok [OF sys_okD(1) [OF ok] c] by blast
    define q where "q = ?p\<lparr>counters := ctr,
                established := (if Mapping.keys (Mapping.delete n ks) = {} then Mapping.delete p (established ?p)
                                else Mapping.update p (Mapping.delete n ks) (established ?p))\<rparr>"
    have "sys_ok (s\<lparr>sys_pool := q, established_rx := es\<rparr>)"
      using rem sys_ok_closed [OF ok rx, of q] EstClosed conn unfolding Let_def q_def [symmetric] by simp
    moreover have "poll_established e ?p =
        Some (ConnectionClosed n p (eci_endpoint c) err (Mapping.keys (Mapping.delete n ks)) d, q)"
      using EstClosed conn ks dec by (simp add: Let_def q_def)
    moreover have "event_effect
        (ConnectionClosed n p (eci_endpoint c) err (Mapping.keys (Mapping.delete n ks)) d) ?p q"
      using rem known unfolding Let_def q_def [symmetric] by simp
    moreover have "next_connection_id q = next_connection_id ?p" by (simp add: q_def)
    ultimately show ?thesis by blast
  qed
qed

lemma sys_ok_pending_removed:
  assumes ok: "sys_ok s" and rx: "pending_rx s = e # es"
    and q: "pool_ok q" "pending_kind q = (pending_kind (sys_pool s))(pev_id e := None)"
      "conn_kind q = conn_kind (sys_pool s)"
  shows "sys_ok (s\<lparr>sys_pool := q, pending_rx := es\<rparr>)"
proof -
  have "Mapping.lookup (sys_tasks s) (pev_id e) = None"
    using sys_okD(6) [OF ok, of e] rx by simp
  then have "task_ok q m (Mapping.lookup (sys_tasks s) m)" for m
    using sys_okD(2) [OF ok, of m] q
    by (auto simp: task_ok_def split: option.splits task.splits)
  moreover have "\<forall>f \<in> set es. pev_id f \<noteq> pev_id e"
    using sys_okD(3) [OF ok] rx by (simp add: image_iff) metis
  ultimately show ?thesis using ok q rx unfolding sys_ok_def by auto
qed

lemma sys_ok_pending_established:
  assumes ok: "sys_ok s" and n: "\<forall>r. conn_kind (sys_pool s) (r, n) = None"
      "pending_kind (sys_pool s) n = None" "Mapping.lookup (sys_tasks s) n = None"
    and q: "pool_ok q" "pending_kind q = pending_kind (sys_pool s)"
      "conn_kind q = (conn_kind (sys_pool s))((p, n) \<mapsto> b)"
  shows "sys_ok (s\<lparr>sys_pool := q, sys_tasks := Mapping.update n (EstTask p) (sys_tasks s)\<rparr>)"
proof -
  have "task_ok q m (Mapping.lookup (Mapping.update n (EstTask p) (sys_tasks s)) m)" for m
    using sys_okD(2) [OF ok, of m] q n(1)
    by (auto simp: task_ok_def Mapping.lookup_update' split: option.splits task.splits)
  moreover have "\<forall>e \<in> set (pending_rx s). pev_id e \<noteq> n"
    using sys_okD(5) [OF ok] n(2) by fastforce
  moreover have "\<forall>e \<in> set (established_rx s). snd (eev_conn e) \<noteq> n"
    using sys_okD(7) [OF ok] n(1) by (metis prod.collapse)
  ultimately show ?thesis
    using ok q unfolding sys_ok_def by (auto simp: Mapping.lookup_update')
qed


lemma poll_pending_event_ok:
  fixes s :: "('p, 'a, 'h, 'i, 't, 'o, 'x, 'd) sys"
  assumes ok: "sys_ok s" and rx: "pending_rx s = e # es"
    and room: "next_connection_id (sys_pool s) < 2 ^ 32"
  shows "\<exists>(ev :: ('p, 'a, 'h, 't, 'o, 'x, 'd) PoolEvent) q. poll_pending_event e (sys_pool s) = Some (Some ev, q) \<and>
    next_connection_id q = next_connection_id (sys_pool s) \<and> event_effect ev (sys_pool s) q \<and>
    sys_ok (s\<lparr>sys_pool := q, pending_rx := es,
      sys_tasks := (case ev of ConnectionEstablished n r _ _ _ \<Rightarrow> Mapping.update n (EstTask r) (sys_tasks s)
                             | _ \<Rightarrow> sys_tasks s)\<rparr>)"
proof -
  let ?p = "sys_pool s" and ?n = "pev_id e"
  note pok = sys_okD(1) [OF ok]
  have kind: "pending_kind ?p ?n = Some (pev_kind e)" using sys_okD(5) [OF ok, of e] rx by simp
  then obtain i where i: "Mapping.lookup (pending ?p) ?n = Some i" by (auto simp: pending_kind_def)
  obtain c where c: "dec_pending (pci_endpoint i) (counters ?p) = Some c"
    and rem: "let q = ?p\<lparr>pending := Mapping.delete ?n (pending ?p), counters := c\<rparr> in
      pool_ok q \<and> pending_kind q = (pending_kind ?p)(?n := None) \<and> conn_kind q = conn_kind ?p \<and>
      kind_count (pending_kind q) True + kind_count (pending_kind q) False +
        kind_count (conn_kind q) True + kind_count (conn_kind q) False < next_connection_id ?p"
    using remove_pending_ok [OF pok i] by blast
  define q where "q = ?p\<lparr>pending := Mapping.delete ?n (pending ?p), counters := c\<rparr>"
  have q: "pool_ok q" "pending_kind q = (pending_kind ?p)(?n := None)" "conn_kind q = conn_kind ?p"
    "kind_count (pending_kind q) True + kind_count (pending_kind q) False +
       kind_count (conn_kind q) True + kind_count (conn_kind q) False < next_connection_id q"
    and nid: "next_connection_id q = next_connection_id ?p"
    using rem by (auto simp: Let_def q_def)
  have removed: "sys_ok (s\<lparr>sys_pool := q, pending_rx := es\<rparr>)"
    by (rule sys_ok_pending_removed [OF ok rx q(1-3)])
  moreover have "s\<lparr>sys_pool := q, pending_rx := es, sys_tasks := sys_tasks s\<rparr> = s\<lparr>sys_pool := q, pending_rx := es\<rparr>"
    by simp
  ultimately have kept: "sys_ok (s\<lparr>sys_pool := q, pending_rx := es, sys_tasks := sys_tasks s\<rparr>)"
    by (simp only:)
  have dialer: "(case pci_endpoint i of PendingDialer _ \<Rightarrow> True | PendingListener _ _ \<Rightarrow> False) = pev_kind e"
    using kind i by (simp add: pending_kind_def)
  show ?thesis
  proof (cases e)
    case (PendingFailed n err)
    then have q_n: "?p\<lparr>pending := Mapping.delete n (pending ?p), counters := c\<rparr> = q" by (simp add: q_def)
    then show ?thesis
      using PendingFailed i c kept dialer nid q(2,3) kind
      by (cases "pci_endpoint i"; cases err) (auto simp: Let_def q_n simp del: dec_pending.simps)
  next
    case (PendingEstablished n obtained outgoing)
    then have n: "?n = n" and q_n: "?p\<lparr>pending := Mapping.delete n (pending ?p), counters := c\<rparr> = q"
      by (simp_all add: q_def)
    obtain endpoint errs where ep: "established_endpoint (pci_endpoint i) outgoing = Some (endpoint, errs)"
      using dialer PendingEstablished by (cases "pci_endpoint i"; cases outgoing) auto
    obtain r :: "('p, 'a, 't) PendingConnectionError + unit"
      where r: "check_new_connection (pci_peer_id i) obtained endpoint q = Some r"
      using check_new_connection_some [OF q(1)] room nid by metis
    show ?thesis
    proof (cases r)
      case (Inl err)
      then show ?thesis
        using PendingEstablished i c ep r kept nid q(2,3) kind
        by (cases endpoint) (simp_all add: Let_def q_n)
    next
      case (Inr u)
      then have passed: "check_new_connection (pci_peer_id i) obtained endpoint q =
          Some (Inr () :: ('p, 'a, 't) PendingConnectionError + unit)"
        using r by simp
      have fresh: "n < next_connection_id q" "pending_kind q n = None" "\<forall>r. conn_kind q (r, n) = None"
        using pool_okD(1) [OF pok kind] pool_okD(3) [OF pok] kind q(2,3) n nid by (auto, metis option.distinct(1) not_None_eq)
      obtain others q' where q': "insert_established n obtained endpoint q = Some (others, q')" "pool_ok q'"
        "pending_kind q' = pending_kind q" "next_connection_id q' = next_connection_id q"
        "conn_kind q' = (conn_kind q)((obtained, n) \<mapsto> ConnectedPoint_is_dialer endpoint)"
        using insert_established_ok [OF q(1) _ passed fresh q(4)] room nid by auto
      have "Pool_get n q' = Some IsEstablished"
        using q'(3,5) fresh(2) by (auto simp: Pool_get_view)
      moreover have "sys_ok (s\<lparr>sys_pool := q', pending_rx := es,
          sys_tasks := Mapping.update n (EstTask obtained) (sys_tasks s)\<rparr>)"
      proof -
        let ?s = "s\<lparr>sys_pool := q, pending_rx := es\<rparr>"
        have "sys_ok (?s\<lparr>sys_pool := q', sys_tasks := Mapping.update n (EstTask obtained) (sys_tasks ?s)\<rparr>)"
          by (rule sys_ok_pending_established [OF removed _ _ _ q'(2)])
            (use fresh q'(3,5) sys_okD(6) [OF ok, of e] rx n in auto)
        moreover have "?s\<lparr>sys_pool := q', sys_tasks := Mapping.update n (EstTask obtained) (sys_tasks ?s)\<rparr> =
          s\<lparr>sys_pool := q', pending_rx := es, sys_tasks := Mapping.update n (EstTask obtained) (sys_tasks s)\<rparr>"
          by simp
        ultimately show ?thesis by (simp only:)
      qed
      ultimately show ?thesis
        using PendingEstablished i c ep r Inr q'(1,3,4,5) q(2,3) kind nid by (auto simp: Let_def q_n)
    qed
  qed
qed


lemma sys_poll_ok:
  assumes ok: "sys_ok s" and room: "next_connection_id (sys_pool s) < 2 ^ 32"
  shows "\<exists>r s'. sys_poll s = Some (r, s') \<and> sys_ok s' \<and>
    next_connection_id (sys_pool s') = next_connection_id (sys_pool s) \<and>
    (case r of Some ev \<Rightarrow> event_effect ev (sys_pool s) (sys_pool s') | None \<Rightarrow> sys_pool s' = sys_pool s)"
proof (cases "established_rx s")
  case (Cons e es)
  then show ?thesis
    using poll_established_ok [OF ok Cons] by (auto simp: sys_poll_def)
next
  case Nil
  show ?thesis
  proof (cases "pending_rx s")
    case (Cons e es)
    then show ?thesis
      using poll_pending_event_ok [OF ok Cons room] \<open>established_rx s = []\<close>
      by (force simp: sys_poll_def)
  next
    case Nil
    then have "s\<lparr>pending_rx := []\<rparr> = s" by (cases s) simp
    then have "sys_ok (s\<lparr>pending_rx := []\<rparr>)" using ok by (simp only:)
    then show ?thesis
      using Nil \<open>established_rx s = []\<close> by (simp add: sys_poll_def)
  qed
qed

lemma established_move_ok:
  assumes ok: "sys_ok s"
  shows "step_ok s 0 (sys_step s (EstablishedMove n mv))"
proof (cases "\<exists>p. Mapping.lookup (sys_tasks s) n = Some (EstTask p)")
  case True
  then obtain p where task: "Mapping.lookup (sys_tasks s) n = Some (EstTask p)" by blast
  then obtain c where c: "est_lookup (sys_pool s) p n = Some c"
    using sys_okD(2) [OF ok, of n] by (auto simp: task_ok_def conn_kind_def)
  obtain ev cs goes_on where turn: "established_turn n p (eci_sender c) mv = (ev, cs, goes_on)"
    by (metis prod_cases3)
  let ?q = "est_update p n (c\<lparr>eci_sender := cs\<rparr>) (sys_pool s)"
  have view: "same_view (sys_pool s) ?q" by (rule est_update_view [OF c]) simp
  have "sys_ok (s\<lparr>sys_pool := ?q\<rparr>)" by (rule sys_ok_view [OF ok view])
  then have "sys_ok (s\<lparr>sys_pool := ?q,
      sys_tasks := (if goes_on then sys_tasks s else Mapping.delete n (sys_tasks s)),
      established_rx := established_rx s @ (case ev of Some e \<Rightarrow> [e] | None \<Rightarrow> [])\<rparr>)"
    using sys_ok_established_sent [of "s\<lparr>sys_pool := ?q\<rparr>", OF _ _ established_turn_event [OF turn]] task
    by (cases goes_on) simp_all
  then show ?thesis
    using task c turn view by (simp add: step_ok_def same_view_def)
next
  case False
  then show ?thesis
    using ok by (auto simp: step_ok_def split: option.splits task.splits)
qed

lemma sys_step_ok:
  assumes ok: "sys_ok s" and slot: "clone_has_slot x"
    and room: "next_connection_id (sys_pool s) + (if adds x then 1 else 0) < 2 ^ 32"
  shows "step_ok s (if adds x then 1 else 0) (sys_step s x)"
proof (cases x)
  case (AddOutgoing peer h role)
  obtain r q where r: "add_outgoing peer h role (sys_pool s) = Some (r, q)" "pool_ok q"
    "case r of Inl _ \<Rightarrow> q = sys_pool s
     | Inr n \<Rightarrow> n = next_connection_id (sys_pool s) \<and> next_connection_id q = Suc n \<and>
               pending_kind q = (pending_kind (sys_pool s))(n \<mapsto> True) \<and> conn_kind q = conn_kind (sys_pool s)"
    using add_outgoing_ok [OF sys_okD(1) [OF ok], of peer h role] room AddOutgoing by auto
  then show ?thesis
    using ok AddOutgoing sys_ok_add [OF ok r(2), of _ True]
    by (cases r) (auto simp: step_ok_def)
next
  case (AddIncoming h la sba)
  obtain r q where r: "add_incoming h la sba (sys_pool s) = Some (r, q)" "pool_ok q"
    "case r of Inl _ \<Rightarrow> q = sys_pool s
     | Inr n \<Rightarrow> n = next_connection_id (sys_pool s) \<and> next_connection_id q = Suc n \<and>
               pending_kind q = (pending_kind (sys_pool s))(n \<mapsto> False) \<and> conn_kind q = conn_kind (sys_pool s)"
    using add_incoming_ok [OF sys_okD(1) [OF ok], of h la sba] room AddIncoming by auto
  then show ?thesis
    using ok AddIncoming sys_ok_add [OF ok r(2), of _ False]
    by (cases r) (auto simp: step_ok_def)
next
  case (OutgoingMove n out)
  have "pev_id (new_for_pending_outgoing_connection n out) = n"
    "pev_kind (new_for_pending_outgoing_connection n out)" by (cases out; simp)+
  then show ?thesis
    using ok OutgoingMove sys_ok_pending_sent [OF ok, of n True] by (auto simp: step_ok_def)
next
  case (IncomingMove n out)
  have "pev_id (new_for_pending_incoming_connection n out) = n"
    "\<not> pev_kind (new_for_pending_incoming_connection n out)" by (cases out; simp)+
  then show ?thesis
    using ok IncomingMove sys_ok_pending_sent [OF ok, of n False] by (auto simp: step_ok_def)
next
  case (EstablishedMove n mv)
  then show ?thesis using established_move_ok [OF ok] by simp
next
  case (Disconnect answer p)
  then show ?thesis
    using Pool_disconnect_view [of answer p "sys_pool s"] slot step_ok_view [OF ok] by auto
next
  case (StartClose p n answer)
  show ?thesis
  proof (cases "est_lookup (sys_pool s) p n")
    case (Some c)
    obtain c' where c': "start_close answer c = Some c'"
      using slot StartClose by (cases answer) (auto simp: start_close_def)
    then show ?thesis
      using StartClose Some step_ok_view [OF ok est_update_view [OF Some, of c']] start_close_endpoint [OF c']
      by simp
  qed (use ok StartClose in \<open>simp add: step_ok_def\<close>)
next
  case (Notify p n answer ev)
  then show ?thesis
    using ok step_ok_view [OF ok est_update_view [of "sys_pool s" p n]]
    by (cases "est_lookup (sys_pool s) p n") (auto simp: step_ok_def [of s _ "Some s"] notify_handler_endpoint)
next
  case (Abort n)
  then show ?thesis
    using ok step_ok_view [OF ok abort_view]
    by (cases "Mapping.lookup (pending (sys_pool s)) n") (auto simp: step_ok_def [of s _ "Some s"])
next
  case Poll
  then show ?thesis using sys_poll_ok [OF ok] room by (force simp: step_ok_def)
qed

section \<open>Runs\<close>

text \<open>The limits and the local peer id are fixed when the pool is built.\<close>

definition pool_fixed :: "('p, 'a, 'h, 'i) Pool \<Rightarrow> ConnectionLimits \<times> 'p" where
  "pool_fixed s = (limits (counters s), local_id s)"

lemma counters_limits:
  "inc_pending e c = Some c' \<Longrightarrow> limits c' = limits c"
  "inc_pending_incoming c = Some c' \<Longrightarrow> limits c' = limits c"
  "dec_pending e c = Some c' \<Longrightarrow> limits c' = limits c"
  "inc_established f c = Some c' \<Longrightarrow> limits c' = limits c"
  "dec_established f c = Some c' \<Longrightarrow> limits c' = limits c"
  by (cases e; cases f; auto simp: inc_pending_incoming_def)+

lemma add_fixed_pool:
  "add_outgoing peer h role s = Some (r, s') \<Longrightarrow> pool_fixed s' = pool_fixed s"
  "add_incoming h la sba s = Some (r, s') \<Longrightarrow> pool_fixed s' = pool_fixed s"
  by (auto simp: add_outgoing_def add_incoming_def take_connection_id_def pool_fixed_def Let_def
      bind_eq_Some_conv counters_limits split: sum.splits if_splits simp del: inc_pending.simps)

lemma poll_established_fixed:
  "poll_established e s = Some (ev, s') \<Longrightarrow> pool_fixed s' = pool_fixed s"
  by (cases e) (auto simp: pool_fixed_def Let_def bind_eq_Some_conv counters_limits
      split: if_splits simp del: dec_established.simps)

lemma insert_established_fixed:
  "insert_established n p e s = Some (others, s') \<Longrightarrow> pool_fixed s' = pool_fixed s"
  by (auto simp: insert_established_def pool_fixed_def Let_def bind_eq_Some_conv counters_limits
      simp del: inc_established.simps)

lemma poll_pending_event_fixed:
  fixes e :: "('p, 'a, 't) PendingConnectionEvent"
  assumes "poll_pending_event e s = Some (ev, s')"
  shows "pool_fixed s' = pool_fixed s"
proof -
  have removed: "pool_fixed (s\<lparr>pending := m, counters := c\<rparr>) = pool_fixed s"
    if "dec_pending pp (counters s) = Some c" for pp :: "'a PendingPoint" and m c
    using counters_limits(3) [OF that] by (simp add: pool_fixed_def)
  show ?thesis
  proof (cases e)
    case (PendingEstablished n obtained outgoing)
    then obtain i c endpoint errs and r :: "('p, 'a, 't) PendingConnectionError + unit"
      where *: "dec_pending (pci_endpoint i) (counters s) = Some c"
      "check_new_connection (pci_peer_id i) obtained endpoint
         (s\<lparr>pending := Mapping.delete n (pending s), counters := c\<rparr>) = Some r"
      "established_endpoint (pci_endpoint i) outgoing = Some (endpoint, errs)"
      "Mapping.lookup (pending s) n = Some i"
      using assms by (auto simp: Let_def bind_eq_Some_conv simp del: dec_pending.simps)
    then show ?thesis
      using assms PendingEstablished
      by (cases r; cases endpoint) (auto simp: Let_def bind_eq_Some_conv removed
          dest!: insert_established_fixed split: if_splits simp del: dec_pending.simps)
  next
    case (PendingFailed n err)
    then show ?thesis
      using assms
      by (cases "Mapping.lookup (pending s) n"; cases "pci_endpoint (the (Mapping.lookup (pending s) n))"; cases err)
        (auto simp: Let_def bind_eq_Some_conv removed simp del: dec_pending.simps)
  qed
qed

lemma poll_pending_fixed:
  fixes r :: "('p, 'a, 'h, 't, 'o, 'x, 'd) PoolEvent option"
  shows "poll_pending es s = Some (r, es', s') \<Longrightarrow> pool_fixed s' = pool_fixed s"
proof (induction es arbitrary: s)
  case (Cons e es)
  then obtain s1 and ev :: "('p, 'a, 'h, 't, 'o, 'x, 'd) PoolEvent option"
    where ev: "poll_pending_event e s = Some (ev, s1)" by (auto simp: bind_eq_Some_conv)
  then show ?case
    using Cons poll_pending_event_fixed [OF ev] by (cases ev) (auto simp del: poll_pending_event.simps)
qed simp

lemma sys_step_fixed:
  assumes "sys_step s x = Some s'"
  shows "pool_fixed (sys_pool s') = pool_fixed (sys_pool s)"
proof (cases x)
  case Poll
  then show ?thesis
    using assms by (auto simp: sys_poll_def bind_eq_Some_conv
        dest!: poll_established_fixed poll_pending_fixed split: list.splits)
next
  case (Disconnect answer p)
  then show ?thesis
    using assms by (auto simp: Pool_disconnect_def pool_fixed_def bind_eq_Some_conv)
next
  case (EstablishedMove n mv)
  show ?thesis
  proof (cases "\<exists>p. Mapping.lookup (sys_tasks s) n = Some (EstTask p)")
    case True
    then obtain p where p: "Mapping.lookup (sys_tasks s) n = Some (EstTask p)" by blast
    obtain c where "est_lookup (sys_pool s) p n = Some c" using assms EstablishedMove p by (auto simp: bind_eq_Some_conv)
    then show ?thesis
      using assms EstablishedMove p
      by (cases "established_turn n p (eci_sender c) mv") (auto simp: pool_fixed_def est_update_def)
  qed (use assms EstablishedMove in \<open>auto split: option.splits task.splits\<close>)
qed (use assms in \<open>auto simp: bind_eq_Some_conv est_update_def dest!: add_fixed_pool
        split: option.splits if_splits\<close>, auto simp: pool_fixed_def)

lemma sys_run_ok:
  assumes "sys_ok s" "list_all clone_has_slot xs"
    "next_connection_id (sys_pool s) + length (filter adds xs) < 2 ^ 32"
  shows "\<exists>s'. sys_run xs s = Some s' \<and> sys_ok s' \<and> pool_fixed (sys_pool s') = pool_fixed (sys_pool s)"
  using assms
proof (induction xs arbitrary: s)
  case (Cons x xs)
  obtain s1 where s1: "sys_step s x = Some s1" "sys_ok s1"
    "next_connection_id (sys_pool s1) \<le> next_connection_id (sys_pool s) + (if adds x then 1 else 0)"
    using sys_step_ok [OF Cons.prems(1), of x] Cons.prems(2,3) by (auto simp: step_ok_def split: if_splits)
  moreover obtain s2 where "sys_run xs s1 = Some s2" "sys_ok s2" "pool_fixed (sys_pool s2) = pool_fixed (sys_pool s1)"
    using Cons.IH [OF s1(2)] s1(3) Cons.prems(2,3) by (auto split: if_splits)
  ultimately show ?case using sys_step_fixed [OF s1(1)] by auto
qed simp

lemma sys_new_ok: "sys_ok (sys_new p l)"
  by (auto simp: sys_new_def Pool_new_def sys_ok_def pool_ok_def counters_ok_def peers_ok_def ids_ok_def
      Counters_new_def pending_kind_def conn_kind_def est_lookup_def kind_count_def task_ok_def
      within_limit_def Let_def dom_def split: option.splits)

text \<open>
  C2. However the swarm adds, aborts, closes and notifies connections, in whatever order the
  dialing, upgrading and established tasks make their moves and whenever the pool is polled, as long
  as fewer than 2^32 connections are ever added no step panics: no counter overflows or underflows
  and no event refers to a connection the pool does not know. After every run each counter is the
  number of connections of its kind, every configured limit holds (the limit per peer included),
  connection ids are unique, a peer is listed only while it has a connection, and the local peer
  never is.
\<close>
theorem pool_run_safe:
  assumes "list_all clone_has_slot xs" "length (filter adds xs) < 2 ^ 32"
  shows "\<exists>s. sys_run xs (sys_new p l) = Some s \<and>
    counters_ok (sys_pool s) \<and> peers_ok (sys_pool s) \<and> ids_ok (sys_pool s) \<and>
    limits (counters (sys_pool s)) = l \<and> local_id (sys_pool s) = p"
  using sys_run_ok [OF sys_new_ok assms(1), of p l] assms(2)
  by (auto simp: sys_ok_def pool_ok_def pool_fixed_def sys_new_def Pool_new_def Counters_new_def)

definition example_labels :: "(nat, nat, unit, nat, unit, nat, unit, unit) label list" where
  "example_labels =
     [AddOutgoing (Some 7) () Dialer, AddIncoming () 1 2, OutgoingMove 0 (OutOk 5 7 []),
      Poll, IncomingMove 1 (InOk 7), Poll, Notify 7 0 Sent 9, StartClose 7 0 Sent,
      EstablishedMove 0 (MoveCommand None ()), EstablishedMove 0 (MoveCommand None ()), Poll]"

lemma pool_run_safe_witness:
  "list_all clone_has_slot example_labels \<and> length (filter adds example_labels) < 2 ^ 32 \<and>
   (\<exists>s. sys_run example_labels (sys_new 3 ConnectionLimits_default) = Some s \<and>
      counters_ok (sys_pool s) \<and> peers_ok (sys_pool s) \<and> ids_ok (sys_pool s) \<and>
      limits (counters (sys_pool s)) = ConnectionLimits_default \<and> local_id (sys_pool s) = 3)"
proof -
  have "list_all clone_has_slot example_labels" "length (filter adds example_labels) < 2 ^ 32"
    by (simp_all add: example_labels_def)
  then show ?thesis using pool_run_safe [of example_labels 3 ConnectionLimits_default] by blast
qed

end
