(* ===== verification/Swarm_PoolEvents.thy ===== *)
theory Swarm_PoolEvents
  imports Swarm_PoolSafety
begin

text \<open>
  The order of the events that the connection pool reports to the swarm (the documentation of
  \<open>PoolEvent\<close> in swarm/src/connection/pool.rs): for each connection id either one error of the
  pending connection, or its establishment, then events of that connection and address changes, and
  at most one closing.
\<close>

section \<open>Phases of a connection\<close>

text \<open>What a reader of the events knows about a connection id.\<close>

datatype 'p phase = Unreported | Open 'p | Ended

fun event_id :: "('p, 'a, 'h, 't, 'o, 'x, 'd) PoolEvent \<Rightarrow> nat" where
  "event_id (ConnectionEstablished n _ _ _ _) = n"
| "event_id (ConnectionClosed n _ _ _ _ _) = n"
| "event_id (PendingOutboundConnectionError n _ _ _) = n"
| "event_id (PendingInboundConnectionError n _ _ _ _) = n"
| "event_id (ConnectionEvent n _ _) = n"
| "event_id (AddressChange n _ _ _) = n"

text \<open>How an event about a connection changes its phase; \<open>None\<close> is an event out of order.\<close>

fun event_phase ::
  "('p, 'a, 'h, 't, 'o, 'x, 'd) PoolEvent \<Rightarrow> 'p phase \<Rightarrow> 'p phase option" where
  "event_phase (ConnectionEstablished _ p _ _ _) Unreported = Some (Open p)"
| "event_phase (PendingOutboundConnectionError _ _ _ _) Unreported = Some Ended"
| "event_phase (PendingInboundConnectionError _ _ _ _ _) Unreported = Some Ended"
| "event_phase (ConnectionEvent _ p _) (Open q) = (if p = q then Some (Open q) else None)"
| "event_phase (AddressChange _ p _ _) (Open q) = (if p = q then Some (Open q) else None)"
| "event_phase (ConnectionClosed _ p _ _ _ _) (Open q) = (if p = q then Some Ended else None)"
| "event_phase _ _ = None"

fun events_phase ::
  "nat \<Rightarrow> ('p, 'a, 'h, 't, 'o, 'x, 'd) PoolEvent list \<Rightarrow> 'p phase \<Rightarrow> 'p phase option" where
  "events_phase n [] ph = Some ph"
| "events_phase n (ev # evs) ph =
     (if event_id ev = n then Option.bind (event_phase ev ph) (events_phase n evs)
      else events_phase n evs ph)"

text \<open>The phase that the state of the pool gives a connection id.\<close>

definition phase_matches :: "('p, 'a, 'h, 'i) Pool \<Rightarrow> nat \<Rightarrow> 'p phase \<Rightarrow> bool" where
  "phase_matches s n ph \<longleftrightarrow>
     (case ph of
        Unreported \<Rightarrow> pending_kind s n \<noteq> None \<or> next_connection_id s \<le> n
      | Open p \<Rightarrow> conn_kind s (p, n) \<noteq> None
      | Ended \<Rightarrow> pending_kind s n = None \<and> n < next_connection_id s \<and> (\<forall>p. conn_kind s (p, n) = None))"

text \<open>A run together with the events that its polls return.\<close>

fun sys_run_events ::
  "('p, 'a, 'h, 'i, 't, 'o, 'x, 'd) label list \<Rightarrow> ('p, 'a, 'h, 'i, 't, 'o, 'x, 'd) sys \<Rightarrow>
   (('p, 'a, 'h, 't, 'o, 'x, 'd) PoolEvent list \<times> ('p, 'a, 'h, 'i, 't, 'o, 'x, 'd) sys) option" where
  "sys_run_events [] s = Some ([], s)"
| "sys_run_events (Poll # xs) s =
     do {
       (r, s1) \<leftarrow> sys_poll s;
       (evs, s2) \<leftarrow> sys_run_events xs s1;
       Some ((case r of Some ev \<Rightarrow> [ev] | None \<Rightarrow> []) @ evs, s2)
     }"
| "sys_run_events (x # xs) s =
     do {
       s1 \<leftarrow> sys_step s x;
       sys_run_events xs s1
     }"

section \<open>Lemmas\<close>

lemma phase_event:
  assumes ok: "pool_ok s" and eff: "event_effect ev s q" and nid: "next_connection_id q = next_connection_id s"
    and ph: "phase_matches s n ph"
  shows "\<exists>ph'. (if event_id ev = n then event_phase ev ph else Some ph) = Some ph' \<and> phase_matches q n ph'"
proof -
  have *: "\<forall>p k. conn_kind s (p, n) = Some k \<longrightarrow> pending_kind s n = None \<and> n < next_connection_id s"
    "\<forall>k. pending_kind s n = Some k \<longrightarrow> n < next_connection_id s"
    "\<forall>p r j k. conn_kind s (p, n) = Some j \<longrightarrow> conn_kind s (r, n) = Some k \<longrightarrow> p = r"
    using pool_okD(1-4) [OF ok] by blast+
  have none: "pending_kind s n \<noteq> None \<Longrightarrow> conn_kind s (p, n) = None" for p
    using *(1) by (cases "conn_kind s (p, n)") auto
  show ?thesis
    using eff ph * nid
    by (cases ev; cases ph) (auto simp: phase_matches_def none)
qed

lemma phase_new: "phase_matches (Pool_new p l) n Unreported"
  by (simp add: phase_matches_def Pool_new_def)

text \<open>A step other than a poll keeps the phase of every connection.\<close>

definition step_quiet :: "('p, 'a, 'h, 'i) Pool \<Rightarrow> ('p, 'a, 'h, 'i) Pool \<Rightarrow> bool" where
  "step_quiet s q \<longleftrightarrow>
     conn_kind q = conn_kind s \<and>
     (pending_kind q = pending_kind s \<and> next_connection_id q = next_connection_id s \<or>
      (\<exists>b. pending_kind q = (pending_kind s)(next_connection_id s \<mapsto> b) \<and>
           next_connection_id q = Suc (next_connection_id s)))"

lemma phase_quiet:
  assumes "step_quiet s q" "phase_matches s n ph"
  shows "phase_matches q n ph"
  using assms by (cases ph) (auto simp: step_quiet_def phase_matches_def)

lemma quiet_view: "same_view s q \<Longrightarrow> step_quiet s q"
  by (simp add: step_quiet_def same_view_def)

lemma quiet_refl: "step_quiet s s"
  by (simp add: step_quiet_def)

lemma sys_step_quiet:
  assumes ok: "sys_ok s" and slot: "clone_has_slot x"
    and room: "next_connection_id (sys_pool s) + (if adds x then 1 else 0) < 2 ^ 32"
    and x: "x \<noteq> Poll" and step: "sys_step s x = Some s'"
  shows "step_quiet (sys_pool s) (sys_pool s')"
proof (cases x)
  case (AddOutgoing peer h role)
  obtain r q where r: "add_outgoing peer h role (sys_pool s) = Some (r, q)"
    "case r of Inl _ \<Rightarrow> q = sys_pool s
     | Inr n \<Rightarrow> n = next_connection_id (sys_pool s) \<and> next_connection_id q = Suc n \<and>
               pending_kind q = (pending_kind (sys_pool s))(n \<mapsto> True) \<and> conn_kind q = conn_kind (sys_pool s)"
    using add_outgoing_ok [OF sys_okD(1) [OF ok], of peer h role] room AddOutgoing by auto
  then have "sys_pool s' = q" using step AddOutgoing by auto
  then show ?thesis using r(2) by (cases r) (auto simp: step_quiet_def)
next
  case (AddIncoming h la sba)
  obtain r q where r: "add_incoming h la sba (sys_pool s) = Some (r, q)"
    "case r of Inl _ \<Rightarrow> q = sys_pool s
     | Inr n \<Rightarrow> n = next_connection_id (sys_pool s) \<and> next_connection_id q = Suc n \<and>
               pending_kind q = (pending_kind (sys_pool s))(n \<mapsto> False) \<and> conn_kind q = conn_kind (sys_pool s)"
    using add_incoming_ok [OF sys_okD(1) [OF ok], of h la sba] room AddIncoming by auto
  then have "sys_pool s' = q" using step AddIncoming by auto
  then show ?thesis using r(2) by (cases r) (auto simp: step_quiet_def)
next
  case (EstablishedMove n mv)
  show ?thesis
  proof (cases "\<exists>p. Mapping.lookup (sys_tasks s) n = Some (EstTask p)")
    case True
    then obtain p where p: "Mapping.lookup (sys_tasks s) n = Some (EstTask p)" by blast
    obtain c where c: "est_lookup (sys_pool s) p n = Some c"
      using step EstablishedMove p by (auto simp: bind_eq_Some_conv)
    then show ?thesis
      using step EstablishedMove p quiet_view [OF est_update_view [OF c]]
      by (cases "established_turn n p (eci_sender c) mv") auto
  qed (use step EstablishedMove in \<open>auto simp: quiet_refl split: option.splits task.splits\<close>)
next
  case (Disconnect answer p)
  then show ?thesis
    using Pool_disconnect_view [of answer p "sys_pool s"] slot step quiet_view by auto
next
  case (StartClose p n answer)
  then show ?thesis
    using step by (cases "est_lookup (sys_pool s) p n")
      (auto simp: quiet_refl start_close_endpoint intro!: quiet_view est_update_view)
next
  case (Notify p n answer ev)
  then show ?thesis
    using step by (cases "est_lookup (sys_pool s) p n")
      (auto simp: quiet_refl notify_handler_endpoint intro!: quiet_view est_update_view)
next
  case (Abort n)
  then show ?thesis
    using step by (auto intro!: quiet_view abort_view simp: quiet_refl split: option.splits)
qed (use step x in \<open>auto simp: quiet_refl split: if_splits\<close>)

lemma sys_run_events_other:
  "x \<noteq> Poll \<Longrightarrow> sys_run_events (x # xs) s = Option.bind (sys_step s x) (sys_run_events xs)"
  by (cases x) auto

lemma sys_run_events_ok:
  assumes "sys_ok s" "list_all clone_has_slot xs"
    "next_connection_id (sys_pool s) + length (filter adds xs) < 2 ^ 32"
  shows "\<exists>evs s'. sys_run_events xs s = Some (evs, s') \<and> sys_run xs s = Some s' \<and>
    (\<forall>n ph. phase_matches (sys_pool s) n ph \<longrightarrow>
       (\<exists>ph'. events_phase n evs ph = Some ph' \<and> phase_matches (sys_pool s') n ph'))"
  using assms
proof (induction xs arbitrary: s)
  case (Cons x xs)
  show ?case
  proof (cases "x = Poll")
    case True
    obtain r s1 where s1: "sys_poll s = Some (r, s1)" "sys_ok s1"
      "next_connection_id (sys_pool s1) = next_connection_id (sys_pool s)"
      "case r of Some ev \<Rightarrow> event_effect ev (sys_pool s) (sys_pool s1) | None \<Rightarrow> sys_pool s1 = sys_pool s"
      using sys_poll_ok [OF Cons.prems(1)] Cons.prems(3) by auto
    obtain evs s2 where s2: "sys_run_events xs s1 = Some (evs, s2)" "sys_run xs s1 = Some s2"
      "\<forall>n ph. phase_matches (sys_pool s1) n ph \<longrightarrow>
         (\<exists>ph'. events_phase n evs ph = Some ph' \<and> phase_matches (sys_pool s2) n ph')"
      using Cons.IH [OF s1(2)] s1(3) Cons.prems(2,3) True by auto
    have "\<exists>ph'. events_phase n ((case r of Some ev \<Rightarrow> [ev] | None \<Rightarrow> []) @ evs) ph = Some ph' \<and>
        phase_matches (sys_pool s2) n ph'" if ph: "phase_matches (sys_pool s) n ph" for n ph
    proof (cases r)
      case (Some ev)
      then obtain ph1 where "(if event_id ev = n then event_phase ev ph else Some ph) = Some ph1"
        "phase_matches (sys_pool s1) n ph1"
        using phase_event [OF sys_okD(1) [OF Cons.prems(1)] _ s1(3) ph] s1(4) by auto
      then show ?thesis using s2(3) Some by (auto split: if_splits)
    qed (use s1(4) s2(3) ph in auto)
    then show ?thesis using True s1(1) s2(1,2) by auto
  next
    case False
    obtain s1 where s1: "sys_step s x = Some s1" "sys_ok s1"
      "next_connection_id (sys_pool s1) \<le> next_connection_id (sys_pool s) + (if adds x then 1 else 0)"
      using sys_step_ok [OF Cons.prems(1), of x] Cons.prems(2,3) by (auto simp: step_ok_def split: if_splits)
    have "step_quiet (sys_pool s) (sys_pool s1)"
      using sys_step_quiet [OF Cons.prems(1) _ _ False s1(1)] Cons.prems(2,3) by (auto split: if_splits)
    moreover obtain evs s2 where "sys_run_events xs s1 = Some (evs, s2)" "sys_run xs s1 = Some s2"
      "\<forall>n ph. phase_matches (sys_pool s1) n ph \<longrightarrow>
         (\<exists>ph'. events_phase n evs ph = Some ph' \<and> phase_matches (sys_pool s2) n ph')"
      using Cons.IH [OF s1(2)] s1(3) Cons.prems(2,3) by (auto split: if_splits)
    ultimately show ?thesis
      using s1(1) by (auto simp: sys_run_events_other [OF False] dest: phase_quiet)
  qed
qed auto

section \<open>The order of the events\<close>

text \<open>
  C6. However the system runs, the events that the polls of the pool return are in order: about
  each connection id there is first either one error of the pending connection, after which nothing
  follows, or its establishment, after which come only events of the connection and address changes
  with the same peer until it is closed, after which nothing follows. At any time the last of them
  agrees with the pool: the id is not reported yet exactly if it is pending or not taken yet, and it
  is open with a peer if the pool holds that connection of the peer.
\<close>
theorem pool_events_ordered:
  assumes "list_all clone_has_slot xs" "length (filter adds xs) < 2 ^ 32"
  shows "\<exists>evs s. sys_run_events xs (sys_new p l) = Some (evs, s) \<and> sys_run xs (sys_new p l) = Some s \<and>
    (\<forall>n. \<exists>ph. events_phase n evs Unreported = Some ph \<and> phase_matches (sys_pool s) n ph)"
  using sys_run_events_ok [OF sys_new_ok assms(1), of p l] assms(2) phase_new [of p l]
  by (simp add: sys_new_def Pool_new_def) blast

lemma pool_events_ordered_witness:
  "list_all clone_has_slot example_labels \<and> length (filter adds example_labels) < 2 ^ 32 \<and>
   (\<exists>evs s. sys_run_events example_labels (sys_new 3 ConnectionLimits_default) = Some (evs, s) \<and>
      sys_run example_labels (sys_new 3 ConnectionLimits_default) = Some s \<and>
      (\<forall>n. \<exists>ph. events_phase n evs Unreported = Some ph \<and> phase_matches (sys_pool s) n ph))"
proof -
  have "list_all clone_has_slot example_labels" "length (filter adds example_labels) < 2 ^ 32"
    by (simp_all add: example_labels_def)
  then show ?thesis using pool_events_ordered [of example_labels 3 ConnectionLimits_default] by blast
qed

end
