(* ===== verification/Relay_RateLimiter.thy ===== *)
theory Relay_RateLimiter
  imports Prelude
begin

text \<open>
  The token-bucket rate limiter of the circuit relay (protocols/relay/src/v2/relay/rate_limiter.rs).
  Instants and durations count nanoseconds. Token balances are the source's \<open>u32\<close> values as
  naturals, with its checked additions and conversions written out. The loop of \<open>refill\<close> is a
  partial function whose value \<open>None\<close> is a panic or a loop that does not end.
\<close>

section \<open>The limiter\<close>

definition U32_MAX :: nat where
  "U32_MAX = 2 ^ 32 - 1"

record RateLimiterConfig =
  cfg_limit :: nat
  cfg_interval :: duration

record 'i RateLimiter =
  limit :: nat
  interval :: duration
  refill_schedule :: "(instant \<times> 'i) list"
  buckets :: "('i, nat) mapping"

definition RateLimiter_new :: "RateLimiterConfig \<Rightarrow> 'i RateLimiter option" where
  "RateLimiter_new cfg =
     (if cfg_interval cfg = 0 then None
      else Some \<lparr>limit = cfg_limit cfg, interval = cfg_interval cfg, refill_schedule = [],
                 buckets = Mapping.empty\<rparr>)"

text \<open>
  \<open>duration_since\<close> of a later instant is a panic here; newer standard libraries return zero
  instead. The clock readings of a run do not decrease, so the two never differ.
\<close>

definition duration_since :: "instant \<Rightarrow> instant \<Rightarrow> duration option" where
  "duration_since now earlier = checked_sub now earlier"

definition as_micros :: "duration \<Rightarrow> nat" where
  "as_micros d = d div 1000"

definition new_tokens :: "duration \<Rightarrow> duration \<Rightarrow> nat" where
  "new_tokens elapsed iv =
     (if as_micros iv = 0 then U32_MAX
      else let k = as_micros elapsed div as_micros iv in if k \<le> U32_MAX then k else U32_MAX)"

definition new_balance :: "nat \<Rightarrow> nat \<Rightarrow> nat" where
  "new_balance balance tokens = (if balance + tokens \<le> U32_MAX then balance + tokens else U32_MAX)"

text \<open>One turn of the loop of \<open>refill\<close>, after its guard has seen a bucket that is due.\<close>

definition refill_turn :: "instant \<Rightarrow> 'i RateLimiter \<Rightarrow> 'i RateLimiter option" where
  "refill_turn now l =
     (case refill_schedule l of
        [] \<Rightarrow> None
      | (last_refill, i) # rest \<Rightarrow>
          do {
            balance \<leftarrow> Mapping.lookup (buckets l) i;
            since \<leftarrow> duration_since now last_refill;
            let b = new_balance balance (new_tokens since (interval l));
            Some (if b < limit l
                  then l\<lparr>refill_schedule := rest @ [(now, i)],
                         buckets := Mapping.update i b (buckets l)\<rparr>
                  else l\<lparr>refill_schedule := rest, buckets := Mapping.delete i (buckets l)\<rparr>)
          })"

partial_function (option) refill :: "instant \<Rightarrow> 'i RateLimiter \<Rightarrow> 'i RateLimiter option" where
  "refill now l =
     (case refill_schedule l of
        [] \<Rightarrow> Some l
      | (last_refill, _) # _ \<Rightarrow>
          Option.bind (duration_since now last_refill) (\<lambda>since.
            if interval l \<le> since then Option.bind (refill_turn now l) (refill now) else Some l))"

definition try_next :: "'i \<Rightarrow> instant \<Rightarrow> 'i RateLimiter \<Rightarrow> (bool \<times> 'i RateLimiter) option" where
  "try_next i now l0 =
     do {
       l \<leftarrow> refill now l0;
       (case Mapping.lookup (buckets l) i of
          Some balance \<Rightarrow>
            (case checked_sub balance 1 of
               Some a \<Rightarrow> Some (True, l\<lparr>buckets := Mapping.update i a (buckets l)\<rparr>)
             | None \<Rightarrow> Some (False, l))
        | None \<Rightarrow>
            do {
              b \<leftarrow> checked_sub (limit l) 1;
              Some (True, l\<lparr>buckets := Mapping.update i b (buckets l),
                            refill_schedule := refill_schedule l @ [(now, i)]\<rparr>)
            })
     }"

text \<open>
  The two ready-made limiters. The components of a multiaddress come from the multiaddr crate: the
  function \<open>ip_of\<close> reads the IP address of one component, if it is an \<open>Ip4\<close> or \<open>Ip6\<close>.
\<close>

fun multiaddr_to_ip :: "('c \<Rightarrow> 'ip option) \<Rightarrow> 'c list \<Rightarrow> 'ip option" where
  "multiaddr_to_ip ip_of [] = None"
| "multiaddr_to_ip ip_of (c # cs) =
     (case ip_of c of Some ip \<Rightarrow> Some ip | None \<Rightarrow> multiaddr_to_ip ip_of cs)"

definition per_peer_try_next ::
  "'p \<Rightarrow> 'c list \<Rightarrow> instant \<Rightarrow> 'p RateLimiter \<Rightarrow> (bool \<times> 'p RateLimiter) option" where
  "per_peer_try_next peer addr now l = try_next peer now l"

definition per_ip_try_next ::
  "('c \<Rightarrow> 'ip option) \<Rightarrow> 'p \<Rightarrow> 'c list \<Rightarrow> instant \<Rightarrow> 'ip RateLimiter \<Rightarrow>
   (bool \<times> 'ip RateLimiter) option" where
  "per_ip_try_next ip_of peer addr now l =
     (case multiaddr_to_ip ip_of addr of
        Some ip \<Rightarrow> try_next ip now l
      | None \<Rightarrow> Some (True, l))"

text \<open>A sequence of requests, each with the clock reading at which it is made.\<close>

fun limiter_run ::
  "('i \<times> instant) list \<Rightarrow> 'i RateLimiter \<Rightarrow> (bool list \<times> 'i RateLimiter) option" where
  "limiter_run [] l = Some ([], l)"
| "limiter_run ((i, now) # reqs) l =
     do {
       (r, l1) \<leftarrow> try_next i now l;
       (rs, l2) \<leftarrow> limiter_run reqs l1;
       Some (r # rs, l2)
     }"

section \<open>The invariant\<close>

definition limiter_inv :: "instant \<Rightarrow> 'i RateLimiter \<Rightarrow> bool" where
  "limiter_inv t l \<longleftrightarrow>
     0 < limit l \<and> limit l \<le> U32_MAX \<and> 0 < interval l \<and>
     sorted (map fst (refill_schedule l)) \<and> (\<forall>x \<in> set (refill_schedule l). fst x \<le> t) \<and>
     distinct (map snd (refill_schedule l)) \<and>
     snd ` set (refill_schedule l) = Mapping.keys (buckets l) \<and>
     (\<forall>i b. Mapping.lookup (buckets l) i = Some b \<longrightarrow> b < limit l)"

definition due :: "instant \<Rightarrow> 'i RateLimiter \<Rightarrow> nat" where
  "due now l = length (filter (\<lambda>x. interval l \<le> now - fst x) (refill_schedule l))"

definition last_refill :: "'i RateLimiter \<Rightarrow> 'i \<Rightarrow> instant option" where
  "last_refill l i = map_of (map prod.swap (refill_schedule l)) i"

text \<open>
  The nanoseconds that one token is worth: the interval without the part of a microsecond that
  \<open>as_micros\<close> drops.
\<close>

definition token_time :: "'i RateLimiter \<Rightarrow> nat" where
  "token_time l = 1000 * as_micros (interval l)"

text \<open>What an identifier could spend at once at time \<open>t\<close>, in nanoseconds.\<close>

definition credit :: "instant \<Rightarrow> 'i \<Rightarrow> 'i RateLimiter \<Rightarrow> nat" where
  "credit t i l =
     (case Mapping.lookup (buckets l) i of
        None \<Rightarrow> limit l * token_time l
      | Some b \<Rightarrow> b * token_time l + (t - the (last_refill l i)))"

lemma new_tokens_worth:
  assumes "1000 \<le> iv"
  shows "new_tokens d iv * (1000 * as_micros iv) \<le> d"
proof -
  have "new_tokens d iv \<le> as_micros d div as_micros iv"
    using assms by (auto simp: new_tokens_def as_micros_def Let_def)
  then have "new_tokens d iv * as_micros iv \<le> as_micros d"
    by (meson div_times_less_eq_dividend le_trans mult_le_mono1)
  then show ?thesis by (simp add: as_micros_def)
qed

lemma new_tokens_pos: "0 < iv \<Longrightarrow> iv \<le> d \<Longrightarrow> 0 < new_tokens d iv"
  using div_le_mono [of iv d 1000]
  by (auto simp: new_tokens_def as_micros_def U32_MAX_def Let_def div_greater_zero_iff)

lemma last_refill_in:
  assumes "limiter_inv t l" "(u, i) \<in> set (refill_schedule l)"
  shows "last_refill l i = Some u"
  using assms unfolding last_refill_def
  by (intro map_of_is_SomeI) (auto simp: limiter_inv_def comp_def rev_image_eqI)

lemma last_refill_known:
  assumes "limiter_inv t l" "Mapping.lookup (buckets l) i = Some b"
  obtains u where "(u, i) \<in> set (refill_schedule l)" "last_refill l i = Some u" "u \<le> t"
proof -
  have "i \<in> snd ` set (refill_schedule l)"
    using assms by (simp add: limiter_inv_def Mapping.keys_dom_lookup domI)
  then obtain u where "(u, i) \<in> set (refill_schedule l)" by auto
  then show ?thesis using that assms(1) last_refill_in [OF assms(1)] by (force simp: limiter_inv_def)
qed

section \<open>Refilling\<close>

text \<open>What one turn of the loop does when its guard holds.\<close>

lemma refill_turn_effect:
  assumes inv: "limiter_inv now l" and sched: "refill_schedule l = (u, i) # rest"
    and ready: "interval l \<le> now - u"
  shows "\<exists>l' b b'. refill_turn now l = Some l' \<and> limit l' = limit l \<and> interval l' = interval l \<and>
    Mapping.lookup (buckets l) i = Some b \<and>
    b' = new_balance b (new_tokens (now - u) (interval l)) \<and>
    (if b' < limit l
     then refill_schedule l' = rest @ [(now, i)] \<and> buckets l' = Mapping.update i b' (buckets l)
     else refill_schedule l' = rest \<and> buckets l' = Mapping.delete i (buckets l))"
proof -
  have "i \<in> Mapping.keys (buckets l)" "u \<le> now"
    using inv sched by (auto simp: limiter_inv_def)
  then obtain b where b: "Mapping.lookup (buckets l) i = Some b"
    by (auto simp: Mapping.keys_dom_lookup)
  show ?thesis
    using b sched \<open>u \<le> now\<close>
    by (cases "new_balance b (new_tokens (now - u) (interval l)) < limit l")
      (simp_all add: refill_turn_def duration_since_def)
qed

lemma refill_turn_inv:
  assumes inv: "limiter_inv now l" and sched: "refill_schedule l = (u, i) # rest"
    and ready: "interval l \<le> now - u"
  shows "\<exists>l'. refill_turn now l = Some l' \<and> limiter_inv now l' \<and> due now l' < due now l"
proof -
  obtain l' b b' where l': "refill_turn now l = Some l'" "limit l' = limit l" "interval l' = interval l"
    "if b' < limit l
     then refill_schedule l' = rest @ [(now, i)] \<and> buckets l' = Mapping.update i b' (buckets l)
     else refill_schedule l' = rest \<and> buckets l' = Mapping.delete i (buckets l)"
    using refill_turn_effect [OF assms] by blast
  have old: "sorted (map fst rest)" "\<forall>x \<in> set rest. fst x \<le> now" "distinct (map snd rest)"
    "i \<notin> snd ` set rest" "insert i (snd ` set rest) = Mapping.keys (buckets l)"
    "\<forall>i b. Mapping.lookup (buckets l) i = Some b \<longrightarrow> b < limit l" "0 < interval l"
    "0 < limit l" "limit l \<le> U32_MAX"
    using inv sched by (auto simp: limiter_inv_def)
  have "limiter_inv now l'"
  proof (cases "b' < limit l")
    case True
    then show ?thesis
      using l' old by (auto simp: limiter_inv_def sorted_append Mapping.lookup_update')
  next
    case False
    moreover have "Mapping.keys (buckets l) - {i} = snd ` set rest" using old(4,5) by blast
    ultimately show ?thesis
      using l' old by (auto simp: limiter_inv_def lookup_delete_if)
  qed
  moreover have "due now l' < due now l"
    using l' sched ready old(7) by (auto simp: due_def split: if_splits)
  ultimately show ?thesis using l'(1) by blast
qed


lemma none_due:
  assumes "limiter_inv now l" "refill_schedule l = (u, i) # rest" "\<not> interval l \<le> now - u"
  shows "due now l = 0"
proof -
  have "now - fst x \<le> now - u" if "x \<in> set (refill_schedule l)" for x
    using that assms by (auto simp: limiter_inv_def)
  then show ?thesis using assms(3) by (fastforce simp: due_def filter_empty_conv)
qed

text \<open>
  The loop ends without a panic, keeps whatever each of its turns keeps, and leaves no bucket
  that is due.
\<close>

lemma refill_loop:
  assumes "limiter_inv now l" "Q l"
    and turn: "\<And>m m' u i rest. limiter_inv now m \<Longrightarrow> Q m \<Longrightarrow> refill_schedule m = (u, i) # rest \<Longrightarrow>
      interval m \<le> now - u \<Longrightarrow> refill_turn now m = Some m' \<Longrightarrow> Q m'"
  shows "\<exists>l'. refill now l = Some l' \<and> limiter_inv now l' \<and> Q l' \<and> due now l' = 0"
  using assms(1,2)
proof (induction "due now l" arbitrary: l rule: less_induct)
  case less
  show ?case
  proof (cases "refill_schedule l")
    case Nil
    then show ?thesis using less.prems by (subst refill.simps) (simp add: due_def)
  next
    case (Cons x rest)
    obtain u i where x: "x = (u, i)" by force
    have "u \<le> now" using less.prems Cons x by (auto simp: limiter_inv_def)
    then have unfold: "refill now l =
        (if interval l \<le> now - u then Option.bind (refill_turn now l) (refill now) else Some l)"
      by (subst refill.simps) (simp add: Cons x duration_since_def)
    show ?thesis
    proof (cases "interval l \<le> now - u")
      case True
      obtain l1 where l1: "refill_turn now l = Some l1" "limiter_inv now l1" "due now l1 < due now l"
        using refill_turn_inv [OF less.prems(1) _ True] Cons x by blast
      have "Q l1" using turn [OF less.prems _ True l1(1)] Cons x by blast
      then show ?thesis using less.hyps [OF l1(3,2)] unfold l1 True by simp
    next
      case False
      then show ?thesis
        using less.prems none_due [OF less.prems(1) _ False] unfold Cons x by auto
    qed
  qed
qed

lemma refill_turn_others:
  assumes "limiter_inv now l" "refill_schedule l = (u, i) # rest" "interval l \<le> now - u"
    "refill_turn now l = Some l'" "j \<noteq> i"
  shows "Mapping.lookup (buckets l') j = Mapping.lookup (buckets l) j \<and>
    last_refill l' j = last_refill l j"
  using refill_turn_effect [OF assms(1-3)] assms(2,4,5)
  by (auto simp: last_refill_def map_add_def Mapping.lookup_update' lookup_delete_if
      split: if_splits option.splits)

lemma refill_turn_credit:
  assumes inv: "limiter_inv now l" and sched: "refill_schedule l = (u, i) # rest"
    and ready: "interval l \<le> now - u" and turn: "refill_turn now l = Some l'"
    and long: "1000 \<le> interval l"
  shows "credit now j l' \<le> credit now j l"
proof (cases "j = i")
  case False
  then show ?thesis
    using refill_turn_others [OF inv sched ready turn False] refill_turn_effect [OF inv sched ready] turn
    by (auto simp: credit_def token_time_def split: option.splits)
next
  case True
  obtain b b' where l': "limit l' = limit l" "interval l' = interval l"
    "Mapping.lookup (buckets l) i = Some b"
    "b' = new_balance b (new_tokens (now - u) (interval l))"
    "if b' < limit l
     then refill_schedule l' = rest @ [(now, i)] \<and> buckets l' = Mapping.update i b' (buckets l)
     else refill_schedule l' = rest \<and> buckets l' = Mapping.delete i (buckets l)"
    using refill_turn_effect [OF inv sched ready] turn by auto
  have "i \<notin> snd ` set rest" using inv sched by (auto simp: limiter_inv_def)
  then have "map_of (map prod.swap rest) i = None"
    by (force simp: map_of_eq_None_iff)
  then have last: "b' < limit l \<Longrightarrow> last_refill l' i = Some now"
    using l'(5) by (simp add: last_refill_def map_of_append map_add_def)
  have "b' * token_time l \<le> b * token_time l + new_tokens (now - u) (interval l) * token_time l"
    by (auto simp: l'(4) new_balance_def add_mult_distrib [symmetric] intro: mult_le_mono1)
  also have "\<dots> \<le> b * token_time l + (now - u)"
    using new_tokens_worth [OF long, of "now - u"] by (simp add: token_time_def)
  also have "\<dots> = credit now i l"
    using l'(3) sched by (simp add: credit_def last_refill_def)
  finally have worth: "b' * token_time l \<le> credit now i l" .
  show ?thesis
  proof (cases "b' < limit l")
    case True
    then show ?thesis
      using worth last l' \<open>j = i\<close> by (simp add: credit_def [of _ _ l'] token_time_def)
  next
    case False
    then have "limit l * token_time l \<le> b' * token_time l" by simp
    then have "limit l * token_time l \<le> credit now i l" using worth by (rule le_trans)
    then show ?thesis
      using False l' \<open>j = i\<close> by (simp add: credit_def [of _ _ l'] token_time_def)
  qed
qed


lemma refill_turn_config:
  assumes "limiter_inv now l" "refill_schedule l = (u, i) # rest" "interval l \<le> now - u"
    "refill_turn now l = Some l'"
  shows "limit l' = limit l \<and> interval l' = interval l"
  using refill_turn_effect [OF assms(1-3)] assms(4) by auto

lemma refill_credit:
  assumes inv: "limiter_inv now l" and long: "1000 \<le> interval l"
  shows "\<exists>l'. refill now l = Some l' \<and> limiter_inv now l' \<and> limit l' = limit l \<and>
    interval l' = interval l \<and> due now l' = 0 \<and> credit now j l' \<le> credit now j l"
proof -
  let ?Q = "\<lambda>m. limit m = limit l \<and> interval m = interval l \<and> credit now j m \<le> credit now j l"
  have "?Q m'" if "limiter_inv now m" "?Q m" "refill_schedule m = (u, i) # rest"
    "interval m \<le> now - u" "refill_turn now m = Some m'" for m m' u i rest
    using refill_turn_credit [OF that(1,3-5), of j] refill_turn_config [OF that(1,3-5)] that(2) long
    by simp
  then show ?thesis using refill_loop [OF inv, of ?Q] by blast
qed

lemma credit_capped:
  assumes inv: "limiter_inv now l" and due: "due now l = 0"
  shows "credit now j l \<le> limit l * token_time l + interval l mod 1000"
proof (cases "Mapping.lookup (buckets l) j")
  case (Some b)
  obtain u where u: "(u, j) \<in> set (refill_schedule l)" "last_refill l j = Some u"
    by (rule last_refill_known [OF inv Some])
  then have "now - u < interval l"
    using due by (force simp: due_def filter_empty_conv)
  moreover have "interval l = token_time l + interval l mod 1000"
    by (simp add: token_time_def as_micros_def)
  moreover have "Suc b * token_time l \<le> limit l * token_time l"
    using inv Some by (intro mult_le_mono1) (auto simp: limiter_inv_def Suc_le_eq)
  ultimately show ?thesis using Some u(2) by (simp add: credit_def)
qed (simp add: credit_def)

lemma limiter_inv_later: "limiter_inv t l \<Longrightarrow> t \<le> now \<Longrightarrow> limiter_inv now l"
  by (fastforce simp: limiter_inv_def)

lemma credit_later:
  assumes "t \<le> now"
  shows "credit now j l \<le> credit t j l + (now - t)"
  using assms by (cases "Mapping.lookup (buckets l) j") (simp_all add: credit_def)

section \<open>Requests\<close>

lemma try_next_credit:
  assumes inv: "limiter_inv now l" and long: "1000 \<le> interval l"
  shows "\<exists>r l'. try_next i now l = Some (r, l') \<and> limiter_inv now l' \<and> limit l' = limit l \<and>
    interval l' = interval l \<and>
    (let spent = (if i = j \<and> r then token_time l else 0)
     in credit now j l' + spent \<le> credit now j l \<and>
        credit now j l' + spent \<le> limit l * token_time l + interval l mod 1000)"
proof -
  obtain m where m: "refill now l = Some m" "limiter_inv now m" "limit m = limit l"
    "interval m = interval l" "due now m = 0" "credit now j m \<le> credit now j l"
    using refill_credit [OF inv long] by blast
  have cap: "credit now j m \<le> limit l * token_time l + interval l mod 1000"
    using credit_capped [OF m(2,5), of j] m(3,4) by (simp add: token_time_def)
  show ?thesis
  proof (cases "Mapping.lookup (buckets m) i")
    case None
    let ?l = "m\<lparr>buckets := Mapping.update i (limit m - 1) (buckets m),
                refill_schedule := refill_schedule m @ [(now, i)]\<rparr>"
    have "i \<notin> snd ` set (refill_schedule m)"
      using m(2) None by (simp add: limiter_inv_def Mapping.keys_dom_lookup domIff)
    then have new: "limiter_inv now ?l"
      using m(2) by (auto simp: limiter_inv_def sorted_append Mapping.lookup_update' split: if_splits)
    have "map_of (map prod.swap (refill_schedule m)) i = None"
      using \<open>i \<notin> snd ` set (refill_schedule m)\<close> by (force simp: map_of_eq_None_iff)
    then have last: "last_refill ?l i = Some now"
      and others: "j \<noteq> i \<Longrightarrow> last_refill ?l j = last_refill m j"
      by (simp_all add: last_refill_def map_add_def split: option.splits)
    have "token_time m + (limit m - 1) * token_time m = limit m * token_time m"
      using m(2) by (cases "limit m") (auto simp: limiter_inv_def)
    then have "credit now j ?l + (if i = j then token_time l else 0) \<le> credit now j m"
      using None last others m(4)
      by (auto simp: credit_def token_time_def Mapping.lookup_update' split: option.splits)
    moreover have "try_next i now l = Some (True, ?l)"
      using m(1,2) None by (simp add: try_next_def limiter_inv_def)
    ultimately show ?thesis using new m cap by (force simp: Let_def)
  next
    case (Some b)
    show ?thesis
    proof (cases b)
      case 0
      then have "try_next i now l = Some (False, m)" using m(1) Some by (simp add: try_next_def checked_sub_def)
      then show ?thesis using m cap by (force simp: Let_def)
    next
      case (Suc a)
      let ?l = "m\<lparr>buckets := Mapping.update i a (buckets m)\<rparr>"
      have "Suc a < limit m" "insert i (Mapping.keys (buckets m)) = Mapping.keys (buckets m)"
        using m(2) Some Suc by (auto simp: limiter_inv_def Mapping.keys_dom_lookup domI)
      then have new: "limiter_inv now ?l"
        using m(2) by (auto simp: limiter_inv_def Mapping.lookup_update' split: if_splits)
      have "credit now j ?l + (if i = j then token_time l else 0) = credit now j m"
        using Some Suc m(4)
        by (auto simp: credit_def token_time_def last_refill_def Mapping.lookup_update' split: option.splits)
      moreover have "try_next i now l = Some (True, ?l)"
        using m(1) Some Suc by (simp add: try_next_def)
      ultimately show ?thesis using new m cap by (force simp: Let_def)
    qed
  qed
qed


text \<open>The number of requests of an identifier that a run accepted.\<close>

definition accepted :: "'i \<Rightarrow> ('i \<times> instant) list \<Rightarrow> bool list \<Rightarrow> nat" where
  "accepted j reqs rs = length (filter (\<lambda>((i, t), r). i = j \<and> r) (zip reqs rs))"

lemma accepted_Cons [simp]:
  "accepted j ((i, t) # reqs) (r # rs) = (if i = j \<and> r then 1 else 0) + accepted j reqs rs"
  by (simp add: accepted_def)

lemma limiter_run_credit:
  assumes "limiter_inv t l" "1000 \<le> interval l" "sorted (t # map snd reqs)"
  shows "\<exists>rs l'. limiter_run reqs l = Some (rs, l') \<and> length rs = length reqs \<and>
    limiter_inv (last (t # map snd reqs)) l' \<and> limit l' = limit l \<and> interval l' = interval l \<and>
    accepted j reqs rs * token_time l + credit (last (t # map snd reqs)) j l'
      \<le> credit t j l + (last (t # map snd reqs) - t)"
  using assms
proof (induction reqs arbitrary: t l)
  case Nil
  then show ?case by (simp add: accepted_def)
next
  case (Cons x reqs)
  obtain i now where x: "x = (i, now)" by force
  have "t \<le> now" using Cons.prems(3) x by simp
  then have inv: "limiter_inv now l" using Cons.prems(1) limiter_inv_later by blast
  obtain r l1 where l1: "try_next i now l = Some (r, l1)" "limiter_inv now l1" "limit l1 = limit l"
    "interval l1 = interval l"
    "credit now j l1 + (if i = j \<and> r then token_time l else 0) \<le> credit now j l"
    using try_next_credit [OF inv Cons.prems(2), of i j] by (auto simp: Let_def)
  have "sorted (now # map snd reqs)" using Cons.prems(3) x by simp
  then obtain rs l2 where l2: "limiter_run reqs l1 = Some (rs, l2)" "length rs = length reqs"
    "limiter_inv (last (now # map snd reqs)) l2" "limit l2 = limit l1" "interval l2 = interval l1"
    "accepted j reqs rs * token_time l1 + credit (last (now # map snd reqs)) j l2
      \<le> credit now j l1 + (last (now # map snd reqs) - now)"
    using Cons.IH [OF l1(2)] l1(4) Cons.prems(2) by auto
  have last: "last (t # map snd (x # reqs)) = last (now # map snd reqs)" by (simp add: x)
  have "now \<le> last (now # map snd reqs)"
    using \<open>sorted (now # map snd reqs)\<close> by (cases reqs rule: rev_cases) auto
  then have "accepted j (x # reqs) (r # rs) * token_time l + credit (last (now # map snd reqs)) j l2
      \<le> credit t j l + (last (now # map snd reqs) - t)"
    using l1(5) l2(6) credit_later [OF \<open>t \<le> now\<close>, of j l] \<open>t \<le> now\<close> l1(4)
    by (auto simp: x token_time_def algebra_simps split: if_splits)
  then show ?case
    using l1 l2 unfolding last by (auto simp: x)
qed

lemma limiter_run_append:
  "limiter_run (xs @ ys) l =
     do { (rs, l1) \<leftarrow> limiter_run xs l; (qs, l2) \<leftarrow> limiter_run ys l1; Some (rs @ qs, l2) }"
proof (induction xs arbitrary: l)
  case (Cons x xs)
  obtain i t where "x = (i, t)" by force
  then show ?case using Cons by (auto split: Option.bind_splits)
qed (auto split: Option.bind_splits)

lemma RateLimiter_new_inv:
  assumes "RateLimiter_new cfg = Some l" "0 < cfg_limit cfg" "cfg_limit cfg \<le> U32_MAX"
  shows "limiter_inv t l \<and> limit l = cfg_limit cfg \<and> interval l = cfg_interval cfg"
  using assms by (auto simp: RateLimiter_new_def limiter_inv_def split: if_splits)

section \<open>Waiting for a token\<close>

text \<open>An empty bucket of \<open>i\<close> has not been refilled since \<open>t\<close>.\<close>

definition unfilled_since :: "instant \<Rightarrow> 'i \<Rightarrow> 'i RateLimiter \<Rightarrow> bool" where
  "unfilled_since t i l \<longleftrightarrow>
     (Mapping.lookup (buckets l) i = Some 0 \<longrightarrow> the (last_refill l i) \<le> t)"

lemma refill_turn_unfilled:
  assumes inv: "limiter_inv now l" and sched: "refill_schedule l = (u, k) # rest"
    and ready: "interval l \<le> now - u" and turn: "refill_turn now l = Some l'"
    and old: "unfilled_since t i l"
  shows "unfilled_since t i l'"
proof (cases "i = k")
  case False
  then show ?thesis
    using refill_turn_others [OF inv sched ready turn False] old by (simp add: unfilled_since_def)
next
  case True
  have "0 < new_tokens (now - u) (interval l)"
    using new_tokens_pos [OF _ ready] inv by (simp add: limiter_inv_def)
  then have pos: "new_balance b (new_tokens (now - u) (interval l)) \<noteq> 0" for b
    by (simp add: new_balance_def U32_MAX_def)
  show ?thesis
    using refill_turn_effect [OF inv sched ready] turn True pos
    by (auto simp: unfilled_since_def simp del: neq0_conv split: if_splits)
qed

lemma refill_unfilled:
  assumes inv: "limiter_inv now l" and old: "unfilled_since t i l"
  shows "\<exists>l'. refill now l = Some l' \<and> limiter_inv now l' \<and> interval l' = interval l \<and>
    unfilled_since t i l' \<and> due now l' = 0"
proof -
  let ?Q = "\<lambda>m. interval m = interval l \<and> unfilled_since t i m"
  have "?Q m'" if "limiter_inv now m" "?Q m" "refill_schedule m = (u, k) # rest"
    "interval m \<le> now - u" "refill_turn now m = Some m'" for m m' u k rest
    using refill_turn_unfilled [OF that(1,3-5)] refill_turn_config [OF that(1,3-5)] that(2) by simp
  then show ?thesis using refill_loop [of now l ?Q, OF inv] old by blast
qed

lemma try_next_other_unfilled:
  assumes inv: "limiter_inv now l" and long: "1000 \<le> interval l"
    and old: "unfilled_since t i l" and other: "k \<noteq> i" and next1: "try_next k now l = Some (r, l')"
  shows "unfilled_since t i l'"
proof -
  obtain m where m: "refill now l = Some m" "unfilled_since t i m"
    using refill_unfilled [OF inv old] by blast
  then show ?thesis
    using next1 other
    by (auto simp: try_next_def unfilled_since_def last_refill_def map_add_def checked_sub_def
        split: option.splits if_splits Option.bind_splits)
qed

lemma limiter_run_others_unfilled:
  assumes "limiter_inv u l" "1000 \<le> interval l" "sorted (u # map snd reqs)"
    "unfilled_since t i l" "i \<notin> fst ` set reqs" "limiter_run reqs l = Some (rs, l')"
  shows "unfilled_since t i l' \<and> interval l' = interval l \<and> limiter_inv (last (u # map snd reqs)) l'"
  using assms
proof (induction reqs arbitrary: u l rs)
  case (Cons x reqs)
  obtain k now where x: "x = (k, now)" by force
  have inv: "limiter_inv now l" using Cons.prems(1,3) x by (auto intro: limiter_inv_later)
  obtain r l1 where l1: "try_next k now l = Some (r, l1)" "limiter_inv now l1" "interval l1 = interval l"
    using try_next_credit [OF inv Cons.prems(2), of k i] by blast
  obtain rs1 where rest: "limiter_run reqs l1 = Some (rs1, l')"
    using Cons.prems(6) l1(1) x by (auto split: Option.bind_splits)
  have "unfilled_since t i l1"
    using try_next_other_unfilled [OF inv Cons.prems(2,4) _ l1(1)] Cons.prems(5) x by auto
  then show ?case
    using Cons.IH [OF l1(2) _ _ _ _ rest] Cons.prems x l1(3) by auto
qed auto

lemma try_next_after_interval:
  assumes inv: "limiter_inv now l" and old: "unfilled_since t i l" and wait: "t + interval l \<le> now"
  shows "\<exists>l'. try_next i now l = Some (True, l')"
proof -
  obtain m where m: "refill now l = Some m" "limiter_inv now m" "interval m = interval l"
    "unfilled_since t i m" "due now m = 0"
    using refill_unfilled [OF inv old] by blast
  have "Mapping.lookup (buckets m) i \<noteq> Some 0"
  proof
    assume "Mapping.lookup (buckets m) i = Some 0"
    moreover then obtain u where "(u, i) \<in> set (refill_schedule m)" "last_refill m i = Some u"
      using last_refill_known [OF m(2)] by blast
    ultimately show False
      using m(3,4,5) wait by (force simp: unfilled_since_def due_def filter_empty_conv)
  qed
  then show ?thesis
    using m(1,2) by (auto simp: try_next_def limiter_inv_def checked_sub_def split: option.splits)
qed

section \<open>Properties\<close>

text \<open>
  C23. The limiter keeps to its rate in every window. Whatever requests came before, at clock
  readings that never decrease, no request panics, every refill ends, and in a window of requests
  that lasts from its first to its last request, an identifier is admitted at most \<open>limit\<close> times
  plus once per interval of the window, up to the part of a microsecond of the interval.
\<close>
theorem rate_bounded:
  assumes new: "RateLimiter_new cfg = Some l0"
    and cfg: "0 < cfg_limit cfg" "cfg_limit cfg \<le> U32_MAX" "1000 \<le> cfg_interval cfg"
    and reqs: "sorted (map snd (before @ (i, t) # window))"
  shows "\<exists>rs l. limiter_run (before @ (i, t) # window) l0 = Some (rs, l) \<and>
    length rs = length (before @ (i, t) # window) \<and>
    (let tok = 1000 * as_micros (cfg_interval cfg)
     in accepted j ((i, t) # window) (drop (length before) rs) * tok
          \<le> cfg_limit cfg * tok + (last (t # map snd window) - t) + cfg_interval cfg mod 1000)"
proof -
  have l0: "limiter_inv 0 l0" "limit l0 = cfg_limit cfg" "interval l0 = cfg_interval cfg"
    using RateLimiter_new_inv [OF new cfg(1,2)] by auto
  have "sorted (0 # map snd before)" using reqs by (simp add: sorted_append)
  then obtain rs1 l1 where run1: "limiter_run before l0 = Some (rs1, l1)" "length rs1 = length before"
    "limiter_inv (last (0 # map snd before)) l1" "limit l1 = limit l0" "interval l1 = interval l0"
    using limiter_run_credit [OF l0(1)] cfg(3) l0(3) by metis
  have "last (0 # map snd before) \<le> t"
    using reqs by (cases before rule: rev_cases) (auto simp: sorted_append)
  then have inv1: "limiter_inv t l1" using run1(3) limiter_inv_later by blast
  obtain r l2 where l2: "try_next i t l1 = Some (r, l2)" "limiter_inv t l2" "limit l2 = limit l1"
    "interval l2 = interval l1"
    "credit t j l2 + (if i = j \<and> r then token_time l1 else 0)
       \<le> limit l1 * token_time l1 + interval l1 mod 1000"
    using try_next_credit [OF inv1, of i j] run1(5) l0(3) cfg(3) by (auto simp: Let_def)
  have "sorted (t # map snd window)" using reqs by (simp add: sorted_append)
  then obtain rs3 l3 where run3: "limiter_run window l2 = Some (rs3, l3)" "length rs3 = length window"
    "accepted j window rs3 * token_time l2 + credit (last (t # map snd window)) j l3
       \<le> credit t j l2 + (last (t # map snd window) - t)"
    using limiter_run_credit [OF l2(2), of window j] l2(4) run1(5) l0(3) cfg(3) by auto
  have tok: "token_time l1 = 1000 * as_micros (cfg_interval cfg)" "token_time l2 = token_time l1"
    using l2(4) run1(5) l0(3) by (simp_all add: token_time_def)
  have "accepted j ((i, t) # window) (r # rs3) * token_time l1
      \<le> limit l1 * token_time l1 + (last (t # map snd window) - t) + interval l1 mod 1000"
    using run3(3) l2(5) tok(2) by (auto simp: algebra_simps split: if_splits)
  then show ?thesis
    using run1 l2(1) run3(1,2) l0 tok(1) by (auto simp: limiter_run_append Let_def)
qed

theorem rate_bounded_witness:
  "\<exists>rs l. limiter_run [(''b'', 0), (''a'', 10), (''a'', 20), (''a'', 5000000)]
            \<lparr>limit = 1, interval = 1000000, refill_schedule = [], buckets = Mapping.empty\<rparr> =
          Some (rs, l) \<and>
    accepted ''a'' [(''a'', 10), (''a'', 20), (''a'', 5000000)] (drop 1 rs) * 1000000
      \<le> 1000000 + (5000000 - 10)"
proof -
  let ?cfg = "\<lparr>cfg_limit = 1, cfg_interval = 1000000\<rparr>"
  have new: "RateLimiter_new ?cfg =
      Some \<lparr>limit = 1, interval = 1000000, refill_schedule = [], buckets = Mapping.empty\<rparr>"
    by (simp add: RateLimiter_new_def)
  show ?thesis
    using rate_bounded [OF new, of "[(''b'', 0)]" "''a''" 10 "[(''a'', 20), (''a'', 5000000)]" "''a''"]
    by (auto simp: U32_MAX_def as_micros_def)
qed


text \<open>
  An identifier that waits for one interval is admitted: whatever happened before, and
  however many requests of other identifiers come in between, a request that comes at least one
  interval after the previous request of the same identifier succeeds.
\<close>
theorem rate_admits_after_interval:
  assumes new: "RateLimiter_new cfg = Some l0"
    and cfg: "0 < cfg_limit cfg" "cfg_limit cfg \<le> U32_MAX" "1000 \<le> cfg_interval cfg"
    and reqs: "sorted (map snd (before @ (i, t) # between @ [(i, t')]))"
    and others: "i \<notin> fst ` set between" and wait: "t + cfg_interval cfg \<le> t'"
  shows "\<exists>rs l. limiter_run (before @ (i, t) # between @ [(i, t')]) l0 = Some (rs @ [True], l)"
proof -
  have l0: "limiter_inv 0 l0" "interval l0 = cfg_interval cfg"
    using RateLimiter_new_inv [OF new cfg(1,2)] by auto
  have "sorted (0 # map snd before)" using reqs by (simp add: sorted_append)
  then obtain rs1 l1 where run1: "limiter_run before l0 = Some (rs1, l1)"
    "limiter_inv (last (0 # map snd before)) l1" "interval l1 = interval l0"
    using limiter_run_credit [OF l0(1)] cfg(3) l0(2) by metis
  have "last (0 # map snd before) \<le> t"
    using reqs by (cases before rule: rev_cases) (auto simp: sorted_append)
  then have inv1: "limiter_inv t l1" using run1(2) limiter_inv_later by blast
  obtain r l2 where l2: "try_next i t l1 = Some (r, l2)" "limiter_inv t l2" "interval l2 = interval l1"
    using try_next_credit [OF inv1, of i i] run1(3) l0(2) cfg(3) by auto
  have old: "unfilled_since t i l2"
    unfolding unfilled_since_def by (metis l2(2) last_refill_known option.sel)
  have long: "1000 \<le> interval l2" using l2(3) run1(3) l0(2) cfg(3) by simp
  have sort: "sorted (t # map snd between)" using reqs by (simp add: sorted_append)
  obtain rs3 l3 where run3: "limiter_run between l2 = Some (rs3, l3)"
    using limiter_run_credit [OF l2(2) long sort] by blast
  note l3 = limiter_run_others_unfilled [OF l2(2) long sort old others run3]
  have "last (t # map snd between) \<le> t'"
    using reqs by (cases between rule: rev_cases) (auto simp: sorted_append)
  then have "limiter_inv t' l3" using l3 limiter_inv_later by blast
  then obtain l4 where "try_next i t' l3 = Some (True, l4)"
    using try_next_after_interval [of t' l3 t i] l3 wait l2(3) run1(3) l0(2) by auto
  then have "limiter_run (before @ (i, t) # between @ [(i, t')]) l0 = Some ((rs1 @ r # rs3) @ [True], l4)"
    using run1(1) l2(1) run3 by (simp add: limiter_run_append)
  then show ?thesis by blast
qed

theorem rate_admits_after_interval_witness:
  "\<exists>rs l. limiter_run ([(''a'', 0)] @ (''a'', 10) # [(''b'', 20)] @ [(''a'', 1000010)])
            \<lparr>limit = 1, interval = 1000000, refill_schedule = [], buckets = Mapping.empty\<rparr> =
          Some (rs @ [True], l)"
  by (rule rate_admits_after_interval [of "\<lparr>cfg_limit = 1, cfg_interval = 1000000\<rparr>"])
    (simp_all add: RateLimiter_new_def U32_MAX_def)

end
