(* ===== verification/Relay_Circuit.thy ===== *)
theory Relay_Circuit
  imports Async_Io
begin

text \<open>
  The future that forwards the data of a relayed circuit in both directions (\<open>protocols/relay/src/v2/copy_future.rs\<close>).

  The two substreams, each behind a \<open>BufReader\<close>, are parameters: a record of their operations on a state of any type. So is the
  timer. What the future relies on is stated as \<open>duplex_laws\<close>. A panic, here the overflow of the counter of bytes, is
  \<open>None\<close>; \<open>usize\<close> is taken to fit into \<open>u64\<close>.
\<close>

section \<open>Definitions\<close>

record 'r duplex =
  d_fill_buf :: "'r \<Rightarrow> (io_error + bytes) poll \<times> 'r"
  d_consume :: "nat \<Rightarrow> 'r \<Rightarrow> 'r"
  d_write :: "bytes \<Rightarrow> 'r \<Rightarrow> (io_error + nat) poll \<times> 'r"
  d_flush :: "'r \<Rightarrow> (io_error + unit) poll \<times> 'r"
  d_close :: "'r \<Rightarrow> (io_error + unit) poll \<times> 'r"

record ('s, 'd, 't) CopyFuture =
  cf_src :: 's
  cf_dst :: 'd
  max_circuit_duration :: 't
  max_circuit_bytes :: nat
  bytes_sent :: nat

datatype circuit_error = CircuitIo io_error | MaxCircuitBytesReached | CircuitTimedOut

datatype Status = StatusPending | StatusDone | StatusProgressed

definition CopyFuture_new ::
  "('s0 \<Rightarrow> 's) \<Rightarrow> ('d0 \<Rightarrow> 'd) \<Rightarrow> (duration \<Rightarrow> 't) \<Rightarrow> 's0 \<Rightarrow> 'd0 \<Rightarrow> duration \<Rightarrow> nat \<Rightarrow> ('s, 'd, 't) CopyFuture" where
  "CopyFuture_new buf_src buf_dst delay src dst dur max_bytes =
     \<lparr>cf_src = buf_src src, cf_dst = buf_dst dst, max_circuit_duration = delay dur,
      max_circuit_bytes = max_bytes, bytes_sent = 0\<rparr>"

text \<open>The end of the data: flush and close the destination.\<close>

definition finish_forward :: "'d duplex \<Rightarrow> 'd \<Rightarrow> (io_error + nat) poll \<times> 'd" where
  "finish_forward B dst =
     (case d_flush B dst of
        (Pending, dst1) \<Rightarrow> (Pending, dst1)
      | (Ready (Inl e), dst1) \<Rightarrow> (Ready (Inl e), dst1)
      | (Ready (Inr _), dst1) \<Rightarrow>
          (case d_close B dst1 of
             (Pending, dst2) \<Rightarrow> (Pending, dst2)
           | (Ready (Inl e), dst2) \<Rightarrow> (Ready (Inl e), dst2)
           | (Ready (Inr _), dst2) \<Rightarrow> (Ready (Inr 0), dst2)))"

definition forward_data :: "'s duplex \<Rightarrow> 'd duplex \<Rightarrow> 's \<Rightarrow> 'd \<Rightarrow> (io_error + nat) poll \<times> 's \<times> 'd" where
  "forward_data A B src dst =
     (case d_fill_buf A src of
        (Pending, src1) \<Rightarrow> (Pending, src1, dst)
      | (Ready (Inl e), src1) \<Rightarrow> (Ready (Inl e), src1, dst)
      | (Ready (Inr buffer), src1) \<Rightarrow>
          if buffer = [] then (case finish_forward B dst of (r, dst1) \<Rightarrow> (r, src1, dst1))
          else (case d_write B buffer dst of
             (Pending, dst1) \<Rightarrow> (Pending, src1, dst1)
           | (Ready (Inl e), dst1) \<Rightarrow> (Ready (Inl e), src1, dst1)
           | (Ready (Inr i), dst1) \<Rightarrow>
               if i = 0 then (Ready (Inl WriteZero), src1, dst1)
               else (Ready (Inr i), d_consume A i src1, dst1)))"

text \<open>The status of one direction, with the new counter of bytes.\<close>

definition forward_status :: "(io_error + nat) poll \<Rightarrow> nat \<Rightarrow> (io_error + Status \<times> nat) option" where
  "forward_status r sent =
     (case r of
        Ready (Inl e) \<Rightarrow> Some (Inl e)
      | Ready (Inr i) \<Rightarrow>
          if i = 0 then Some (Inr (StatusDone, sent))
          else if sent + i < 2 ^ 64 then Some (Inr (StatusProgressed, sent + i)) else None
      | Pending \<Rightarrow> Some (Inr (StatusPending, sent)))"

text \<open>One turn of the loop: it returns from the function, leaves the loop, or goes on.\<close>

datatype turn = Return "circuit_error + unit" | Break | Continue

definition copy_turn ::
  "'s duplex \<Rightarrow> 'd duplex \<Rightarrow> ('s, 'd, 't) CopyFuture \<Rightarrow> (turn \<times> ('s, 'd, 't) CopyFuture) option" where
  "copy_turn A B s =
     (if bytes_sent s > max_circuit_bytes s then Some (Return (Inl MaxCircuitBytesReached), s)
      else case forward_data A B (cf_src s) (cf_dst s) of (r1, src1, dst1) \<Rightarrow>
        (case forward_status r1 (bytes_sent s) of
           None \<Rightarrow> None
         | Some (Inl e) \<Rightarrow> Some (Return (Inl (CircuitIo e)), s\<lparr>cf_src := src1, cf_dst := dst1\<rparr>)
         | Some (Inr (src_status, n1)) \<Rightarrow>
             (case forward_data B A dst1 src1 of (r2, dst2, src2) \<Rightarrow>
                (case forward_status r2 n1 of
                   None \<Rightarrow> None
                 | Some (Inl e) \<Rightarrow>
                     Some (Return (Inl (CircuitIo e)), s\<lparr>cf_src := src2, cf_dst := dst2, bytes_sent := n1\<rparr>)
                 | Some (Inr (dst_status, n2)) \<Rightarrow>
                     Some (if src_status = StatusDone \<and> dst_status = StatusDone then Return (Inr ())
                           else if src_status = StatusProgressed \<or> dst_status = StatusProgressed then Continue
                           else Break,
                           s\<lparr>cf_src := src2, cf_dst := dst2, bytes_sent := n2\<rparr>)))))"

lemma forward_status_Some:
  "forward_status r n = Some (Inr (st, n')) \<longleftrightarrow>
     (r = Pending \<and> st = StatusPending \<and> n' = n \<or> r = Ready (Inr 0) \<and> st = StatusDone \<and> n' = n \<or>
      (\<exists>i. r = Ready (Inr i) \<and> 0 < i \<and> st = StatusProgressed \<and> n' = n + i \<and> n' < 2 ^ 64))"
  by (auto simp: forward_status_def split: poll.splits sum.splits if_splits)

lemma copy_turn_continues:
  assumes "copy_turn A B s = Some (Continue, s')"
  shows "bytes_sent s \<le> max_circuit_bytes s" "bytes_sent s < bytes_sent s'" "max_circuit_bytes s' = max_circuit_bytes s"
  using assms
  by (auto simp: copy_turn_def forward_status_Some split: if_splits option.splits sum.splits prod.splits)

lemma copy_turn_decreases:
  "copy_turn A B s = Some (Continue, s') \<Longrightarrow>
     Suc (max_circuit_bytes s') - bytes_sent s' < Suc (max_circuit_bytes s) - bytes_sent s"
  using copy_turn_continues [of A B s s'] by auto

function copy_loop ::
  "'s duplex \<Rightarrow> 'd duplex \<Rightarrow> ('s, 'd, 't) CopyFuture \<Rightarrow> ((circuit_error + unit) option \<times> ('s, 'd, 't) CopyFuture) option" where
  "copy_loop A B s =
     (case copy_turn A B s of
        None \<Rightarrow> None
      | Some (Return r, s') \<Rightarrow> Some (Some r, s')
      | Some (Break, s') \<Rightarrow> Some (None, s')
      | Some (Continue, s') \<Rightarrow> copy_loop A B s')"
  by pat_completeness auto
termination by (relation "measure (\<lambda>(_, _, s). Suc (max_circuit_bytes s) - bytes_sent s)")
    (auto intro: copy_turn_decreases)

declare copy_loop.simps [simp del]

definition CopyFuture_poll ::
  "('t \<Rightarrow> unit poll \<times> 't) \<Rightarrow> 's duplex \<Rightarrow> 'd duplex \<Rightarrow> ('s, 'd, 't) CopyFuture
    \<Rightarrow> ((circuit_error + unit) poll \<times> ('s, 'd, 't) CopyFuture) option" where
  "CopyFuture_poll timer A B s =
     (case copy_loop A B s of
        None \<Rightarrow> None
      | Some (Some r, s') \<Rightarrow> Some (Ready r, s')
      | Some (None, s') \<Rightarrow>
          (case timer (max_circuit_duration s') of
             (Ready _, t) \<Rightarrow> Some (Ready (Inl CircuitTimedOut), s'\<lparr>max_circuit_duration := t\<rparr>)
           | (Pending, t) \<Rightarrow> Some (Pending, s'\<lparr>max_circuit_duration := t\<rparr>)))"

text \<open>Polling up to \<open>n\<close> times, as long as the future is not ready.\<close>

fun copy_polls ::
  "nat \<Rightarrow> ('t \<Rightarrow> unit poll \<times> 't) \<Rightarrow> 's duplex \<Rightarrow> 'd duplex \<Rightarrow> ('s, 'd, 't) CopyFuture
    \<Rightarrow> ((circuit_error + unit) poll \<times> ('s, 'd, 't) CopyFuture) option" where
  "copy_polls 0 timer A B s = Some (Pending, s)"
| "copy_polls (Suc n) timer A B s =
     (case CopyFuture_poll timer A B s of
        None \<Rightarrow> None
      | Some (Ready r, s') \<Rightarrow> Some (Ready r, s')
      | Some (Pending, s') \<Rightarrow> copy_polls n timer A B s')"

section \<open>What the future relies on\<close>

text \<open>
  What can be observed of a substream: the bytes consumed from it and those written to it since the circuit was set up, whether its end
  was reached and whether it is closed for writing.
\<close>

record 'r duplex_view =
  v_consumed :: "'r \<Rightarrow> bytes"
  v_written :: "'r \<Rightarrow> bytes"
  v_ended :: "'r \<Rightarrow> bool"
  v_closed :: "'r \<Rightarrow> bool"

definition same_data :: "'r duplex_view \<Rightarrow> 'r \<Rightarrow> 'r \<Rightarrow> bool" where
  "same_data V r r' \<longleftrightarrow> v_consumed V r' = v_consumed V r \<and> v_written V r' = v_written V r"

text \<open>
  The documented behaviour of \<open>AsyncBufRead\<close> and \<open>AsyncWrite\<close>: \<open>poll_fill_buf\<close> returns at most a buffer of data, nothing at the end,
  and the data is handed out by \<open>consume\<close>; a write takes a prefix of what it is given; the other operations move no data.
\<close>

definition duplex_laws :: "nat \<Rightarrow> 'r duplex \<Rightarrow> 'r duplex_view \<Rightarrow> bool" where
  "duplex_laws cap A V \<longleftrightarrow>
     (\<forall>r x r'. d_fill_buf A r = (x, r') \<longrightarrow> same_data V r r' \<and> (v_closed V r \<longrightarrow> v_closed V r')) \<and>
     (\<forall>r bs r'. d_fill_buf A r = (Ready (Inr bs), r') \<longrightarrow> length bs \<le> cap \<and> (bs = [] \<longrightarrow> v_ended V r') \<and>
        (\<forall>n \<le> length bs. v_consumed V (d_consume A n r') = v_consumed V r @ take n bs \<and>
                           v_written V (d_consume A n r') = v_written V r)) \<and>
     (\<forall>bs r n r'. d_write A bs r = (Ready (Inr n), r') \<longrightarrow> n \<le> length bs \<and>
        v_consumed V r' = v_consumed V r \<and> v_written V r' = v_written V r @ take n bs) \<and>
     (\<forall>bs r x r'. d_write A bs r = (x, r') \<and> (\<forall>n. x \<noteq> Ready (Inr n)) \<longrightarrow> same_data V r r') \<and>
     (\<forall>r x r'. d_flush A r = (x, r') \<longrightarrow> same_data V r r' \<and> (v_ended V r \<longrightarrow> v_ended V r')) \<and>
     (\<forall>r x r'. d_close A r = (x, r') \<longrightarrow> same_data V r r' \<and> (v_ended V r \<longrightarrow> v_ended V r') \<and>
        (x = Ready (Inr ()) \<longrightarrow> v_closed V r'))"

lemmas duplex_lawsD =
  duplex_laws_def [THEN iffD1, THEN conjunct1, rule_format]
  duplex_laws_def [THEN iffD1, THEN conjunct2, THEN conjunct1, rule_format]
  duplex_laws_def [THEN iffD1, THEN conjunct2, THEN conjunct2, THEN conjunct1, rule_format]
  duplex_laws_def [THEN iffD1, THEN conjunct2, THEN conjunct2, THEN conjunct2, THEN conjunct1, rule_format]
  duplex_laws_def [THEN iffD1, THEN conjunct2, THEN conjunct2, THEN conjunct2, THEN conjunct2, THEN conjunct1, rule_format]
  duplex_laws_def [THEN iffD1, THEN conjunct2, THEN conjunct2, THEN conjunct2, THEN conjunct2, THEN conjunct2, rule_format]

section \<open>One direction\<close>

lemma finish_forward_laws:
  assumes B: "duplex_laws cap B W" and f: "finish_forward B dst = (x, dst')"
  shows "same_data W dst dst' \<and> (v_ended W dst \<longrightarrow> v_ended W dst') \<and>
    (\<forall>i. x = Ready (Inr i) \<longrightarrow> i = 0 \<and> v_closed W dst')"
proof -
  obtain y d1 where fl: "d_flush B dst = (y, d1)" by (cases "d_flush B dst")
  obtain z d2 where cl: "d_close B d1 = (z, d2)" by (cases "d_close B d1")
  note 1 = duplex_lawsD(5) [OF B fl] and 2 = duplex_lawsD(6) [OF B cl]
  have "dst' = d1 \<and> (\<forall>i. x \<noteq> Ready (Inr i)) \<or> dst' = d2 \<and> (\<forall>i. x = Ready (Inr i) \<longrightarrow> i = 0 \<and> z = Ready (Inr ()))"
    using f unfolding finish_forward_def fl cl prod.case by (auto split: poll.splits sum.splits)
  then show ?thesis using 1 2 unfolding same_data_def by metis
qed

definition moved :: "(io_error + nat) poll \<Rightarrow> nat" where
  "moved x = (case x of Ready (Inr i) \<Rightarrow> i | _ \<Rightarrow> 0)"

definition forwarded :: "nat \<Rightarrow> 's duplex_view \<Rightarrow> 'd duplex_view \<Rightarrow> nat \<Rightarrow> 's \<Rightarrow> 'd \<Rightarrow> 's \<Rightarrow> 'd \<Rightarrow> bool" where
  "forwarded cap V W k src dst src' dst' \<longleftrightarrow> k \<le> cap \<and>
     (\<exists>bs. length bs = k \<and> v_consumed V src' = v_consumed V src @ bs \<and> v_written W dst' = v_written W dst @ bs) \<and>
     v_written V src' = v_written V src \<and> v_consumed W dst' = v_consumed W dst"

lemma forwarded_none: "same_data V src src' \<Longrightarrow> same_data W dst dst' \<Longrightarrow> forwarded cap V W 0 src dst src' dst'"
  by (simp add: forwarded_def same_data_def)

lemma same_data_refl [simp]: "same_data V r r"
  by (simp add: same_data_def)

lemma forward_data_moves:
  assumes A: "duplex_laws cap A V" and B: "duplex_laws cap B W" and f: "forward_data A B src dst = (x, src', dst')"
  shows "forwarded cap V W (moved x) src dst src' dst'"
proof -
  obtain y s1 where fb: "d_fill_buf A src = (y, s1)" by (cases "d_fill_buf A src")
  have same: "same_data V src s1" using duplex_lawsD(1) [OF A fb] by simp
  show ?thesis
  proof (cases "\<exists>b bs. y = Ready (Inr (b # bs))")
    case False
    then consider "y = Pending" | e where "y = Ready (Inl e)" | "y = Ready (Inr [])"
      by (metis list.exhaust poll.exhaust sum.exhaust)
    then show ?thesis
    proof cases
      case 3
      obtain z d1 where fin: "finish_forward B dst = (z, d1)" by (cases "finish_forward B dst")
      have "x = z" "src' = s1" "dst' = d1" using f by (auto simp: forward_data_def fb 3 fin)
      moreover have "same_data W dst d1" "moved z = 0"
        using finish_forward_laws [OF B fin] by (auto simp: moved_def split: poll.splits sum.splits)
      ultimately show ?thesis using same by (simp add: forwarded_none)
    qed (use f same in \<open>auto simp: forward_data_def fb moved_def forwarded_none\<close>)
  next
    case True
    then obtain bs where bs: "y = Ready (Inr bs)" "bs \<noteq> []" by blast
    obtain z d1 where wr: "d_write B bs dst = (z, d1)" by (cases "d_write B bs dst")
    show ?thesis
    proof (cases "\<exists>n. z = Ready (Inr n)")
      case False
      then have "same_data W dst d1" using duplex_lawsD(4) [OF B, of bs dst z d1] wr False by simp
      moreover have "src' = s1" "dst' = d1" "moved x = 0"
        using f False bs by (auto simp: forward_data_def fb wr moved_def split: poll.splits sum.splits)
      ultimately show ?thesis using same by (simp add: forwarded_none)
    next
      case True
      then obtain n where n: "z = Ready (Inr n)" by blast
      note w = duplex_lawsD(3) [OF B wr [unfolded n]]
      note c = duplex_lawsD(2) [OF A fb [unfolded bs(1)]]
      show ?thesis
      proof (cases "n = 0")
        case True
        then have "x = Ready (Inl WriteZero)" "src' = s1" "dst' = d1" using f bs by (auto simp: forward_data_def fb wr n)
        then show ?thesis using same w True by (simp add: forwarded_none moved_def same_data_def)
      next
        case False
        then have "x = Ready (Inr n)" "src' = d_consume A n s1" "dst' = d1" using f bs by (auto simp: forward_data_def fb wr n)
        then show ?thesis using w c by (auto simp: forwarded_def moved_def intro!: exI [of _ "take n bs"])
      qed
    qed
  qed
qed

lemma forward_data_done:
  assumes A: "duplex_laws cap A V" and B: "duplex_laws cap B W" and f: "forward_data A B src dst = (Ready (Inr 0), src', dst')"
  shows "v_ended V src' \<and> v_closed W dst' \<and> (v_closed V src \<longrightarrow> v_closed V src') \<and> (v_ended W dst \<longrightarrow> v_ended W dst')"
proof -
  obtain y s1 where fb: "d_fill_buf A src = (y, s1)" by (cases "d_fill_buf A src")
  obtain z d1 where fin: "finish_forward B dst = (z, d1)" by (cases "finish_forward B dst")
  have y: "y = Ready (Inr [])" and eq: "z = Ready (Inr 0)" "src' = s1" "dst' = d1"
    using f by (auto simp: forward_data_def fb fin split: poll.splits sum.splits if_splits prod.splits)
  show ?thesis
    using finish_forward_laws [OF B fin] duplex_lawsD(1) [OF A fb] duplex_lawsD(2) [OF A fb [unfolded y]] eq by auto
qed

section \<open>Both directions\<close>

text \<open>What was written on each side is what was consumed on the other, and \<open>n\<close> bytes were written in total.\<close>

definition balanced :: "'s duplex_view \<Rightarrow> 'd duplex_view \<Rightarrow> 's \<Rightarrow> 'd \<Rightarrow> nat \<Rightarrow> bool" where
  "balanced V W src dst n \<longleftrightarrow> v_written W dst = v_consumed V src \<and> v_written V src = v_consumed W dst \<and>
     n = length (v_written W dst) + length (v_written V src)"

definition circuit_inv :: "nat \<Rightarrow> 's duplex_view \<Rightarrow> 'd duplex_view \<Rightarrow> nat \<Rightarrow> ('s, 'd, 't) CopyFuture \<Rightarrow> bool" where
  "circuit_inv cap V W m s \<longleftrightarrow> balanced V W (cf_src s) (cf_dst s) (bytes_sent s) \<and>
     max_circuit_bytes s = m \<and> bytes_sent s \<le> m + 2 * cap"

definition circuit_done :: "'s duplex_view \<Rightarrow> 'd duplex_view \<Rightarrow> ('s, 'd, 't) CopyFuture \<Rightarrow> bool" where
  "circuit_done V W s \<longleftrightarrow> v_ended V (cf_src s) \<and> v_ended W (cf_dst s) \<and> v_closed V (cf_src s) \<and> v_closed W (cf_dst s)"

definition result_ok :: "'s duplex_view \<Rightarrow> 'd duplex_view \<Rightarrow> circuit_error + unit \<Rightarrow> ('s, 'd, 't) CopyFuture \<Rightarrow> bool" where
  "result_ok V W r s \<longleftrightarrow> (r = Inr () \<longrightarrow> circuit_done V W s) \<and>
     (r = Inl MaxCircuitBytesReached \<longrightarrow> max_circuit_bytes s < bytes_sent s)"

lemma balanced_sym: "balanced V W src dst n \<longleftrightarrow> balanced W V dst src n"
  by (auto simp: balanced_def)

lemma balanced_forwarded:
  assumes "balanced V W src dst n" "forwarded cap V W k src dst src' dst'"
  shows "balanced V W src' dst' (n + k)"
  using assms by (auto simp: balanced_def forwarded_def)

lemma forward_status_cases:
  assumes "n + moved r < 2 ^ 64"
  obtains e where "r = Ready (Inl e)" "forward_status r n = Some (Inl e)"
  | st where "forward_status r n = Some (Inr (st, n + moved r))" "st = StatusDone \<longleftrightarrow> r = Ready (Inr 0)"
proof (cases r)
  case Pending
  then show ?thesis by (intro that(2) [of StatusPending]) (simp_all add: forward_status_def moved_def)
next
  case (Ready x)
  then show ?thesis
    using assms that by (cases x; cases "x = Inr 0") (simp_all add: forward_status_def moved_def)
qed

lemma copy_turn_ok:
  assumes A: "duplex_laws cap A V" and B: "duplex_laws cap B W" and small: "m + 2 * cap < 2 ^ 64" and inv: "circuit_inv cap V W m s"
  shows "\<exists>tn s'. copy_turn A B s = Some (tn, s') \<and> circuit_inv cap V W m s' \<and> (\<forall>r. tn = Return r \<longrightarrow> result_ok V W r s')"
proof (cases "bytes_sent s > max_circuit_bytes s")
  case True
  then show ?thesis using inv by (simp add: copy_turn_def result_ok_def)
next
  case False
  obtain r1 src1 dst1 where f1: "forward_data A B (cf_src s) (cf_dst s) = (r1, src1, dst1)"
    by (cases "forward_data A B (cf_src s) (cf_dst s)")
  obtain r2 dst2 src2 where f2: "forward_data B A dst1 src1 = (r2, dst2, src2)"
    by (cases "forward_data B A dst1 src1")
  let ?n1 = "bytes_sent s + moved r1" and ?n2 = "bytes_sent s + moved r1 + moved r2"
  note fw1 = forward_data_moves [OF A B f1] and fw2 = forward_data_moves [OF B A f2]
  have max: "max_circuit_bytes s = m" using inv by (simp add: circuit_inv_def)
  have le: "?n1 \<le> m + cap" "?n2 \<le> m + 2 * cap" using False fw1 fw2 by (auto simp: forwarded_def max)
  have bal1: "balanced V W src1 dst1 ?n1" using inv fw1 by (auto simp: circuit_inv_def intro: balanced_forwarded)
  have bal2: "balanced V W src2 dst2 ?n2"
    using balanced_forwarded [OF bal1 [unfolded balanced_sym [of V]] fw2] by (simp add: balanced_sym [of V])
  have lim: "?n1 < 2 ^ 64" "?n2 < 2 ^ 64" using le small by linarith+
  note turn = copy_turn_def [of A B s] f1 f2 False [unfolded max] max
  show ?thesis
  proof (cases rule: forward_status_cases [OF lim(1)])
    case (1 e)
    then show ?thesis using bal1 le by (simp add: turn circuit_inv_def result_ok_def moved_def)
  next
    case st1: (2 st1)
    show ?thesis
    proof (cases rule: forward_status_cases [OF lim(2)])
      case (1 e)
      then show ?thesis using bal2 le by (simp add: turn st1(1) circuit_inv_def result_ok_def moved_def)
    next
      case st2: (2 st2)
      let ?s = "s\<lparr>cf_src := src2, cf_dst := dst2, bytes_sent := ?n2\<rparr>"
      have "circuit_done V W ?s" if fin: "st1 = StatusDone" "st2 = StatusDone"
      proof -
        have "r1 = Ready (Inr 0)" "r2 = Ready (Inr 0)" using fin st1(2) st2(2) by simp_all
        then show ?thesis
          using forward_data_done [OF A B, of "cf_src s" "cf_dst s" src1 dst1] forward_data_done [OF B A, of dst1 src1 dst2 src2]
          by (simp add: f1 f2 circuit_done_def)
      qed
      then show ?thesis
        using bal2 le by (auto simp: turn st1(1) st2(1) circuit_inv_def result_ok_def)
    qed
  qed
qed

lemma copy_loop_ok:
  assumes "duplex_laws cap A V" "duplex_laws cap B W" "m + 2 * cap < 2 ^ 64" "circuit_inv cap V W m s"
  shows "\<exists>x s'. copy_loop A B s = Some (x, s') \<and> circuit_inv cap V W m s' \<and> (\<forall>r. x = Some r \<longrightarrow> result_ok V W r s')"
  using assms
proof (induction A B s rule: copy_loop.induct)
  case (1 A B s)
  obtain tn s' where t: "copy_turn A B s = Some (tn, s')" "circuit_inv cap V W m s'" "\<forall>r. tn = Return r \<longrightarrow> result_ok V W r s'"
    using copy_turn_ok [OF "1.prems"] by blast
  show ?case
  proof (cases tn)
    case Continue
    then show ?thesis using "1.IH" [OF t(1)] "1.prems" t by (simp add: copy_loop.simps [of A B s])
  qed (use t in \<open>simp_all add: copy_loop.simps [of A B s]\<close>)
qed

lemma CopyFuture_poll_ok:
  assumes "duplex_laws cap A V" "duplex_laws cap B W" "m + 2 * cap < 2 ^ 64" "circuit_inv cap V W m s"
  shows "\<exists>x s'. CopyFuture_poll timer A B s = Some (x, s') \<and> circuit_inv cap V W m s' \<and> (\<forall>r. x = Ready r \<longrightarrow> result_ok V W r s')"
proof -
  obtain x s' where l: "copy_loop A B s = Some (x, s')" "circuit_inv cap V W m s'" "\<forall>r. x = Some r \<longrightarrow> result_ok V W r s'"
    using copy_loop_ok [OF assms] by blast
  obtain y t where y: "timer (max_circuit_duration s') = (y, t)" by (cases "timer (max_circuit_duration s')")
  show ?thesis
    using l by (cases x; cases y) (simp_all add: CopyFuture_poll_def y circuit_inv_def result_ok_def)
qed

lemma copy_polls_ok:
  assumes "duplex_laws cap A V" "duplex_laws cap B W" "m + 2 * cap < 2 ^ 64" "circuit_inv cap V W m s"
  shows "\<exists>x s'. copy_polls n timer A B s = Some (x, s') \<and> circuit_inv cap V W m s' \<and> (\<forall>r. x = Ready r \<longrightarrow> result_ok V W r s')"
  using assms(4)
proof (induction n arbitrary: s)
  case (Suc n)
  obtain x s' where p: "CopyFuture_poll timer A B s = Some (x, s')" "circuit_inv cap V W m s'" "\<forall>r. x = Ready r \<longrightarrow> result_ok V W r s'"
    using CopyFuture_poll_ok [OF assms(1-3) Suc.prems] by blast
  then show ?case using Suc.IH [OF p(2)] by (cases x) simp_all
qed simp

text \<open>
  C13. A relayed circuit. However the two substreams behave within their contract, and however often the future is polled, it does not panic and
  every poll returns. On each side exactly the bytes consumed on the other were written, in their order. No more than the
  allowed number of bytes and two further buffers were forwarded, and the circuit is ended for its limit only if more than that number were.
  If it ends without an error, both sides have reached their end and both are closed.
\<close>
theorem circuit_forwards:
  fixes A :: "'s duplex" and B :: "'d duplex" and timer :: "'t \<Rightarrow> unit poll \<times> 't"
  assumes A: "duplex_laws cap A V" and B: "duplex_laws cap B W" and small: "max_bytes + 2 * cap < 2 ^ 64"
    and fresh: "v_consumed V (buf_src src) = []" "v_written V (buf_src src) = []"
      "v_consumed W (buf_dst dst) = []" "v_written W (buf_dst dst) = []"
  shows "\<exists>x s. copy_polls n timer A B (CopyFuture_new buf_src buf_dst delay src dst dur max_bytes) = Some (x, s) \<and>
    v_written W (cf_dst s) = v_consumed V (cf_src s) \<and> v_written V (cf_src s) = v_consumed W (cf_dst s) \<and>
    bytes_sent s = length (v_written W (cf_dst s)) + length (v_written V (cf_src s)) \<and> bytes_sent s \<le> max_bytes + 2 * cap \<and>
    (x = Ready (Inl MaxCircuitBytesReached) \<longrightarrow> max_bytes < bytes_sent s) \<and>
    (x = Ready (Inr ()) \<longrightarrow> v_ended V (cf_src s) \<and> v_ended W (cf_dst s) \<and> v_closed V (cf_src s) \<and> v_closed W (cf_dst s))"
proof -
  let ?s = "CopyFuture_new buf_src buf_dst delay src dst dur max_bytes"
  have "circuit_inv cap V W max_bytes ?s"
    using fresh by (simp add: circuit_inv_def balanced_def CopyFuture_new_def)
  from copy_polls_ok [OF A B small this, of n timer]
  obtain x s where s: "copy_polls n timer A B ?s = Some (x, s)" "circuit_inv cap V W max_bytes s" "\<forall>r. x = Ready r \<longrightarrow> result_ok V W r s"
    by blast
  show ?thesis
    using s by (intro exI [of _ x] exI [of _ s]) (auto simp: circuit_inv_def balanced_def result_ok_def circuit_done_def)
qed

text \<open>A substream in memory: its input, what was consumed of it, what was written, and whether it is closed.\<close>

definition mem_duplex :: "(bytes \<times> bytes \<times> bytes \<times> bool) duplex" where
  "mem_duplex =
     \<lparr>d_fill_buf = (\<lambda>r. (Ready (Inr (take 2 (fst r))), r)),
      d_consume = (\<lambda>n (i, c, w, x). (drop n i, c @ take n (take 2 i), w, x)),
      d_write = (\<lambda>bs (i, c, w, x). (Ready (Inr (length bs)), (i, c, w @ bs, x))),
      d_flush = (\<lambda>r. (Ready (Inr ()), r)),
      d_close = (\<lambda>(i, c, w, x). (Ready (Inr ()), (i, c, w, True)))\<rparr>"

definition mem_view :: "(bytes \<times> bytes \<times> bytes \<times> bool) duplex_view" where
  "mem_view = \<lparr>v_consumed = (\<lambda>(i, c, w, x). c), v_written = (\<lambda>(i, c, w, x). w), v_ended = (\<lambda>(i, c, w, x). i = []), v_closed = (\<lambda>(i, c, w, x). x)\<rparr>"

lemma mem_duplex_laws: "duplex_laws 2 mem_duplex mem_view"
  by (auto simp: duplex_laws_def mem_duplex_def mem_view_def same_data_def)

lemmas mem_eval = CopyFuture_poll_def copy_loop.simps copy_turn_def forward_data_def finish_forward_def forward_status_def
  mem_duplex_def CopyFuture_new_def

theorem circuit_forwards_witness:
  "\<exists>s. copy_polls 1 (\<lambda>_. (Pending, ())) mem_duplex mem_duplex
      (CopyFuture_new (\<lambda>i. (i, [], [], False)) (\<lambda>i. (i, [], [], False)) (\<lambda>_. ()) [1, 2, 3] [4] 60 10) = Some (Ready (Inr ()), s) \<and>
    v_consumed mem_view (cf_src s) = [1, 2, 3] \<and> v_written mem_view (cf_dst s) = [1, 2, 3] \<and>
    v_written mem_view (cf_src s) = [4] \<and> v_closed mem_view (cf_src s) \<and> v_closed mem_view (cf_dst s)"
proof -
  let ?poll = "copy_polls 1 (\<lambda>_. (Pending, ())) mem_duplex mem_duplex
      (CopyFuture_new (\<lambda>i. (i, [], [], False)) (\<lambda>i. (i, [], [], False)) (\<lambda>_. ()) [1, 2, 3] [4] 60 10)"
  let ?s = "\<lparr>cf_src = ([], [1, 2, 3], [4], True), cf_dst = ([], [4], [1, 2, 3], True),
    max_circuit_duration = (), max_circuit_bytes = 10, bytes_sent = 4\<rparr> :: (bytes \<times> bytes \<times> bytes \<times> bool, bytes \<times> bytes \<times> bytes \<times> bool, unit) CopyFuture"
  have run: "?poll = Some (Ready (Inr ()), ?s)" by (simp add: mem_eval)
  obtain x s where s: "?poll = Some (x, s)" "v_written mem_view (cf_dst s) = v_consumed mem_view (cf_src s)"
    "x = Ready (Inr ()) \<longrightarrow> v_closed mem_view (cf_src s) \<and> v_closed mem_view (cf_dst s)"
    using circuit_forwards [OF mem_duplex_laws mem_duplex_laws, of 10 "\<lambda>i. (i, [], [], False)" "[1, 2, 3]" "\<lambda>i. (i, [], [], False)" "[4]"
        1 "\<lambda>_. (Pending, ())" "\<lambda>_. ()" 60]
    by (auto simp: mem_view_def)
  have "x = Ready (Inr ())" "s = ?s" using s(1) run by simp_all
  then show ?thesis using s by (simp add: mem_view_def)
qed

end
