(* ===== verification/Gossip_TimeCache.thy ===== *)
theory Gossip_TimeCache
  imports Prelude
begin

text \<open>
  The time-based cache with which gossipsub recognises duplicate messages and broken promises
  (protocols/gossipsub/src/time_cache.rs): a hash map of values with expiry times, and a queue of
  keys in the order in which they expire. The entry API borrows the cache; here an entry is a
  value that records the key and the expiry time, and its operations take the cache again. The
  clock reading of \<open>entry\<close> is an argument.
\<close>

section \<open>The cache\<close>

record 'e ExpiringElement =
  element :: 'e
  expires :: instant

record ('k, 'v) TimeCache =
  tc_map :: "('k, 'v ExpiringElement) mapping"
  tc_list :: "'k ExpiringElement list"
  tc_ttl :: duration

datatype 'k Entry = Occupied instant 'k | Vacant instant 'k

definition TimeCache_new :: "duration \<Rightarrow> ('k, 'v) TimeCache" where
  "TimeCache_new ttl = \<lparr>tc_map = Mapping.empty, tc_list = [], tc_ttl = ttl\<rparr>"

fun remove_expired ::
  "instant \<Rightarrow> 'k ExpiringElement list \<Rightarrow> ('k, 'v ExpiringElement) mapping \<Rightarrow>
   'k ExpiringElement list \<times> ('k, 'v ExpiringElement) mapping" where
  "remove_expired now [] m = ([], m)"
| "remove_expired now (x # xs) m =
     (if now < expires x then (x # xs, m)
      else remove_expired now xs
             (case Mapping.lookup m (element x) of
                Some e \<Rightarrow> if expires e \<le> now then Mapping.delete (element x) m else m
              | None \<Rightarrow> m))"

definition remove_expired_keys :: "instant \<Rightarrow> ('k, 'v) TimeCache \<Rightarrow> ('k, 'v) TimeCache" where
  "remove_expired_keys now c =
     (let (xs, m) = remove_expired now (tc_list c) (tc_map c) in c\<lparr>tc_list := xs, tc_map := m\<rparr>)"

definition TimeCache_entry :: "'k \<Rightarrow> instant \<Rightarrow> ('k, 'v) TimeCache \<Rightarrow> 'k Entry \<times> ('k, 'v) TimeCache" where
  "TimeCache_entry k now c0 =
     (let c = remove_expired_keys now c0
      in (case Mapping.lookup (tc_map c) k of
            Some _ \<Rightarrow> (Occupied (now + tc_ttl c) k, c)
          | None \<Rightarrow> (Vacant (now + tc_ttl c) k, c)))"

text \<open>
  The operations of an occupied entry return the value they replace; \<open>None\<close> stands for an entry
  whose key is not in the map, which the borrow rules exclude.
\<close>

definition into_mut :: "'k \<Rightarrow> ('k, 'v) TimeCache \<Rightarrow> 'v option" where
  "into_mut k c = map_option element (Mapping.lookup (tc_map c) k)"

definition insert_without_updating_expiration ::
  "'k \<Rightarrow> 'v \<Rightarrow> ('k, 'v) TimeCache \<Rightarrow> ('v \<times> ('k, 'v) TimeCache) option" where
  "insert_without_updating_expiration k v c =
     (case Mapping.lookup (tc_map c) k of
        Some e \<Rightarrow> Some (element e, c\<lparr>tc_map := Mapping.update k (e\<lparr>element := v\<rparr>) (tc_map c)\<rparr>)
      | None \<Rightarrow> None)"

definition push_element :: "instant \<Rightarrow> 'k \<Rightarrow> 'v \<Rightarrow> ('k, 'v) TimeCache \<Rightarrow> ('k, 'v) TimeCache" where
  "push_element expiration k v c =
     c\<lparr>tc_list := tc_list c @ [\<lparr>element = k, expires = expiration\<rparr>],
       tc_map := Mapping.update k \<lparr>element = v, expires = expiration\<rparr> (tc_map c)\<rparr>"

definition insert_and_update_expiration ::
  "instant \<Rightarrow> 'k \<Rightarrow> 'v \<Rightarrow> ('k, 'v) TimeCache \<Rightarrow> ('v \<times> ('k, 'v) TimeCache) option" where
  "insert_and_update_expiration expiration k v c =
     (case Mapping.lookup (tc_map c) k of
        Some e \<Rightarrow> Some (element e, push_element expiration k v c)
      | None \<Rightarrow> None)"

definition VacantEntry_insert :: "instant \<Rightarrow> 'k \<Rightarrow> 'v \<Rightarrow> ('k, 'v) TimeCache \<Rightarrow> ('k, 'v) TimeCache" where
  "VacantEntry_insert expiration k v c = push_element expiration k v c"

fun or_insert_with :: "'v \<Rightarrow> 'k Entry \<times> ('k, 'v) TimeCache \<Rightarrow> 'v option \<times> ('k, 'v) TimeCache" where
  "or_insert_with dflt (Occupied expiration k, c) = (into_mut k c, c)"
| "or_insert_with dflt (Vacant expiration k, c) = (Some dflt, VacantEntry_insert expiration k dflt c)"

definition TimeCache_clear :: "('k, 'v) TimeCache \<Rightarrow> ('k, 'v) TimeCache" where
  "TimeCache_clear c = c\<lparr>tc_map := Mapping.empty, tc_list := []\<rparr>"

definition contains_key :: "'k \<Rightarrow> ('k, 'v) TimeCache \<Rightarrow> bool" where
  "contains_key k c = (Mapping.lookup (tc_map c) k \<noteq> None)"

definition TimeCache_get :: "'k \<Rightarrow> ('k, 'v) TimeCache \<Rightarrow> 'v option" where
  "TimeCache_get k c = map_option element (Mapping.lookup (tc_map c) k)"

text \<open>\<open>get_mut\<close>, with the function \<open>f\<close> that its caller applies to the value.\<close>

definition TimeCache_get_mut :: "('v \<Rightarrow> 'v) \<Rightarrow> 'k \<Rightarrow> ('k, 'v) TimeCache \<Rightarrow> ('k, 'v) TimeCache" where
  "TimeCache_get_mut f k c =
     (case Mapping.lookup (tc_map c) k of
        Some e \<Rightarrow> c\<lparr>tc_map := Mapping.update k (e\<lparr>element := f (element e)\<rparr>) (tc_map c)\<rparr>
      | None \<Rightarrow> c)"

section \<open>The duplicate cache\<close>

type_synonym 'k DuplicateCache = "('k, unit) TimeCache"

definition DuplicateCache_new :: "duration \<Rightarrow> 'k DuplicateCache" where
  "DuplicateCache_new ttl = TimeCache_new ttl"

definition DuplicateCache_insert :: "'k \<Rightarrow> instant \<Rightarrow> 'k DuplicateCache \<Rightarrow> bool \<times> 'k DuplicateCache" where
  "DuplicateCache_insert k now c0 =
     (case TimeCache_entry k now c0 of
        (Vacant expiration k', c) \<Rightarrow> (True, VacantEntry_insert expiration k' () c)
      | (Occupied _ _, c) \<Rightarrow> (False, c))"

definition DuplicateCache_contains :: "'k \<Rightarrow> 'k DuplicateCache \<Rightarrow> bool" where
  "DuplicateCache_contains k c = contains_key k c"

section \<open>Expiry\<close>

text \<open>
  The queue is sorted by expiry, and every entry of the map has a queue element with its expiry.
  The elements that a later insertion of the same key left behind need no further invariant.
\<close>

definition cache_inv :: "instant \<Rightarrow> ('k, 'v) TimeCache \<Rightarrow> bool" where
  "cache_inv t c \<longleftrightarrow>
     sorted (map expires (tc_list c)) \<and> (\<forall>x \<in> set (tc_list c). expires x \<le> t + tc_ttl c) \<and>
     (\<forall>k e. Mapping.lookup (tc_map c) k = Some e \<longrightarrow>
        \<lparr>element = k, expires = expires e\<rparr> \<in> set (tc_list c))"

lemma remove_expired_list:
  "fst (remove_expired now xs m) = dropWhile (\<lambda>x. expires x \<le> now) xs"
  by (induction xs arbitrary: m) (auto simp: not_le)

lemma remove_expired_lookup:
  assumes "sorted (map expires xs)"
    and "\<And>e. Mapping.lookup m k = Some e \<Longrightarrow> expires e \<le> now \<Longrightarrow>
           \<lparr>element = k, expires = expires e\<rparr> \<in> set xs"
  shows "Mapping.lookup (snd (remove_expired now xs m)) k =
    (case Mapping.lookup m k of Some e \<Rightarrow> if expires e \<le> now then None else Some e | None \<Rightarrow> None)"
  using assms
proof (induction xs arbitrary: m)
  case Nil
  then show ?case by (auto split: option.splits)
next
  case (Cons x xs)
  show ?case
  proof (cases "now < expires x")
    case True
    then have "\<forall>y \<in> set (x # xs). now < expires y" using Cons.prems(1) by fastforce
    then have "\<not> expires e \<le> now" if "Mapping.lookup m k = Some e" for e
      using Cons.prems(2) [OF that] by fastforce
    then show ?thesis using True by (auto split: option.splits)
  next
    case False
    define m1 where "m1 = (case Mapping.lookup m (element x) of
                Some e \<Rightarrow> if expires e \<le> now then Mapping.delete (element x) m else m
              | None \<Rightarrow> m)"
    have m1: "Mapping.lookup m1 k = (if k = element x
        then (case Mapping.lookup m k of Some e \<Rightarrow> if expires e \<le> now then None else Some e | None \<Rightarrow> None)
        else Mapping.lookup m k)"
      by (auto simp: m1_def lookup_delete_if split: option.splits)
    have "Mapping.lookup (snd (remove_expired now xs m1)) k =
      (case Mapping.lookup m1 k of Some e \<Rightarrow> if expires e \<le> now then None else Some e | None \<Rightarrow> None)"
    proof (rule Cons.IH)
      show "sorted (map expires xs)" using Cons.prems(1) by simp
      fix e assume e: "Mapping.lookup m1 k = Some e" "expires e \<le> now"
      then have "k \<noteq> element x" "Mapping.lookup m k = Some e"
        unfolding m1 by (auto split: if_splits option.splits)
      then show "\<lparr>element = k, expires = expires e\<rparr> \<in> set xs"
        using Cons.prems(2) e(2) by auto
    qed
    then show ?thesis
      using False by (auto simp: m1 simp flip: m1_def split: option.splits)
  qed
qed

text \<open>The purge removes exactly the entries that are expired.\<close>

definition live :: "instant \<Rightarrow> ('k, 'v ExpiringElement) mapping \<Rightarrow> ('k, 'v ExpiringElement) mapping" where
  "live now m = Mapping.filter (\<lambda>k e. now < expires e) m"

lemma remove_expired_keys_live:
  assumes "cache_inv t c" "t \<le> now"
  shows "tc_map (remove_expired_keys now c) = live now (tc_map c) \<and>
    tc_ttl (remove_expired_keys now c) = tc_ttl c \<and> cache_inv now (remove_expired_keys now c)"
proof -
  let ?c = "remove_expired_keys now c"
  have look: "Mapping.lookup (tc_map ?c) k = Mapping.lookup (live now (tc_map c)) k" for k
    using assms remove_expired_lookup [of "tc_list c" "tc_map c" k now]
    by (auto simp: remove_expired_keys_def case_prod_beta cache_inv_def live_def Mapping.lookup_filter
        split: option.splits)
  then have "tc_map ?c = live now (tc_map c)" by (rule Mapping.mapping_eqI)
  moreover have "sorted (map expires (tc_list ?c))"
    using assms sorted_wrt_dropWhile
    by (simp add: remove_expired_keys_def case_prod_beta remove_expired_list cache_inv_def sorted_map)
  moreover have "x \<in> set (tc_list ?c)" if "x \<in> set (tc_list c)" "now < expires x" for x
    using that by (auto simp: remove_expired_keys_def case_prod_beta remove_expired_list
        dest: set_takeWhileD) (metis Un_iff leD set_append set_takeWhileD takeWhile_dropWhile_id)
  ultimately show ?thesis
    using assms
    by (auto simp: cache_inv_def look live_def Mapping.lookup_filter remove_expired_keys_def
        case_prod_beta remove_expired_list dest!: set_dropWhileD split: option.splits if_splits)
qed


section \<open>Refinement of a map with expiry\<close>

datatype ('k, 'v) cache_op =
    OrInsert 'k 'v instant
  | Refresh 'k 'v instant
  | Replace 'k 'v instant
  | GetMut "'v \<Rightarrow> 'v" 'k
  | Get 'k
  | Clear

text \<open>
  The ways in which the entry API is used: \<open>or_insert_with\<close>, and an insertion into a vacant entry
  or with one of the two operations of an occupied entry. The output is the value that the caller
  sees.
\<close>

fun cache_step :: "('k, 'v) TimeCache \<Rightarrow> ('k, 'v) cache_op \<Rightarrow> ('v option \<times> ('k, 'v) TimeCache) option" where
  "cache_step c (OrInsert k v now) = Some (or_insert_with v (TimeCache_entry k now c))"
| "cache_step c (Refresh k v now) =
     (case TimeCache_entry k now c of
        (Occupied t k', c') \<Rightarrow> map_option (apfst Some) (insert_and_update_expiration t k' v c')
      | (Vacant t k', c') \<Rightarrow> Some (None, VacantEntry_insert t k' v c'))"
| "cache_step c (Replace k v now) =
     (case TimeCache_entry k now c of
        (Occupied t k', c') \<Rightarrow> map_option (apfst Some) (insert_without_updating_expiration k' v c')
      | (Vacant t k', c') \<Rightarrow> Some (None, VacantEntry_insert t k' v c'))"
| "cache_step c (GetMut f k) = Some (TimeCache_get k c, TimeCache_get_mut f k c)"
| "cache_step c (Get k) = Some (TimeCache_get k c, c)"
| "cache_step c Clear = Some (None, TimeCache_clear c)"

text \<open>The specification has no queue: it drops the expired entries of the map itself.\<close>

fun spec_step ::
  "duration \<Rightarrow> ('k, 'v ExpiringElement) mapping \<Rightarrow> ('k, 'v) cache_op \<Rightarrow>
   'v option \<times> ('k, 'v ExpiringElement) mapping" where
  "spec_step ttl m0 (OrInsert k v now) =
     (let m = live now m0 in
      case Mapping.lookup m k of
        Some e \<Rightarrow> (Some (element e), m)
      | None \<Rightarrow> (Some v, Mapping.update k \<lparr>element = v, expires = now + ttl\<rparr> m))"
| "spec_step ttl m0 (Refresh k v now) =
     (let m = live now m0 in
      (map_option element (Mapping.lookup m k),
       Mapping.update k \<lparr>element = v, expires = now + ttl\<rparr> m))"
| "spec_step ttl m0 (Replace k v now) =
     (let m = live now m0 in
      case Mapping.lookup m k of
        Some e \<Rightarrow> (Some (element e), Mapping.update k (e\<lparr>element := v\<rparr>) m)
      | None \<Rightarrow> (None, Mapping.update k \<lparr>element = v, expires = now + ttl\<rparr> m))"
| "spec_step ttl m (GetMut f k) =
     (case Mapping.lookup m k of
        Some e \<Rightarrow> (Some (element e), Mapping.update k (e\<lparr>element := f (element e)\<rparr>) m)
      | None \<Rightarrow> (None, m))"
| "spec_step ttl m (Get k) = (map_option element (Mapping.lookup m k), m)"
| "spec_step ttl m Clear = (None, Mapping.empty)"

fun op_time :: "instant \<Rightarrow> ('k, 'v) cache_op \<Rightarrow> instant" where
  "op_time t (OrInsert k v now) = now"
| "op_time t (Refresh k v now) = now"
| "op_time t (Replace k v now) = now"
| "op_time t _ = t"

fun cache_run :: "('k, 'v) TimeCache \<Rightarrow> ('k, 'v) cache_op list \<Rightarrow> 'v option list option" where
  "cache_run c [] = Some []"
| "cache_run c (x # xs) =
     do { (r, c1) \<leftarrow> cache_step c x; rs \<leftarrow> cache_run c1 xs; Some (r # rs) }"

fun spec_run ::
  "duration \<Rightarrow> ('k, 'v ExpiringElement) mapping \<Rightarrow> ('k, 'v) cache_op list \<Rightarrow> 'v option list" where
  "spec_run ttl m [] = []"
| "spec_run ttl m (x # xs) = (let (r, m1) = spec_step ttl m x in r # spec_run ttl m1 xs)"

text \<open>Operations whose clock readings do not go back.\<close>

fun in_order :: "instant \<Rightarrow> ('k, 'v) cache_op list \<Rightarrow> bool" where
  "in_order t [] \<longleftrightarrow> True"
| "in_order t (x # xs) \<longleftrightarrow> t \<le> op_time t x \<and> in_order (op_time t x) xs"

lemma push_element_inv:
  assumes "cache_inv now c"
  shows "cache_inv now (push_element (now + tc_ttl c) k v c)"
  using assms
  by (auto simp: cache_inv_def push_element_def sorted_append Mapping.lookup_update' split: if_splits)

lemma update_value_inv:
  assumes "cache_inv t c" "Mapping.lookup (tc_map c) k = Some e"
  shows "cache_inv t (c\<lparr>tc_map := Mapping.update k (e\<lparr>element := v\<rparr>) (tc_map c)\<rparr>)"
  using assms by (auto simp: cache_inv_def Mapping.lookup_update')

lemma TimeCache_entry_cases:
  assumes "cache_inv t c" "t \<le> now"
  obtains c' where "cache_inv now c'" "tc_map c' = live now (tc_map c)" "tc_ttl c' = tc_ttl c"
    "TimeCache_entry k now c =
       (case Mapping.lookup (live now (tc_map c)) k of
          Some _ \<Rightarrow> (Occupied (now + tc_ttl c) k, c') | None \<Rightarrow> (Vacant (now + tc_ttl c) k, c'))"
proof (rule that [of "remove_expired_keys now c"])
  show "TimeCache_entry k now c =
      (case Mapping.lookup (live now (tc_map c)) k of
         Some _ \<Rightarrow> (Occupied (now + tc_ttl c) k, remove_expired_keys now c)
       | None \<Rightarrow> (Vacant (now + tc_ttl c) k, remove_expired_keys now c))"
    using remove_expired_keys_live [OF assms] by (simp add: TimeCache_entry_def Let_def split: option.split)
qed (use remove_expired_keys_live [OF assms] in auto)

lemma cache_step_refines:
  assumes inv: "cache_inv t c" and time: "t \<le> op_time t x"
  shows "\<exists>c'. cache_step c x = Some (fst (spec_step (tc_ttl c) (tc_map c) x), c') \<and>
    tc_map c' = snd (spec_step (tc_ttl c) (tc_map c) x) \<and> tc_ttl c' = tc_ttl c \<and>
    cache_inv (op_time t x) c'"
proof (cases x)
  case (OrInsert k v now)
  obtain c' where c': "cache_inv now c'" "tc_map c' = live now (tc_map c)" "tc_ttl c' = tc_ttl c"
    "TimeCache_entry k now c = (case Mapping.lookup (live now (tc_map c)) k of
       Some _ \<Rightarrow> (Occupied (now + tc_ttl c) k, c') | None \<Rightarrow> (Vacant (now + tc_ttl c) k, c'))"
    using TimeCache_entry_cases [OF inv, of now k] time OrInsert by auto
  then show ?thesis
    using OrInsert push_element_inv [OF c'(1), of k v]
    by (auto simp: Let_def into_mut_def VacantEntry_insert_def push_element_def split: option.splits)
next
  case (Refresh k v now)
  obtain c' where c': "cache_inv now c'" "tc_map c' = live now (tc_map c)" "tc_ttl c' = tc_ttl c"
    "TimeCache_entry k now c = (case Mapping.lookup (live now (tc_map c)) k of
       Some _ \<Rightarrow> (Occupied (now + tc_ttl c) k, c') | None \<Rightarrow> (Vacant (now + tc_ttl c) k, c'))"
    using TimeCache_entry_cases [OF inv, of now k] time Refresh by auto
  then show ?thesis
    using Refresh push_element_inv [OF c'(1), of k v]
    by (auto simp: Let_def insert_and_update_expiration_def VacantEntry_insert_def push_element_def
        split: option.splits)
next
  case (Replace k v now)
  obtain c' where c': "cache_inv now c'" "tc_map c' = live now (tc_map c)" "tc_ttl c' = tc_ttl c"
    "TimeCache_entry k now c = (case Mapping.lookup (live now (tc_map c)) k of
       Some _ \<Rightarrow> (Occupied (now + tc_ttl c) k, c') | None \<Rightarrow> (Vacant (now + tc_ttl c) k, c'))"
    using TimeCache_entry_cases [OF inv, of now k] time Replace by auto
  then show ?thesis
    using Replace push_element_inv [OF c'(1), of k v] update_value_inv [OF c'(1), of k _ v]
    by (auto simp: Let_def insert_without_updating_expiration_def VacantEntry_insert_def
        push_element_def split: option.splits)
next
  case (GetMut f k)
  then show ?thesis
    using inv update_value_inv [OF inv, of k]
    by (auto simp: TimeCache_get_def TimeCache_get_mut_def split: option.splits)
qed (use inv in \<open>auto simp: TimeCache_get_def TimeCache_clear_def cache_inv_def\<close>)

lemma cache_run_refines:
  assumes "cache_inv t c" "in_order t xs"
  shows "cache_run c xs = Some (spec_run (tc_ttl c) (tc_map c) xs)"
  using assms
proof (induction xs arbitrary: t c)
  case (Cons x xs)
  obtain c' where "cache_step c x = Some (fst (spec_step (tc_ttl c) (tc_map c) x), c')"
    "tc_map c' = snd (spec_step (tc_ttl c) (tc_map c) x)" "tc_ttl c' = tc_ttl c"
    "cache_inv (op_time t x) c'"
    using cache_step_refines [OF Cons.prems(1)] Cons.prems(2) by auto
  then show ?case using Cons.IH [of "op_time t x" c'] Cons.prems(2) by (auto simp: case_prod_beta)
qed simp

lemma TimeCache_new_inv: "cache_inv t (TimeCache_new ttl)"
  by (simp add: cache_inv_def TimeCache_new_def)

text \<open>
  C18. The cache with its queue of keys behaves like a map that drops its expired entries whenever
  it is accessed through an entry: whatever operations are applied at clock readings that do not
  go back, the callers see the same values, although refreshed keys leave outdated elements in the
  queue and values may be replaced without a new expiry.
\<close>
theorem time_cache_refines:
  assumes "in_order 0 xs"
  shows "cache_run (TimeCache_new ttl) xs = Some (spec_run ttl Mapping.empty xs)"
  using cache_run_refines [OF TimeCache_new_inv assms] by (simp add: TimeCache_new_def)

theorem time_cache_refines_witness:
  "cache_run (TimeCache_new 10)
     [OrInsert ''a'' (1::nat) 0, Refresh ''a'' 2 5, Replace ''b'' 3 12, Get ''a'', OrInsert ''a'' 4 15] =
   Some (spec_run 10 Mapping.empty
     [OrInsert ''a'' 1 0, Refresh ''a'' 2 5, Replace ''b'' 3 12, Get ''a'', OrInsert ''a'' 4 15])"
  by (rule time_cache_refines) simp

section \<open>Duplicates\<close>

fun duplicate_run :: "('k \<times> instant) list \<Rightarrow> 'k DuplicateCache \<Rightarrow> bool list \<times> 'k DuplicateCache" where
  "duplicate_run [] c = ([], c)"
| "duplicate_run ((k, now) # xs) c =
     (let (r, c1) = DuplicateCache_insert k now c; (rs, c2) = duplicate_run xs c1 in (r # rs, c2))"

lemma DuplicateCache_insert_spec:
  assumes "cache_inv t c" "t \<le> now"
  shows "\<exists>c'. DuplicateCache_insert k now c = (Mapping.lookup (live now (tc_map c)) k = None, c') \<and>
    cache_inv now c' \<and> tc_ttl c' = tc_ttl c \<and>
    tc_map c' = (case Mapping.lookup (live now (tc_map c)) k of
       None \<Rightarrow> Mapping.update k \<lparr>element = (), expires = now + tc_ttl c\<rparr> (live now (tc_map c))
     | Some _ \<Rightarrow> live now (tc_map c))"
proof -
  obtain c' where c': "cache_inv now c'" "tc_map c' = live now (tc_map c)" "tc_ttl c' = tc_ttl c"
    "TimeCache_entry k now c = (case Mapping.lookup (live now (tc_map c)) k of
       Some _ \<Rightarrow> (Occupied (now + tc_ttl c) k, c') | None \<Rightarrow> (Vacant (now + tc_ttl c) k, c'))"
    using TimeCache_entry_cases [OF assms, of k] by auto
  then show ?thesis
    using push_element_inv [OF c'(1), of k "()"]
    by (auto simp: DuplicateCache_insert_def VacantEntry_insert_def push_element_def
        split: option.splits)
qed


text \<open>
  The reference: the history of the accepted insertions. An insertion is a duplicate when the
  history has one of the same key less than the time to live ago.
\<close>

fun duplicate_spec :: "duration \<Rightarrow> ('k \<times> instant) list \<Rightarrow> ('k \<times> instant) list \<Rightarrow> bool list" where
  "duplicate_spec ttl hist [] = []"
| "duplicate_spec ttl hist ((k, now) # xs) =
     (let dup = list_ex (\<lambda>(k', t). k' = k \<and> now < t + ttl) hist
      in (\<not> dup) # duplicate_spec ttl (if dup then hist else (k, now) # hist) xs)"

definition remembers :: "instant \<Rightarrow> 'k DuplicateCache \<Rightarrow> ('k \<times> instant) list \<Rightarrow> bool" where
  "remembers t c hist \<longleftrightarrow>
     (\<forall>k now. t \<le> now \<longrightarrow>
        (Mapping.lookup (live now (tc_map c)) k \<noteq> None \<longleftrightarrow>
         list_ex (\<lambda>(k', u). k' = k \<and> now < u + tc_ttl c) hist))"

lemma lookup_live:
  "Mapping.lookup (live now m) k =
     (case Mapping.lookup m k of Some e \<Rightarrow> if now < expires e then Some e else None | None \<Rightarrow> None)"
  by (simp add: live_def Mapping.lookup_filter)

lemma live_live: "t \<le> now \<Longrightarrow> live now (live t m) = live now m"
  by (rule Mapping.mapping_eqI) (auto simp: lookup_live split: option.splits)

lemma live_update:
  "now < expires e \<Longrightarrow> live now (Mapping.update k e m) = Mapping.update k e (live now m)"
  "\<not> now < expires e \<Longrightarrow> live now (Mapping.update k e m) = Mapping.delete k (live now m)"
  by (rule Mapping.mapping_eqI;
      auto simp: lookup_live Mapping.lookup_update' lookup_delete_if split: option.splits)+

lemma duplicate_step:
  fixes k :: 'k
  assumes inv: "cache_inv t c" and time: "t \<le> now" and rem: "remembers t c hist"
  defines "dup \<equiv> list_ex (\<lambda>(k', u). k' = k \<and> now < u + tc_ttl c) hist"
  shows "\<exists>c'. DuplicateCache_insert k now c = (\<not> dup, c') \<and> cache_inv now c' \<and>
    tc_ttl c' = tc_ttl c \<and> remembers now c' (if dup then hist else (k, now) # hist)"
proof -
  have dup: "dup \<longleftrightarrow> Mapping.lookup (live now (tc_map c)) k \<noteq> None"
    using rem time unfolding dup_def remembers_def by blast
  obtain c' where c': "DuplicateCache_insert k now c = (\<not> dup, c')" "cache_inv now c'"
    "tc_ttl c' = tc_ttl c"
    "tc_map c' = (if dup then live now (tc_map c)
       else Mapping.update k \<lparr>element = (), expires = now + tc_ttl c\<rparr> (live now (tc_map c)))"
    using DuplicateCache_insert_spec [OF inv time, of k] dup by (auto split: option.splits)
  have "Mapping.lookup (live u (tc_map c')) k' \<noteq> None \<longleftrightarrow>
      list_ex (\<lambda>(j, v). j = k' \<and> u < v + tc_ttl c) (if dup then hist else (k, now) # hist)"
    if "now \<le> u" for u k'
  proof -
    have old: "Mapping.lookup (live u (tc_map c)) k' \<noteq> None \<longleftrightarrow>
        list_ex (\<lambda>(j, v). j = k' \<and> u < v + tc_ttl c) hist" for k'
      using rem time that by (auto simp: remembers_def)
    have gone: "\<not> dup \<Longrightarrow> Mapping.lookup (live u (tc_map c)) k = None"
      using dup that by (auto simp: lookup_live split: option.splits if_splits)
    show ?thesis
    proof (cases dup)
      case True
      then show ?thesis using old c'(4) that by (simp add: live_live)
    next
      case False
      then show ?thesis
        using old [of k'] gone c'(4) that
        by (cases "u < now + tc_ttl c"; cases "k = k'")
          (simp_all add: live_update live_live)
    qed
  qed
  then show ?thesis using c' by (auto simp: remembers_def)
qed

text \<open>
  The duplicate cache lets a message pass exactly when no insertion of the same message was
  let pass less than the time to live ago: its answers agree with a search through the whole
  history of accepted insertions, at clock readings that do not go back.
\<close>
theorem duplicate_cache_window:
  assumes "sorted (map snd xs)"
  shows "fst (duplicate_run xs (DuplicateCache_new ttl)) = duplicate_spec ttl [] xs"
proof -
  have run: "fst (duplicate_run xs c) = duplicate_spec (tc_ttl c) hist xs"
    if "cache_inv t c" "remembers t c hist" "sorted (t # map snd xs)" for t c hist
    using that
  proof (induction xs arbitrary: t c hist)
    case (Cons x xs)
    obtain k now where x: "x = (k, now)" by force
    obtain c' where "DuplicateCache_insert k now c =
        (\<not> list_ex (\<lambda>(k', u). k' = k \<and> now < u + tc_ttl c) hist, c')" "cache_inv now c'"
      "tc_ttl c' = tc_ttl c"
      "remembers now c' (if list_ex (\<lambda>(k', u). k' = k \<and> now < u + tc_ttl c) hist then hist
                         else (k, now) # hist)"
      using duplicate_step [OF Cons.prems(1) _ Cons.prems(2), of now k] Cons.prems(3) x by auto
    then show ?case
      using Cons.IH [of now c'] Cons.prems(3) x by (auto simp: Let_def case_prod_beta)
  qed simp
  have "remembers 0 (DuplicateCache_new ttl) []"
    by (simp add: remembers_def DuplicateCache_new_def TimeCache_new_def lookup_live)
  then show ?thesis
    using run [of 0 "DuplicateCache_new ttl" "[]"] assms TimeCache_new_inv [of 0 ttl]
    by (simp add: DuplicateCache_new_def TimeCache_new_def)
qed

theorem duplicate_cache_window_witness:
  "fst (duplicate_run [(''m'', 0), (''n'', 3), (''m'', 9), (''m'', 10)] (DuplicateCache_new 10)) =
     [True, True, False, True]"
  using duplicate_cache_window [of "[(''m'', 0), (''n'', 3), (''m'', 9), (''m'', 10)]" 10] by simp

end
