(* ===== verification/Gossip_MessageCache.thy ===== *)
theory Gossip_MessageCache
  imports Prelude
begin

text \<open>
  The message cache of gossipsub (protocols/gossipsub/src/mcache.rs): the messages of the last
  heartbeats, a history of their ids in one slot per heartbeat, and how often each peer asked for
  each of them. Message ids, topics and peers are type parameters. A panic is \<open>None\<close>: an index
  outside the history, an empty history, an overflow of a 32-bit counter.
\<close>

section \<open>The cache\<close>

record ('p, 't) RawGossipsubMessage =
  source :: "'p option"
  data :: bytes
  sequence_number :: "u64 option"
  topic :: 't
  signature :: "bytes option"
  msg_key :: "bytes option"
  validated :: bool

record ('m, 't) CacheEntry =
  mid :: 'm
  entry_topic :: 't

record ('m, 'p, 't) MessageCache =
  msgs :: "('m, ('p, 't) RawGossipsubMessage \<times> 'p set) mapping"
  iwant_counts :: "('m, ('p, u32) mapping) mapping"
  history :: "('m, 't) CacheEntry list list"
  gossip :: nat

definition MessageCache_new :: "nat \<Rightarrow> nat \<Rightarrow> ('m, 'p, 't) MessageCache" where
  "MessageCache_new g capacity =
     \<lparr>msgs = Mapping.empty, iwant_counts = Mapping.empty, history = replicate capacity [],
      gossip = g\<rparr>"

definition MessageCache_put ::
  "'m \<Rightarrow> ('p, 't) RawGossipsubMessage \<Rightarrow> ('m, 'p, 't) MessageCache \<Rightarrow>
   (bool \<times> ('m, 'p, 't) MessageCache) option" where
  "MessageCache_put i m c =
     (case Mapping.lookup (msgs c) i of
        Some _ \<Rightarrow> Some (False, c)
      | None \<Rightarrow>
          do {
            slot \<leftarrow> vec_index (history c) 0;
            Some (True, c\<lparr>msgs := Mapping.update i (m, {}) (msgs c),
                          history := (history c)[0 := slot @ [\<lparr>mid = i, entry_topic = topic m\<rparr>]]\<rparr>)
          })"

definition observe_duplicate ::
  "'m \<Rightarrow> 'p \<Rightarrow> ('m, 'p, 't) MessageCache \<Rightarrow> ('m, 'p, 't) MessageCache" where
  "observe_duplicate i src c =
     (case Mapping.lookup (msgs c) i of
        Some (m, peers) \<Rightarrow>
          if validated m then c
          else c\<lparr>msgs := Mapping.update i (m, insert src peers) (msgs c)\<rparr>
      | None \<Rightarrow> c)"

definition MessageCache_get ::
  "'m \<Rightarrow> ('m, 'p, 't) MessageCache \<Rightarrow> ('p, 't) RawGossipsubMessage option" where
  "MessageCache_get i c = map_option fst (Mapping.lookup (msgs c) i)"

definition u32_checked_add :: "u32 \<Rightarrow> u32 \<Rightarrow> u32 option" where
  "u32_checked_add a b = (if unat a + unat b < 2 ^ 32 then Some (a + b) else None)"

definition get_with_iwant_counts ::
  "'m \<Rightarrow> 'p \<Rightarrow> ('m, 'p, 't) MessageCache \<Rightarrow>
   ((('p, 't) RawGossipsubMessage \<times> u32) option \<times> ('m, 'p, 't) MessageCache) option" where
  "get_with_iwant_counts i peer c =
     (case Mapping.lookup (msgs c) i of
        None \<Rightarrow> Some (None, c)
      | Some (m, _) \<Rightarrow>
          if \<not> validated m then Some (None, c)
          else
            let counts = Mapping.lookup_default Mapping.empty (iwant_counts c) i
            in do {
              n \<leftarrow> u32_checked_add (Mapping.lookup_default 0 counts peer) 1;
              Some (Some (m, n),
                    c\<lparr>iwant_counts := Mapping.update i (Mapping.update peer n counts) (iwant_counts c)\<rparr>)
            })"

definition MessageCache_validate ::
  "'m \<Rightarrow> ('m, 'p, 't) MessageCache \<Rightarrow>
   (('p, 't) RawGossipsubMessage \<times> 'p set) option \<times> ('m, 'p, 't) MessageCache" where
  "MessageCache_validate i c =
     (case Mapping.lookup (msgs c) i of
        Some (m, peers) \<Rightarrow>
          (Some (m\<lparr>validated := True\<rparr>, peers),
           c\<lparr>msgs := Mapping.update i (m\<lparr>validated := True\<rparr>, {}) (msgs c)\<rparr>)
      | None \<Rightarrow> (None, c))"

definition gossip_ids_of ::
  "'t \<Rightarrow> ('m, 'p, 't) MessageCache \<Rightarrow> ('m, 't) CacheEntry list \<Rightarrow> 'm list" where
  "gossip_ids_of t c entries =
     List.map_filter (\<lambda>e.
       if entry_topic e = t then
         (case Mapping.lookup (msgs c) (mid e) of
            Some (m, _) \<Rightarrow> if validated m then Some (mid e) else None
          | None \<Rightarrow> None)
       else None) entries"

definition get_gossip_message_ids :: "'t \<Rightarrow> ('m, 'p, 't) MessageCache \<Rightarrow> 'm list option" where
  "get_gossip_message_ids t c =
     (if gossip c \<le> length (history c)
      then Some (fold (\<lambda>entries current. current @ gossip_ids_of t c entries)
                   (take (gossip c) (history c)) [])
      else None)"

definition shift_entry :: "('m, 't) CacheEntry \<Rightarrow> ('m, 'p, 't) MessageCache \<Rightarrow> ('m, 'p, 't) MessageCache" where
  "shift_entry e c =
     c\<lparr>msgs := Mapping.delete (mid e) (msgs c), iwant_counts := Mapping.delete (mid e) (iwant_counts c)\<rparr>"

definition MessageCache_shift :: "('m, 'p, 't) MessageCache \<Rightarrow> ('m, 'p, 't) MessageCache option" where
  "MessageCache_shift c =
     (if history c = [] then None
      else Some (fold shift_entry (last (history c)) (c\<lparr>history := [] # butlast (history c)\<rparr>)))"

definition MessageCache_remove ::
  "'m \<Rightarrow> ('m, 'p, 't) MessageCache \<Rightarrow>
   (('p, 't) RawGossipsubMessage \<times> 'p set) option \<times> ('m, 'p, 't) MessageCache" where
  "MessageCache_remove i c =
     (Mapping.lookup (msgs c) i,
      c\<lparr>iwant_counts := Mapping.delete i (iwant_counts c), msgs := Mapping.delete i (msgs c)\<rparr>)"

datatype ('m, 'p, 't) mcache_op =
    Put 'm "('p, 't) RawGossipsubMessage"
  | ObserveDuplicate 'm 'p
  | Iwant 'm 'p
  | Validate 'm
  | Shift
  | Remove 'm

fun mcache_step ::
  "('m, 'p, 't) mcache_op \<Rightarrow> ('m, 'p, 't) MessageCache \<Rightarrow> ('m, 'p, 't) MessageCache option" where
  "mcache_step (Put i m) c = map_option snd (MessageCache_put i m c)"
| "mcache_step (ObserveDuplicate i p) c = Some (observe_duplicate i p c)"
| "mcache_step (Iwant i p) c = map_option snd (get_with_iwant_counts i p c)"
| "mcache_step (Validate i) c = Some (snd (MessageCache_validate i c))"
| "mcache_step Shift c = MessageCache_shift c"
| "mcache_step (Remove i) c = Some (snd (MessageCache_remove i c))"

fun mcache_run ::
  "('m, 'p, 't) mcache_op list \<Rightarrow> ('m, 'p, 't) MessageCache \<Rightarrow> ('m, 'p, 't) MessageCache option" where
  "mcache_run [] c = Some c"
| "mcache_run (x # xs) c = Option.bind (mcache_step x c) (mcache_run xs)"

section \<open>The life of a message\<close>

definition shifts :: "('m, 'p, 't) mcache_op list \<Rightarrow> nat" where
  "shifts xs = length (filter (\<lambda>x. x = Shift) xs)"

lemma shifts_simps [simp]:
  "shifts [] = 0" "shifts (Shift # xs) = Suc (shifts xs)" "x \<noteq> Shift \<Longrightarrow> shifts (x # xs) = shifts xs"
  by (simp_all add: shifts_def)

text \<open>The slots of the history in which an id is recorded.\<close>

definition in_slot :: "'m \<Rightarrow> nat \<Rightarrow> ('m, 'p, 't) MessageCache \<Rightarrow> bool" where
  "in_slot i n c \<longleftrightarrow> n < length (history c) \<and> i \<in> mid ` set (history c ! n)"

text \<open>
  The cache holds message \<open>m\<close>, up to the flag \<open>validated\<close>, and its id is in slot \<open>n\<close> of the
  history, with its topic, and in no other.
\<close>

definition holds :: "'m \<Rightarrow> ('p, 't) RawGossipsubMessage \<Rightarrow> nat \<Rightarrow> ('m, 'p, 't) MessageCache \<Rightarrow> bool" where
  "holds i m n c \<longleftrightarrow>
     (\<exists>v peers. Mapping.lookup (msgs c) i = Some (m\<lparr>validated := v\<rparr>, peers)) \<and>
     (\<forall>k. in_slot i k c \<longleftrightarrow> k = n) \<and>
     (\<forall>k < length (history c). \<forall>e \<in> set (history c ! k). mid e = i \<longrightarrow> entry_topic e = topic m)"

definition counts_within :: "nat \<Rightarrow> ('m, 'p, 't) MessageCache \<Rightarrow> bool" where
  "counts_within b c \<longleftrightarrow>
     (\<forall>i p cs. Mapping.lookup (iwant_counts c) i = Some cs \<longrightarrow>
        (\<forall>n. Mapping.lookup cs p = Some n \<longrightarrow> unat n \<le> b))"

lemma counts_within_mono: "counts_within b c \<Longrightarrow> b \<le> d \<Longrightarrow> counts_within d c"
  by (fastforce simp: counts_within_def)

lemma fold_shift_entry:
  "history (fold shift_entry es c) = history c" "gossip (fold shift_entry es c) = gossip c"
  "Mapping.lookup (msgs (fold shift_entry es c)) i =
     (if i \<in> mid ` set es then None else Mapping.lookup (msgs c) i)"
  "Mapping.lookup (iwant_counts (fold shift_entry es c)) i =
     (if i \<in> mid ` set es then None else Mapping.lookup (iwant_counts c) i)"
  by (induction es arbitrary: c) (auto simp: shift_entry_def lookup_delete_if)

lemma MessageCache_shift_effect:
  assumes "history c \<noteq> []"
  shows "\<exists>c'. MessageCache_shift c = Some c' \<and> gossip c' = gossip c \<and>
    history c' = [] # butlast (history c) \<and>
    (\<forall>i. Mapping.lookup (msgs c') i =
       (if in_slot i (length (history c) - 1) c then None else Mapping.lookup (msgs c) i)) \<and>
    (\<forall>i. Mapping.lookup (iwant_counts c') i =
       (if in_slot i (length (history c) - 1) c then None else Mapping.lookup (iwant_counts c) i))"
  using assms by (simp add: MessageCache_shift_def fold_shift_entry in_slot_def last_conv_nth)

lemma holds_shift:
  assumes h: "holds i m n c"
  shows "\<exists>c'. MessageCache_shift c = Some c' \<and> length (history c') = length (history c) \<and>
    gossip c' = gossip c \<and> (counts_within b c \<longrightarrow> counts_within b c') \<and>
    (if Suc n < length (history c) then holds i m (Suc n) c' else Mapping.lookup (msgs c') i = None)"
proof -
  have n: "n < length (history c)" using h by (auto simp: holds_def in_slot_def)
  then have ne: "history c \<noteq> []" by auto
  obtain c' where c': "MessageCache_shift c = Some c'" "gossip c' = gossip c"
    "history c' = [] # butlast (history c)"
    "\<forall>i. Mapping.lookup (msgs c') i =
       (if in_slot i (length (history c) - 1) c then None else Mapping.lookup (msgs c) i)"
    "\<forall>i. Mapping.lookup (iwant_counts c') i =
       (if in_slot i (length (history c) - 1) c then None else Mapping.lookup (iwant_counts c) i)"
    using MessageCache_shift_effect [OF ne] by blast
  have len: "length (history c') = length (history c)" using c'(3) n by simp
  have counts: "counts_within b c \<longrightarrow> counts_within b c'"
    using c'(5) by (auto simp: counts_within_def)
  have only: "in_slot i (length (history c) - 1) c \<longleftrightarrow> length (history c) - 1 = n"
    using h unfolding holds_def by blast
  have nth: "history c' ! Suc k = history c ! k" if "Suc k < length (history c)" for k
    using that c'(3) by (simp add: nth_butlast)
  have "holds i m (Suc n) c'" if last: "Suc n < length (history c)"
  proof -
    have "in_slot i k c' \<longleftrightarrow> k = Suc n" for k
    proof (cases k)
      case 0
      then show ?thesis using c'(3) by (simp add: in_slot_def)
    next
      case (Suc j)
      have "in_slot i j c \<longleftrightarrow> j = n" using h unfolding holds_def by blast
      then show ?thesis using last len nth [of j] Suc by (auto simp: in_slot_def)
    qed
    moreover have "entry_topic e = topic m"
      if "k < length (history c')" "e \<in> set (history c' ! k)" "mid e = i" for k e
    proof (cases k)
      case (Suc j)
      then have "j < length (history c)" "e \<in> set (history c ! j)"
        using that(1,2) len nth [of j] by auto
      then show ?thesis using h that(3) by (auto simp: holds_def)
    qed (use that c'(3) in simp)
    moreover have "Mapping.lookup (msgs c') i = Mapping.lookup (msgs c) i"
      using c'(4) only last by auto
    ultimately show ?thesis using h by (auto simp: holds_def)
  qed
  moreover have "Mapping.lookup (msgs c') i = None" if "\<not> Suc n < length (history c)"
  proof -
    have "length (history c) - 1 = n" using that n by simp
    then show ?thesis using c'(4) only by simp
  qed
  ultimately show ?thesis using c'(1,2) len counts by auto
qed

lemma holds_update_msgs:
  assumes "holds i m n c"
    and "\<forall>r. Mapping.lookup ms i = Some r \<longrightarrow> (\<exists>v peers. r = (m\<lparr>validated := v\<rparr>, peers))"
    "Mapping.lookup ms i \<noteq> None"
  shows "holds i m n (c\<lparr>msgs := ms\<rparr>)"
  using assms by (auto simp: holds_def in_slot_def)

lemma holds_counts [simp]: "holds i m n (c\<lparr>iwant_counts := x\<rparr>) = holds i m n c"
  by (simp add: holds_def in_slot_def)

lemma counts_within_irrelevant [simp]:
  "counts_within b (c\<lparr>msgs := ms\<rparr>) = counts_within b c"
  "counts_within b (c\<lparr>msgs := ms, history := hs\<rparr>) = counts_within b c"
  by (simp_all add: counts_within_def)

lemma put_holds:
  assumes h: "holds i m n c" and put: "MessageCache_put j mj c = Some (r, c')"
  shows "holds i m n c'"
proof (cases "Mapping.lookup (msgs c) j")
  case None
  then have ij: "i \<noteq> j" using h by (auto simp: holds_def)
  have ne: "history c \<noteq> []" using h by (auto simp: holds_def in_slot_def)
  then have c': "c' = c\<lparr>msgs := Mapping.update j (mj, {}) (msgs c),
      history := (history c)[0 := history c ! 0 @ [\<lparr>mid = j, entry_topic = topic mj\<rparr>]]\<rparr>"
    using put None by (simp add: MessageCache_put_def panic_simps)
  have slot: "e \<in> set (history c' ! k) \<longleftrightarrow> e \<in> set (history c ! k)"
    if "k < length (history c)" "mid e = i" for k e
    using that ij ne by (cases k) (auto simp: c')
  have "in_slot i k c' = in_slot i k c" for k
    using slot by (fastforce simp: in_slot_def c')
  moreover have "entry_topic e = topic m"
    if "k < length (history c')" "e \<in> set (history c' ! k)" "mid e = i" for k e
    using that h slot [of k e] by (auto simp: holds_def c')
  ultimately show ?thesis using h ij by (auto simp: holds_def c')
qed (use put h in \<open>simp add: MessageCache_put_def\<close>)

lemma iwant_within:
  assumes b: "counts_within b c" "Suc b < 2 ^ 32"
  shows "\<exists>r c'. get_with_iwant_counts j p c = Some (r, c') \<and> counts_within (Suc b) c' \<and>
    (\<exists>x. c' = c\<lparr>iwant_counts := x\<rparr>)"
proof -
  let ?cs = "Mapping.lookup_default Mapping.empty (iwant_counts c) j"
  let ?n = "Mapping.lookup_default 0 ?cs p"
  have le: "unat n \<le> b" if "Mapping.lookup ?cs q = Some n" for q n
    using b(1) that by (auto simp: counts_within_def Mapping.lookup_default_def split: option.splits)
  have n: "unat ?n \<le> b"
    using le by (auto simp: Mapping.lookup_default_def split: option.splits)
  then have "unat ?n + unat (1 :: u32) < 2 ^ 32" using b(2) by simp
  then have add: "u32_checked_add ?n 1 = Some (?n + 1)" "unat (?n + 1) \<le> Suc b"
    using n by (simp_all add: u32_checked_add_def unat_word_ariths take_bit_eq_mod)
  have "counts_within (Suc b)
      (c\<lparr>iwant_counts := Mapping.update j (Mapping.update p (?n + 1) ?cs) (iwant_counts c)\<rparr>)"
    using b(1) le add(2)
    by (fastforce simp: counts_within_def Mapping.lookup_update' le_Suc_eq split: if_splits)
  then show ?thesis
    using add(1) counts_within_mono [OF b(1), of "Suc b"]
    by (auto simp: get_with_iwant_counts_def Let_def split: option.splits)
      (metis MessageCache.surjective MessageCache.update_convs(2))+
qed

lemma mcache_step_other:
  assumes h: "holds i m n c" and b: "counts_within b c" "Suc b < 2 ^ 32"
    and x: "x \<noteq> Remove i" "x \<noteq> Shift"
  shows "\<exists>c'. mcache_step x c = Some c' \<and> length (history c') = length (history c) \<and>
    gossip c' = gossip c \<and> counts_within (Suc b) c' \<and> holds i m n c'"
proof -
  have b': "counts_within (Suc b) c" using counts_within_mono [OF b(1)] by simp
  show ?thesis
  proof (cases x)
    case (Put j mj)
    have "history c \<noteq> []" using h by (auto simp: holds_def in_slot_def)
    then obtain r c' where "MessageCache_put j mj c = Some (r, c')"
      "length (history c') = length (history c)" "gossip c' = gossip c" "counts_within (Suc b) c'"
      using b' by (cases "Mapping.lookup (msgs c) j") (auto simp: MessageCache_put_def panic_simps)
    then show ?thesis using Put put_holds [OF h] by auto
  next
    case (ObserveDuplicate j p)
    then show ?thesis
      using h b' by (auto simp: observe_duplicate_def Mapping.lookup_update' holds_def in_slot_def
          split: option.splits)
  next
    case (Iwant j p)
    then show ?thesis using h iwant_within [OF b, of j p] by auto
  next
    case (Validate j)
    then show ?thesis
      using h b' by (auto simp: MessageCache_validate_def Mapping.lookup_update' holds_def in_slot_def
          split: option.splits)
  next
    case (Remove j)
    then show ?thesis
      using h b' x by (auto simp: MessageCache_remove_def lookup_delete_if holds_def in_slot_def
          counts_within_def split: if_splits)
  qed (use x in simp)
qed


lemma mcache_run_holds:
  assumes "holds i m n c" "counts_within b c" "Remove i \<notin> set xs"
    "n + shifts xs < length (history c)" "b + length xs < 2 ^ 32"
  shows "\<exists>c'. mcache_run xs c = Some c' \<and> length (history c') = length (history c) \<and>
    gossip c' = gossip c \<and> counts_within (b + length xs) c' \<and> holds i m (n + shifts xs) c'"
  using assms
proof (induction xs arbitrary: n c b)
  case (Cons x xs)
  have "\<exists>c1. mcache_step x c = Some c1 \<and> length (history c1) = length (history c) \<and>
      gossip c1 = gossip c \<and> counts_within (Suc b) c1 \<and>
      holds i m (if x = Shift then Suc n else n) c1"
  proof (cases "x = Shift")
    case True
    then have "Suc n < length (history c)" using Cons.prems(4) by simp
    then show ?thesis
      using True holds_shift [OF Cons.prems(1), of "Suc b"] counts_within_mono [OF Cons.prems(2)] by auto
  next
    case False
    then show ?thesis
      using mcache_step_other [OF Cons.prems(1,2)] Cons.prems(3,5) by auto
  qed
  then obtain c1 where c1: "mcache_step x c = Some c1" "length (history c1) = length (history c)"
    "gossip c1 = gossip c" "counts_within (Suc b) c1" "holds i m (if x = Shift then Suc n else n) c1"
    by blast
  show ?case
    using Cons.IH [OF c1(5,4)] Cons.prems(3,4,5) c1 by (cases "x = Shift") auto
qed simp

lemma gossip_ids_in:
  "i \<in> set (gossip_ids_of t c es) \<longleftrightarrow>
     (\<exists>e \<in> set es. mid e = i \<and> entry_topic e = t) \<and>
     (\<exists>m peers. Mapping.lookup (msgs c) i = Some (m, peers) \<and> validated m)"
  by (force simp: gossip_ids_of_def List.map_filter_def split: option.splits if_splits)

lemma fold_gossip:
  "set (fold (\<lambda>es cur. cur @ gossip_ids_of t c es) hs acc) =
     set acc \<union> (\<Union>es \<in> set hs. set (gossip_ids_of t c es))"
  by (induction hs arbitrary: acc) auto

lemma holds_gossiped:
  assumes h: "holds i m n c" and g: "gossip c \<le> length (history c)"
    and l: "Mapping.lookup (msgs c) i = Some (m\<lparr>validated := v\<rparr>, peers)"
  shows "\<exists>ids. get_gossip_message_ids (topic m) c = Some ids \<and> (i \<in> set ids \<longleftrightarrow> v \<and> n < gossip c)"
proof -
  have slot: "(\<exists>e \<in> set (history c ! k). mid e = i \<and> entry_topic e = topic m) \<longleftrightarrow> k = n"
    if "k < length (history c)" for k
  proof -
    have "in_slot i k c \<longleftrightarrow> k = n" using h unfolding holds_def by blast
    then show ?thesis using h that by (auto simp: holds_def in_slot_def)
  qed
  have "(\<exists>es \<in> set (take (gossip c) (history c)). \<exists>e \<in> set es. mid e = i \<and> entry_topic e = topic m) \<longleftrightarrow>
      n < gossip c"
  proof -
    have "n < length (history c)" using h by (auto simp: holds_def in_slot_def)
    moreover have "set (take (gossip c) (history c)) = (!) (history c) ` {0..<gossip c}"
      using nth_image [OF g] by simp
    ultimately show ?thesis using slot g by auto
  qed
  then show ?thesis using g l by (auto simp: get_gossip_message_ids_def fold_gossip gossip_ids_in)
qed

lemma put_new_holds:
  assumes "Mapping.lookup (msgs c) i = None" "\<forall>k. \<not> in_slot i k c" "history c \<noteq> []"
  shows "\<exists>c1. MessageCache_put i m c = Some (True, c1) \<and> length (history c1) = length (history c) \<and>
    gossip c1 = gossip c \<and> (counts_within b c \<longrightarrow> counts_within b c1) \<and> holds i m 0 c1"
proof -
  define e where "e = \<lparr>mid = i, entry_topic = topic m\<rparr>"
  then have e: "mid e = i" "entry_topic e = topic m" by simp_all
  let ?c = "c\<lparr>msgs := Mapping.update i (m, {}) (msgs c),
              history := (history c)[0 := history c ! 0 @ [e]]\<rparr>"
  have none: "\<forall>x \<in> set (history c ! k). mid x \<noteq> i" if "k < length (history c)" for k
    using assms(2) that by (auto simp: in_slot_def)
  have slots: "set (history ?c ! k) = (if k = 0 then insert e (set (history c ! 0)) else set (history c ! k))"
    if "k < length (history c)" for k
    using that by (cases k) auto
  have "in_slot i k ?c \<longleftrightarrow> k = 0" for k
    using none [of k] slots [of k] assms(3) by (auto simp: in_slot_def e_def split: if_splits)
  moreover have "entry_topic x = topic m"
    if "k < length (history ?c)" "x \<in> set (history ?c ! k)" "mid x = i" for k x
  proof -
    have "k < length (history c)" using that(1) by simp
    then have "x = e \<or> x \<in> set (history c ! k)" "\<forall>x \<in> set (history c ! k). mid x \<noteq> i"
      using slots [of k] that(2) none [of k] by (simp_all split: if_splits)
    then show ?thesis using e(2) that(3) by blast
  qed
  moreover have "Mapping.lookup (msgs ?c) i = Some (m\<lparr>validated := validated m\<rparr>, {})" by simp
  ultimately have "holds i m 0 ?c"
    unfolding holds_def by blast
  then show ?thesis
    using assms(1,3) by (simp add: MessageCache_put_def panic_simps e_def)
qed


lemma shifts_hold:
  assumes "holds i m n c" "n + k < length (history c)"
  shows "\<exists>c'. mcache_run (replicate k Shift) c = Some c' \<and> length (history c') = length (history c) \<and>
    holds i m (n + k) c'"
  using assms
proof (induction k arbitrary: n c)
  case (Suc k)
  have "Suc n < length (history c)" using Suc.prems(2) by simp
  then obtain c1 where "MessageCache_shift c = Some c1" "length (history c1) = length (history c)"
    "holds i m (Suc n) c1"
    using holds_shift [OF Suc.prems(1), of 0] by auto
  then show ?case using Suc.IH [of "Suc n" c1] Suc.prems(2) by simp
qed simp

lemma MessageCache_new_fresh:
  "Mapping.lookup (msgs (MessageCache_new g k)) i = None" "\<not> in_slot i j (MessageCache_new g k)"
  "length (history (MessageCache_new g k)) = k"
  by (simp_all add: MessageCache_new_def in_slot_def)

section \<open>Properties\<close>

text \<open>
  C33. A message that is put into the cache stays for as many heartbeats as the history has slots
  and no longer, unless it is removed: after operations with fewer shifts than slots it is there,
  unchanged up to its flag \<open>validated\<close>, and it is offered as gossip for its topic exactly while it
  is validated and the shifts are fewer than the gossip slots; the shift that reaches the number
  of slots removes it. No operation panics as long as fewer than \<open>2^32\<close> requests are counted.
\<close>
theorem message_retained:
  assumes fresh: "MessageCache_get i c = None" "\<forall>es \<in> set (history c). \<forall>e \<in> set es. mid e \<noteq> i"
    and cap: "0 < length (history c)" "gossip c \<le> length (history c)"
    and counts: "counts_within b c" "b + length xs < 2 ^ 32"
    and kept: "Remove i \<notin> set xs"
  shows "\<exists>c1. MessageCache_put i m c = Some (True, c1) \<and>
    (shifts xs < length (history c) \<longrightarrow>
      (\<exists>c2 v peers ids. mcache_run xs c1 = Some c2 \<and>
         Mapping.lookup (msgs c2) i = Some (m\<lparr>validated := v\<rparr>, peers) \<and>
         get_gossip_message_ids (topic m) c2 = Some ids \<and>
         (i \<in> set ids \<longleftrightarrow> v \<and> shifts xs < gossip c))) \<and>
    (Suc (shifts xs) = length (history c) \<longrightarrow>
      (\<exists>c2 c3. mcache_run xs c1 = Some c2 \<and> mcache_step Shift c2 = Some c3 \<and>
         MessageCache_get i c3 = None))"
proof -
  have none: "Mapping.lookup (msgs c) i = None" using fresh(1) by (simp add: MessageCache_get_def)
  have slots: "\<forall>k. \<not> in_slot i k c" using fresh(2) by (fastforce simp: in_slot_def)
  have ne: "history c \<noteq> []" using cap(1) by simp
  obtain c1 where c1: "MessageCache_put i m c = Some (True, c1)"
    "length (history c1) = length (history c)" "gossip c1 = gossip c" "counts_within b c1" "holds i m 0 c1"
    using put_new_holds [OF none slots ne] counts(1) by blast
  have run: "\<exists>c2. mcache_run xs c1 = Some c2 \<and> length (history c2) = length (history c) \<and>
      gossip c2 = gossip c \<and> holds i m (shifts xs) c2" if "shifts xs < length (history c)"
    using mcache_run_holds [OF c1(5,4) kept] that c1(2,3) counts(2) by auto
  have "\<exists>c2 v peers ids. mcache_run xs c1 = Some c2 \<and>
      Mapping.lookup (msgs c2) i = Some (m\<lparr>validated := v\<rparr>, peers) \<and>
      get_gossip_message_ids (topic m) c2 = Some ids \<and> (i \<in> set ids \<longleftrightarrow> v \<and> shifts xs < gossip c)"
    if less: "shifts xs < length (history c)"
  proof -
    obtain c2 where c2: "mcache_run xs c1 = Some c2" "length (history c2) = length (history c)"
      "gossip c2 = gossip c" "holds i m (shifts xs) c2"
      using run [OF less] by blast
    then obtain v peers where "Mapping.lookup (msgs c2) i = Some (m\<lparr>validated := v\<rparr>, peers)"
      by (auto simp: holds_def)
    then show ?thesis using holds_gossiped [OF c2(4)] c2 cap(2) by metis
  qed
  moreover have "\<exists>c2 c3. mcache_run xs c1 = Some c2 \<and> mcache_step Shift c2 = Some c3 \<and>
      MessageCache_get i c3 = None" if "Suc (shifts xs) = length (history c)"
  proof -
    obtain c2 where "mcache_run xs c1 = Some c2" "length (history c2) = length (history c)"
      "holds i m (shifts xs) c2"
      using run \<open>Suc (shifts xs) = length (history c)\<close> by auto
    then show ?thesis
      using holds_shift [of i m "shifts xs" c2] that by (auto simp: MessageCache_get_def)
  qed
  ultimately show ?thesis using c1(1) by blast
qed

theorem message_retained_witness:
  "\<exists>c1. MessageCache_put ''m''
          \<lparr>source = Some (1::nat), data = [7], sequence_number = None, topic = ''t'', signature = None,
           msg_key = None, validated = False\<rparr> (MessageCache_new 3 5) = Some (True, c1) \<and>
        (\<exists>c2. mcache_run [Validate ''m'', Shift, Iwant ''m'' 2, Shift] c1 = Some c2 \<and>
              MessageCache_get ''m'' c2 \<noteq> None)"
proof -
  let ?xs = "[Validate ''m'', Shift, Iwant ''m'' (2::nat), Shift]"
  have "shifts ?xs = 2" by simp
  then show ?thesis
    using message_retained [of "''m''" "MessageCache_new 3 5" 0 ?xs
        "\<lparr>source = Some (1::nat), data = [7], sequence_number = None, topic = ''t'', signature = None,
          msg_key = None, validated = False\<rparr>"]
    by (fastforce simp: MessageCache_new_def MessageCache_get_def counts_within_def)
qed

text \<open>
  A message that is removed and put again before its first heartbeat slot has left the
  history does not get a full life: its id is still in the old slot, and the shift that pops this
  slot removes the new message. The comment in \<open>remove\<close> says that the id will be ignored then.
\<close>

theorem readded_message_expires_early:
  "\<exists>c1 c2 c3. mcache_run (Put i m # replicate (Suc n) Shift) (MessageCache_new g (Suc (Suc n))) = Some c1 \<and>
     MessageCache_put i m (snd (MessageCache_remove i c1)) = Some (True, c2) \<and>
     MessageCache_get i c2 = Some m \<and>
     MessageCache_shift c2 = Some c3 \<and> MessageCache_get i c3 = None"
proof -
  have ne: "history (MessageCache_new g (Suc (Suc n))) \<noteq> []" by (simp add: MessageCache_new_def)
  obtain c0 where c0: "MessageCache_put i m (MessageCache_new g (Suc (Suc n))) = Some (True, c0)"
    "length (history c0) = Suc (Suc n)" "holds i m 0 c0"
    using put_new_holds [OF MessageCache_new_fresh(1) _ ne] MessageCache_new_fresh(2,3) by metis
  obtain c1 where c1: "mcache_run (replicate (Suc n) Shift) c0 = Some c1"
    "length (history c1) = Suc (Suc n)" "holds i m (Suc n) c1"
    using shifts_hold [OF c0(3), of "Suc n"] c0(2) by auto
  let ?r = "snd (MessageCache_remove i c1)"
  have r: "history ?r = history c1" "Mapping.lookup (msgs ?r) i = None"
    by (simp_all add: MessageCache_remove_def)
  define c2 where "c2 = ?r\<lparr>msgs := Mapping.update i (m, {}) (msgs ?r),
      history := (history ?r)[0 := history ?r ! 0 @ [\<lparr>mid = i, entry_topic = topic m\<rparr>]]\<rparr>"
  have put: "MessageCache_put i m ?r = Some (True, c2)"
    using r c1(2) by (simp add: MessageCache_put_def c2_def vec_index_def)
  have "in_slot i (Suc n) c1" using c1(3) by (simp add: holds_def)
  then have last: "in_slot i (Suc n) c2" "length (history c2) = Suc (Suc n)"
    using r(1) c1(2) by (simp_all add: in_slot_def c2_def)
  then have "history c2 \<noteq> []" by auto
  then obtain c3 where c3: "MessageCache_shift c2 = Some c3" "Mapping.lookup (msgs c3) i = None"
    using MessageCache_shift_effect [of c2] last by auto
  show ?thesis
    using c0(1) c1(1) put c3 by (auto simp: MessageCache_get_def c2_def)
qed

end
