(* ===== verification/Gossip_Backoff.thy ===== *)
theory Gossip_Backoff
  imports Prelude
begin

text \<open>
  The storage in which gossipsub remembers for how long a peer must not be grafted again after a prune
  (\<open>protocols/gossipsub/src/backoff.rs\<close>): the backoff times for each topic and peer, and a ring with one slot per heartbeat
  that says which of them to look at in a heartbeat. Topics and peers are type parameters, times count nanoseconds,
  the clock is an argument. A panic, here the division by a heartbeat interval of zero, is \<open>None\<close>. The ring has at least one
  slot from its creation on, so the remainders by its length are defined; durations are taken to be small enough that no
  time and no slot number overflows.
\<close>

record ('t, 'p) BackoffStorage =
  backoffs :: "('t, ('p, instant \<times> nat) mapping) mapping"
  backoffs_by_heartbeat :: "('t \<times> 'p) set list"
  heartbeat_index :: nat
  heartbeat_interval :: duration
  backoff_slack :: nat

definition heartbeats :: "duration \<Rightarrow> duration \<Rightarrow> nat option" where
  "heartbeats d interval = (if interval = 0 then None else Some ((d + interval - 1) div interval))"

definition BackoffStorage_new :: "duration \<Rightarrow> duration \<Rightarrow> nat \<Rightarrow> ('t, 'p) BackoffStorage option" where
  "BackoffStorage_new prune interval slack =
     map_option
       (\<lambda>h. \<lparr>backoffs = Mapping.empty, backoffs_by_heartbeat = replicate (h + slack + 1) {},
             heartbeat_index = 0, heartbeat_interval = interval, backoff_slack = slack\<rparr>)
       (heartbeats prune interval)"

definition topic_backoffs :: "'t \<Rightarrow> ('t, 'p) BackoffStorage \<Rightarrow> ('p, instant \<times> nat) mapping" where
  "topic_backoffs t s = (case Mapping.lookup (backoffs s) t of None \<Rightarrow> Mapping.empty | Some m \<Rightarrow> m)"

text \<open>The closure \<open>insert_into_backoffs_by_heartbeat\<close> and the insertion of its index into the map.\<close>

definition put_backoff ::
  "instant \<Rightarrow> 't \<Rightarrow> 'p \<Rightarrow> duration \<Rightarrow> ('t, 'p) BackoffStorage \<Rightarrow> ('t, 'p) BackoffStorage option" where
  "put_backoff now t p time s =
     map_option
       (\<lambda>h. let slots = backoffs_by_heartbeat s;
                index = (heartbeat_index s + h + backoff_slack s) mod length slots
            in s\<lparr>backoffs_by_heartbeat := slots[index := insert (t, p) (slots ! index)],
                 backoffs := Mapping.update t (Mapping.update p (now + time, index) (topic_backoffs t s)) (backoffs s)\<rparr>)
       (heartbeats time (heartbeat_interval s))"

definition update_backoff ::
  "instant \<Rightarrow> 't \<Rightarrow> 'p \<Rightarrow> duration \<Rightarrow> ('t, 'p) BackoffStorage \<Rightarrow> ('t, 'p) BackoffStorage option" where
  "update_backoff now t p time s =
     (case Mapping.lookup (topic_backoffs t s) p of
        Some (backoff, index) \<Rightarrow>
          if backoff < now + time
          then put_backoff now t p time
                 (s\<lparr>backoffs_by_heartbeat :=
                      (backoffs_by_heartbeat s)[index := backoffs_by_heartbeat s ! index - {(t, p)}]\<rparr>)
          else Some s
      | None \<Rightarrow> put_backoff now t p time s)"

definition is_backoff_with_slack :: "'t \<Rightarrow> 'p \<Rightarrow> ('t, 'p) BackoffStorage \<Rightarrow> bool" where
  "is_backoff_with_slack t p s =
     (case Mapping.lookup (backoffs s) t of None \<Rightarrow> False | Some m \<Rightarrow> Mapping.lookup m p \<noteq> None)"

definition get_backoff_time :: "'t \<Rightarrow> 'p \<Rightarrow> ('t, 'p) BackoffStorage \<Rightarrow> instant option" where
  "get_backoff_time t p s = Option.bind (Mapping.lookup (backoffs s) t) (\<lambda>m. map_option fst (Mapping.lookup m p))"

text \<open>
  The removal of pairs from the map, as \<open>heartbeat\<close> does it for the pairs it does not keep: a topic that loses its last
  peer is removed as well.
\<close>

definition purge :: "('t \<times> 'p) set \<Rightarrow> ('t, ('p, 'v) mapping) mapping \<Rightarrow> ('t, ('p, 'v) mapping) mapping" where
  "purge gone m =
     (let rest = (\<lambda>t. Mapping.filter (\<lambda>p _. (t, p) \<notin> gone))
      in Mapping.map_values rest
           (Mapping.filter (\<lambda>t inner. \<not> (Mapping.is_empty (rest t inner) \<and> \<not> Mapping.is_empty inner)) m))"

definition Backoff_heartbeat :: "instant \<Rightarrow> ('t, 'p) BackoffStorage \<Rightarrow> ('t, 'p) BackoffStorage" where
  "Backoff_heartbeat now s =
     (let slots = backoffs_by_heartbeat s;
          i = heartbeat_index s;
          slack = heartbeat_interval s * backoff_slack s;
          keep = (\<lambda>(t, p). case get_backoff_time t p s of Some b \<Rightarrow> b + slack > now | None \<Rightarrow> False);
          s1 = (if i < length slots
                then s\<lparr>backoffs_by_heartbeat := slots[i := Set.filter keep (slots ! i)],
                       backoffs := purge (Set.filter (\<lambda>x. \<not> keep x) (slots ! i)) (backoffs s)\<rparr>
                else s)
      in s1\<lparr>heartbeat_index := (i + 1) mod length slots\<rparr>)"

section \<open>Invariant\<close>

definition entry_of :: "('t, 'p) BackoffStorage \<Rightarrow> 't \<Rightarrow> 'p \<Rightarrow> (instant \<times> nat) option" where
  "entry_of s t p = Option.bind (Mapping.lookup (backoffs s) t) (\<lambda>m. Mapping.lookup m p)"

lemma entry_of_topic: "Mapping.lookup (topic_backoffs t s) p = entry_of s t p"
  by (simp add: topic_backoffs_def entry_of_def split: option.splits)

lemma queries:
  "is_backoff_with_slack t p s \<longleftrightarrow> entry_of s t p \<noteq> None"
  "get_backoff_time t p s = map_option fst (entry_of s t p)"
  by (simp_all add: is_backoff_with_slack_def get_backoff_time_def entry_of_def map_option_bind comp_def split: option.splits)

text \<open>Every backoff is in the slot that its index names and in no other, and every pair of a slot has a backoff.\<close>

definition ring_ok :: "nat \<Rightarrow> duration \<Rightarrow> nat \<Rightarrow> ('t, 'p) BackoffStorage \<Rightarrow> bool" where
  "ring_ok n interval slack s \<longleftrightarrow>
     0 < interval \<and> heartbeat_interval s = interval \<and> backoff_slack s = slack \<and>
     length (backoffs_by_heartbeat s) = n \<and> heartbeat_index s < n \<and>
     (\<forall>t p b i. entry_of s t p = Some (b, i) \<longrightarrow> i < n) \<and>
     (\<forall>i < n. \<forall>t p. (t, p) \<in> backoffs_by_heartbeat s ! i \<longleftrightarrow> (\<exists>b. entry_of s t p = Some (b, i)))"

lemma ring_okD:
  assumes "ring_ok n interval slack s"
  shows "0 < interval" "heartbeat_interval s = interval" "backoff_slack s = slack" "length (backoffs_by_heartbeat s) = n"
    "heartbeat_index s < n" "entry_of s t p = Some (b, i) \<Longrightarrow> i < n"
    "i < n \<Longrightarrow> (t, p) \<in> backoffs_by_heartbeat s ! i \<longleftrightarrow> (\<exists>b. entry_of s t p = Some (b, i))"
  using assms unfolding ring_ok_def by blast+

lemma BackoffStorage_new_ok:
  assumes "0 < interval"
  shows "\<exists>s. BackoffStorage_new prune interval slack = Some s \<and>
    ring_ok ((prune + interval - 1) div interval + slack + 1) interval slack s \<and> (\<forall>t p. entry_of s t p = None)"
  using assms by (auto simp: BackoffStorage_new_def heartbeats_def ring_ok_def entry_of_def nth_replicate simp del: replicate_Suc)

lemma put_backoff_entry:
  assumes "put_backoff now t p time s = Some s'"
  shows "entry_of s' t' p' = (if (t', p') = (t, p)
      then Some (now + time, (heartbeat_index s + (time + heartbeat_interval s - 1) div heartbeat_interval s + backoff_slack s)
                             mod length (backoffs_by_heartbeat s))
      else entry_of s t' p')"
  using assms
  by (auto simp: put_backoff_def heartbeats_def entry_of_def topic_backoffs_def Let_def Mapping.lookup_update'
      split: if_splits option.splits)

lemma put_backoff_ok:
  assumes ok: "ring_ok n interval slack s0" and none: "entry_of s t p = None \<or> entry_of s t p = Some (b0, i0)"
    and s: "heartbeat_interval s = interval" "backoff_slack s = slack" "heartbeat_index s = heartbeat_index s0"
      "length (backoffs_by_heartbeat s) = n" "\<And>t' p'. entry_of s t' p' = entry_of s0 t' p'"
      "\<And>i t' p'. i < n \<Longrightarrow> (t', p') \<in> backoffs_by_heartbeat s ! i \<longleftrightarrow>
         (t', p') \<noteq> (t, p) \<and> (t', p') \<in> backoffs_by_heartbeat s0 ! i"
  shows "\<exists>s' j. put_backoff now t p time s = Some s' \<and> ring_ok n interval slack s' \<and>
    heartbeat_index s' = heartbeat_index s0 \<and>
    (\<forall>t' p'. entry_of s' t' p' = (if (t', p') = (t, p) then Some (now + time, j) else entry_of s0 t' p'))"
proof -
  define j where "j = (heartbeat_index s + (time + interval - 1) div interval + slack) mod n"
  have n: "0 < n" using ring_okD(5) [OF ok] by simp
  then have j: "j < n" by (simp add: j_def)
  define s' where "s' = s\<lparr>backoffs_by_heartbeat := (backoffs_by_heartbeat s)[j := insert (t, p) (backoffs_by_heartbeat s ! j)],
    backoffs := Mapping.update t (Mapping.update p (now + time, j) (topic_backoffs t s)) (backoffs s)\<rparr>"
  have put: "put_backoff now t p time s = Some s'"
    using ring_okD(1) [OF ok] s(1,2,4) by (simp add: put_backoff_def heartbeats_def s'_def j_def Let_def)
  have entry: "entry_of s' t' p' = (if (t', p') = (t, p) then Some (now + time, j) else entry_of s0 t' p')" for t' p'
    using put_backoff_entry [OF put, of t' p'] s(1,2,4,5) by (simp add: j_def)
  have slots: "backoffs_by_heartbeat s' ! i =
      (if i = j then insert (t, p) (backoffs_by_heartbeat s ! j) else backoffs_by_heartbeat s ! i)" for i
    using j s(4) by (simp add: s'_def nth_list_update)
  have "ring_ok n interval slack s'"
    unfolding ring_ok_def
  proof (intro conjI allI impI)
    show "i < n" if "entry_of s' t' p' = Some (b, i)" for t' p' b i
      using that ring_okD(6) [OF ok] j entry [of t' p'] by (auto split: if_splits)
    show "(t', p') \<in> backoffs_by_heartbeat s' ! i \<longleftrightarrow> (\<exists>b. entry_of s' t' p' = Some (b, i))" if i: "i < n" for i t' p'
      using s(6) [OF i, of t' p'] ring_okD(7) [OF ok i, of t' p'] entry [of t' p'] unfolding slots by auto
  qed (use ring_okD(1,5) [OF ok] s in \<open>simp_all add: s'_def\<close>)
  then show ?thesis using put entry s(3) by (auto simp: s'_def)
qed

lemma update_backoff_ok:
  assumes ok: "ring_ok n interval slack s"
  shows "\<exists>s'. update_backoff now t p time s = Some s' \<and> ring_ok n interval slack s' \<and>
    heartbeat_index s' = heartbeat_index s \<and>
    (\<forall>t' p'. (t', p') \<noteq> (t, p) \<longrightarrow> entry_of s' t' p' = entry_of s t' p') \<and>
    (\<exists>j. entry_of s' t p = (case entry_of s t p of
       Some (b, i) \<Rightarrow> if b < now + time then Some (now + time, j) else Some (b, i)
     | None \<Rightarrow> Some (now + time, j)))"
proof (cases "entry_of s t p")
  case None
  from put_backoff_ok [OF ok, of s t p _ _ now time] None ring_okD [OF ok]
  obtain s' j where "put_backoff now t p time s = Some s'" "ring_ok n interval slack s'"
    "heartbeat_index s' = heartbeat_index s"
    "\<forall>t' p'. entry_of s' t' p' = (if (t', p') = (t, p) then Some (now + time, j) else entry_of s t' p')"
    by force
  then show ?thesis using None by (auto simp: update_backoff_def entry_of_topic)
next
  case (Some e)
  obtain b i where e: "e = (b, i)" by (cases e)
  show ?thesis
  proof (cases "b < now + time")
    case False
    then show ?thesis using Some e ok by (auto simp: update_backoff_def entry_of_topic)
  next
    case True
    let ?s = "s\<lparr>backoffs_by_heartbeat := (backoffs_by_heartbeat s)[i := backoffs_by_heartbeat s ! i - {(t, p)}]\<rparr>"
    have i: "i < n" using ring_okD(6) [OF ok] Some e by simp
    have "(t', p') \<in> backoffs_by_heartbeat ?s ! j \<longleftrightarrow> (t', p') \<noteq> (t, p) \<and> (t', p') \<in> backoffs_by_heartbeat s ! j"
      if "j < n" for j t' p'
      using that i ring_okD(4) [OF ok] ring_okD(7) [OF ok that, of t p] Some e by (auto simp: nth_list_update)
    then obtain s' j where "put_backoff now t p time ?s = Some s'" "ring_ok n interval slack s'"
      "heartbeat_index s' = heartbeat_index s"
      "\<forall>t' p'. entry_of s' t' p' = (if (t', p') = (t, p) then Some (now + time, j) else entry_of s t' p')"
      using put_backoff_ok [OF ok, of ?s t p b i now time] Some e ring_okD(2-5) [OF ok] by (auto simp: entry_of_def)
    then show ?thesis using Some e True by (auto simp: update_backoff_def entry_of_topic)
  qed
qed

lemma update_backoff_entry:
  assumes ok: "ring_ok n interval slack s" and up: "update_backoff now t p time s = Some s'"
  shows "ring_ok n interval slack s'" "heartbeat_index s' = heartbeat_index s"
    "(t', p') \<noteq> (t, p) \<Longrightarrow> entry_of s' t' p' = entry_of s t' p'"
    "entry_of s t p = Some (b, i) \<Longrightarrow> now + time \<le> b \<Longrightarrow> entry_of s' t p = Some (b, i)"
    "entry_of s t p = None \<Longrightarrow> \<exists>j. entry_of s' t p = Some (now + time, j)"
    "entry_of s t p = Some (b, i) \<Longrightarrow> b < now + time \<Longrightarrow> \<exists>j. entry_of s' t p = Some (now + time, j)"
  using update_backoff_ok [OF ok, of now t p time] up by auto

lemma update_backoff_covers:
  assumes "ring_ok n interval slack s" "update_backoff now t p time s = Some s'"
  shows "\<exists>b i. entry_of s' t p = Some (b, i) \<and> now + time \<le> b"
proof (cases "entry_of s t p")
  case None
  then show ?thesis using update_backoff_entry(5) [OF assms] by auto
next
  case (Some e)
  obtain b i where "e = (b, i)" by (cases e)
  then show ?thesis using Some update_backoff_entry(4,6) [OF assms, of b i] by (cases "now + time \<le> b") auto
qed

lemma purge_lookup:
  "Option.bind (Mapping.lookup (purge gone m) t) (\<lambda>inner. Mapping.lookup inner p) =
     (if (t, p) \<in> gone then None else Option.bind (Mapping.lookup m t) (\<lambda>inner. Mapping.lookup inner p))"
proof (cases "Mapping.lookup m t")
  case (Some inner)
  let ?rest = "Mapping.filter (\<lambda>p _. (t, p) \<notin> gone) inner"
  have rest: "Mapping.lookup ?rest p = (if (t, p) \<in> gone then None else Mapping.lookup inner p)" for p
    by (simp add: lookup_filter split: option.splits)
  have "Mapping.is_empty ?rest \<Longrightarrow> Mapping.lookup ?rest p = None"
    by (simp add: Mapping.is_empty_def Mapping.keys_dom_lookup dom_def)
  then show ?thesis
    using Some rest [of p] by (auto simp: purge_def Let_def lookup_filter lookup_map_values)
qed (simp add: purge_def Let_def lookup_filter lookup_map_values)

lemma heartbeat_ok:
  assumes ok: "ring_ok n interval slack s"
  shows "ring_ok n interval slack (Backoff_heartbeat now s)"
    "heartbeat_index (Backoff_heartbeat now s) = (heartbeat_index s + 1) mod n"
    "entry_of (Backoff_heartbeat now s) t p =
       (case entry_of s t p of
          Some (b, i) \<Rightarrow> if i = heartbeat_index s \<and> b + interval * slack \<le> now then None else Some (b, i)
        | None \<Rightarrow> None)"
proof -
  let ?s = "Backoff_heartbeat now s" and ?h = "heartbeat_index s"
  have h: "?h < n" "length (backoffs_by_heartbeat s) = n" using ring_okD(4,5) [OF ok] by simp_all
  define keep where "keep = (\<lambda>(t, p). case get_backoff_time t p s of Some b \<Rightarrow> b + interval * slack > now | None \<Rightarrow> False)"
  have s': "?s = s\<lparr>backoffs_by_heartbeat := (backoffs_by_heartbeat s)[?h := Set.filter keep (backoffs_by_heartbeat s ! ?h)],
      backoffs := purge (Set.filter (\<lambda>x. \<not> keep x) (backoffs_by_heartbeat s ! ?h)) (backoffs s),
      heartbeat_index := (?h + 1) mod n\<rparr>"
    using h ring_okD(2,3) [OF ok] by (simp add: Backoff_heartbeat_def Let_def keep_def)
  have keep: "keep (t, p) \<longleftrightarrow> (\<exists>b i. entry_of s t p = Some (b, i) \<and> now < b + interval * slack)" for t p
    by (auto simp: keep_def queries split: option.splits)
  have entry: "entry_of ?s t p =
       (case entry_of s t p of
          Some (b, i) \<Rightarrow> if i = ?h \<and> b + interval * slack \<le> now then None else Some (b, i)
        | None \<Rightarrow> None)" for t p
    unfolding s' using ring_okD(7) [OF ok h(1), of t p] keep [of t p]
    by (auto simp: entry_of_def purge_lookup split: option.splits)
  then show "entry_of ?s t p =
       (case entry_of s t p of
          Some (b, i) \<Rightarrow> if i = ?h \<and> b + interval * slack \<le> now then None else Some (b, i)
        | None \<Rightarrow> None)" .
  show "heartbeat_index ?s = (?h + 1) mod n" by (simp add: s')
  show "ring_ok n interval slack ?s"
    unfolding ring_ok_def
  proof (intro conjI allI impI)
    show "i < n" if "entry_of ?s t p = Some (b, i)" for t p b i
      using that ring_okD(6) [OF ok, of t p] entry [of t p] by (auto split: option.splits if_splits)
    show "(t, p) \<in> backoffs_by_heartbeat ?s ! i \<longleftrightarrow> (\<exists>b. entry_of ?s t p = Some (b, i))" if i: "i < n" for i t p
      using ring_okD(7) [OF ok i, of t p] keep [of t p] h i entry [of t p]
      by (auto simp: s' nth_list_update split: option.splits if_splits)
  qed (use ring_okD(1-5) [OF ok] in \<open>simp_all add: s'\<close>)
qed

section \<open>Runs\<close>

datatype ('t, 'p) backoff_op = Update 't 'p duration | Beat

fun backoff_step :: "instant \<times> ('t, 'p) backoff_op \<Rightarrow> ('t, 'p) BackoffStorage \<Rightarrow> ('t, 'p) BackoffStorage option" where
  "backoff_step (now, Update t p time) s = update_backoff now t p time s"
| "backoff_step (now, Beat) s = Some (Backoff_heartbeat now s)"

fun backoff_run :: "(instant \<times> ('t, 'p) backoff_op) list \<Rightarrow> ('t, 'p) BackoffStorage \<Rightarrow> ('t, 'p) BackoffStorage option" where
  "backoff_run [] s = Some s"
| "backoff_run (x # xs) s = Option.bind (backoff_step x s) (backoff_run xs)"

definition beats :: "(instant \<times> ('t, 'p) backoff_op) list \<Rightarrow> nat" where
  "beats xs = length (filter (\<lambda>x. snd x = Beat) xs)"

lemma backoff_run_append: "backoff_run (xs @ ys) s = Option.bind (backoff_run xs s) (backoff_run ys)"
proof (induction xs arbitrary: s)
  case (Cons x xs)
  then show ?case by (cases "backoff_step x s") simp_all
qed simp

lemma backoff_step_ok:
  assumes "ring_ok n interval slack s"
  shows "\<exists>s'. backoff_step x s = Some s' \<and> ring_ok n interval slack s'"
proof (cases x rule: prod.exhaust)
  case (Pair now y)
  show ?thesis
  proof (cases y)
    case (Update t p d)
    then show ?thesis using Pair update_backoff_ok [OF assms, of now t p d] by auto
  next
    case Beat
    then show ?thesis using Pair heartbeat_ok(1) [OF assms] by simp
  qed
qed

lemma backoff_run_ok:
  "ring_ok n interval slack s \<Longrightarrow> \<exists>s'. backoff_run xs s = Some s' \<and> ring_ok n interval slack s'"
proof (induction xs arbitrary: s)
  case (Cons x xs)
  from backoff_step_ok [OF Cons.prems, of x] obtain s1 where "backoff_step x s = Some s1" "ring_ok n interval slack s1" by blast
  then show ?case using Cons.IH [of s1] by auto
qed simp

text \<open>A step leaves a backoff that is not over, or prolongs it.\<close>

lemma step_keeps:
  assumes ok: "ring_ok n interval slack s" and step: "backoff_step x s = Some s'"
    and e: "entry_of s t p = Some (b, i)" and "fst x < b + interval * slack"
  shows "\<exists>b' i'. entry_of s' t p = Some (b', i') \<and> b \<le> b'"
proof (cases x rule: prod.exhaust)
  case (Pair now y)
  show ?thesis
  proof (cases y)
    case (Update t' p' d)
    then have "update_backoff now t' p' d s = Some s'" using step Pair by simp
    note u = update_backoff_entry [OF ok this]
    show ?thesis
    proof (cases "(t, p) = (t', p')")
      case True
      then show ?thesis using u(4,6) [of b i] e by (cases "now + d \<le> b") auto
    next
      case False
      then show ?thesis using u(3) [of t p] e by auto
    qed
  next
    case Beat
    then show ?thesis using step Pair heartbeat_ok(3) [OF ok, of now t p] e assms(4) by auto
  qed
qed

lemma run_keeps:
  "ring_ok n interval slack s \<Longrightarrow> backoff_run xs s = Some s' \<Longrightarrow> entry_of s t p = Some (b, i) \<Longrightarrow>
   \<forall>x \<in> set xs. fst x < b + interval * slack \<Longrightarrow> \<exists>b' i'. entry_of s' t p = Some (b', i') \<and> b \<le> b'"
proof (induction xs arbitrary: s b i)
  case (Cons x xs)
  obtain s1 where s1: "backoff_step x s = Some s1" "ring_ok n interval slack s1"
    using backoff_step_ok [OF Cons.prems(1), of x] by blast
  obtain b1 i1 where b1: "entry_of s1 t p = Some (b1, i1)" "b \<le> b1"
    using step_keeps [OF Cons.prems(1) s1(1) Cons.prems(3)] Cons.prems(4) by auto
  have "\<forall>x \<in> set xs. fst x < b1 + interval * slack" using Cons.prems(4) b1(2) by fastforce
  then show ?case using Cons.IH [OF s1(2) _ b1(1)] Cons.prems(2) s1(1) b1(2) by fastforce
qed auto

text \<open>Where a backoff comes from.\<close>

lemma step_source:
  assumes ok: "ring_ok n interval slack s" and step: "backoff_step x s = Some s'" and e: "entry_of s' t p = Some (b, i)"
  shows "(\<exists>i. entry_of s t p = Some (b, i)) \<or> (\<exists>u d. x = (u, Update t p d) \<and> b = u + d)"
proof (cases x rule: prod.exhaust)
  case (Pair now y)
  show ?thesis
  proof (cases y)
    case (Update t' p' d)
    then have "update_backoff now t' p' d s = Some s'" using step Pair by simp
    note u = update_backoff_entry [OF ok this]
    show ?thesis
    proof (cases "(t, p) = (t', p')")
      case True
      have "b = now + d \<or> (\<exists>i. entry_of s t p = Some (b, i))"
      proof (cases "entry_of s t p")
        case None
        then show ?thesis using u(5) True e by auto
      next
        case (Some e0)
        obtain b0 i0 where "e0 = (b0, i0)" by (cases e0)
        then show ?thesis using u(4,6) [of b0 i0] True e Some by (cases "now + d \<le> b0") auto
      qed
      then show ?thesis using True Pair Update by auto
    next
      case False
      then have "entry_of s t p = Some (b, i)" using u(3) [of t p] e by auto
      then show ?thesis by blast
    qed
  next
    case Beat
    then have "entry_of s t p = Some (b, i)"
      using step Pair heartbeat_ok(3) [OF ok, of now t p] e by (auto split: option.splits if_splits)
    then show ?thesis by blast
  qed
qed

lemma run_source:
  "ring_ok n interval slack s \<Longrightarrow> backoff_run xs s = Some s' \<Longrightarrow> entry_of s' t p = Some (b, i) \<Longrightarrow>
   (\<exists>i. entry_of s t p = Some (b, i)) \<or> (\<exists>u d. (u, Update t p d) \<in> set xs \<and> b = u + d)"
proof (induction xs arbitrary: s)
  case (Cons x xs)
  obtain s1 where s1: "backoff_step x s = Some s1" "ring_ok n interval slack s1"
    using backoff_step_ok [OF Cons.prems(1), of x] by blast
  have "(\<exists>i. entry_of s1 t p = Some (b, i)) \<or> (\<exists>u d. (u, Update t p d) \<in> set xs \<and> b = u + d)"
    using Cons.IH [OF s1(2) _ Cons.prems(3)] Cons.prems(2) s1(1) by simp
  then show ?case
  proof (elim disjE exE)
    fix i1
    assume "entry_of s1 t p = Some (b, i1)"
    from step_source [OF Cons.prems(1) s1(1) this] show ?case by (auto intro: disjI1)
  next
    fix u d
    assume "(u, Update t p d) \<in> set xs \<and> b = u + d"
    then have "(u, Update t p d) \<in> set (x # xs) \<and> b = u + d" by simp
    then show ?case by blast
  qed
qed auto

text \<open>How many heartbeats it takes until the ring comes to the slot of a backoff.\<close>

definition ring_distance :: "nat \<Rightarrow> nat \<Rightarrow> nat \<Rightarrow> nat" where
  "ring_distance n i h = (if h \<le> i then i - h else i + n - h)"

lemma ring_distance_step:
  assumes "i < n" "h < n" "i \<noteq> h"
  shows "ring_distance n i h = Suc (ring_distance n i ((h + 1) mod n))"
proof (cases "h + 1 < n")
  case False
  then have "n = h + 1" using assms(2) by simp
  then show ?thesis using assms by (simp add: ring_distance_def)
qed (use assms in \<open>auto simp: ring_distance_def\<close>)

lemma ring_distance_bound: "i < n \<Longrightarrow> h < n \<Longrightarrow> ring_distance n i h < n"
  by (auto simp: ring_distance_def)

lemma run_expires:
  assumes "\<forall>u d. (u, Update t p d) \<notin> set xs" "\<forall>x \<in> set xs. T \<le> fst x"
  shows "ring_ok n interval slack s \<Longrightarrow> backoff_run xs s = Some s' \<Longrightarrow>
    entry_of s t p = None \<or> (\<exists>b i. entry_of s t p = Some (b, i) \<and> b + interval * slack \<le> T \<and>
      ring_distance n i (heartbeat_index s) < beats xs) \<Longrightarrow>
    entry_of s' t p = None"
  using assms
proof (induction xs arbitrary: s)
  case Nil
  then show ?case by (auto simp: beats_def)
next
  case (Cons x xs)
  obtain now y where x: "x = (now, y)" by (cases x)
  obtain s1 where s1: "backoff_step x s = Some s1" "ring_ok n interval slack s1"
    using backoff_step_ok [OF Cons.prems(1), of x] by blast
  have "entry_of s1 t p = None \<or> (\<exists>b i. entry_of s1 t p = Some (b, i) \<and> b + interval * slack \<le> T \<and>
      ring_distance n i (heartbeat_index s1) < beats xs)"
  proof (cases y)
    case (Update t' p' d)
    then have "update_backoff now t' p' d s = Some s1" "(t, p) \<noteq> (t', p')" using s1(1) x Cons.prems(4) by auto
    then show ?thesis
      using update_backoff_entry(2,3) [OF Cons.prems(1), of now t' p' d s1] Cons.prems(3) Update x by (auto simp: beats_def)
  next
    case Beat
    then have s1': "s1 = Backoff_heartbeat now s" using s1(1) x by simp
    show ?thesis
    proof (cases "entry_of s t p")
      case None
      then show ?thesis using heartbeat_ok(3) [OF Cons.prems(1), of now t p] s1' by simp
    next
      case (Some e)
      then obtain b i where e: "entry_of s t p = Some (b, i)" "b + interval * slack \<le> T"
        "ring_distance n i (heartbeat_index s) < Suc (beats xs)"
        using Cons.prems(3) Beat x by (auto simp: beats_def)
      have "i < n" "heartbeat_index s < n" using ring_okD(5,6) [OF Cons.prems(1)] e(1) by auto
      then show ?thesis
        using e ring_distance_step [of i n "heartbeat_index s"] heartbeat_ok(2,3) [OF Cons.prems(1), of now] s1' Cons.prems(5) x
        by (cases "i = heartbeat_index s") auto
    qed
  qed
  then show ?case using Cons.IH [OF s1(2)] Cons.prems(2,4,5) s1(1) by auto
qed

section \<open>Property\<close>

text \<open>
  C19. Backoffs are respected and forgotten. After any sequence of updates and heartbeats up to the time \<open>now\<close>, none of which panics, a peer is
  still held back for a topic if some update asked for it until a time that, with the slack, has not come. And a peer
  all of whose backoffs, with the slack, were over at the time \<open>T\<close> is free after one more round of the ring of heartbeats without a new
  backoff, however long the backoffs were.
\<close>
theorem backoff_respected:
  fixes xs ys :: "(instant \<times> ('t, 'p) backoff_op) list"
  assumes interval: "0 < interval" and times: "\<forall>x \<in> set (xs @ ys). fst x \<le> now"
  shows "\<exists>s s1 s2. BackoffStorage_new prune interval slack = Some s \<and> backoff_run xs s = Some s1 \<and> backoff_run ys s1 = Some s2 \<and>
    (\<forall>t p u d. (u, Update t p d) \<in> set (xs @ ys) \<and> now < u + d + interval * slack \<longrightarrow> is_backoff_with_slack t p s2) \<and>
    (\<forall>t p T. (\<forall>u d. (u, Update t p d) \<in> set xs \<longrightarrow> u + d + interval * slack \<le> T) \<and>
       (\<forall>u d. (u, Update t p d) \<notin> set ys) \<and> (\<forall>y \<in> set ys. T \<le> fst y) \<and>
       (prune + interval - 1) div interval + slack + 1 \<le> beats ys \<longrightarrow> \<not> is_backoff_with_slack t p s2)"
proof -
  define n where "n = (prune + interval - 1) div interval + slack + 1"
  have "\<exists>s :: ('t, 'p) BackoffStorage. BackoffStorage_new prune interval slack = Some s \<and> ring_ok n interval slack s \<and>
      (\<forall>t p. entry_of s t p = None)"
    unfolding n_def by (rule BackoffStorage_new_ok [OF interval])
  then obtain s :: "('t, 'p) BackoffStorage" where s: "BackoffStorage_new prune interval slack = Some s"
    "ring_ok n interval slack s" "\<forall>t p. entry_of s t p = None"
    by blast
  obtain s1 where s1: "backoff_run xs s = Some s1" "ring_ok n interval slack s1" using backoff_run_ok [OF s(2)] by blast
  obtain s2 where s2: "backoff_run ys s1 = Some s2" "ring_ok n interval slack s2" using backoff_run_ok [OF s1(2)] by blast
  have all: "backoff_run (xs @ ys) s = Some s2" using s1(1) s2(1) by (simp add: backoff_run_append)
  have "is_backoff_with_slack t p s2" if up: "(u, Update t p d) \<in> set (xs @ ys)" "now < u + d + interval * slack" for t p u d
  proof -
    obtain as bs where split: "xs @ ys = as @ (u, Update t p d) # bs" using up(1) by (meson split_list)
    obtain sa where sa: "backoff_run as s = Some sa" "ring_ok n interval slack sa" using backoff_run_ok [OF s(2)] by blast
    obtain sb where sb: "update_backoff u t p d sa = Some sb" "ring_ok n interval slack sb"
      using update_backoff_ok [OF sa(2), of u t p d] by blast
    obtain b i where b: "entry_of sb t p = Some (b, i)" "u + d \<le> b"
      using update_backoff_covers [OF sa(2) sb(1)] by blast
    have "backoff_run bs sb = Some s2" using all sa(1) sb(1) unfolding split by (simp add: backoff_run_append)
    moreover have "fst x < b + interval * slack" if "x \<in> set bs" for x
    proof -
      have "fst x \<le> now" using times that unfolding split by simp
      then show ?thesis using up(2) b(2) by linarith
    qed
    ultimately obtain b' i' where "entry_of s2 t p = Some (b', i')" using run_keeps [OF sb(2) _ b(1), of bs s2] by blast
    then show ?thesis by (simp add: queries)
  qed
  moreover have "\<not> is_backoff_with_slack t p s2"
    if over: "\<forall>u d. (u, Update t p d) \<in> set xs \<longrightarrow> u + d + interval * slack \<le> T" "\<forall>u d. (u, Update t p d) \<notin> set ys"
      "\<forall>y \<in> set ys. T \<le> fst y" "n \<le> beats ys" for t p T
  proof -
    have "entry_of s1 t p = None \<or> (\<exists>b i. entry_of s1 t p = Some (b, i) \<and> b + interval * slack \<le> T \<and>
        ring_distance n i (heartbeat_index s1) < beats ys)"
    proof (cases "entry_of s1 t p")
      case (Some e)
      obtain b i where e: "e = (b, i)" by (cases e)
      have "b + interval * slack \<le> T" using run_source [OF s(2) s1(1)] Some e s(3) over(1) by fastforce
      moreover have "ring_distance n i (heartbeat_index s1) < n"
        using ring_okD(5,6) [OF s1(2)] Some e ring_distance_bound by blast
      ultimately show ?thesis using Some e over(4) by auto
    qed simp
    then show ?thesis using run_expires [OF over(2,3) s1(2) s2(1)] by (simp add: queries)
  qed
  ultimately show ?thesis using s(1) s1(1) s2(1) unfolding n_def by blast
qed

theorem backoff_respected_witness:
  "\<exists>s s1 s2. BackoffStorage_new 10 5 1 = Some s \<and> backoff_run [(0, Update ''news'' (1 :: nat) 20)] s = Some s1 \<and>
     backoff_run [(22, Beat)] s1 = Some s2 \<and> is_backoff_with_slack ''news'' 1 s2"
  using backoff_respected [of 5 "[(0, Update ''news'' (1 :: nat) 20)]" "[(22, Beat)]" 22 10 1] by fastforce

end
