(* ===== verification/Gossip_Subscriptions.thy ===== *)
theory Gossip_Subscriptions
  imports Prelude
begin

text \<open>
  The filters that decide which subscriptions of a peer gossipsub accepts (\<open>protocols/gossipsub/src/subscription_filter.rs\<close>). The
  trait \<open>TopicSubscriptionFilter\<close> with the filters that implement it is a datatype, the methods of the trait are functions by
  recursion on it; a method that a filter does not override has the default body of the trait. Topics are a type
  parameter. The function of a callback filter is taken to have no state of its own, and a regular expression is the
  predicate of the topics it matches. The two error messages are the two constructors of a type.
\<close>

datatype GossipsubSubscriptionAction = Subscribe | Unsubscribe

record 't GossipsubSubscription =
  action :: GossipsubSubscriptionAction
  topic_hash :: 't

datatype filter_error = TooManySubscriptionsPerRequest | TooManySubscribedTopics

datatype 't SubscriptionFilter =
    AllowAll
  | Whitelist "'t set"
  | MaxCount "'t SubscriptionFilter" (max_subscribed_topics: nat) (max_subscriptions_per_request: nat)
  | Combined "'t SubscriptionFilter" "'t SubscriptionFilter"
  | Callback "'t \<Rightarrow> bool"
  | Regex "'t \<Rightarrow> bool"

primrec can_subscribe :: "'t SubscriptionFilter \<Rightarrow> 't \<Rightarrow> bool" where
  "can_subscribe AllowAll t = True"
| "can_subscribe (Whitelist w) t = (t \<in> w)"
| "can_subscribe (MaxCount f n m) t = can_subscribe f t"
| "can_subscribe (Combined f g) t = (can_subscribe f t \<and> can_subscribe g t)"
| "can_subscribe (Callback p) t = p t"
| "can_subscribe (Regex matches) t = matches t"

definition allow_incoming_subscription :: "'t SubscriptionFilter \<Rightarrow> 't GossipsubSubscription \<Rightarrow> bool" where
  "allow_incoming_subscription f s = can_subscribe f (topic_hash s)"

text \<open>The default body of the method and the one of the combined filter, which alone overrides it.\<close>

definition default_subscription_set ::
  "'t SubscriptionFilter \<Rightarrow> 't GossipsubSubscription set \<Rightarrow> 't set \<Rightarrow> filter_error + 't GossipsubSubscription set" where
  "default_subscription_set f subs cur = Inr (Set.filter (allow_incoming_subscription f) subs)"

fun filter_incoming_subscription_set ::
  "'t SubscriptionFilter \<Rightarrow> 't GossipsubSubscription set \<Rightarrow> 't set \<Rightarrow> filter_error + 't GossipsubSubscription set" where
  "filter_incoming_subscription_set (Combined f g) subs cur =
     (case filter_incoming_subscription_set f subs cur of
        Inl e \<Rightarrow> Inl e
      | Inr intermediate \<Rightarrow> filter_incoming_subscription_set g intermediate cur)"
| "filter_incoming_subscription_set f subs cur = default_subscription_set f subs cur"

text \<open>One turn of the loop that removes duplicates, and the loop.\<close>

definition dedup_turn ::
  "'t GossipsubSubscription \<Rightarrow> ('t, 't GossipsubSubscription) mapping \<Rightarrow> ('t, 't GossipsubSubscription) mapping" where
  "dedup_turn s m =
     (case Mapping.lookup m (topic_hash s) of
        Some e \<Rightarrow> if action e \<noteq> action s then Mapping.delete (topic_hash s) m else m
      | None \<Rightarrow> Mapping.update (topic_hash s) s m)"

definition dedup_subscriptions :: "'t GossipsubSubscription list \<Rightarrow> 't GossipsubSubscription set" where
  "dedup_subscriptions subs =
     (let m = fold dedup_turn subs Mapping.empty in (\<lambda>t. the (Mapping.lookup m t)) ` Mapping.keys m)"

definition count_unsubscribed :: "'t set \<Rightarrow> 't GossipsubSubscription set \<Rightarrow> nat" where
  "count_unsubscribed cur R = card (Set.filter (\<lambda>s. action s = Unsubscribe \<and> topic_hash s \<in> cur) R)"

definition count_subscribed :: "'t set \<Rightarrow> 't GossipsubSubscription set \<Rightarrow> nat" where
  "count_subscribed cur R = card (Set.filter (\<lambda>s. action s = Subscribe \<and> topic_hash s \<notin> cur) R)"

fun filter_incoming_subscriptions ::
  "'t SubscriptionFilter \<Rightarrow> 't GossipsubSubscription list \<Rightarrow> 't set \<Rightarrow> filter_error + 't GossipsubSubscription set" where
  "filter_incoming_subscriptions (MaxCount f n m) subs cur =
     (if length subs > m then Inl TooManySubscriptionsPerRequest
      else case filter_incoming_subscriptions f subs cur of
        Inl e \<Rightarrow> Inl e
      | Inr R \<Rightarrow>
          if count_subscribed cur R + card cur > n + count_unsubscribed cur R then Inl TooManySubscribedTopics
          else Inr R)"
| "filter_incoming_subscriptions f subs cur = filter_incoming_subscription_set f (dedup_subscriptions subs) cur"

section \<open>What the removal of duplicates keeps\<close>

text \<open>The entry of one topic depends only on the subscriptions for that topic.\<close>

fun merge_actions :: "GossipsubSubscriptionAction list \<Rightarrow> GossipsubSubscriptionAction option \<Rightarrow> GossipsubSubscriptionAction option" where
  "merge_actions [] acc = acc"
| "merge_actions (a # as) None = merge_actions as (Some a)"
| "merge_actions (a # as) (Some b) = merge_actions as (if a = b then Some b else None)"

definition actions_of :: "'t \<Rightarrow> 't GossipsubSubscription list \<Rightarrow> GossipsubSubscriptionAction list" where
  "actions_of t subs = map action (filter (\<lambda>s. topic_hash s = t) subs)"

lemma actions_of_simps [simp]:
  "actions_of t [] = []"
  "actions_of t (s # subs) = (if topic_hash s = t then action s # actions_of t subs else actions_of t subs)"
  by (simp_all add: actions_of_def)

lemma subscription_eta: "\<lparr>action = action s, topic_hash = topic_hash s\<rparr> = (s :: 't GossipsubSubscription)"
  by simp

lemma dedup_fold:
  assumes "\<And>t e. Mapping.lookup m t = Some e \<Longrightarrow> topic_hash e = t"
  shows "Mapping.lookup (fold dedup_turn subs m) t =
    map_option (\<lambda>a. \<lparr>action = a, topic_hash = t\<rparr>) (merge_actions (actions_of t subs) (map_option action (Mapping.lookup m t)))"
  using assms
proof (induction subs arbitrary: m)
  case Nil
  then show ?case by (cases "Mapping.lookup m t") (auto simp: subscription_eta)
next
  case (Cons s subs)
  have turn: "Mapping.lookup (dedup_turn s m) t' =
      (if t' = topic_hash s
       then (case Mapping.lookup m t' of None \<Rightarrow> Some s | Some e \<Rightarrow> if action e = action s then Some e else None)
       else Mapping.lookup m t')" for t'
    by (auto simp: dedup_turn_def Mapping.lookup_update' lookup_delete_if split: option.splits)
  have "topic_hash e = t'" if "Mapping.lookup (dedup_turn s m) t' = Some e" for t' e
    using that Cons.prems by (auto simp: turn split: if_splits option.splits)
  then have "Mapping.lookup (fold dedup_turn subs (dedup_turn s m)) t = map_option (\<lambda>a. \<lparr>action = a, topic_hash = t\<rparr>)
      (merge_actions (actions_of t subs) (map_option action (Mapping.lookup (dedup_turn s m) t)))"
    by (rule Cons.IH)
  then show ?case
    by (cases "Mapping.lookup m t") (auto simp: turn)
qed

lemma dedup_member:
  "s \<in> dedup_subscriptions subs \<longleftrightarrow> merge_actions (actions_of (topic_hash s) subs) None = Some (action s)"
proof -
  have look: "Mapping.lookup (fold dedup_turn subs Mapping.empty) t =
      map_option (\<lambda>a. \<lparr>action = a, topic_hash = t\<rparr>) (merge_actions (actions_of t subs) None)" for t :: 'a
    using dedup_fold [of Mapping.empty subs t] by simp
  show ?thesis
  proof
    assume "s \<in> dedup_subscriptions subs"
    then obtain t where "t \<in> Mapping.keys (fold dedup_turn subs Mapping.empty)"
      "s = the (Mapping.lookup (fold dedup_turn subs Mapping.empty) t)"
      by (auto simp: dedup_subscriptions_def Let_def)
    then show "merge_actions (actions_of (topic_hash s) subs) None = Some (action s)"
      by (auto simp: keys_dom_lookup look dom_def)
  next
    assume h: "merge_actions (actions_of (topic_hash s) subs) None = Some (action s)"
    then have "Mapping.lookup (fold dedup_turn subs Mapping.empty) (topic_hash s) = Some s"
      by (simp add: look subscription_eta)
    then show "s \<in> dedup_subscriptions subs"
      unfolding dedup_subscriptions_def Let_def by (intro image_eqI [of _ _ "topic_hash s"]) (auto simp: keys_dom_lookup)
  qed
qed

lemma merge_actions_mem: "merge_actions as acc = Some a \<Longrightarrow> a \<in> set as \<or> acc = Some a"
  by (induction as acc rule: merge_actions.induct) (auto split: if_splits)

lemma dedup_subset: "dedup_subscriptions subs \<subseteq> set subs"
proof
  fix s assume "s \<in> dedup_subscriptions subs"
  then have "action s \<in> set (actions_of (topic_hash s) subs)"
    using merge_actions_mem by (fastforce simp: dedup_member)
  then obtain s' where "s' \<in> set subs" "topic_hash s' = topic_hash s" "action s' = action s" by (auto simp: actions_of_def)
  then show "s \<in> set subs" by (metis subscription_eta)
qed

lemma dedup_unique: "s \<in> dedup_subscriptions subs \<Longrightarrow> s' \<in> dedup_subscriptions subs \<Longrightarrow> topic_hash s = topic_hash s' \<Longrightarrow> s = s'"
  by (metis dedup_member option.inject subscription_eta)

section \<open>Results of the filters\<close>

lemma subscription_set_result:
  "filter_incoming_subscription_set f subs cur = Inr {s \<in> subs. can_subscribe f (topic_hash s)}"
  by (induction f arbitrary: subs)
    (auto simp: default_subscription_set_def allow_incoming_subscription_def)

lemma incoming_result:
  "filter_incoming_subscriptions f subs cur = Inr R \<Longrightarrow> R = {s \<in> dedup_subscriptions subs. can_subscribe f (topic_hash s)}"
  by (induction f arbitrary: R)
    (auto simp: subscription_set_result simp del: filter_incoming_subscription_set.simps split: if_splits sum.splits)

text \<open>The topics of a peer after the accepted subscriptions, and after all subscriptions one by one.\<close>

definition apply_accepted :: "'t set \<Rightarrow> 't GossipsubSubscription set \<Rightarrow> 't set" where
  "apply_accepted cur R =
     cur \<union> {t. \<lparr>action = Subscribe, topic_hash = t\<rparr> \<in> R} - {t. \<lparr>action = Unsubscribe, topic_hash = t\<rparr> \<in> R}"

definition apply_subscription :: "'t GossipsubSubscription \<Rightarrow> 't set \<Rightarrow> 't set" where
  "apply_subscription s cur =
     (case action s of Subscribe \<Rightarrow> insert (topic_hash s) cur | Unsubscribe \<Rightarrow> cur - {topic_hash s})"

definition apply_all :: "'t GossipsubSubscription list \<Rightarrow> 't set \<Rightarrow> 't set" where
  "apply_all subs cur = fold apply_subscription subs cur"

text \<open>A peer that never repeats itself: the subscriptions for a topic alternate, starting with one that changes something.\<close>

fun alternating :: "GossipsubSubscriptionAction list \<Rightarrow> bool \<Rightarrow> bool" where
  "alternating [] subscribed = True"
| "alternating (a # as) subscribed = ((a = Subscribe) \<noteq> subscribed \<and> alternating as (\<not> subscribed))"

definition merged_state :: "GossipsubSubscriptionAction option \<Rightarrow> bool \<Rightarrow> bool" where
  "merged_state acc subscribed = (case acc of None \<Rightarrow> subscribed | Some a \<Rightarrow> a = Subscribe)"

lemma action_cases: "a \<noteq> Subscribe \<longleftrightarrow> a = Unsubscribe"
  by (cases a) simp_all

lemma merge_alternating:
  assumes "alternating as d" "acc = None \<and> d = c \<or> acc = Some (if d then Subscribe else Unsubscribe) \<and> d \<noteq> c"
  shows "merged_state (merge_actions as acc) c = (if as = [] then d else last as = Subscribe)"
  using assms
proof (induction as arbitrary: d acc)
  case Nil
  then show ?case by (auto simp: merged_state_def)
next
  case (Cons a as)
  have alt: "alternating as (\<not> d)" "a = (if \<not> d then Subscribe else Unsubscribe)"
    using Cons.prems(1) by (auto simp: action_cases)
  have "merged_state (merge_actions (a # as) acc) c = (if as = [] then \<not> d else last as = Subscribe)"
  proof (cases acc)
    case None
    then have "merged_state (merge_actions as (Some a)) c = (if as = [] then \<not> d else last as = Subscribe)"
      using Cons.IH [OF alt(1), of "Some a"] Cons.prems(2) alt(2) by simp
    then show ?thesis by (simp add: None)
  next
    case (Some b)
    then have "a \<noteq> b" "(\<not> d) = c" using Cons.prems(2) alt(2) by auto
    then show ?thesis using Cons.IH [OF alt(1), of None] by (simp add: Some)
  qed
  then show ?case using alt(2) by auto
qed

lemma apply_all_topic:
  "t \<in> apply_all subs cur \<longleftrightarrow> (if actions_of t subs = [] then t \<in> cur else last (actions_of t subs) = Subscribe)"
  by (induction subs arbitrary: cur)
    (auto simp: apply_all_def apply_subscription_def split: GossipsubSubscriptionAction.splits)

lemma apply_accepted_topic:
  "t \<in> apply_accepted cur {s \<in> dedup_subscriptions subs. can_subscribe f (topic_hash s)} \<longleftrightarrow>
     (if can_subscribe f t then merged_state (merge_actions (actions_of t subs) None) (t \<in> cur) else t \<in> cur)"
  by (auto simp: apply_accepted_def dedup_member merged_state_def action_cases split: option.splits)
    (use action_cases in blast)

lemma card_accepted:
  assumes fin: "finite cur" "finite R"
    and unique: "\<And>s s'. s \<in> R \<Longrightarrow> s' \<in> R \<Longrightarrow> topic_hash s = topic_hash s' \<Longrightarrow> s = s'"
  shows "card (apply_accepted cur R) + count_unsubscribed cur R = card cur + count_subscribed cur R"
proof -
  let ?in = "Set.filter (\<lambda>s. action s = Subscribe \<and> topic_hash s \<notin> cur) R"
  let ?out = "Set.filter (\<lambda>s. action s = Unsubscribe \<and> topic_hash s \<in> cur) R"
  have inj: "inj_on topic_hash ?in" "inj_on topic_hash ?out" by (auto intro!: inj_onI dest: unique)
  have sub: "\<lparr>action = a, topic_hash = t\<rparr> \<in> R \<longleftrightarrow> (\<exists>s \<in> R. action s = a \<and> topic_hash s = t)" for a t
    by (metis subscription_eta GossipsubSubscription.select_convs(1,2))
  have eq: "apply_accepted cur R = (cur \<union> topic_hash ` ?in) - topic_hash ` ?out"
    unfolding apply_accepted_def sub
    by (auto dest: unique)
  have "topic_hash ` ?out \<subseteq> cur \<union> topic_hash ` ?in" by auto
  moreover have "finite ?in" "finite ?out" using fin(2) by simp_all
  moreover have "cur \<inter> topic_hash ` ?in = {}" by auto
  moreover have "card (topic_hash ` ?in) = card ?in" "card (topic_hash ` ?out) = card ?out"
    using inj by (simp_all add: card_image)
  moreover have "card ?out \<le> card cur"
    using card_mono [OF fin(1), of "topic_hash ` ?out"] inj(2) by (auto simp: card_image)
  ultimately show ?thesis
    unfolding eq count_subscribed_def count_unsubscribed_def
    using fin by (simp add: card_Diff_subset card_Un_disjoint)
qed

text \<open>
  C20. Limits on subscriptions. If a filter with limits accepts a request, the request has at most the allowed number of subscriptions, only
  subscriptions of the request for topics that the inner filter allows are passed on, and the peer has at most the allowed
  number of topics afterwards. If the peer sent only subscriptions that change something, what is passed on has the same
  effect on the allowed topics as all its subscriptions one after the other.
\<close>
theorem subscriptions_limited:
  assumes res: "filter_incoming_subscriptions (MaxCount f n m) subs cur = Inr R" and fin: "finite cur"
  shows "length subs \<le> m \<and> card (apply_accepted cur R) \<le> n \<and> R \<subseteq> set subs \<and> (\<forall>s \<in> R. can_subscribe f (topic_hash s)) \<and>
    ((\<forall>t. alternating (actions_of t subs) (t \<in> cur)) \<longrightarrow>
       apply_accepted cur R = {t. if can_subscribe f t then t \<in> apply_all subs cur else t \<in> cur})"
proof -
  have R: "R = {s \<in> dedup_subscriptions subs. can_subscribe f (topic_hash s)}" using incoming_result [OF res] by simp
  have sub: "R \<subseteq> set subs" using dedup_subset unfolding R by blast
  have le: "length subs \<le> m" "count_subscribed cur R + card cur \<le> n + count_unsubscribed cur R"
    using res by (auto split: if_splits sum.splits)
  have "s = s'" if "s \<in> R" "s' \<in> R" "topic_hash s = topic_hash s'" for s s'
    using dedup_unique that unfolding R by blast
  from card_accepted [OF fin finite_subset [OF sub finite_set] this]
  have "card (apply_accepted cur R) \<le> n" using le(2) by linarith
  moreover have "apply_accepted cur R = {t. if can_subscribe f t then t \<in> apply_all subs cur else t \<in> cur}"
    if alt: "\<forall>t. alternating (actions_of t subs) (t \<in> cur)"
  proof (rule set_eqI)
    fix t
    show "t \<in> apply_accepted cur R \<longleftrightarrow> t \<in> {t. if can_subscribe f t then t \<in> apply_all subs cur else t \<in> cur}"
      using merge_alternating [of "actions_of t subs" "t \<in> cur" None "t \<in> cur"] alt
      unfolding R apply_accepted_topic by (simp add: apply_all_topic)
  qed
  ultimately show ?thesis using le(1) sub unfolding R by blast
qed

theorem subscriptions_limited_witness:
  "\<exists>R. filter_incoming_subscriptions (MaxCount (Whitelist {2, 3 :: nat}) 1 3)
      [\<lparr>action = Unsubscribe, topic_hash = 2\<rparr>, \<lparr>action = Subscribe, topic_hash = 3\<rparr>, \<lparr>action = Subscribe, topic_hash = 4\<rparr>] {2} = Inr R \<and>
    card (apply_accepted {2} R) \<le> 1 \<and> apply_accepted {2} R = {3}"
proof -
  let ?subs = "[\<lparr>action = Unsubscribe, topic_hash = 2\<rparr>, \<lparr>action = Subscribe, topic_hash = 3\<rparr>, \<lparr>action = Subscribe, topic_hash = 4 :: nat\<rparr>]"
  let ?f = "Whitelist {2, 3 :: nat}"
  let ?R = "{\<lparr>action = Unsubscribe, topic_hash = 2 :: nat\<rparr>, \<lparr>action = Subscribe, topic_hash = 3\<rparr>}"
  have m: "fold dedup_turn ?subs Mapping.empty = Mapping.update 4 (?subs ! 2) (Mapping.update 3 (?subs ! 1) (Mapping.update 2 (?subs ! 0) Mapping.empty))"
    by (simp add: dedup_turn_def Mapping.lookup_update')
  have dedup: "dedup_subscriptions ?subs = {?subs ! 2, ?subs ! 1, ?subs ! 0}"
    unfolding dedup_subscriptions_def Let_def m keys_update keys_empty image_insert image_empty
    by (simp only: Mapping.lookup_update' option.sel if_True if_False rel_simps simp_thms)
  have set: "default_subscription_set ?f (dedup_subscriptions ?subs) {2} = Inr ?R"
    unfolding dedup by (auto simp: default_subscription_set_def allow_incoming_subscription_def)
  have "Set.filter (\<lambda>s. action s = Subscribe \<and> topic_hash s \<notin> {2}) ?R = {\<lparr>action = Subscribe, topic_hash = 3\<rparr>}"
    "Set.filter (\<lambda>s. action s = Unsubscribe \<and> topic_hash s \<in> {2}) ?R = {\<lparr>action = Unsubscribe, topic_hash = 2\<rparr>}"
    by auto
  then have "count_subscribed {2} ?R = 1" "count_unsubscribed {2} ?R = 1"
    unfolding count_subscribed_def count_unsubscribed_def by (simp_all only: card.empty card_insert_disjoint finite.emptyI empty_iff not_False_eq_True One_nat_def)
  then have res: "filter_incoming_subscriptions (MaxCount ?f 1 3) ?subs {2} = Inr ?R" by (simp add: set)
  note limited = subscriptions_limited [OF res finite.insertI [OF finite.emptyI]]
  have alt: "\<forall>t. alternating (actions_of t ?subs) (t \<in> {2})" by simp
  have eff: "{t. if can_subscribe ?f t then t \<in> apply_all ?subs {2} else t \<in> {2}} = {3}"
    by (auto simp: apply_all_def apply_subscription_def)
  have "apply_accepted {2} ?R = {3}"
    using limited alt unfolding eff by iprover
  then show ?thesis using res limited by iprover
qed

text \<open>
  C40. Limits in combined filters. Inside a combined filter the limits of a filter have no effect, on either side: the
  result is the one of the filter without them, and the request is never refused, however long it is.
\<close>
theorem combined_ignores_limits:
  "filter_incoming_subscriptions (Combined (MaxCount f n m) g) subs cur = filter_incoming_subscriptions (Combined f g) subs cur \<and>
   filter_incoming_subscriptions (Combined g (MaxCount f n m)) subs cur = filter_incoming_subscriptions (Combined g f) subs cur \<and>
   (\<exists>R. filter_incoming_subscriptions (Combined (MaxCount f n m) g) subs cur = Inr R)"
  by (simp add: subscription_set_result del: filter_incoming_subscription_set.simps)

end
