(* ===== verification/Core_PeerRecord.thy ===== *)
theory Core_PeerRecord
  imports Varint
begin

text \<open>
  Peer ids, signed envelopes and peer records: \<open>core/src/peer_id.rs\<close>, \<open>core/src/signed_envelope.rs\<close> and
  \<open>core/src/peer_record.rs\<close>.

  The cryptography (key pairs, signatures, hashes), the protobuf code the build generates, and the multihash and
  multiaddr crates are the fields of a record that the definitions take as a parameter. Their documented
  laws are \<open>lib_laws\<close>. A \<open>String\<close> is the list of its UTF-8 bytes.
\<close>

section \<open>Peer ids\<close>

record Multihash =
  mh_code :: u64
  mh_digest :: bytes

definition IDENTITY :: u64 where
  "IDENTITY = 0x00"

definition SHA2_256 :: u64 where
  "SHA2_256 = 0x12"

definition MAX_INLINE_KEY_LENGTH :: nat where
  "MAX_INLINE_KEY_LENGTH = 42"

record PeerId =
  pid_multihash :: Multihash

text \<open>The messages of \<open>peer_record.proto\<close> and \<open>envelope.proto\<close>, as the generated code has them.\<close>

record PeerRecordProto =
  rp_peer_id :: bytes
  rp_seq :: u64
  rp_addresses :: "bytes list"

record 'kb EnvelopeProto =
  ep_public_key :: "'kb option"
  ep_payload_type :: bytes
  ep_payload :: bytes
  ep_signature :: bytes

text \<open>
  The parameters. \<open>'kp\<close> is a key pair, \<open>'pk\<close> a public key, \<open>'kb\<close> its protobuf message, \<open>'a\<close> a multiaddress
  and \<open>'x\<close> the errors of the libraries.
\<close>

record ('kp, 'pk, 'kb, 'a, 'x) core_lib =
  uvi_usize :: "nat \<Rightarrow> bytes"
  kp_public :: "'kp \<Rightarrow> 'pk"
  kp_sign :: "'kp \<Rightarrow> bytes \<Rightarrow> 'x + bytes"
  pk_verify :: "'pk \<Rightarrow> bytes \<Rightarrow> bytes \<Rightarrow> bool"
  key_encoding :: "'pk \<Rightarrow> bytes"
  key_into_proto :: "'pk \<Rightarrow> 'kb"
  key_try_from :: "'kb \<Rightarrow> 'x + 'pk"
  code_digest :: "u64 \<Rightarrow> bytes \<Rightarrow> bytes"
  mh_to_bytes :: "Multihash \<Rightarrow> bytes"
  mh_from_bytes :: "bytes \<Rightarrow> 'x + Multihash"
  unsupported_code :: "u64 \<Rightarrow> 'x"
  addr_to_vec :: "'a \<Rightarrow> bytes"
  addr_try_from :: "bytes \<Rightarrow> 'x + 'a"
  record_encode :: "PeerRecordProto \<Rightarrow> bytes"
  record_decode :: "bytes \<Rightarrow> 'x + PeerRecordProto"
  envelope_encode :: "'kb EnvelopeProto \<Rightarrow> bytes"
  envelope_decode :: "bytes \<Rightarrow> 'x + 'kb EnvelopeProto"

definition from_public_key :: "('kp, 'pk, 'kb, 'a, 'x) core_lib \<Rightarrow> 'pk \<Rightarrow> PeerId" where
  "from_public_key L k =
     (let enc = key_encoding L k;
          code = (if length enc \<le> MAX_INLINE_KEY_LENGTH then IDENTITY else SHA2_256)
      in \<lparr>pid_multihash = \<lparr>mh_code = code, mh_digest = code_digest L code enc\<rparr>\<rparr>)"

definition from_multihash :: "Multihash \<Rightarrow> Multihash + PeerId" where
  "from_multihash m =
     (if mh_code m = SHA2_256 then Inr \<lparr>pid_multihash = m\<rparr>
      else if mh_code m = IDENTITY \<and> length (mh_digest m) \<le> MAX_INLINE_KEY_LENGTH then Inr \<lparr>pid_multihash = m\<rparr>
      else Inl m)"

definition PeerId_from_bytes :: "('kp, 'pk, 'kb, 'a, 'x) core_lib \<Rightarrow> bytes \<Rightarrow> 'x + PeerId" where
  "PeerId_from_bytes L data =
     (case mh_from_bytes L data of
        Inl e \<Rightarrow> Inl e
      | Inr m \<Rightarrow> (case from_multihash m of Inl m' \<Rightarrow> Inl (unsupported_code L (mh_code m')) | Inr p \<Rightarrow> Inr p))"

definition PeerId_to_bytes :: "('kp, 'pk, 'kb, 'a, 'x) core_lib \<Rightarrow> PeerId \<Rightarrow> bytes" where
  "PeerId_to_bytes L p = mh_to_bytes L (pid_multihash p)"

text \<open>The \<open>expect\<close> on the code is the outer \<open>None\<close>.\<close>

definition is_public_key :: "('kp, 'pk, 'kb, 'a, 'x) core_lib \<Rightarrow> PeerId \<Rightarrow> 'pk \<Rightarrow> bool option option" where
  "is_public_key L p k =
     (let code = mh_code (pid_multihash p)
      in if code = IDENTITY \<or> code = SHA2_256
         then Some (Some (\<lparr>mh_code = code, mh_digest = code_digest L code (key_encoding L k)\<rparr> = pid_multihash p))
         else None)"

section \<open>Signed envelopes\<close>

record 'pk SignedEnvelope =
  env_key :: 'pk
  payload_type :: bytes
  payload :: bytes
  signature :: bytes

datatype ReadPayloadError = InvalidSignature | UnexpectedPayloadType bytes bytes

datatype 'x EnvelopeDecodingError = InvalidEnvelope 'x | InvalidPublicKey 'x | MissingPublicKey

definition signature_payload ::
  "('kp, 'pk, 'kb, 'a, 'x) core_lib \<Rightarrow> bytes \<Rightarrow> bytes \<Rightarrow> bytes \<Rightarrow> bytes" where
  "signature_payload L domain_separation ptype pl =
     uvi_usize L (length domain_separation) @ domain_separation @
     uvi_usize L (length ptype) @ ptype @
     uvi_usize L (length pl) @ pl"

definition SignedEnvelope_new ::
  "('kp, 'pk, 'kb, 'a, 'x) core_lib \<Rightarrow> 'kp \<Rightarrow> bytes \<Rightarrow> bytes \<Rightarrow> bytes \<Rightarrow> 'x + 'pk SignedEnvelope" where
  "SignedEnvelope_new L kp domain_separation ptype pl =
     (case kp_sign L kp (signature_payload L domain_separation ptype pl) of
        Inl e \<Rightarrow> Inl e
      | Inr s \<Rightarrow> Inr \<lparr>env_key = kp_public L kp, payload_type = ptype, payload = pl, signature = s\<rparr>)"

definition SignedEnvelope_verify ::
  "('kp, 'pk, 'kb, 'a, 'x) core_lib \<Rightarrow> 'pk SignedEnvelope \<Rightarrow> bytes \<Rightarrow> bool" where
  "SignedEnvelope_verify L env domain_separation =
     pk_verify L (env_key env) (signature_payload L domain_separation (payload_type env) (payload env)) (signature env)"

definition payload_and_signing_key ::
  "('kp, 'pk, 'kb, 'a, 'x) core_lib \<Rightarrow> 'pk SignedEnvelope \<Rightarrow> bytes \<Rightarrow> bytes \<Rightarrow> ReadPayloadError + bytes \<times> 'pk" where
  "payload_and_signing_key L env domain_separation expected =
     (if payload_type env \<noteq> expected then Inl (UnexpectedPayloadType expected (payload_type env))
      else if \<not> SignedEnvelope_verify L env domain_separation then Inl InvalidSignature
      else Inr (payload env, env_key env))"

definition into_protobuf_encoding :: "('kp, 'pk, 'kb, 'a, 'x) core_lib \<Rightarrow> 'pk SignedEnvelope \<Rightarrow> bytes" where
  "into_protobuf_encoding L env =
     envelope_encode L
       \<lparr>ep_public_key = Some (key_into_proto L (env_key env)), ep_payload_type = payload_type env,
        ep_payload = payload env, ep_signature = signature env\<rparr>"

definition from_protobuf_encoding ::
  "('kp, 'pk, 'kb, 'a, 'x) core_lib \<Rightarrow> bytes \<Rightarrow> 'x EnvelopeDecodingError + 'pk SignedEnvelope" where
  "from_protobuf_encoding L bs =
     (case envelope_decode L bs of
        Inl e \<Rightarrow> Inl (InvalidEnvelope e)
      | Inr ep \<Rightarrow>
          (case ep_public_key ep of
             None \<Rightarrow> Inl MissingPublicKey
           | Some kb \<Rightarrow>
               (case key_try_from L kb of
                  Inl e \<Rightarrow> Inl (InvalidPublicKey e)
                | Inr k \<Rightarrow> Inr \<lparr>env_key = k, payload_type = ep_payload_type ep, payload = ep_payload ep,
                               signature = ep_signature ep\<rparr>)))"

section \<open>Peer records\<close>

definition PAYLOAD_TYPE :: bytes where
  "PAYLOAD_TYPE = ascii ''/libp2p/routing-state-record''"

definition DOMAIN_SEP :: bytes where
  "DOMAIN_SEP = ascii ''libp2p-routing-state''"

record ('pk, 'a) PeerRecord =
  rec_peer_id :: PeerId
  rec_seq :: u64
  rec_addresses :: "'a list"
  rec_envelope :: "'pk SignedEnvelope"

datatype 'x FromEnvelopeError =
    BadPayload ReadPayloadError
  | InvalidPeerRecord 'x
  | InvalidPeerId 'x
  | MismatchedSignature
  | InvalidMultiaddr 'x

text \<open>\<open>collect::<Result<Vec<_>, _>>\<close>: the first error, or all results.\<close>

fun collect_results :: "('a \<Rightarrow> 'e + 'b) \<Rightarrow> 'a list \<Rightarrow> 'e + 'b list" where
  "collect_results f [] = Inr []"
| "collect_results f (x # xs) =
     (case f x of
        Inl e \<Rightarrow> Inl e
      | Inr y \<Rightarrow> (case collect_results f xs of Inl e \<Rightarrow> Inl e | Inr ys \<Rightarrow> Inr (y # ys)))"

definition from_signed_envelope ::
  "('kp, 'pk, 'kb, 'a, 'x) core_lib \<Rightarrow> 'pk SignedEnvelope \<Rightarrow> 'x FromEnvelopeError + ('pk, 'a) PeerRecord" where
  "from_signed_envelope L env =
     (case payload_and_signing_key L env DOMAIN_SEP PAYLOAD_TYPE of
        Inl e \<Rightarrow> Inl (BadPayload e)
      | Inr (pl, signing_key) \<Rightarrow>
          (case record_decode L pl of
             Inl e \<Rightarrow> Inl (InvalidPeerRecord e)
           | Inr rp \<Rightarrow>
               (case PeerId_from_bytes L (rp_peer_id rp) of
                  Inl e \<Rightarrow> Inl (InvalidPeerId e)
                | Inr p \<Rightarrow>
                    if p \<noteq> from_public_key L signing_key then Inl MismatchedSignature
                    else
                      (case collect_results (addr_try_from L) (rp_addresses rp) of
                         Inl e \<Rightarrow> Inl (InvalidMultiaddr e)
                       | Inr as \<Rightarrow>
                           Inr \<lparr>rec_peer_id = p, rec_seq = rp_seq rp, rec_addresses = as, rec_envelope = env\<rparr>))))"

text \<open>The seconds since the epoch are an argument.\<close>

definition PeerRecord_new ::
  "('kp, 'pk, 'kb, 'a, 'x) core_lib \<Rightarrow> u64 \<Rightarrow> 'kp \<Rightarrow> 'a list \<Rightarrow> 'x + ('pk, 'a) PeerRecord" where
  "PeerRecord_new L now kp as =
     (let p = from_public_key L (kp_public L kp);
          pl = record_encode L \<lparr>rp_peer_id = PeerId_to_bytes L p, rp_seq = now, rp_addresses = map (addr_to_vec L) as\<rparr>
      in (case SignedEnvelope_new L kp DOMAIN_SEP PAYLOAD_TYPE pl of
            Inl e \<Rightarrow> Inl e
          | Inr env \<Rightarrow> Inr \<lparr>rec_peer_id = p, rec_seq = now, rec_addresses = as, rec_envelope = env\<rparr>))"

section \<open>The laws of the libraries\<close>

text \<open>
  Every encoding is read back as what was encoded, a signature verifies under the public key of the pair that made it,
  and the identity code leaves short data as it is.
\<close>

definition lib_laws :: "('kp, 'pk, 'kb, 'a, 'x) core_lib \<Rightarrow> bool" where
  "lib_laws L \<longleftrightarrow>
     (\<forall>kp m s. kp_sign L kp m = Inr s \<longrightarrow> pk_verify L (kp_public L kp) m s) \<and>
     (\<forall>k. key_try_from L (key_into_proto L k) = Inr k) \<and>
     (\<forall>d. length d \<le> MAX_INLINE_KEY_LENGTH \<longrightarrow> code_digest L IDENTITY d = d) \<and>
     (\<forall>m. mh_from_bytes L (mh_to_bytes L m) = Inr m) \<and>
     (\<forall>a. addr_try_from L (addr_to_vec L a) = Inr a) \<and>
     (\<forall>r. record_decode L (record_encode L r) = Inr r) \<and>
     (\<forall>e. envelope_decode L (envelope_encode L e) = Inr e)"

lemma lib_lawsD:
  assumes "lib_laws L"
  shows "kp_sign L kp m = Inr s \<Longrightarrow> pk_verify L (kp_public L kp) m s"
    "key_try_from L (key_into_proto L k) = Inr k"
    "length d \<le> MAX_INLINE_KEY_LENGTH \<Longrightarrow> code_digest L IDENTITY d = d"
    "mh_from_bytes L (mh_to_bytes L mh) = Inr mh"
    "addr_try_from L (addr_to_vec L a) = Inr a"
    "record_decode L (record_encode L r) = Inr r"
    "envelope_decode L (envelope_encode L e) = Inr e"
  using assms unfolding lib_laws_def by blast+

lemma collect_inverse: "(\<And>x. f (g x) = Inr x) \<Longrightarrow> collect_results f (map g xs) = Inr xs"
  by (induction xs) auto

lemma collect_results_Inr:
  "collect_results f xs = Inr ys \<Longrightarrow> list_all2 (\<lambda>x y. f x = Inr y) xs ys"
  by (induction xs arbitrary: ys) (auto split: sum.splits)

lemma peer_id_round_trip_aux:
  assumes "lib_laws L"
  shows "PeerId_from_bytes L (PeerId_to_bytes L (from_public_key L k)) = Inr (from_public_key L k)"
proof -
  have "from_multihash (pid_multihash (from_public_key L k)) = Inr (from_public_key L k)"
    using lib_lawsD(3) [OF assms, of "key_encoding L k"]
    by (simp add: from_public_key_def from_multihash_def Let_def SHA2_256_def IDENTITY_def)
  then show ?thesis by (simp add: PeerId_from_bytes_def PeerId_to_bytes_def lib_lawsD(4) [OF assms])
qed

lemma envelope_round_trip:
  "lib_laws L \<Longrightarrow> from_protobuf_encoding L (into_protobuf_encoding L env) = Inr env"
  by (simp add: from_protobuf_encoding_def into_protobuf_encoding_def lib_lawsD)

lemma peer_record_reread:
  assumes L: "lib_laws L" and new: "PeerRecord_new L now kp as = Inr r"
  shows "from_signed_envelope L (rec_envelope r) = Inr r"
proof -
  obtain s where s: "kp_sign L kp (signature_payload L DOMAIN_SEP PAYLOAD_TYPE (payload (rec_envelope r))) = Inr s"
    "rec_envelope r = \<lparr>env_key = kp_public L kp, payload_type = PAYLOAD_TYPE,
       payload = record_encode L \<lparr>rp_peer_id = PeerId_to_bytes L (from_public_key L (kp_public L kp)), rp_seq = now,
         rp_addresses = map (addr_to_vec L) as\<rparr>, signature = s\<rparr>"
    "r = \<lparr>rec_peer_id = from_public_key L (kp_public L kp), rec_seq = now, rec_addresses = as, rec_envelope = rec_envelope r\<rparr>"
    using new by (auto simp: PeerRecord_new_def SignedEnvelope_new_def Let_def split: sum.splits)
  have "pk_verify L (kp_public L kp) (signature_payload L DOMAIN_SEP PAYLOAD_TYPE (payload (rec_envelope r))) s"
    by (rule lib_lawsD(1) [OF L s(1)])
  then have "payload_and_signing_key L (rec_envelope r) DOMAIN_SEP PAYLOAD_TYPE =
      Inr (payload (rec_envelope r), kp_public L kp)"
    using s(2) by (simp add: payload_and_signing_key_def SignedEnvelope_verify_def)
  then show ?thesis
    using s(2,3)
    by (simp add: from_signed_envelope_def lib_lawsD [OF L] peer_id_round_trip_aux [OF L]
        collect_inverse [of "addr_try_from L" "addr_to_vec L"])
qed

lemma prefix_decodes:
  assumes "uvi_laws w enc dec" "length a < 2 ^ w" "length b < 2 ^ w"
    and "enc (length a) @ a @ xs = enc (length b) @ b @ ys"
  shows "a = b \<and> xs = ys"
proof -
  have "Inr (length a, a @ xs) = dec (enc (length a) @ a @ xs)" using uvi_lawsD(1) [OF assms(1,2)] by simp
  also have "\<dots> = Inr (length b, b @ ys)" using uvi_lawsD(1) [OF assms(1,3)] assms(4) by simp
  finally show ?thesis by auto
qed

lemma signature_payload_inject:
  assumes uvi: "uvi_laws w (uvi_usize L) dec"
    and len: "length d < 2 ^ w" "length t < 2 ^ w" "length p < 2 ^ w" "length d' < 2 ^ w" "length t' < 2 ^ w" "length p' < 2 ^ w"
    and eq: "signature_payload L d t p = signature_payload L d' t' p'"
  shows "d = d' \<and> t = t' \<and> p = p'"
proof -
  note e = eq [unfolded signature_payload_def]
  note dd = prefix_decodes [OF uvi len(1,4) e]
  note tt = prefix_decodes [OF uvi len(2,5) conjunct2 [OF dd]]
  have "p = p' \<and> ([] :: bytes) = []"
    by (rule prefix_decodes [OF uvi len(3,6)]) (use conjunct2 [OF tt] in simp)
  then show ?thesis using dd tt by simp
qed

section \<open>Libraries that meet the laws\<close>

text \<open>Length-prefixed encodings, and a signature that is the signed message itself.\<close>

definition put_bytes :: "bytes \<Rightarrow> bytes" where
  "put_bytes b = leb_enc (length b) @ b"

definition get_bytes :: "bytes \<Rightarrow> unit + bytes \<times> bytes" where
  "get_bytes bs =
     (case leb_bytes bs of
        Inl _ \<Rightarrow> Inl ()
      | Inr (n, rest) \<Rightarrow> if n \<le> length rest then Inr (take n rest, drop n rest) else Inl ())"

fun get_many :: "nat \<Rightarrow> bytes \<Rightarrow> unit + bytes list" where
  "get_many 0 bs = Inr []"
| "get_many (Suc n) bs =
     (case get_bytes bs of
        Inl e \<Rightarrow> Inl e
      | Inr (b, rest) \<Rightarrow> (case get_many n rest of Inl e \<Rightarrow> Inl e | Inr xs \<Rightarrow> Inr (b # xs)))"

definition put_list :: "bytes list \<Rightarrow> bytes" where
  "put_list xs = leb_enc (length xs) @ concat (map put_bytes xs)"

definition get_list :: "bytes \<Rightarrow> unit + bytes list" where
  "get_list bs = (case leb_bytes bs of Inl _ \<Rightarrow> Inl () | Inr (n, rest) \<Rightarrow> get_many n rest)"

lemma get_put_bytes [simp]: "get_bytes (put_bytes b @ rest) = Inr (b, rest)"
  by (simp add: get_bytes_def put_bytes_def leb_bytes_enc)

lemma get_put_many: "get_many (length xs) (concat (map put_bytes xs)) = Inr xs"
  by (induction xs) auto

lemma get_put_list [simp]: "get_list (put_list xs) = Inr xs"
  by (simp add: get_list_def put_list_def leb_bytes_enc get_put_many)

definition put_word :: "u64 \<Rightarrow> bytes" where
  "put_word w = leb_enc (unat w)"

definition get_word :: "bytes \<Rightarrow> unit + u64 \<times> bytes" where
  "get_word bs = (case leb_bytes bs of Inl _ \<Rightarrow> Inl () | Inr (n, rest) \<Rightarrow> Inr (word_of_nat n, rest))"

lemma get_put_word [simp]: "get_word (put_word w @ rest) = Inr (w, rest)"
  by (simp add: get_word_def put_word_def leb_bytes_enc)

definition plain_record_decode :: "bytes \<Rightarrow> unit + PeerRecordProto" where
  "plain_record_decode bs =
     (case get_bytes bs of
        Inl e \<Rightarrow> Inl e
      | Inr (p, bs1) \<Rightarrow>
          (case get_word bs1 of
             Inl e \<Rightarrow> Inl e
           | Inr (n, bs2) \<Rightarrow>
               (case get_list bs2 of Inl e \<Rightarrow> Inl e | Inr as \<Rightarrow> Inr \<lparr>rp_peer_id = p, rp_seq = n, rp_addresses = as\<rparr>)))"

definition plain_envelope_decode :: "bytes \<Rightarrow> unit + bytes EnvelopeProto" where
  "plain_envelope_decode bs =
     (case get_list bs of
        Inr [t, p, s] \<Rightarrow> Inr \<lparr>ep_public_key = None, ep_payload_type = t, ep_payload = p, ep_signature = s\<rparr>
      | Inr [k, t, p, s] \<Rightarrow> Inr \<lparr>ep_public_key = Some k, ep_payload_type = t, ep_payload = p, ep_signature = s\<rparr>
      | _ \<Rightarrow> Inl ())"

definition plain_lib :: "(bytes, bytes, bytes, bytes, unit) core_lib" where
  "plain_lib =
     \<lparr>uvi_usize = leb_enc, kp_public = (\<lambda>k. k), kp_sign = (\<lambda>k m. Inr (k @ m)), pk_verify = (\<lambda>k m s. s = k @ m),
      key_encoding = (\<lambda>k. k), key_into_proto = (\<lambda>k. k), key_try_from = Inr, code_digest = (\<lambda>_ d. d),
      mh_to_bytes = (\<lambda>m. put_word (mh_code m) @ mh_digest m),
      mh_from_bytes = (\<lambda>bs. case get_word bs of Inl e \<Rightarrow> Inl e | Inr (c, d) \<Rightarrow> Inr \<lparr>mh_code = c, mh_digest = d\<rparr>),
      unsupported_code = (\<lambda>_. ()), addr_to_vec = (\<lambda>a. a), addr_try_from = Inr,
      record_encode = (\<lambda>r. put_bytes (rp_peer_id r) @ put_word (rp_seq r) @ put_list (rp_addresses r)),
      record_decode = plain_record_decode,
      envelope_encode = (\<lambda>e. put_list ((case ep_public_key e of None \<Rightarrow> [] | Some k \<Rightarrow> [k]) @
                           [ep_payload_type e, ep_payload e, ep_signature e])),
      envelope_decode = plain_envelope_decode\<rparr>"

lemma plain_laws: "lib_laws plain_lib"
  by (auto simp: lib_laws_def plain_lib_def plain_record_decode_def plain_envelope_decode_def split: option.splits)

text \<open>An envelope with a signature under the key \<open>[1]\<close>, the only one that verifies.\<close>

definition sample_bytes :: bytes where
  "sample_bytes = put_bytes (put_word 0 @ [1]) @ put_word 7 @ put_list [[2, 3]]"

definition sample_lib :: "(bytes, bytes, bytes, bytes, unit) core_lib" where
  "sample_lib = plain_lib\<lparr>pk_verify := \<lambda>k m s. k = [1] \<and> m = signature_payload plain_lib DOMAIN_SEP PAYLOAD_TYPE sample_bytes\<rparr>"

definition sample_envelope :: "bytes SignedEnvelope" where
  "sample_envelope = \<lparr>env_key = [1], payload_type = PAYLOAD_TYPE, payload = sample_bytes, signature = []\<rparr>"

definition sample_record :: "(bytes, bytes) PeerRecord" where
  "sample_record =
     \<lparr>rec_peer_id = \<lparr>pid_multihash = \<lparr>mh_code = IDENTITY, mh_digest = [1]\<rparr>\<rparr>, rec_seq = 7, rec_addresses = [[2, 3]],
      rec_envelope = sample_envelope\<rparr>"

lemma sample_payload: "signature_payload sample_lib d t p = signature_payload plain_lib d t p"
  by (simp add: signature_payload_def sample_lib_def plain_lib_def)

section \<open>Properties\<close>



text \<open>
  C29. A peer record that is created is accepted by everyone who receives its encoding, as the same record, and its
  peer id is recognised as that of the signing key.
\<close>
theorem peer_record_round_trip:
  assumes L: "lib_laws L" and new: "PeerRecord_new L now kp as = Inr r"
  shows "(case from_protobuf_encoding L (into_protobuf_encoding L (rec_envelope r)) of
            Inl e \<Rightarrow> False | Inr env \<Rightarrow> from_signed_envelope L env = Inr r) \<and>
    rec_addresses r = as \<and> is_public_key L (rec_peer_id r) (kp_public L kp) = Some (Some True)"
proof -
  have "rec_peer_id r = from_public_key L (kp_public L kp)" "rec_addresses r = as"
    using new by (auto simp: PeerRecord_new_def Let_def split: sum.splits)
  then show ?thesis
    using envelope_round_trip [OF L, of "rec_envelope r"] peer_record_reread [OF L new]
    by (simp add: is_public_key_def from_public_key_def Let_def)
qed

theorem peer_record_round_trip_witness:
  "case PeerRecord_new plain_lib 7 [1] [[2, 3], []] of
     Inl e \<Rightarrow> False
   | Inr r \<Rightarrow> (case from_protobuf_encoding plain_lib (into_protobuf_encoding plain_lib (rec_envelope r)) of
        Inl e \<Rightarrow> False | Inr env \<Rightarrow> from_signed_envelope plain_lib env = Inr r)"
  using peer_record_round_trip [OF plain_laws, of 7 "[1]" "[[2, 3], []]"]
  by (cases "PeerRecord_new plain_lib 7 [1] [[2, 3], []]")
    (auto simp: PeerRecord_new_def SignedEnvelope_new_def Let_def plain_lib_def)

end
