(* ===== verification/Rendezvous_Codec.thy ===== *)
theory Rendezvous_Codec
  imports Core_PeerRecord
begin

text \<open>
  The messages of the rendezvous protocol and their conversion to the protobuf messages of \<open>rpc.proto\<close>:
  \<open>protocols/rendezvous/src/codec.rs\<close>. The protobuf messages are the records the build generates from \<open>rpc.proto\<close>; an enum field
  is a signed number there. A \<open>String\<close> is the list of its UTF-8 bytes. Peer records are those of theory
  Core_PeerRecord and take its parameters.
\<close>

section \<open>UTF-8 and big-endian numbers\<close>

definition continuation :: "u8 \<Rightarrow> bool" where
  "continuation b \<longleftrightarrow> 0x80 \<le> b \<and> b \<le> 0xBF"

text \<open>The well-formed byte sequences of the Unicode standard, as \<open>String::from_utf8\<close> checks them.\<close>

fun valid_utf8 :: "bytes \<Rightarrow> bool" where
  "valid_utf8 [] \<longleftrightarrow> True"
| "valid_utf8 (a # xs) \<longleftrightarrow>
     (if a \<le> 0x7F then valid_utf8 xs
      else case xs of
        b # ys \<Rightarrow>
          if 0xC2 \<le> a \<and> a \<le> 0xDF then continuation b \<and> valid_utf8 ys
          else (case ys of
            c # zs \<Rightarrow>
              if 0xE0 \<le> a \<and> a \<le> 0xEF
              then continuation b \<and> continuation c \<and> (a = 0xE0 \<longrightarrow> 0xA0 \<le> b) \<and> (a = 0xED \<longrightarrow> b \<le> 0x9F) \<and> valid_utf8 zs
              else (case zs of
                d # ws \<Rightarrow> 0xF0 \<le> a \<and> a \<le> 0xF4 \<and> continuation b \<and> continuation c \<and> continuation d \<and>
                  (a = 0xF0 \<longrightarrow> 0x90 \<le> b) \<and> (a = 0xF4 \<longrightarrow> b \<le> 0x8F) \<and> valid_utf8 ws
              | [] \<Rightarrow> False)
          | [] \<Rightarrow> False)
      | [] \<Rightarrow> False)"

definition to_be_bytes :: "u64 \<Rightarrow> bytes" where
  "to_be_bytes w = map (\<lambda>i. word_of_nat (unat w div 256 ^ i)) (rev [0..<8])"

definition from_be_bytes :: "bytes \<Rightarrow> u64" where
  "from_be_bytes bs = word_of_nat (foldl (\<lambda>n b. n * 256 + unat b) 0 bs)"

section \<open>Messages\<close>

type_synonym Ttl = u64

definition DEFAULT_TTL :: Ttl where
  "DEFAULT_TTL = 60 * 60 * 2"

datatype Namespace = Namespace (namespace_bytes: bytes)

text \<open>\<open>from_static\<close> panics, \<open>new\<close> returns \<open>NamespaceTooLong\<close>.\<close>

definition Namespace_from_static :: "bytes \<Rightarrow> Namespace option" where
  "Namespace_from_static v = (if length v > 255 then None else Some (Namespace v))"

definition Namespace_new :: "bytes \<Rightarrow> unit + Namespace" where
  "Namespace_new v = (if length v > 255 then Inl () else Inr (Namespace v))"

record Cookie =
  cookie_id :: u64
  cookie_namespace :: "Namespace option"

text \<open>The random number is an argument.\<close>

definition Cookie_for_namespace :: "u64 \<Rightarrow> Namespace \<Rightarrow> Cookie" where
  "Cookie_for_namespace rnd ns = \<lparr>cookie_id = rnd, cookie_namespace = Some ns\<rparr>"

definition Cookie_for_all_namespaces :: "u64 \<Rightarrow> Cookie" where
  "Cookie_for_all_namespaces rnd = \<lparr>cookie_id = rnd, cookie_namespace = None\<rparr>"

definition into_wire_encoding :: "Cookie \<Rightarrow> bytes" where
  "into_wire_encoding c =
     to_be_bytes (cookie_id c) @ (case cookie_namespace c of None \<Rightarrow> [] | Some ns \<Rightarrow> namespace_bytes ns)"

definition from_wire_encoding :: "bytes \<Rightarrow> unit + Cookie" where
  "from_wire_encoding bs =
     (if length bs < 8 then Inl ()
      else
        let ns = drop 8 bs; i = from_be_bytes (take 8 bs)
        in if ns = [] then Inr \<lparr>cookie_id = i, cookie_namespace = None\<rparr>
           else if \<not> valid_utf8 ns then Inl ()
           else (case Namespace_new ns of Inl _ \<Rightarrow> Inl () | Inr n \<Rightarrow> Inr \<lparr>cookie_id = i, cookie_namespace = Some n\<rparr>))"

record ('pk, 'a) NewRegistration =
  nr_namespace :: Namespace
  nr_record :: "('pk, 'a) PeerRecord"
  nr_ttl :: "Ttl option"

definition effective_ttl :: "('pk, 'a) NewRegistration \<Rightarrow> Ttl" where
  "effective_ttl r = (case nr_ttl r of None \<Rightarrow> DEFAULT_TTL | Some t \<Rightarrow> t)"

record ('pk, 'a) Registration =
  reg_namespace :: Namespace
  reg_record :: "('pk, 'a) PeerRecord"
  reg_ttl :: Ttl

datatype ErrorCode =
    InvalidNamespace
  | InvalidSignedPeerRecord
  | InvalidTtl
  | InvalidCookie
  | NotAuthorized
  | InternalError
  | Unavailable

datatype ('pk, 'a) Message =
    Register "('pk, 'a) NewRegistration"
  | RegisterResponse "ErrorCode + Ttl"
  | Unregister Namespace
  | Discover "Namespace option" "Cookie option" "Ttl option"
  | DiscoverResponse "ErrorCode + ('pk, 'a) Registration list \<times> Cookie"

section \<open>Protobuf messages\<close>

datatype ResponseStatus =
    StatusOk
  | EInvalidNamespace
  | EInvalidSignedPeerRecord
  | EInvalidTtl
  | EInvalidCookie
  | ENotAuthorized
  | EInternalError
  | EUnavailable

fun status_number :: "ResponseStatus \<Rightarrow> int" where
  "status_number StatusOk = 0"
| "status_number EInvalidNamespace = 100"
| "status_number EInvalidSignedPeerRecord = 101"
| "status_number EInvalidTtl = 102"
| "status_number EInvalidCookie = 103"
| "status_number ENotAuthorized = 200"
| "status_number EInternalError = 300"
| "status_number EUnavailable = 400"

definition status_from_i32 :: "int \<Rightarrow> ResponseStatus option" where
  "status_from_i32 n =
     (if n = 0 then Some StatusOk
      else if n = 100 then Some EInvalidNamespace
      else if n = 101 then Some EInvalidSignedPeerRecord
      else if n = 102 then Some EInvalidTtl
      else if n = 103 then Some EInvalidCookie
      else if n = 200 then Some ENotAuthorized
      else if n = 300 then Some EInternalError
      else if n = 400 then Some EUnavailable
      else None)"

record wire_Register =
  w_ns :: "bytes option"
  w_signed_peer_record :: "bytes option"
  w_ttl :: "u64 option"

record wire_RegisterResponse =
  wr_status :: "int option"
  wr_status_text :: "bytes option"
  wr_ttl :: "u64 option"

record wire_Unregister =
  wu_ns :: "bytes option"
  wu_id :: "bytes option"

record wire_Discover =
  wd_ns :: "bytes option"
  wd_limit :: "u64 option"
  wd_cookie :: "bytes option"

record wire_DiscoverResponse =
  wdr_registrations :: "wire_Register list"
  wdr_cookie :: "bytes option"
  wdr_status :: "int option"
  wdr_status_text :: "bytes option"

record wire_Message =
  w_type :: "int option"
  w_register :: "wire_Register option"
  w_register_response :: "wire_RegisterResponse option"
  w_unregister :: "wire_Unregister option"
  w_discover :: "wire_Discover option"
  w_discover_response :: "wire_DiscoverResponse option"

definition empty_wire :: "int \<Rightarrow> wire_Message" where
  "empty_wire t =
     \<lparr>w_type = Some t, w_register = None, w_register_response = None, w_unregister = None, w_discover = None,
      w_discover_response = None\<rparr>"

section \<open>Conversion\<close>

fun status_of_error :: "ErrorCode \<Rightarrow> ResponseStatus" where
  "status_of_error InvalidNamespace = EInvalidNamespace"
| "status_of_error InvalidSignedPeerRecord = EInvalidSignedPeerRecord"
| "status_of_error InvalidTtl = EInvalidTtl"
| "status_of_error InvalidCookie = EInvalidCookie"
| "status_of_error NotAuthorized = ENotAuthorized"
| "status_of_error InternalError = EInternalError"
| "status_of_error Unavailable = EUnavailable"

text \<open>\<open>Inl\<close> is \<open>UnmappableStatusCode\<close>.\<close>

fun error_of_status :: "ResponseStatus \<Rightarrow> ResponseStatus + ErrorCode" where
  "error_of_status StatusOk = Inl StatusOk"
| "error_of_status EInvalidNamespace = Inr InvalidNamespace"
| "error_of_status EInvalidSignedPeerRecord = Inr InvalidSignedPeerRecord"
| "error_of_status EInvalidTtl = Inr InvalidTtl"
| "error_of_status EInvalidCookie = Inr InvalidCookie"
| "error_of_status ENotAuthorized = Inr NotAuthorized"
| "error_of_status EInternalError = Inr InternalError"
| "error_of_status EUnavailable = Inr Unavailable"

definition wire_of_registration ::
  "('kp, 'pk, 'kb, 'a, 'x) core_lib \<Rightarrow> Namespace \<Rightarrow> Ttl option \<Rightarrow> ('pk, 'a) PeerRecord \<Rightarrow> wire_Register" where
  "wire_of_registration L ns ttl r =
     \<lparr>w_ns = Some (namespace_bytes ns), w_signed_peer_record = Some (into_protobuf_encoding L (rec_envelope r)), w_ttl = ttl\<rparr>"

fun wire_of_message :: "('kp, 'pk, 'kb, 'a, 'x) core_lib \<Rightarrow> ('pk, 'a) Message \<Rightarrow> wire_Message" where
  "wire_of_message L (Register r) =
     (empty_wire 0)\<lparr>w_register := Some (wire_of_registration L (nr_namespace r) (nr_ttl r) (nr_record r))\<rparr>"
| "wire_of_message L (RegisterResponse (Inr ttl)) =
     (empty_wire 1)\<lparr>w_register_response := Some \<lparr>wr_status = Some (status_number StatusOk), wr_status_text = None, wr_ttl = Some ttl\<rparr>\<rparr>"
| "wire_of_message L (RegisterResponse (Inl e)) =
     (empty_wire 1)\<lparr>w_register_response :=
        Some \<lparr>wr_status = Some (status_number (status_of_error e)), wr_status_text = None, wr_ttl = None\<rparr>\<rparr>"
| "wire_of_message L (Unregister ns) =
     (empty_wire 2)\<lparr>w_unregister := Some \<lparr>wu_ns = Some (namespace_bytes ns), wu_id = None\<rparr>\<rparr>"
| "wire_of_message L (Discover ns c limit) =
     (empty_wire 3)\<lparr>w_discover :=
        Some \<lparr>wd_ns = map_option namespace_bytes ns, wd_limit = limit, wd_cookie = map_option into_wire_encoding c\<rparr>\<rparr>"
| "wire_of_message L (DiscoverResponse (Inr (rs, c))) =
     (empty_wire 4)\<lparr>w_discover_response :=
        Some \<lparr>wdr_registrations = map (\<lambda>r. wire_of_registration L (reg_namespace r) (Some (reg_ttl r)) (reg_record r)) rs,
              wdr_cookie = Some (into_wire_encoding c), wdr_status = Some (status_number StatusOk), wdr_status_text = None\<rparr>\<rparr>"
| "wire_of_message L (DiscoverResponse (Inl e)) =
     (empty_wire 4)\<lparr>w_discover_response :=
        Some \<lparr>wdr_registrations = [], wdr_cookie = None, wdr_status = Some (status_number (status_of_error e)),
              wdr_status_text = None\<rparr>\<rparr>"

datatype 'x ConversionError =
    InconsistentWireMessage
  | MissingNamespace
  | NamespaceTooLongError
  | MissingSignedPeerRecord
  | MissingTtl
  | BadStatusCode
  | BadSignedEnvelope "'x EnvelopeDecodingError"
  | BadSignedPeerRecord "'x FromEnvelopeError"
  | BadCookie
  | PoWDifficultyOutOfRange
  | BadPoWHash

fun to_error_code :: "'x ConversionError \<Rightarrow> ErrorCode" where
  "to_error_code MissingNamespace = InvalidNamespace"
| "to_error_code MissingSignedPeerRecord = InvalidSignedPeerRecord"
| "to_error_code (BadSignedEnvelope _) = InvalidSignedPeerRecord"
| "to_error_code (BadSignedPeerRecord _) = InvalidSignedPeerRecord"
| "to_error_code BadCookie = InvalidCookie"
| "to_error_code MissingTtl = InvalidTtl"
| "to_error_code InconsistentWireMessage = InternalError"
| "to_error_code BadStatusCode = InternalError"
| "to_error_code PoWDifficultyOutOfRange = InternalError"
| "to_error_code BadPoWHash = InternalError"
| "to_error_code NamespaceTooLongError = InvalidNamespace"

text \<open>The parts of \<open>try_from\<close>: an optional namespace, a required one, a signed record, a status.\<close>

definition read_namespace :: "bytes option \<Rightarrow> 'x ConversionError + Namespace option" where
  "read_namespace ns =
     (case ns of
        None \<Rightarrow> Inr None
      | Some b \<Rightarrow> (case Namespace_new b of Inl _ \<Rightarrow> Inl NamespaceTooLongError | Inr n \<Rightarrow> Inr (Some n)))"

definition require_namespace :: "bytes option \<Rightarrow> 'x ConversionError + Namespace" where
  "require_namespace ns =
     (case read_namespace ns of Inl e \<Rightarrow> Inl e | Inr None \<Rightarrow> Inl MissingNamespace | Inr (Some n) \<Rightarrow> Inr n)"

definition read_record ::
  "('kp, 'pk, 'kb, 'a, 'x) core_lib \<Rightarrow> bytes \<Rightarrow> 'x ConversionError + ('pk, 'a) PeerRecord" where
  "read_record L b =
     (case from_protobuf_encoding L b of
        Inl e \<Rightarrow> Inl (BadSignedEnvelope e)
      | Inr env \<Rightarrow> (case from_signed_envelope L env of Inl e \<Rightarrow> Inl (BadSignedPeerRecord e) | Inr r \<Rightarrow> Inr r))"

definition read_error :: "int \<Rightarrow> 'x ConversionError + ErrorCode" where
  "read_error n =
     (case status_from_i32 n of
        None \<Rightarrow> Inl BadStatusCode
      | Some st \<Rightarrow> (case error_of_status st of Inl _ \<Rightarrow> Inl InconsistentWireMessage | Inr e \<Rightarrow> Inr e))"

definition read_registration ::
  "('kp, 'pk, 'kb, 'a, 'x) core_lib \<Rightarrow> wire_Register \<Rightarrow> 'x ConversionError + ('pk, 'a) Registration" where
  "read_registration L w =
     (case require_namespace (w_ns w) of
        Inl e \<Rightarrow> Inl e
      | Inr ns \<Rightarrow>
          (case w_signed_peer_record w of
             None \<Rightarrow> Inl MissingSignedPeerRecord
           | Some b \<Rightarrow>
               (case read_record L b of
                  Inl e \<Rightarrow> Inl e
                | Inr r \<Rightarrow>
                    (case w_ttl w of
                       None \<Rightarrow> Inl MissingTtl
                     | Some t \<Rightarrow> Inr \<lparr>reg_namespace = ns, reg_record = r, reg_ttl = t\<rparr>))))"

definition read_cookie :: "bytes \<Rightarrow> 'x ConversionError + Cookie" where
  "read_cookie b = (case from_wire_encoding b of Inl _ \<Rightarrow> Inl BadCookie | Inr c \<Rightarrow> Inr c)"

text \<open>The arms of the match in \<open>try_from\<close>, in their order; a condition is the pattern of its arm.\<close>

definition message_of_wire ::
  "('kp, 'pk, 'kb, 'a, 'x) core_lib \<Rightarrow> wire_Message \<Rightarrow> 'x ConversionError + ('pk, 'a) Message" where
  "message_of_wire L m =
     (if w_type m = Some 0 \<and> Option.bind (w_register m) w_signed_peer_record \<noteq> None
      then let w = the (w_register m)
           in (case require_namespace (w_ns w) of
                 Inl e \<Rightarrow> Inl e
               | Inr ns \<Rightarrow>
                   (case read_record L (the (w_signed_peer_record w)) of
                      Inl e \<Rightarrow> Inl e
                    | Inr r \<Rightarrow> Inr (Register \<lparr>nr_namespace = ns, nr_record = r, nr_ttl = w_ttl w\<rparr>)))
      else if w_type m = Some 1 \<and> Option.bind (w_register_response m) wr_status = Some 0
      then (case wr_ttl (the (w_register_response m)) of
              None \<Rightarrow> Inl MissingTtl
            | Some t \<Rightarrow> Inr (RegisterResponse (Inr t)))
      else if w_type m = Some 3 \<and> w_discover m \<noteq> None
      then let w = the (w_discover m)
           in (case read_namespace (wd_ns w) of
                 Inl e \<Rightarrow> Inl e
               | Inr ns \<Rightarrow>
                   (case wd_cookie w of
                      None \<Rightarrow> Inr (Discover ns None (wd_limit w))
                    | Some b \<Rightarrow> (case read_cookie b of Inl e \<Rightarrow> Inl e | Inr c \<Rightarrow> Inr (Discover ns (Some c) (wd_limit w)))))
      else if w_type m = Some 4 \<and> Option.bind (w_discover_response m) wdr_status = Some 0 \<and>
              Option.bind (w_discover_response m) wdr_cookie \<noteq> None
      then let w = the (w_discover_response m)
           in (case collect_results (read_registration L) (wdr_registrations w) of
                 Inl e \<Rightarrow> Inl e
               | Inr rs \<Rightarrow>
                   (case read_cookie (the (wdr_cookie w)) of
                      Inl e \<Rightarrow> Inl e
                    | Inr c \<Rightarrow> Inr (DiscoverResponse (Inr (rs, c)))))
      else if w_type m = Some 1 \<and> Option.bind (w_register_response m) wr_status \<noteq> None
      then (case read_error (the (wr_status (the (w_register_response m)))) of
              Inl e \<Rightarrow> Inl e
            | Inr c \<Rightarrow> Inr (RegisterResponse (Inl c)))
      else if w_type m = Some 2 \<and> w_unregister m \<noteq> None
      then (case require_namespace (wu_ns (the (w_unregister m))) of Inl e \<Rightarrow> Inl e | Inr ns \<Rightarrow> Inr (Unregister ns))
      else if w_type m = Some 4 \<and> Option.bind (w_discover_response m) wdr_status \<noteq> None
      then (case read_error (the (wdr_status (the (w_discover_response m)))) of
              Inl e \<Rightarrow> Inl e
            | Inr c \<Rightarrow> Inr (DiscoverResponse (Inl c)))
      else Inl InconsistentWireMessage)"

section \<open>Round trips\<close>

lemma big_endian_digits:
  "foldl (\<lambda>n b. n * 256 + unat b) (m div 256 ^ k) (map (\<lambda>i. word_of_nat (m div 256 ^ i) :: u8) (rev [0..<k])) = m"
proof (induction k)
  case (Suc k)
  have "m div 256 ^ Suc k * 256 + m div 256 ^ k mod 256 = m div 256 ^ k"
    unfolding power_Suc2 div_mult2_eq by (rule div_mult_mod_eq)
  then show ?case using Suc by (simp add: unat_of_nat)
qed simp

lemma from_to_be_bytes [simp]: "from_be_bytes (to_be_bytes w) = w"
proof -
  have "unat w div 256 ^ 8 = 0" using unsigned_less [of w, where 'a = nat] by (simp add: div_less)
  then show ?thesis
    using big_endian_digits [of "unat w" 8] by (simp add: from_be_bytes_def to_be_bytes_def del: upt_Suc upt_rec_numeral)
qed

lemma length_to_be_bytes [simp]: "length (to_be_bytes w) = 8"
  by (simp add: to_be_bytes_def)

definition wf_namespace :: "Namespace \<Rightarrow> bool" where
  "wf_namespace n \<longleftrightarrow> length (namespace_bytes n) \<le> 255 \<and> valid_utf8 (namespace_bytes n)"

text \<open>A cookie for the empty namespace cannot be told from one for all namespaces.\<close>

definition wf_cookie :: "Cookie \<Rightarrow> bool" where
  "wf_cookie c \<longleftrightarrow> (\<forall>n. cookie_namespace c = Some n \<longrightarrow> wf_namespace n \<and> namespace_bytes n \<noteq> [])"

lemma cookie_wire:
  "wf_cookie c \<Longrightarrow> from_wire_encoding (into_wire_encoding c) = Inr c"
  by (cases "cookie_namespace c")
    (auto simp: from_wire_encoding_def into_wire_encoding_def wf_cookie_def wf_namespace_def Namespace_new_def Let_def
      simp flip: One_nat_def intro!: Cookie.equality)

lemma error_wire: "read_error (status_number (status_of_error e)) = Inr e" "status_number (status_of_error e) \<noteq> 0"
  by (cases e; simp add: read_error_def status_from_i32_def)+

lemma namespace_wire [simp]:
  assumes "wf_namespace n"
  shows "read_namespace (Some (namespace_bytes n)) = Inr (Some n)" "require_namespace (Some (namespace_bytes n)) = Inr n"
  using assms by (simp_all add: read_namespace_def require_namespace_def wf_namespace_def Namespace_new_def)

definition valid_record :: "('kp, 'pk, 'kb, 'a, 'x) core_lib \<Rightarrow> ('pk, 'a) PeerRecord \<Rightarrow> bool" where
  "valid_record L r \<longleftrightarrow> from_signed_envelope L (rec_envelope r) = Inr r"

lemma record_wire: "lib_laws L \<Longrightarrow> valid_record L r \<Longrightarrow> read_record L (into_protobuf_encoding L (rec_envelope r)) = Inr r"
  by (simp add: read_record_def envelope_round_trip valid_record_def)

definition wf_registration :: "('kp, 'pk, 'kb, 'a, 'x) core_lib \<Rightarrow> ('pk, 'a) Registration \<Rightarrow> bool" where
  "wf_registration L r \<longleftrightarrow> wf_namespace (reg_namespace r) \<and> valid_record L (reg_record r)"

lemma registration_wire:
  assumes "lib_laws L" "wf_registration L r"
  shows "read_registration L (wire_of_registration L (reg_namespace r) (Some (reg_ttl r)) (reg_record r)) = Inr r"
  using assms by (simp add: read_registration_def wire_of_registration_def wf_registration_def record_wire)

lemma registrations_wire:
  "lib_laws L \<Longrightarrow> list_all (wf_registration L) rs \<Longrightarrow>
   collect_results (read_registration L)
     (map (\<lambda>r. wire_of_registration L (reg_namespace r) (Some (reg_ttl r)) (reg_record r)) rs) = Inr rs"
  by (induction rs) (auto simp: registration_wire)

fun wf_rendezvous :: "('kp, 'pk, 'kb, 'a, 'x) core_lib \<Rightarrow> ('pk, 'a) Message \<Rightarrow> bool" where
  "wf_rendezvous L (Register r) \<longleftrightarrow> wf_namespace (nr_namespace r) \<and> valid_record L (nr_record r)"
| "wf_rendezvous L (RegisterResponse _) \<longleftrightarrow> True"
| "wf_rendezvous L (Unregister ns) \<longleftrightarrow> wf_namespace ns"
| "wf_rendezvous L (Discover ns c _) \<longleftrightarrow> pred_option wf_namespace ns \<and> pred_option wf_cookie c"
| "wf_rendezvous L (DiscoverResponse (Inr (rs, c))) \<longleftrightarrow> list_all (wf_registration L) rs \<and> wf_cookie c"
| "wf_rendezvous L (DiscoverResponse (Inl _)) \<longleftrightarrow> True"

section \<open>Properties\<close>

text \<open>
  C28. Every rendezvous message survives the conversion to its protobuf message and back, if its namespaces are
  valid and its peer records are authentic; the only exception is a cookie for the empty namespace.
\<close>
theorem rendezvous_message_round_trip:
  fixes L :: "('kp, 'pk, 'kb, 'a, 'x) core_lib"
  assumes "lib_laws L" "wf_rendezvous L m"
  shows "message_of_wire L (wire_of_message L m) = Inr m"
proof (cases "(L, m)" rule: wire_of_message.cases)
  case (1 L' r)
  then show ?thesis
    using assms by (simp add: message_of_wire_def empty_wire_def wire_of_registration_def record_wire)
next
  case (5 L' ns c limit)
  have "(read_namespace (map_option namespace_bytes ns) :: 'x ConversionError + Namespace option) = Inr ns"
    using assms 5 by (cases ns) (simp_all add: read_namespace_def [of None])
  then show ?thesis
    using assms 5 by (cases c) (simp_all add: message_of_wire_def empty_wire_def read_cookie_def cookie_wire)
next
  case (6 L' rs c)
  then show ?thesis
    using assms by (simp add: message_of_wire_def empty_wire_def read_cookie_def cookie_wire registrations_wire)
qed (use assms in \<open>simp_all add: message_of_wire_def empty_wire_def error_wire\<close>)

theorem rendezvous_message_round_trip_witness:
  "case PeerRecord_new plain_lib 7 [1] [[2, 3]] of
     Inl e \<Rightarrow> False
   | Inr r \<Rightarrow>
       (let ns = Namespace (ascii ''foo'');
            m = DiscoverResponse (Inr ([\<lparr>reg_namespace = ns, reg_record = r, reg_ttl = 7200\<rparr>], Cookie_for_namespace 5 ns))
        in message_of_wire plain_lib (wire_of_message plain_lib m) = Inr m)"
proof -
  obtain r where r: "PeerRecord_new plain_lib 7 [1] [[2, 3]] = Inr r"
    by (cases "PeerRecord_new plain_lib 7 [1] [[2, 3]]") (auto simp: PeerRecord_new_def SignedEnvelope_new_def Let_def plain_lib_def)
  define ns where "ns = Namespace (ascii ''foo'')"
  define m where "m = DiscoverResponse (Inr ([\<lparr>reg_namespace = ns, reg_record = r, reg_ttl = 7200\<rparr>], Cookie_for_namespace 5 ns))"
  have "wf_namespace ns"
    by (simp add: wf_namespace_def ns_def ascii_def of_char_def)
  moreover have "valid_record plain_lib r" using peer_record_reread [OF plain_laws r] by (simp add: valid_record_def)
  ultimately have "wf_rendezvous plain_lib m"
    by (simp add: m_def wf_registration_def wf_cookie_def Cookie_for_namespace_def) (simp add: ns_def ascii_def)
  from rendezvous_message_round_trip [OF plain_laws this] show ?thesis using r by (simp add: m_def ns_def Let_def)
qed

end
