(* ===== verification/Rendezvous_Server.thy ===== *)
theory Rendezvous_Server
  imports Rendezvous_Codec Async_Io
begin

text \<open>
  The rendezvous server: \<open>protocols/rendezvous/src/server.rs\<close>.

  The two-way map of the bimap crate is the list of its pairs; an insertion removes the pairs with the same left or
  the same right side, as documented. The order in which it is iterated is an argument. The timers are a list of due
  times and ids; which of those that are due is completed first is chosen by an argument. Time is in seconds. A
  random number is an argument of the operation that draws it.
\<close>

section \<open>Registrations\<close>

definition MIN_TTL :: Ttl where
  "MIN_TTL = 60 * 60 * 2"

definition MAX_TTL :: Ttl where
  "MAX_TTL = 60 * 60 * 72"

record rdv_Config =
  cfg_min_ttl :: Ttl
  cfg_max_ttl :: Ttl

definition rdv_Config_default :: rdv_Config where
  "rdv_Config_default = \<lparr>cfg_min_ttl = MIN_TTL, cfg_max_ttl = MAX_TTL\<rparr>"

definition with_min_ttl :: "Ttl \<Rightarrow> rdv_Config \<Rightarrow> rdv_Config" where
  "with_min_ttl t c = c\<lparr>cfg_min_ttl := t\<rparr>"

definition with_max_ttl :: "Ttl \<Rightarrow> rdv_Config \<Rightarrow> rdv_Config" where
  "with_max_ttl t c = c\<lparr>cfg_max_ttl := t\<rparr>"

type_synonym RegistrationId = u64
type_synonym owner = "PeerId \<times> Namespace"

text \<open>The crate's two-way map.\<close>

definition bimap_insert :: "'l \<Rightarrow> 'r \<Rightarrow> ('l \<times> 'r) list \<Rightarrow> ('l \<times> 'r) list" where
  "bimap_insert l r m = (l, r) # filter (\<lambda>(l', r'). l' \<noteq> l \<and> r' \<noteq> r) m"

definition get_by_left :: "'l \<Rightarrow> ('l \<times> 'r) list \<Rightarrow> 'r option" where
  "get_by_left l m = map_of m l"

definition remove_by_left :: "'l \<Rightarrow> ('l \<times> 'r) list \<Rightarrow> ('l \<times> 'r) list" where
  "remove_by_left l m = filter (\<lambda>(l', _). l' \<noteq> l) m"

definition remove_by_right :: "'r \<Rightarrow> ('l \<times> 'r) list \<Rightarrow> ('l \<times> 'r) list" where
  "remove_by_right r m = filter (\<lambda>(_, r'). r' \<noteq> r) m"

record ('pk, 'a) Registrations =
  registrations_for_peer :: "(owner \<times> RegistrationId) list"
  registrations :: "(RegistrationId, ('pk, 'a) Registration) mapping"
  cookies :: "(Cookie, RegistrationId set) mapping"
  min_ttl :: Ttl
  max_ttl :: Ttl
  next_expiry :: "(instant \<times> RegistrationId) list"

datatype TtlOutOfRange = TooLong Ttl Ttl | TooShort Ttl Ttl

definition Registrations_with_config :: "rdv_Config \<Rightarrow> ('pk, 'a) Registrations" where
  "Registrations_with_config c =
     \<lparr>registrations_for_peer = [], registrations = Mapping.empty, cookies = Mapping.empty,
      min_ttl = cfg_min_ttl c, max_ttl = cfg_max_ttl c, next_expiry = []\<rparr>"

definition Registrations_add ::
  "instant \<Rightarrow> RegistrationId \<Rightarrow> ('pk, 'a) NewRegistration \<Rightarrow> ('pk, 'a) Registrations \<Rightarrow>
   (TtlOutOfRange + ('pk, 'a) Registration) \<times> ('pk, 'a) Registrations" where
  "Registrations_add now rnd new s =
     (let ttl = effective_ttl new
      in if ttl > max_ttl s then (Inl (TooLong (max_ttl s) ttl), s)
         else if ttl < min_ttl s then (Inl (TooShort (min_ttl s) ttl), s)
         else
           let l = (rec_peer_id (nr_record new), nr_namespace new);
               kept = (case get_by_left l (registrations_for_peer s) of
                         Some old \<Rightarrow> Mapping.delete old (registrations s)
                       | None \<Rightarrow> registrations s);
               reg = \<lparr>reg_namespace = nr_namespace new, reg_record = nr_record new, reg_ttl = ttl\<rparr>
           in (Inr reg,
               s\<lparr>registrations_for_peer := bimap_insert l rnd (registrations_for_peer s),
                 registrations := Mapping.update rnd reg kept,
                 next_expiry := next_expiry s @ [(now + unat ttl, rnd)]\<rparr>))"

definition Registrations_remove :: "Namespace \<Rightarrow> PeerId \<Rightarrow> ('pk, 'a) Registrations \<Rightarrow> ('pk, 'a) Registrations" where
  "Registrations_remove ns p s =
     (let s1 = s\<lparr>registrations_for_peer := remove_by_left (p, ns) (registrations_for_peer s)\<rparr>
      in (case get_by_left (p, ns) (registrations_for_peer s) of
            Some old \<Rightarrow> s1\<lparr>registrations := Mapping.delete old (registrations s1)\<rparr>
          | None \<Rightarrow> s1))"

text \<open>The registrations a cookie has already seen.\<close>

definition seen_by :: "Cookie option \<Rightarrow> ('pk, 'a) Registrations \<Rightarrow> RegistrationId set" where
  "seen_by c s =
     (case c of
        None \<Rightarrow> {}
      | Some c \<Rightarrow> (case Mapping.lookup (cookies s) c of None \<Rightarrow> {} | Some ids \<Rightarrow> ids))"

definition cookie_mismatch :: "Namespace option \<Rightarrow> Cookie option \<Rightarrow> bool" where
  "cookie_mismatch ns c =
     (case (ns, Option.bind c cookie_namespace) of
        (None, Some _) \<Rightarrow> True
      | (Some n, Some m) \<Rightarrow> n \<noteq> m
      | _ \<Rightarrow> False)"

definition ns_matches :: "Namespace option \<Rightarrow> Namespace \<Rightarrow> bool" where
  "ns_matches discover ns = (case discover of Some d \<Rightarrow> d = ns | None \<Rightarrow> True)"

definition discovered_ids ::
  "((owner \<times> RegistrationId) list \<Rightarrow> (owner \<times> RegistrationId) list) \<Rightarrow> Namespace option \<Rightarrow> Cookie option \<Rightarrow>
   u64 option \<Rightarrow> ('pk, 'a) Registrations \<Rightarrow> RegistrationId list" where
  "discovered_ids iter ns c limit s =
     take (unat (case limit of None \<Rightarrow> - 1 | Some n \<Rightarrow> n))
       (map snd (filter (\<lambda>((_, n), i). i \<notin> seen_by c s \<and> ns_matches ns n) (iter (registrations_for_peer s))))"

text \<open>
  The result is the registrations, or \<open>CookieNamespaceMismatch\<close>. The outer \<open>None\<close> is the failed \<open>expect\<close> on an
  id that has no registration.
\<close>

definition Registrations_get ::
  "((owner \<times> RegistrationId) list \<Rightarrow> (owner \<times> RegistrationId) list) \<Rightarrow> u64 \<Rightarrow>
   Namespace option \<Rightarrow> Cookie option \<Rightarrow> u64 option \<Rightarrow> ('pk, 'a) Registrations \<Rightarrow>
   ((unit + ('pk, 'a) Registration list \<times> Cookie) \<times> ('pk, 'a) Registrations) option" where
  "Registrations_get iter rnd ns c limit s =
     (if cookie_mismatch ns c then Some (Inl (), s)
      else
        let ids = discovered_ids iter ns c limit s;
            c' = (case ns of Some n \<Rightarrow> Cookie_for_namespace rnd n | None \<Rightarrow> Cookie_for_all_namespaces rnd);
            s1 = s\<lparr>cookies := Mapping.update c' (seen_by c s \<union> set ids) (cookies s)\<rparr>
        in map_option (\<lambda>rs. (Inr (rs, c'), s1)) (those (map (Mapping.lookup (registrations s1)) ids)))"

text \<open>What \<open>poll\<close> does when the timer of an id has completed.\<close>

definition forget :: "RegistrationId \<Rightarrow> ('pk, 'a) Registrations \<Rightarrow> ('pk, 'a) Registrations" where
  "forget i s =
     s\<lparr>cookies := Mapping.filter (\<lambda>_ ids. ids \<noteq> {}) (Mapping.map_values (\<lambda>_ ids. ids - {i}) (cookies s)),
       registrations_for_peer := remove_by_right i (registrations_for_peer s),
       registrations := Mapping.delete i (registrations s)\<rparr>"

type_synonym timers = "(instant \<times> RegistrationId) list"

function Registrations_poll ::
  "(instant \<Rightarrow> timers \<Rightarrow> nat option) \<Rightarrow> instant \<Rightarrow> ('pk, 'a) Registrations \<Rightarrow>
   ('pk, 'a) Registration poll \<times> ('pk, 'a) Registrations" where
  "Registrations_poll ready now s =
     (case Option.bind (ready now (next_expiry s)) (vec_remove (next_expiry s)) of
        None \<Rightarrow> (Pending, s)
      | Some ((_, i), rest) \<Rightarrow>
          let s1 = forget i (s\<lparr>next_expiry := rest\<rparr>)
          in (case Mapping.lookup (registrations s) i of
                None \<Rightarrow> Registrations_poll ready now s1
              | Some r \<Rightarrow> (Ready r, s1)))"
  by pat_completeness auto

termination
  by (relation "measure (\<lambda>(_, _, s). length (next_expiry s))")
    (auto simp: forget_def vec_remove_def Option.bind_eq_Some_conv split: if_splits)

declare Registrations_poll.simps [simp del]

section \<open>The behaviour\<close>

text \<open>The requests a stream handler passes on and the answers it gets: \<open>handler/inbound.rs\<close>.\<close>

datatype ('pk, 'a) InboundOutEvent =
    RegistrationRequested "('pk, 'a) NewRegistration"
  | UnregisterRequested Namespace
  | DiscoverRequested "Namespace option" "Cookie option" "u64 option"

datatype ('pk, 'a) InboundInEvent =
    InRegisterResponse Ttl
  | DeclineRegisterRequest ErrorCode
  | InDiscoverResponse "('pk, 'a) Registration list" Cookie
  | DeclineDiscoverRequest ErrorCode

datatype ('pk, 'a) rdv_Event =
    DiscoverServed PeerId "('pk, 'a) Registration list"
  | DiscoverNotServed PeerId ErrorCode
  | PeerRegistered PeerId "('pk, 'a) Registration"
  | PeerNotRegistered PeerId Namespace ErrorCode
  | PeerUnregistered PeerId Namespace
  | RegistrationExpired "('pk, 'a) Registration"

datatype ('pk, 'a, 'c, 'i) rdv_Action =
    NotifyHandler PeerId 'c 'i "('pk, 'a) InboundInEvent"
  | GenerateEvent "('pk, 'a) rdv_Event"
  | CloseConnection PeerId 'c

text \<open>The clock, a random number and the iteration order of the two-way map.\<close>

record rdv_env =
  env_now :: instant
  env_random :: u64
  env_iter :: "(owner \<times> RegistrationId) list \<Rightarrow> (owner \<times> RegistrationId) list"

fun handle_inbound_event ::
  "rdv_env \<Rightarrow> ('pk, 'a) InboundOutEvent \<Rightarrow> PeerId \<Rightarrow> 'c \<Rightarrow> 'i \<Rightarrow> ('pk, 'a) Registrations \<Rightarrow>
   (('pk, 'a, 'c, 'i) rdv_Action list \<times> ('pk, 'a) Registrations) option" where
  "handle_inbound_event v (RegistrationRequested new) p conn i s =
     (if rec_peer_id (nr_record new) \<noteq> p
      then Some ([NotifyHandler p conn i (DeclineRegisterRequest NotAuthorized),
                  GenerateEvent (PeerNotRegistered p (nr_namespace new) NotAuthorized)], s)
      else
        (case Registrations_add (env_now v) (env_random v) new s of
           (Inr r, s1) \<Rightarrow>
             Some ([NotifyHandler p conn i (InRegisterResponse (reg_ttl r)), GenerateEvent (PeerRegistered p r)], s1)
         | (Inl _, s1) \<Rightarrow>
             Some ([NotifyHandler p conn i (DeclineRegisterRequest InvalidTtl),
                    GenerateEvent (PeerNotRegistered p (nr_namespace new) InvalidTtl)], s1)))"
| "handle_inbound_event v (DiscoverRequested ns c limit) p conn i s =
     map_option
       (\<lambda>(r, s1).
          (case r of
             Inr (rs, c') \<Rightarrow> [NotifyHandler p conn i (InDiscoverResponse rs c'), GenerateEvent (DiscoverServed p rs)]
           | Inl _ \<Rightarrow> [NotifyHandler p conn i (DeclineDiscoverRequest InvalidCookie),
                       GenerateEvent (DiscoverNotServed p InvalidCookie)], s1))
       (Registrations_get (env_iter v) (env_random v) ns c limit s)"
| "handle_inbound_event v (UnregisterRequested ns) p conn i s =
     Some ([GenerateEvent (PeerUnregistered p ns)], Registrations_remove ns p s)"

record ('pk, 'a, 'c, 'i) rdv_Behaviour =
  rdv_events :: "('pk, 'a, 'c, 'i) rdv_Action list"
  rdv_registrations :: "('pk, 'a) Registrations"

definition rdv_Behaviour_new :: "rdv_Config \<Rightarrow> ('pk, 'a, 'c, 'i) rdv_Behaviour" where
  "rdv_Behaviour_new c = \<lparr>rdv_events = [], rdv_registrations = Registrations_with_config c\<rparr>"

text \<open>An event of a connection handler: a request on a stream, or a failed stream.\<close>

datatype ('pk, 'a, 'i) InboundHandlerEvent = InboundEvent 'i "('pk, 'a) InboundOutEvent" | InboundError

fun rdv_inject_event ::
  "rdv_env \<Rightarrow> PeerId \<Rightarrow> 'c \<Rightarrow> ('pk, 'a, 'i) InboundHandlerEvent \<Rightarrow> ('pk, 'a, 'c, 'i) rdv_Behaviour \<Rightarrow>
   ('pk, 'a, 'c, 'i) rdv_Behaviour option" where
  "rdv_inject_event v p conn (InboundEvent i m) b =
     map_option (\<lambda>(as, s). \<lparr>rdv_events = rdv_events b @ as, rdv_registrations = s\<rparr>)
       (handle_inbound_event v m p conn i (rdv_registrations b))"
| "rdv_inject_event v p conn InboundError b = Some (b\<lparr>rdv_events := rdv_events b @ [CloseConnection p conn]\<rparr>)"

definition rdv_poll ::
  "(instant \<Rightarrow> timers \<Rightarrow> nat option) \<Rightarrow> instant \<Rightarrow> ('pk, 'a, 'c, 'i) rdv_Behaviour \<Rightarrow>
   ('pk, 'a, 'c, 'i) rdv_Action poll \<times> ('pk, 'a, 'c, 'i) rdv_Behaviour" where
  "rdv_poll ready now b =
     (case Registrations_poll ready now (rdv_registrations b) of
        (Ready r, s) \<Rightarrow> (Ready (GenerateEvent (RegistrationExpired r)), b\<lparr>rdv_registrations := s\<rparr>)
      | (Pending, s) \<Rightarrow>
          (case rdv_events b of
             [] \<Rightarrow> (Pending, b\<lparr>rdv_registrations := s\<rparr>)
           | e # es \<Rightarrow> (Ready e, b\<lparr>rdv_events := es, rdv_registrations := s\<rparr>)))"

section \<open>Invariant\<close>

text \<open>
  \<open>used\<close> are the ids drawn so far. Every registration has its pair in the two-way map and a timer; the ids of
  the timers are distinct.
\<close>

definition reg_inv :: "RegistrationId set \<Rightarrow> ('pk, 'a) Registrations \<Rightarrow> bool" where
  "reg_inv used s \<longleftrightarrow>
     distinct (map fst (registrations_for_peer s)) \<and> distinct (map snd (registrations_for_peer s)) \<and>
     (\<forall>i r. Mapping.lookup (registrations s) i = Some r \<longrightarrow>
        ((rec_peer_id (reg_record r), reg_namespace r), i) \<in> set (registrations_for_peer s) \<and>
        min_ttl s \<le> reg_ttl r \<and> reg_ttl r \<le> max_ttl s \<and> i \<in> snd ` set (next_expiry s)) \<and>
     (\<forall>l i. (l, i) \<in> set (registrations_for_peer s) \<longrightarrow> Mapping.lookup (registrations s) i \<noteq> None) \<and>
     distinct (map snd (next_expiry s)) \<and> snd ` set (next_expiry s) \<subseteq> used"

lemma reg_invD:
  assumes "reg_inv used s"
  shows "distinct (map fst (registrations_for_peer s))" "distinct (map snd (registrations_for_peer s))"
    "Mapping.lookup (registrations s) i = Some r \<Longrightarrow>
       ((rec_peer_id (reg_record r), reg_namespace r), i) \<in> set (registrations_for_peer s)"
    "Mapping.lookup (registrations s) i = Some r \<Longrightarrow> min_ttl s \<le> reg_ttl r \<and> reg_ttl r \<le> max_ttl s"
    "Mapping.lookup (registrations s) i = Some r \<Longrightarrow> i \<in> snd ` set (next_expiry s)"
    "(l, i) \<in> set (registrations_for_peer s) \<Longrightarrow> \<exists>r. Mapping.lookup (registrations s) i = Some r"
    "distinct (map snd (next_expiry s))" "snd ` set (next_expiry s) \<subseteq> used"
  using assms unfolding reg_inv_def by blast+

lemma pair_unique:
  assumes "reg_inv used s" "(l, i) \<in> set (registrations_for_peer s)"
  shows "get_by_left l (registrations_for_peer s) = Some i"
    "(l', i) \<in> set (registrations_for_peer s) \<Longrightarrow> l' = l"
    "(l, i') \<in> set (registrations_for_peer s) \<Longrightarrow> i' = i"
proof -
  show "get_by_left l (registrations_for_peer s) = Some i"
    using map_of_is_SomeI [OF reg_invD(1) [OF assms(1)] assms(2)] by (simp add: get_by_left_def)
  show "(l', i) \<in> set (registrations_for_peer s) \<Longrightarrow> l' = l"
    using reg_invD(2) [OF assms(1)] assms(2) by (metis distinct_map eq_key_imp_eq_value inj_onD snd_conv fst_conv)
  show "(l, i') \<in> set (registrations_for_peer s) \<Longrightarrow> i' = i"
    using eq_key_imp_eq_value [OF reg_invD(1) [OF assms(1)]] assms(2) by simp
qed

lemma new_reg_inv: "reg_inv {} (Registrations_with_config c)"
  by (simp add: reg_inv_def Registrations_with_config_def)

lemma pair_of_registration:
  assumes "reg_inv used s" "(l, i) \<in> set (registrations_for_peer s)" "Mapping.lookup (registrations s) i = Some r"
  shows "l = (rec_peer_id (reg_record r), reg_namespace r)"
  using pair_unique(2) [OF assms(1,2) reg_invD(3) [OF assms(1,3)]] by simp

section \<open>Refinement of a map with expiry times\<close>

definition due :: "RegistrationId \<Rightarrow> timers \<Rightarrow> instant" where
  "due i ts = the (map_of (map (\<lambda>(t, i). (i, t)) ts) i)"

text \<open>What the server promises: for every peer and namespace at most one registration, and when it expires.\<close>

definition registered :: "('pk, 'a) Registrations \<Rightarrow> owner \<Rightarrow> (('pk, 'a) Registration \<times> instant) option" where
  "registered s l =
     Option.bind (get_by_left l (registrations_for_peer s)) (\<lambda>i.
       map_option (\<lambda>r. (r, due i (next_expiry s))) (Mapping.lookup (registrations s) i))"

lemma due_unique:
  assumes "distinct (map snd ts)" "(t, i) \<in> set ts"
  shows "due i ts = t"
  using assms by (induction ts) (force simp: due_def)+

lemma registered_iff:
  assumes inv: "reg_inv used s"
  shows "registered s l = Some (r, t) \<longleftrightarrow>
    (\<exists>i. (l, i) \<in> set (registrations_for_peer s) \<and> Mapping.lookup (registrations s) i = Some r \<and> (t, i) \<in> set (next_expiry s))"
    (is "?L \<longleftrightarrow> ?R")
proof
  assume ?L
  then obtain i where i: "get_by_left l (registrations_for_peer s) = Some i" "Mapping.lookup (registrations s) i = Some r"
    "t = due i (next_expiry s)" by (auto simp: registered_def Option.bind_eq_Some_conv)
  moreover obtain t' where "(t', i) \<in> set (next_expiry s)" using reg_invD(5) [OF inv i(2)] by auto
  ultimately show ?R using due_unique [OF reg_invD(7) [OF inv]] by (auto simp: get_by_left_def dest: map_of_SomeD)
next
  assume ?R
  then obtain i where i: "(l, i) \<in> set (registrations_for_peer s)" "Mapping.lookup (registrations s) i = Some r"
    "(t, i) \<in> set (next_expiry s)" by blast
  show ?L
    using pair_unique(1) [OF inv i(1)] due_unique [OF reg_invD(7) [OF inv] i(3)] i(2) by (simp add: registered_def)
qed

lemma map_eqI: "(\<And>l x. m l = Some x \<longleftrightarrow> m' l = Some x) \<Longrightarrow> m = m'"
  by (rule ext) (metis option.exhaust)

lemma registered_eqI:
  assumes "reg_inv used s"
    and "\<And>l r t. m l = Some (r, t) \<longleftrightarrow>
      (\<exists>i. (l, i) \<in> set (registrations_for_peer s) \<and> Mapping.lookup (registrations s) i = Some r \<and> (t, i) \<in> set (next_expiry s))"
  shows "registered s = m"
  by (rule map_eqI) (metis assms(2) registered_iff [OF assms(1)] surj_pair)

lemma bimap_distinct [simp]:
  assumes "distinct (map fst m)" "distinct (map snd m)"
  shows "distinct (map fst (bimap_insert l r m))" "distinct (map snd (bimap_insert l r m))"
    "distinct (map fst (remove_by_left l m))" "distinct (map snd (remove_by_left l m))"
    "distinct (map fst (remove_by_right r m))" "distinct (map snd (remove_by_right r m))"
  using assms by (auto simp: bimap_insert_def remove_by_left_def remove_by_right_def distinct_map_filter)

lemma Registrations_add_effect:
  fixes s :: "('pk, 'a) Registrations"
  assumes inv: "reg_inv used s" and fresh: "i \<notin> used"
    and ttl: "min_ttl s \<le> effective_ttl new" "effective_ttl new \<le> max_ttl s"
  defines "r \<equiv> \<lparr>reg_namespace = nr_namespace new, reg_record = nr_record new, reg_ttl = effective_ttl new\<rparr>"
    and "l \<equiv> (rec_peer_id (nr_record new), nr_namespace new)"
  shows "\<exists>s'. Registrations_add now i new s = (Inr r, s') \<and> reg_inv (insert i used) s' \<and>
    registered s' = (registered s)(l \<mapsto> (r, now + unat (effective_ttl new))) \<and>
    min_ttl s' = min_ttl s \<and> max_ttl s' = max_ttl s"
proof -
  define bm where "bm = registrations_for_peer s"
  define kept where "kept = (case get_by_left l bm of Some old \<Rightarrow> Mapping.delete old (registrations s) | None \<Rightarrow> registrations s)"
  define s' where "s' = s\<lparr>registrations_for_peer := bimap_insert l i bm, registrations := Mapping.update i r kept,
    next_expiry := next_expiry s @ [(now + unat (effective_ttl new), i)]\<rparr>"
  have add: "Registrations_add now i new s = (Inr r, s')"
    using ttl by (simp add: Registrations_add_def Let_def s'_def kept_def bm_def r_def l_def not_less)
  have timer: "i \<notin> snd ` set (next_expiry s)" using reg_invD(8) [OF inv] fresh by blast
  then have unused: "(l', i) \<notin> set bm" for l'
    using reg_invD(5,6) [OF inv] unfolding bm_def by blast
  have pairs: "set (registrations_for_peer s') = insert (l, i) {(l', j) \<in> set bm. l' \<noteq> l}"
    using unused by (auto simp: s'_def bimap_insert_def)
  have kept: "Mapping.lookup kept j = (if (l, j) \<in> set bm then None else Mapping.lookup (registrations s) j)" for j
  proof (cases "get_by_left l bm")
    case None
    then have "(l, j) \<notin> set bm" using pair_unique(1) [OF inv, of l j] unfolding bm_def by auto
    then show ?thesis using None by (simp add: kept_def)
  next
    case (Some old)
    then have "(l, old) \<in> set bm" by (simp add: get_by_left_def map_of_SomeD)
    then have "(l, j) \<in> set bm \<longleftrightarrow> j = old" using pair_unique(3) [OF inv] unfolding bm_def by blast
    then show ?thesis using Some by (simp add: kept_def lookup_delete_if)
  qed
  have old: "Mapping.lookup kept j = Some q \<longleftrightarrow>
      Mapping.lookup (registrations s) j = Some q \<and> (rec_peer_id (reg_record q), reg_namespace q) \<noteq> l" for j q
    using kept [of j] reg_invD(3) [OF inv, of j q] pair_of_registration [OF inv, of l j q] unfolding bm_def by auto
  have look: "Mapping.lookup (registrations s') j = (if j = i then Some r else Mapping.lookup kept j)" for j
    by (simp add: s'_def Mapping.lookup_update')
  have owned: "Mapping.lookup kept j \<noteq> None" if j: "(l', j) \<in> set bm" "l' \<noteq> l" for l' j
  proof -
    obtain q where q: "Mapping.lookup (registrations s) j = Some q" using reg_invD(6) [OF inv] j(1) unfolding bm_def by blast
    then show ?thesis using old [of j q] pair_of_registration [OF inv, of l' j q] j unfolding bm_def by auto
  qed
  have inv': "reg_inv (insert i used) s'"
    unfolding reg_inv_def
  proof (intro conjI allI impI)
    show "distinct (map fst (registrations_for_peer s'))" "distinct (map snd (registrations_for_peer s'))"
      using reg_invD(1,2) [OF inv] by (simp_all add: s'_def bm_def)
    show "distinct (map snd (next_expiry s'))" "snd ` set (next_expiry s') \<subseteq> insert i used"
      using reg_invD(7,8) [OF inv] timer by (auto simp: s'_def)
    show "Mapping.lookup (registrations s') j \<noteq> None" if "(l', j) \<in> set (registrations_for_peer s')" for l' j
      using that owned [of l' j] unfolding look pairs by auto
    show "min_ttl s' \<le> reg_ttl q" "reg_ttl q \<le> max_ttl s'"
      "((rec_peer_id (reg_record q), reg_namespace q), j) \<in> set (registrations_for_peer s')" "j \<in> snd ` set (next_expiry s')"
      if "Mapping.lookup (registrations s') j = Some q" for j q
      using that ttl old [of j q] reg_invD(3-5) [OF inv, of j q]
      unfolding look pairs by (auto simp: s'_def r_def l_def bm_def split: if_splits)
  qed
  have "registered s' = (registered s)(l \<mapsto> (r, now + unat (effective_ttl new)))"
  proof (rule registered_eqI [OF inv'])
    fix l' q t
    show "((registered s)(l \<mapsto> (r, now + unat (effective_ttl new)))) l' = Some (q, t) \<longleftrightarrow>
      (\<exists>j. (l', j) \<in> set (registrations_for_peer s') \<and> Mapping.lookup (registrations s') j = Some q \<and> (t, j) \<in> set (next_expiry s'))"
    proof (cases "l' = l")
      case True
      then show ?thesis using timer unfolding look pairs by (force simp: s'_def)
    next
      case False
      have "(l', j) \<in> set (registrations_for_peer s') \<and> Mapping.lookup (registrations s') j = Some q \<and> (t, j) \<in> set (next_expiry s') \<longleftrightarrow>
          (l', j) \<in> set bm \<and> Mapping.lookup (registrations s) j = Some q \<and> (t, j) \<in> set (next_expiry s)" for j
        using False old [of j q] unused [of l'] pair_of_registration [OF inv, of l' j q] unfolding look pairs
        by (auto simp: s'_def bm_def)
      then show ?thesis using False registered_iff [OF inv, of l' q t] by (simp add: bm_def)
    qed
  qed
  then show ?thesis using add inv' by (simp add: s'_def)
qed

text \<open>An id disappears from the state, with or without its timer.\<close>

lemma without_id:
  fixes s s' :: "('pk, 'a) Registrations"
  assumes inv: "reg_inv used s"
    and pairs: "set (registrations_for_peer s') = {(l, j) \<in> set (registrations_for_peer s). j \<noteq> i}"
      "distinct (map fst (registrations_for_peer s'))" "distinct (map snd (registrations_for_peer s'))"
    and look: "\<And>j. Mapping.lookup (registrations s') j = (if j = i then None else Mapping.lookup (registrations s) j)"
    and timers: "set (next_expiry s') \<subseteq> set (next_expiry s)" "distinct (map snd (next_expiry s'))"
      "\<And>t j. (t, j) \<in> set (next_expiry s) \<Longrightarrow> j \<noteq> i \<Longrightarrow> (t, j) \<in> set (next_expiry s')"
    and ttl: "min_ttl s' = min_ttl s" "max_ttl s' = max_ttl s"
  shows "reg_inv used s'"
    "registered s' = (case Mapping.lookup (registrations s) i of
       None \<Rightarrow> registered s
     | Some r \<Rightarrow> (registered s)((rec_peer_id (reg_record r), reg_namespace r) := None))"
proof -
  have timer: "j \<in> snd ` set (next_expiry s')" if "j \<noteq> i" "j \<in> snd ` set (next_expiry s)" for j
    using that timers(3) by force
  show inv': "reg_inv used s'"
    unfolding reg_inv_def
  proof (intro conjI allI impI)
    show "snd ` set (next_expiry s') \<subseteq> used" using timers(1) reg_invD(8) [OF inv] by blast
    show "Mapping.lookup (registrations s') j \<noteq> None" if "(l, j) \<in> set (registrations_for_peer s')" for l j
      using that reg_invD(6) [OF inv, of l j] unfolding look pairs(1) by auto
    show "min_ttl s' \<le> reg_ttl q" "reg_ttl q \<le> max_ttl s'"
      "((rec_peer_id (reg_record q), reg_namespace q), j) \<in> set (registrations_for_peer s')" "j \<in> snd ` set (next_expiry s')"
      if "Mapping.lookup (registrations s') j = Some q" for j q
      using that reg_invD(3-5) [OF inv, of j q] timer [of j] unfolding look pairs(1) ttl by (auto split: if_splits)
  qed (use pairs timers in simp_all)
  show "registered s' = (case Mapping.lookup (registrations s) i of
       None \<Rightarrow> registered s
     | Some r \<Rightarrow> (registered s)((rec_peer_id (reg_record r), reg_namespace r) := None))"
  proof (rule registered_eqI [OF inv'])
    fix l q t
    have same: "(l, j) \<in> set (registrations_for_peer s') \<and> Mapping.lookup (registrations s') j = Some q \<and> (t, j) \<in> set (next_expiry s') \<longleftrightarrow>
        j \<noteq> i \<and> (l, j) \<in> set (registrations_for_peer s) \<and> Mapping.lookup (registrations s) j = Some q \<and> (t, j) \<in> set (next_expiry s)" for j
      using timers(1,3) unfolding look pairs(1) by auto
    show "(case Mapping.lookup (registrations s) i of
        None \<Rightarrow> registered s
      | Some r \<Rightarrow> (registered s)((rec_peer_id (reg_record r), reg_namespace r) := None)) l = Some (q, t) \<longleftrightarrow>
      (\<exists>j. (l, j) \<in> set (registrations_for_peer s') \<and> Mapping.lookup (registrations s') j = Some q \<and> (t, j) \<in> set (next_expiry s'))"
    proof (cases "Mapping.lookup (registrations s) i")
      case None
      then have "j \<noteq> i" if "Mapping.lookup (registrations s) j = Some q" for j using that by auto
      then show ?thesis using None registered_iff [OF inv, of l q t] unfolding same by auto
    next
      case (Some r)
      have "(l, j) \<in> set (registrations_for_peer s) \<Longrightarrow> l = (rec_peer_id (reg_record r), reg_namespace r) \<longleftrightarrow> j = i" for j
        using pair_unique(3) [OF inv reg_invD(3) [OF inv Some]] pair_of_registration [OF inv _ Some] by blast
      then show ?thesis using Some registered_iff [OF inv, of l q t] unfolding same by auto
    qed
  qed
qed

lemma Registrations_remove_effect:
  assumes inv: "reg_inv used s"
  shows "reg_inv used (Registrations_remove ns p s)"
    "registered (Registrations_remove ns p s) = (registered s)((p, ns) := None)"
proof -
  let ?s = "Registrations_remove ns p s" and ?bm = "registrations_for_peer s"
  have "reg_inv used ?s \<and> registered ?s = (registered s)((p, ns) := None)"
  proof (cases "get_by_left (p, ns) ?bm")
    case None
    have "remove_by_left (p, ns) ?bm = ?bm"
      using None by (auto simp: remove_by_left_def get_by_left_def map_of_eq_None_iff filter_id_conv image_iff)
    then have "?s = s" using None by (simp add: Registrations_remove_def)
    then show ?thesis using inv None by (auto simp: registered_def)
  next
    case (Some i)
    then have pair: "((p, ns), i) \<in> set ?bm" by (simp add: get_by_left_def map_of_SomeD)
    obtain r where r: "Mapping.lookup (registrations s) i = Some r" using reg_invD(6) [OF inv pair] by blast
    have "set (registrations_for_peer ?s) = {(l, j) \<in> set ?bm. j \<noteq> i}"
      using pair_unique(2,3) [OF inv pair] Some by (auto simp: Registrations_remove_def remove_by_left_def)
    from without_id [OF inv this] show ?thesis
      using Some r reg_invD(1,2,7) [OF inv] pair_of_registration [OF inv pair r]
      by (simp add: Registrations_remove_def lookup_delete_if)
  qed
  then show "reg_inv used ?s" "registered ?s = (registered s)((p, ns) := None)" by blast+
qed

text \<open>The executor completes timers that are due, and some timer if one is due.\<close>

definition ready_ok :: "(instant \<Rightarrow> timers \<Rightarrow> nat option) \<Rightarrow> bool" where
  "ready_ok ready \<longleftrightarrow> (\<forall>now ts.
     case ready now ts of
       None \<Rightarrow> \<forall>x \<in> set ts. now < fst x
     | Some k \<Rightarrow> k < length ts \<and> fst (ts ! k) \<le> now)"

lemma ready_okD:
  assumes "ready_ok ready"
  shows "ready now ts = None \<Longrightarrow> x \<in> set ts \<Longrightarrow> now < fst x"
    "ready now ts = Some k \<Longrightarrow> k < length ts" "ready now ts = Some k \<Longrightarrow> fst (ts ! k) \<le> now"
  using assms [unfolded ready_ok_def, rule_format, of ts now] by auto

definition live :: "('pk, 'a) Registrations \<Rightarrow> RegistrationId set" where
  "live s = snd ` set (registrations_for_peer s)"

text \<open>A cookie forgets only ids that are gone.\<close>

definition cookies_kept :: "('pk, 'a) Registrations \<Rightarrow> ('pk, 'a) Registrations \<Rightarrow> bool" where
  "cookies_kept s s' \<longleftrightarrow>
     (\<forall>c. seen_by (Some c) s' \<subseteq> seen_by (Some c) s \<and> seen_by (Some c) s \<inter> live s' \<subseteq> seen_by (Some c) s')"

lemma forget_effect:
  fixes s :: "('pk, 'a) Registrations"
  assumes inv: "reg_inv used s" and timer: "(t, i) \<in> set (next_expiry s)"
    and ts: "set (next_expiry s) = insert (t, i) (set ts)" "distinct (map snd ts)"
  defines "s' \<equiv> forget i (s\<lparr>next_expiry := ts\<rparr>)"
  shows "reg_inv used s'"
    "registered s' = (case Mapping.lookup (registrations s) i of
       None \<Rightarrow> registered s
     | Some r \<Rightarrow> (registered s)((rec_peer_id (reg_record r), reg_namespace r) := None))"
    "cookies_kept s s'" "live s' = live s - {i}" "set (registrations_for_peer s') \<subseteq> set (registrations_for_peer s)"
proof -
  have pairs: "set (registrations_for_peer s') = {(l, j) \<in> set (registrations_for_peer s). j \<noteq> i}"
    by (auto simp: s'_def forget_def remove_by_right_def)
  show "reg_inv used s'"
    "registered s' = (case Mapping.lookup (registrations s) i of
       None \<Rightarrow> registered s
     | Some r \<Rightarrow> (registered s)((rec_peer_id (reg_record r), reg_namespace r) := None))"
    by (rule without_id [OF inv pairs]; use ts reg_invD(1,2) [OF inv] in \<open>auto simp: s'_def forget_def lookup_delete_if\<close>)+
  show gone: "live s' = live s - {i}" using pairs by (force simp: live_def)
  have "seen_by (Some c) s' = seen_by (Some c) s - {i}" for c
    by (auto simp: s'_def forget_def seen_by_def lookup_filter lookup_map_values split: option.splits)
  then show "cookies_kept s s'" using gone by (auto simp: cookies_kept_def)
  show "set (registrations_for_peer s') \<subseteq> set (registrations_for_peer s)" unfolding pairs by auto
qed

lemma cookies_kept_refl: "cookies_kept s s"
  by (simp add: cookies_kept_def)

lemma cookies_kept_trans:
  "cookies_kept s s' \<Longrightarrow> cookies_kept s' s'' \<Longrightarrow> live s'' \<subseteq> live s' \<Longrightarrow> cookies_kept s s''"
  by (fastforce simp: cookies_kept_def)

lemma vec_remove_timer:
  assumes "vec_remove ts k = Some ((t, i), rest)" "distinct (map snd ts)"
  shows "k < length ts" "ts ! k = (t, i)" "set ts = insert (t, i) (set rest)" "distinct (map snd rest)"
proof -
  show k: "k < length ts" "ts ! k = (t, i)" using assms(1) by (auto simp: vec_remove_def split: if_splits)
  have rest: "rest = take k ts @ drop (Suc k) ts" using assms(1) k by (simp add: vec_remove_def)
  have ts: "ts = take k ts @ (t, i) # drop (Suc k) ts" using id_take_nth_drop [OF k(1)] k(2) by simp
  show "set ts = insert (t, i) (set rest)" unfolding rest by (subst ts) auto
  show "distinct (map snd rest)" using assms(2) unfolding rest by (subst (asm) ts) auto
qed

lemma Registrations_poll_effect:
  "ready_ok ready \<Longrightarrow> reg_inv used s \<Longrightarrow> Registrations_poll ready now s = (out, s') \<Longrightarrow>
    reg_inv used s' \<and> cookies_kept s s' \<and> live s' \<subseteq> live s \<and>
    set (registrations_for_peer s') \<subseteq> set (registrations_for_peer s) \<and> min_ttl s' = min_ttl s \<and> max_ttl s' = max_ttl s \<and>
    (case out of
       Pending \<Rightarrow> registered s' = registered s \<and> (\<forall>l r t. registered s l = Some (r, t) \<longrightarrow> now < t)
     | Ready r \<Rightarrow> \<exists>l t. registered s l = Some (r, t) \<and> t \<le> now \<and> registered s' = (registered s)(l := None))"
proof (induction ready now s arbitrary: out s' rule: Registrations_poll.induct)
  case (1 ready now s)
  note inv = 1(3)
  show ?case
  proof (cases "ready now (next_expiry s)")
    case None
    then have "now < t" if "registered s l = Some (r, t)" for l r t
      using that registered_iff [OF inv, of l r t] ready_okD(1) [OF 1(2) None] by auto
    moreover have "out = Pending" "s' = s" using 1(4) None by (simp_all add: Registrations_poll.simps [of ready])
    ultimately show ?thesis using inv cookies_kept_refl by simp
  next
    case (Some k)
    then have k: "k < length (next_expiry s)" "fst (next_expiry s ! k) \<le> now"
      using ready_okD(2,3) [OF 1(2) Some] by simp_all
    obtain t i rest where rem: "vec_remove (next_expiry s) k = Some ((t, i), rest)"
      using vec_remove_Some [OF k(1)] by (metis surj_pair)
    note tm = vec_remove_timer [OF rem reg_invD(7) [OF inv]]
    define s1 where "s1 = forget i (s\<lparr>next_expiry := rest\<rparr>)"
    have timer: "(t, i) \<in> set (next_expiry s)" using tm(3) by simp
    note f = forget_effect [OF inv timer tm(3,4), folded s1_def]
    have ttl: "min_ttl s1 = min_ttl s" "max_ttl s1 = max_ttl s" by (simp_all add: s1_def forget_def)
    have poll: "Registrations_poll ready now s =
        (case Mapping.lookup (registrations s) i of None \<Rightarrow> Registrations_poll ready now s1 | Some r \<Rightarrow> (Ready r, s1))"
      unfolding s1_def using Some rem by (subst Registrations_poll.simps) (simp add: Let_def)
    show ?thesis
    proof (cases "Mapping.lookup (registrations s) i")
      case None
      have "Option.bind (ready now (next_expiry s)) (vec_remove (next_expiry s)) = Some ((t, i), rest)" using Some rem by simp
      note ih = 1(1) [OF this refl refl s1_def None 1(2) f(1)]
      have reg: "registered s1 = registered s" using f(2) None by simp
      have "Registrations_poll ready now s1 = (out, s')" using 1(4) poll None by simp
      from ih [OF this, unfolded reg] cookies_kept_trans [OF f(3), of s'] f(4,5) ttl show ?thesis by auto
    next
      case r: (Some r)
      then have "registered s (rec_peer_id (reg_record r), reg_namespace r) = Some (r, t)"
        using registered_iff [OF inv] reg_invD(3) [OF inv r] timer by blast
      then show ?thesis using f ttl poll r 1(4) k(2) tm(2) by auto
    qed
  qed
qed

definition iter_ok :: "('x list \<Rightarrow> 'x list) \<Rightarrow> bool" where
  "iter_ok iter \<longleftrightarrow> (\<forall>xs. mset (iter xs) = mset xs)"

definition live_in :: "Namespace option \<Rightarrow> ('pk, 'a) Registrations \<Rightarrow> RegistrationId set" where
  "live_in ns s = {i. \<exists>p n. ((p, n), i) \<in> set (registrations_for_peer s) \<and> ns_matches ns n}"

lemma discovered:
  assumes inv: "reg_inv used s" and iter: "iter_ok iter"
  shows "distinct (discovered_ids iter ns c limit s)" "set (discovered_ids iter ns c limit s) \<subseteq> live_in ns s - seen_by c s"
    "limit = None \<Longrightarrow> length (registrations_for_peer s) < 2 ^ 64 \<Longrightarrow>
       set (discovered_ids iter ns c limit s) = live_in ns s - seen_by c s"
proof -
  let ?bm = "registrations_for_peer s"
  let ?f = "filter (\<lambda>((_, n), i). i \<notin> seen_by c s \<and> ns_matches ns n) (iter ?bm)"
  have m: "mset (iter ?bm) = mset ?bm" using iter by (simp add: iter_ok_def)
  then have set_iter: "set (iter ?bm) = set ?bm" by (rule mset_eq_setD)
  have "mset (map snd (iter ?bm)) = mset (map snd ?bm)" using m by simp
  then have "distinct (map snd (iter ?bm))" using reg_invD(2) [OF inv] by (metis mset_eq_imp_distinct_iff)
  then have d: "distinct (map snd ?f)" by (rule distinct_map_filter)
  then show "distinct (discovered_ids iter ns c limit s)" by (simp add: discovered_ids_def distinct_take)
  have f: "set (map snd ?f) = live_in ns s - seen_by c s"
    unfolding live_in_def by (force simp: set_iter)
  then show "set (discovered_ids iter ns c limit s) \<subseteq> live_in ns s - seen_by c s"
    unfolding discovered_ids_def by (metis set_take_subset)
  assume lim: "limit = None" "length ?bm < 2 ^ 64"
  have "length ?f \<le> length ?bm" using length_filter_le [of _ "iter ?bm"] m by (metis size_mset)
  then have "length (map snd ?f) \<le> unat (- 1 :: u64)" using lim(2) by (simp add: unsigned_minus_1_eq_mask mask_eq_exp_minus_1)
  then show "set (discovered_ids iter ns c limit s) = live_in ns s - seen_by c s"
    using f lim(1) by (simp add: discovered_ids_def)
qed

lemma those_lookup:
  "(\<And>i. i \<in> set is \<Longrightarrow> \<exists>r. Mapping.lookup m i = Some r) \<Longrightarrow>
   \<exists>rs. those (map (Mapping.lookup m) is) = Some rs \<and> list_all2 (\<lambda>i r. Mapping.lookup m i = Some r) is rs"
  by (induction "is") (force simp: list_all2_Cons1)+

lemma Registrations_get_effect:
  assumes inv: "reg_inv used s" and iter: "iter_ok iter" and ok: "\<not> cookie_mismatch ns c"
  shows "\<exists>rs c' s'. Registrations_get iter rnd ns c limit s = Some (Inr (rs, c'), s') \<and> cookie_id c' = rnd \<and>
    cookie_namespace c' = ns \<and>
    s' = s\<lparr>cookies := Mapping.update c' (seen_by c s \<union> set (discovered_ids iter ns c limit s)) (cookies s)\<rparr> \<and>
    list_all2 (\<lambda>i r. Mapping.lookup (registrations s) i = Some r) (discovered_ids iter ns c limit s) rs"
proof -
  have "\<exists>r. Mapping.lookup (registrations s) i = Some r" if "i \<in> set (discovered_ids iter ns c limit s)" for i
    using that discovered(2) [OF inv iter, of ns c limit] reg_invD(6) [OF inv] by (auto simp: live_in_def)
  from those_lookup [OF this] obtain rs where
    "those (map (Mapping.lookup (registrations s)) (discovered_ids iter ns c limit s)) = Some rs"
    "list_all2 (\<lambda>i r. Mapping.lookup (registrations s) i = Some r) (discovered_ids iter ns c limit s) rs" by blast
  then show ?thesis
    using ok by (simp add: Registrations_get_def Let_def Cookie_for_namespace_def Cookie_for_all_namespaces_def split: option.splits)
qed

lemma cookies_change:
  assumes inv: "reg_inv used s" and s': "s' = s\<lparr>cookies := m\<rparr>"
  shows "reg_inv used s'" "registered s' = registered s" "live s' = live s" "live_in ns s' = live_in ns s"
  using inv by (simp_all add: s' reg_inv_def registered_def live_def live_in_def fun_eq_iff)

section \<open>Runs of the server\<close>

datatype ('pk, 'a, 'c, 'i) rdv_op =
    Request PeerId 'c "('pk, 'a, 'i) InboundHandlerEvent" u64
  | PollServer
  | Wait nat

datatype ('pk, 'a, 'c, 'i) rdv_out =
    Queued "('pk, 'a, 'c, 'i) rdv_Action list"
  | Polled "('pk, 'a, 'c, 'i) rdv_Action poll"

type_synonym iteration = "(owner \<times> RegistrationId) list \<Rightarrow> (owner \<times> RegistrationId) list"

fun rdv_step ::
  "(instant \<Rightarrow> timers \<Rightarrow> nat option) \<Rightarrow> iteration \<Rightarrow> ('pk, 'a, 'c, 'i) rdv_op \<Rightarrow> instant \<times> ('pk, 'a, 'c, 'i) rdv_Behaviour \<Rightarrow>
   (('pk, 'a, 'c, 'i) rdv_out \<times> instant \<times> ('pk, 'a, 'c, 'i) rdv_Behaviour) option" where
  "rdv_step ready iter (Request p conn e rnd) (now, b) =
     map_option (\<lambda>b'. (Queued (drop (length (rdv_events b)) (rdv_events b')), now, b'))
       (rdv_inject_event \<lparr>env_now = now, env_random = rnd, env_iter = iter\<rparr> p conn e b)"
| "rdv_step ready iter PollServer (now, b) = (case rdv_poll ready now b of (a, b') \<Rightarrow> Some (Polled a, now, b'))"
| "rdv_step ready iter (Wait d) (now, b) = Some (Queued [], now + d, b)"

fun rdv_run ::
  "(instant \<Rightarrow> timers \<Rightarrow> nat option) \<Rightarrow> iteration \<Rightarrow> ('pk, 'a, 'c, 'i) rdv_op list \<Rightarrow> instant \<times> ('pk, 'a, 'c, 'i) rdv_Behaviour \<Rightarrow>
   (('pk, 'a, 'c, 'i) rdv_out list \<times> instant \<times> ('pk, 'a, 'c, 'i) rdv_Behaviour) option" where
  "rdv_run ready iter [] st = Some ([], st)"
| "rdv_run ready iter (x # xs) st =
     do {
       (out, st1) \<leftarrow> rdv_step ready iter x st;
       (outs, st2) \<leftarrow> rdv_run ready iter xs st1;
       Some (out # outs, st2)
     }"

fun drawn :: "('pk, 'a, 'c, 'i) rdv_op list \<Rightarrow> u64 list" where
  "drawn [] = []"
| "drawn (Request _ _ _ rnd # xs) = rnd # drawn xs"
| "drawn (_ # xs) = drawn xs"

text \<open>
  The specification: the registrations are a map from peers and namespaces to a registration and the time when it
  expires. A step gives an answer and changes the map.
\<close>

type_synonym ('pk, 'a) rdv_map = "owner \<Rightarrow> (('pk, 'a) Registration \<times> instant) option"

definition found ::
  "Namespace option \<Rightarrow> ('pk, 'a) rdv_map \<Rightarrow> owner list \<Rightarrow> ('pk, 'a) Registration list \<Rightarrow> bool" where
  "found ns m ls rs \<longleftrightarrow>
     distinct ls \<and> list_all2 (\<lambda>l r. (\<exists>t. m l = Some (r, t)) \<and> ns_matches ns (snd l)) ls rs"

inductive rdv_spec ::
  "rdv_Config \<Rightarrow> instant \<times> ('pk, 'a) rdv_map \<Rightarrow> ('pk, 'a, 'c, 'i) rdv_op \<Rightarrow> ('pk, 'a, 'c, 'i) rdv_out \<Rightarrow>
   instant \<times> ('pk, 'a) rdv_map \<Rightarrow> bool"
  for cfg :: rdv_Config where
  spec_register:
    "rec_peer_id (nr_record new) = p \<Longrightarrow> ttl = effective_ttl new \<Longrightarrow> cfg_min_ttl cfg \<le> ttl \<Longrightarrow> ttl \<le> cfg_max_ttl cfg \<Longrightarrow>
     r = \<lparr>reg_namespace = nr_namespace new, reg_record = nr_record new, reg_ttl = ttl\<rparr> \<Longrightarrow>
     rdv_spec cfg (now, m) (Request p conn (InboundEvent i (RegistrationRequested new)) rnd)
       (Queued [NotifyHandler p conn i (InRegisterResponse ttl), GenerateEvent (PeerRegistered p r)])
       (now, m((p, nr_namespace new) \<mapsto> (r, now + unat ttl)))"
| spec_not_authorized:
    "rec_peer_id (nr_record new) \<noteq> p \<Longrightarrow>
     rdv_spec cfg (now, m) (Request p conn (InboundEvent i (RegistrationRequested new)) rnd)
       (Queued [NotifyHandler p conn i (DeclineRegisterRequest NotAuthorized),
                GenerateEvent (PeerNotRegistered p (nr_namespace new) NotAuthorized)]) (now, m)"
| spec_invalid_ttl:
    "rec_peer_id (nr_record new) = p \<Longrightarrow> effective_ttl new < cfg_min_ttl cfg \<or> cfg_max_ttl cfg < effective_ttl new \<Longrightarrow>
     rdv_spec cfg (now, m) (Request p conn (InboundEvent i (RegistrationRequested new)) rnd)
       (Queued [NotifyHandler p conn i (DeclineRegisterRequest InvalidTtl),
                GenerateEvent (PeerNotRegistered p (nr_namespace new) InvalidTtl)]) (now, m)"
| spec_unregister:
    "rdv_spec cfg (now, m) (Request p conn (InboundEvent i (UnregisterRequested ns)) rnd)
       (Queued [GenerateEvent (PeerUnregistered p ns)]) (now, m((p, ns) := None))"
| spec_discover:
    "\<not> cookie_mismatch ns c \<Longrightarrow> found ns m ls rs \<Longrightarrow>
     (c = None \<and> limit = None \<Longrightarrow> set ls = {l. m l \<noteq> None \<and> ns_matches ns (snd l)}) \<Longrightarrow>
     rdv_spec cfg (now, m) (Request p conn (InboundEvent i (DiscoverRequested ns c limit)) rnd)
       (Queued [NotifyHandler p conn i (InDiscoverResponse rs c'), GenerateEvent (DiscoverServed p rs)]) (now, m)"
| spec_bad_cookie:
    "cookie_mismatch ns c \<Longrightarrow>
     rdv_spec cfg (now, m) (Request p conn (InboundEvent i (DiscoverRequested ns c limit)) rnd)
       (Queued [NotifyHandler p conn i (DeclineDiscoverRequest InvalidCookie),
                GenerateEvent (DiscoverNotServed p InvalidCookie)]) (now, m)"
| spec_stream_error:
    "rdv_spec cfg (now, m) (Request p conn InboundError rnd) (Queued [CloseConnection p conn]) (now, m)"
| spec_expire:
    "m l = Some (r, t) \<Longrightarrow> t \<le> now \<Longrightarrow>
     rdv_spec cfg (now, m) PollServer (Polled (Ready (GenerateEvent (RegistrationExpired r)))) (now, m(l := None))"
| spec_quiet:
    "(\<And>l r t. m l = Some (r, t) \<Longrightarrow> now < t) \<Longrightarrow> (\<And>r. out \<noteq> Ready (GenerateEvent (RegistrationExpired r))) \<Longrightarrow>
     rdv_spec cfg (now, m) PollServer (Polled out) (now, m)"
| spec_wait:
    "rdv_spec cfg (now, m) (Wait d) (Queued []) (now + d, m)"

inductive rdv_spec_run ::
  "rdv_Config \<Rightarrow> instant \<times> ('pk, 'a) rdv_map \<Rightarrow> ('pk, 'a, 'c, 'i) rdv_op list \<Rightarrow> ('pk, 'a, 'c, 'i) rdv_out list \<Rightarrow>
   instant \<times> ('pk, 'a) rdv_map \<Rightarrow> bool"
  for cfg :: rdv_Config where
  "rdv_spec_run cfg st [] [] st"
| "rdv_spec cfg st x out st1 \<Longrightarrow> rdv_spec_run cfg st1 xs outs st2 \<Longrightarrow> rdv_spec_run cfg st (x # xs) (out # outs) st2"

definition server_inv :: "rdv_Config \<Rightarrow> RegistrationId set \<Rightarrow> ('pk, 'a, 'c, 'i) rdv_Behaviour \<Rightarrow> bool" where
  "server_inv cfg used b \<longleftrightarrow>
     reg_inv used (rdv_registrations b) \<and> min_ttl (rdv_registrations b) = cfg_min_ttl cfg \<and>
     max_ttl (rdv_registrations b) = cfg_max_ttl cfg \<and>
     (\<forall>c. seen_by (Some c) (rdv_registrations b) \<subseteq> used) \<and>
     (\<forall>r. GenerateEvent (RegistrationExpired r) \<notin> set (rdv_events b))"

lemma new_server_inv: "server_inv cfg {} (rdv_Behaviour_new cfg)"
  by (simp add: server_inv_def rdv_Behaviour_new_def new_reg_inv) (simp add: Registrations_with_config_def seen_by_def)

lemma found_discovered:
  assumes inv: "reg_inv used s" and iter: "iter_ok iter"
    and rs: "list_all2 (\<lambda>i r. Mapping.lookup (registrations s) i = Some r) (discovered_ids iter ns c limit s) rs"
  shows "\<exists>ls. found ns (registered s) ls rs \<and>
    (c = None \<and> limit = None \<and> length (registrations_for_peer s) < 2 ^ 64 \<longrightarrow>
       set ls = {l. registered s l \<noteq> None \<and> ns_matches ns (snd l)})"
proof -
  define own where "own r = (rec_peer_id (reg_record r), reg_namespace r)" for r :: "('a, 'b) Registration"
  let ?ids = "discovered_ids iter ns c limit s"
  have pair: "(own r, i) \<in> set (registrations_for_peer s)" if "Mapping.lookup (registrations s) i = Some r" for i r
    using reg_invD(3) [OF inv that] by (simp add: own_def)
  have reg: "\<exists>t. registered s (own r) = Some (r, t)" if look: "Mapping.lookup (registrations s) i = Some r" for i r
  proof -
    obtain t where "(t, i) \<in> set (next_expiry s)" using reg_invD(5) [OF inv look] by auto
    then have "registered s (own r) = Some (r, t)" using registered_iff [OF inv] pair [OF look] look by blast
    then show ?thesis by blast
  qed
  have ns: "ns_matches ns (snd (own r))" if i: "i \<in> set ?ids" "Mapping.lookup (registrations s) i = Some r" for i r
  proof -
    obtain p n where "((p, n), i) \<in> set (registrations_for_peer s)" "ns_matches ns n"
      using discovered(2) [OF inv iter, of ns c limit] i(1) by (auto simp: live_in_def)
    then show ?thesis using pair_unique(2) [OF inv pair [OF i(2)]] by force
  qed
  have nth: "Mapping.lookup (registrations s) (?ids ! k) = Some (rs ! k)" if "k < length rs" for k
    using list_all2_nthD2 [OF rs that] .
  have "k = j" if k: "k < length rs" "j < length rs" "own (rs ! k) = own (rs ! j)" for k j
  proof -
    have "?ids ! k = ?ids ! j"
      using pair_unique(3) [OF inv pair [OF nth [OF k(2)]], of "?ids ! k"] pair [OF nth [OF k(1)]] k(3) by simp
    then show ?thesis
      using nth_eq_iff_index_eq [OF discovered(1) [OF inv iter, of ns c limit]] k(1,2) list_all2_lengthD [OF rs] by simp
  qed
  then have "distinct (map own rs)" unfolding distinct_conv_nth by (metis length_map nth_map)
  moreover have each: "(\<exists>t. registered s (own r) = Some (r, t)) \<and> ns_matches ns (snd (own r))" if r: "r \<in> set rs" for r
  proof -
    obtain k where k: "k < length rs" "r = rs ! k" using r by (auto simp: in_set_conv_nth)
    then have "?ids ! k \<in> set ?ids" using list_all2_lengthD [OF rs] by simp
    then show ?thesis using reg [OF nth [OF k(1)]] ns [OF _ nth [OF k(1)]] k(2) by simp
  qed
  ultimately have found: "found ns (registered s) (map own rs) rs"
    by (simp add: found_def list_all2_map1 list_all2_same)
  have all: "l \<in> set (map own rs)"
    if l: "registered s l \<noteq> None" "ns_matches ns (snd l)" and all: "set ?ids = live_in ns s - seen_by c s" "c = None" for l
  proof -
    obtain i r where i: "(l, i) \<in> set (registrations_for_peer s)" "Mapping.lookup (registrations s) i = Some r"
      using l(1) registered_iff [OF inv, of l] by auto
    then have "i \<in> set ?ids" using l(2) all by (cases l) (auto simp: live_in_def seen_by_def)
    then obtain k where "k < length rs" "i = ?ids ! k" using list_all2_lengthD [OF rs] by (auto simp: in_set_conv_nth)
    then have "r \<in> set rs" using nth i(2) by auto
    then show ?thesis using pair_of_registration [OF inv i] by (auto simp: own_def)
  qed
  have "set (map own rs) = {l. registered s l \<noteq> None \<and> ns_matches ns (snd l)}"
    if lim: "c = None" "limit = None" "length (registrations_for_peer s) < 2 ^ 64"
  proof -
    note ids = discovered(3) [OF inv iter lim(2,3), of ns c]
    show ?thesis
    proof (intro equalityI subsetI)
      fix l
      assume "l \<in> set (map own rs)"
      then obtain r where "r \<in> set rs" "l = own r" by auto
      then show "l \<in> {l. registered s l \<noteq> None \<and> ns_matches ns (snd l)}" using each [of r] by auto
    next
      fix l
      assume "l \<in> {l. registered s l \<noteq> None \<and> ns_matches ns (snd l)}"
      then show "l \<in> set (map own rs)" using all [OF _ _ ids lim(1), of l] by blast
    qed
  qed
  then show ?thesis using found by blast
qed

text \<open>What a step keeps of the pairs and the cookies; \<open>D\<close> are the numbers it draws.\<close>

definition continues :: "u64 set \<Rightarrow> ('pk, 'a) Registrations \<Rightarrow> ('pk, 'a) Registrations \<Rightarrow> bool" where
  "continues D s s' \<longleftrightarrow>
     set (registrations_for_peer s') \<subseteq> set (registrations_for_peer s) \<union> UNIV \<times> D \<and>
     (\<forall>c. cookie_id c \<notin> D \<longrightarrow>
        seen_by (Some c) s' \<subseteq> seen_by (Some c) s \<and> seen_by (Some c) s \<inter> live s' \<subseteq> seen_by (Some c) s')"

lemma continues_refl: "continues D s s"
  by (auto simp: continues_def)

lemma seen_by_same: "cookies s' = cookies s \<Longrightarrow> seen_by c s' = seen_by c s"
  by (cases c) (simp_all add: seen_by_def)

lemma continues_cookies_same:
  "cookies s' = cookies s \<Longrightarrow> set (registrations_for_peer s') \<subseteq> set (registrations_for_peer s) \<union> UNIV \<times> D \<Longrightarrow>
   continues D s s'"
  by (auto simp: continues_def seen_by_def)

lemma pairs_bound:
  assumes "reg_inv used s" "rnd \<notin> used"
  shows "length (registrations_for_peer s) < 2 ^ 64"
proof -
  have "live s \<subseteq> used"
    using reg_invD(5,6,8) [OF assms(1)] unfolding live_def by force
  then have "live s \<subset> UNIV" using assms(2) by blast
  then have "card (live s) < card (UNIV :: u64 set)" by (intro psubset_card_mono) simp_all
  then show ?thesis
    using distinct_card [OF reg_invD(2) [OF assms(1)]] by (simp add: live_def card_word)
qed

lemma live_used: "reg_inv used s \<Longrightarrow> live s \<subseteq> used"
  using reg_invD(5,6,8) unfolding live_def by force

definition request_ok ::
  "rdv_Config \<Rightarrow> RegistrationId set \<Rightarrow> rdv_env \<Rightarrow> PeerId \<Rightarrow> 'c \<Rightarrow> 'i \<Rightarrow> ('pk, 'a) InboundOutEvent \<Rightarrow>
   ('pk, 'a, 'c, 'i) rdv_Behaviour \<Rightarrow> bool" where
  "request_ok cfg used v p conn i e b \<longleftrightarrow>
     (\<exists>as s'. handle_inbound_event v e p conn i (rdv_registrations b) = Some (as, s') \<and>
       server_inv cfg (insert (env_random v) used) \<lparr>rdv_events = rdv_events b @ as, rdv_registrations = s'\<rparr> \<and>
       rdv_spec cfg (env_now v, registered (rdv_registrations b)) (Request p conn (InboundEvent i e) (env_random v))
         (Queued as) (env_now v, registered s') \<and> continues {env_random v} (rdv_registrations b) s')"

lemma server_inv_mono: "server_inv cfg used b \<Longrightarrow> used \<subseteq> used' \<Longrightarrow> server_inv cfg used' b"
  unfolding server_inv_def reg_inv_def by blast

lemma unchanged_request:
  assumes "server_inv cfg used b" "handle_inbound_event v e p conn i (rdv_registrations b) = Some (as, rdv_registrations b)"
    and "rdv_spec cfg (env_now v, registered (rdv_registrations b)) (Request p conn (InboundEvent i e) (env_random v))
      (Queued as) (env_now v, registered (rdv_registrations b))"
    and "\<And>r. GenerateEvent (RegistrationExpired r) \<notin> set as"
  shows "request_ok cfg used v p conn i e b"
proof -
  have "server_inv cfg (insert (env_random v) used) \<lparr>rdv_events = rdv_events b @ as, rdv_registrations = rdv_registrations b\<rparr>"
    using server_inv_mono [OF assms(1)] assms(4) by (auto simp: server_inv_def)
  then show ?thesis using assms(2,3) continues_refl unfolding request_ok_def by blast
qed

lemma register_step:
  assumes inv: "server_inv cfg used b" and fresh: "env_random v \<notin> used"
  shows "request_ok cfg used v p conn i (RegistrationRequested new) b"
proof -
  let ?s = "rdv_registrations b" and ?ttl = "effective_ttl new"
  have reg: "reg_inv used ?s" and ttl: "min_ttl ?s = cfg_min_ttl cfg" "max_ttl ?s = cfg_max_ttl cfg"
    using inv by (simp_all add: server_inv_def)
  consider (other) "rec_peer_id (nr_record new) \<noteq> p"
    | (bad) "rec_peer_id (nr_record new) = p" "?ttl < cfg_min_ttl cfg \<or> cfg_max_ttl cfg < ?ttl"
    | (good) "rec_peer_id (nr_record new) = p" "cfg_min_ttl cfg \<le> ?ttl" "?ttl \<le> cfg_max_ttl cfg"
    by (metis not_less)
  then show ?thesis
  proof cases
    case other
    then show ?thesis by (intro unchanged_request [OF inv]) (auto intro: spec_not_authorized)
  next
    case bad
    then have "\<exists>e. Registrations_add (env_now v) (env_random v) new ?s = (Inl e, ?s)"
      by (auto simp: Registrations_add_def Let_def ttl)
    then show ?thesis
      using bad by (intro unchanged_request [OF inv]) (auto intro: spec_invalid_ttl)
  next
    case good
    from Registrations_add_effect [OF reg fresh] good(2,3) ttl
    obtain s' where s': "Registrations_add (env_now v) (env_random v) new ?s =
        (Inr \<lparr>reg_namespace = nr_namespace new, reg_record = nr_record new, reg_ttl = ?ttl\<rparr>, s')"
      "reg_inv (insert (env_random v) used) s'"
      "registered s' = (registered ?s)((p, nr_namespace new) \<mapsto>
         (\<lparr>reg_namespace = nr_namespace new, reg_record = nr_record new, reg_ttl = ?ttl\<rparr>, env_now v + unat ?ttl))"
      "min_ttl s' = min_ttl ?s" "max_ttl s' = max_ttl ?s"
      using good(1) by fastforce
    have same: "cookies s' = cookies ?s"
      "set (registrations_for_peer s') \<subseteq> set (registrations_for_peer ?s) \<union> UNIV \<times> {env_random v}"
      using s'(1) by (auto simp: Registrations_add_def Let_def bimap_insert_def split: if_splits)
    then have "seen_by c s' = seen_by c ?s" for c by (intro seen_by_same)
    then have "server_inv cfg (insert (env_random v) used)
        \<lparr>rdv_events = rdv_events b @ [NotifyHandler p conn i (InRegisterResponse ?ttl), GenerateEvent (PeerRegistered p
           \<lparr>reg_namespace = nr_namespace new, reg_record = nr_record new, reg_ttl = ?ttl\<rparr>)], rdv_registrations = s'\<rparr>"
      using inv s'(2,4,5) by (auto simp: server_inv_def)
    then show ?thesis
      using s'(1,3) good spec_register [OF good(1) refl good(2,3) refl] continues_cookies_same [OF same]
      unfolding request_ok_def by auto
  qed
qed

lemma unregister_step:
  assumes inv: "server_inv cfg used b"
  shows "request_ok cfg used v p conn i (UnregisterRequested ns) b"
proof -
  let ?s = "rdv_registrations b"
  have reg: "reg_inv used ?s" using inv by (simp add: server_inv_def)
  have same: "cookies (Registrations_remove ns p ?s) = cookies ?s" "min_ttl (Registrations_remove ns p ?s) = min_ttl ?s"
    "max_ttl (Registrations_remove ns p ?s) = max_ttl ?s"
    "set (registrations_for_peer (Registrations_remove ns p ?s)) \<subseteq> set (registrations_for_peer ?s) \<union> UNIV \<times> {env_random v}"
    by (auto simp: Registrations_remove_def Let_def remove_by_left_def split: option.splits)
  then have "seen_by c (Registrations_remove ns p ?s) = seen_by c ?s" for c by (intro seen_by_same)
  then have "server_inv cfg used \<lparr>rdv_events = rdv_events b @ [GenerateEvent (PeerUnregistered p ns)],
      rdv_registrations = Registrations_remove ns p ?s\<rparr>"
    using inv same Registrations_remove_effect(1) [OF reg] by (auto simp: server_inv_def)
  from server_inv_mono [OF this, of "insert (env_random v) used"]
  show ?thesis
    using spec_unregister [of cfg "env_now v" "registered ?s" p conn i ns "env_random v"] continues_cookies_same [OF same(1,4)]
      Registrations_remove_effect(2) [OF reg] unfolding request_ok_def by auto
qed

lemma live_in_live: "live_in ns s \<subseteq> live s"
  by (force simp: live_in_def live_def)

lemma discover_step:
  assumes inv: "server_inv cfg used b" and fresh: "env_random v \<notin> used" and iter: "iter_ok (env_iter v)"
  shows "request_ok cfg used v p conn i (DiscoverRequested ns c limit) b"
proof (cases "cookie_mismatch ns c")
  case True
  then show ?thesis
    by (intro unchanged_request [OF inv]) (auto simp: Registrations_get_def intro: spec_bad_cookie)
next
  case False
  let ?s = "rdv_registrations b"
  let ?ids = "discovered_ids (env_iter v) ns c limit ?s"
  have reg: "reg_inv used ?s" and seen: "seen_by (Some d) ?s \<subseteq> used" for d
    using inv by (simp_all add: server_inv_def)
  obtain rs c' s' where get: "Registrations_get (env_iter v) (env_random v) ns c limit ?s = Some (Inr (rs, c'), s')"
    "cookie_id c' = env_random v" "s' = ?s\<lparr>cookies := Mapping.update c' (seen_by c ?s \<union> set ?ids) (cookies ?s)\<rparr>"
    "list_all2 (\<lambda>i r. Mapping.lookup (registrations ?s) i = Some r) ?ids rs"
    using Registrations_get_effect [OF reg iter False, of "env_random v" limit] by blast
  obtain ls where ls: "found ns (registered ?s) ls rs"
    "c = None \<and> limit = None \<longrightarrow> set ls = {l. registered ?s l \<noteq> None \<and> ns_matches ns (snd l)}"
    using found_discovered [OF reg iter get(4)] pairs_bound [OF reg fresh] by blast
  note same = cookies_change [OF reg get(3)]
  have seen_other: "seen_by (Some d) s' = (if d = c' then seen_by c ?s \<union> set ?ids else seen_by (Some d) ?s)" for d
    by (simp add: get(3) seen_by_def Mapping.lookup_update')
  have "set ?ids \<subseteq> used" using discovered(2) [OF reg iter] live_in_live live_used [OF reg] by blast
  moreover have "seen_by c ?s \<subseteq> used" using seen by (cases c) (auto simp: seen_by_def)
  ultimately have "server_inv cfg used
      \<lparr>rdv_events = rdv_events b @ [NotifyHandler p conn i (InDiscoverResponse rs c'), GenerateEvent (DiscoverServed p rs)],
       rdv_registrations = s'\<rparr>"
    using inv same(1) seen_other seen get(3) by (auto simp: server_inv_def)
  from server_inv_mono [OF this, of "insert (env_random v) used"]
  moreover have "continues {env_random v} ?s s'"
    using get(2,3) seen_other by (auto simp: continues_def)
  ultimately show ?thesis
    using get(1) same(2) spec_discover [OF False ls(1), of limit cfg "env_now v" p conn i "env_random v" c'] ls(2)
    unfolding request_ok_def by auto
qed

lemma poll_step:
  assumes inv: "server_inv cfg used b" and ready: "ready_ok ready" and poll: "rdv_poll ready now b = (a, b')"
  shows "server_inv cfg used b'"
    "rdv_spec cfg (now, registered (rdv_registrations b)) PollServer (Polled a) (now, registered (rdv_registrations b'))"
    "continues D (rdv_registrations b) (rdv_registrations b')"
proof -
  let ?s = "rdv_registrations b"
  obtain out s' where out: "Registrations_poll ready now ?s = (out, s')" by (cases "Registrations_poll ready now ?s")
  have reg: "reg_inv used ?s" using inv by (simp add: server_inv_def)
  note eff = Registrations_poll_effect [OF ready reg out]
  have kept: "seen_by (Some c) s' \<subseteq> seen_by (Some c) ?s" for c using eff by (auto simp: cookies_kept_def)
  have b': "rdv_registrations b' = s'" "set (rdv_events b') \<subseteq> set (rdv_events b)"
    using poll out by (auto simp: rdv_poll_def split: poll.splits list.splits)
  show "continues D ?s (rdv_registrations b')"
    using eff by (auto simp: continues_def cookies_kept_def b'(1))
  show "server_inv cfg used b'"
    using inv eff b' kept by (auto simp: server_inv_def) blast+
  show "rdv_spec cfg (now, registered ?s) PollServer (Polled a) (now, registered (rdv_registrations b'))"
  proof (cases out)
    case Pending
    then have "a = Pending \<or> (\<exists>e \<in> set (rdv_events b). a = Ready e)"
      using poll out by (auto simp: rdv_poll_def split: list.splits)
    then have "a \<noteq> Ready (GenerateEvent (RegistrationExpired r))" for r using inv by (auto simp: server_inv_def)
    then show ?thesis using eff Pending by (auto simp: b'(1) intro!: spec_quiet)
  next
    case (Ready r)
    then have "a = Ready (GenerateEvent (RegistrationExpired r))" using poll out by (simp add: rdv_poll_def)
    then show ?thesis using eff Ready by (auto simp: b'(1) intro: spec_expire)
  qed
qed

lemma rdv_step_ok:
  assumes inv: "server_inv cfg used b" and ready: "ready_ok ready" and iter: "iter_ok iter"
    and fresh: "set (drawn [x]) \<inter> used = {}"
  shows "\<exists>out now' b'. rdv_step ready iter x (now, b) = Some (out, now', b') \<and>
    server_inv cfg (used \<union> set (drawn [x])) b' \<and>
    rdv_spec cfg (now, registered (rdv_registrations b)) x out (now', registered (rdv_registrations b')) \<and>
    continues (set (drawn [x])) (rdv_registrations b) (rdv_registrations b')"
proof (cases x)
  case (Request p conn e rnd)
  show ?thesis
  proof (cases e)
    case (InboundEvent i m)
    let ?v = "\<lparr>env_now = now, env_random = rnd, env_iter = iter\<rparr>"
    have f: "env_random ?v \<notin> used" using fresh Request by simp
    have "request_ok cfg used ?v p conn i m b"
      using register_step [OF inv f] discover_step [OF inv f] unregister_step [OF inv] iter by (cases m) simp_all
    then obtain as s' where as: "handle_inbound_event ?v m p conn i (rdv_registrations b) = Some (as, s')"
      "server_inv cfg (insert rnd used) \<lparr>rdv_events = rdv_events b @ as, rdv_registrations = s'\<rparr>"
      "rdv_spec cfg (now, registered (rdv_registrations b)) (Request p conn (InboundEvent i m) rnd) (Queued as) (now, registered s')"
      "continues {rnd} (rdv_registrations b) s'"
      unfolding request_ok_def by auto
    then have "rdv_step ready iter x (now, b) = Some (Queued as, now, \<lparr>rdv_events = rdv_events b @ as, rdv_registrations = s'\<rparr>)"
      using Request InboundEvent by simp
    then show ?thesis using as(2-4) Request InboundEvent by simp
  next
    case InboundError
    have "server_inv cfg (insert rnd used) (b\<lparr>rdv_events := rdv_events b @ [CloseConnection p conn]\<rparr>)"
      using server_inv_mono [OF inv, of "insert rnd used"] by (auto simp: server_inv_def)
    then show ?thesis
      using Request InboundError by (auto simp: continues_refl intro: spec_stream_error)
  qed
next
  case PollServer
  obtain a b' where "rdv_poll ready now b = (a, b')" by (cases "rdv_poll ready now b")
  then show ?thesis using PollServer poll_step [OF inv ready] by auto
next
  case (Wait d)
  then show ?thesis using inv continues_refl by (auto intro: spec_wait)
qed

definition tracks :: "Cookie \<Rightarrow> RegistrationId set \<Rightarrow> ('pk, 'a) Registrations \<Rightarrow> bool" where
  "tracks c S s \<longleftrightarrow> seen_by (Some c) s \<subseteq> S \<and> S \<inter> live s \<subseteq> seen_by (Some c) s"

lemma tracks_step:
  assumes "continues D s s'" "D \<inter> S = {}" "cookie_id c \<notin> D" "tracks c S s"
  shows "tracks c S s'"
proof -
  have "set (registrations_for_peer s') \<subseteq> set (registrations_for_peer s) \<union> UNIV \<times> D"
    using assms(1) by (simp add: continues_def)
  from image_mono [OF this, of snd] have "live s' \<subseteq> live s \<union> D" by (auto simp: live_def image_Un)
  moreover have "seen_by (Some c) s' \<subseteq> seen_by (Some c) s" "seen_by (Some c) s \<inter> live s' \<subseteq> seen_by (Some c) s'"
    using assms(1,3) by (simp_all add: continues_def)
  ultimately show ?thesis using assms(2,4) unfolding tracks_def by blast
qed

lemma rdv_run_ok:
  assumes ready: "ready_ok ready" and iter: "iter_ok iter"
  shows "server_inv cfg used b \<Longrightarrow> distinct (drawn xs) \<Longrightarrow> set (drawn xs) \<inter> used = {} \<Longrightarrow>
    \<exists>outs now' b'. rdv_run ready iter xs (now, b) = Some (outs, now', b') \<and>
      server_inv cfg (used \<union> set (drawn xs)) b' \<and>
      rdv_spec_run cfg (now, registered (rdv_registrations b)) xs outs (now', registered (rdv_registrations b')) \<and>
      set (registrations_for_peer (rdv_registrations b')) \<subseteq>
        set (registrations_for_peer (rdv_registrations b)) \<union> UNIV \<times> set (drawn xs) \<and>
      (\<forall>c S. S \<subseteq> used \<longrightarrow> cookie_id c \<notin> set (drawn xs) \<longrightarrow> tracks c S (rdv_registrations b) \<longrightarrow>
         tracks c S (rdv_registrations b'))"
proof (induction xs arbitrary: used now b)
  case Nil
  then show ?case by (auto intro: rdv_spec_run.intros)
next
  case (Cons x xs)
  have drawn: "drawn (x # xs) = drawn [x] @ drawn xs" by (cases x) simp_all
  obtain out now1 b1 where step: "rdv_step ready iter x (now, b) = Some (out, now1, b1)"
    "server_inv cfg (used \<union> set (drawn [x])) b1"
    "rdv_spec cfg (now, registered (rdv_registrations b)) x out (now1, registered (rdv_registrations b1))"
    "continues (set (drawn [x])) (rdv_registrations b) (rdv_registrations b1)"
    using rdv_step_ok [OF Cons.prems(1) ready iter, of x now] Cons.prems(3) drawn by auto
  have fresh: "distinct (drawn xs)" "set (drawn xs) \<inter> (used \<union> set (drawn [x])) = {}"
    using Cons.prems(2,3) unfolding drawn by auto
  obtain outs now2 b2 where run: "rdv_run ready iter xs (now1, b1) = Some (outs, now2, b2)"
    "server_inv cfg (used \<union> set (drawn [x]) \<union> set (drawn xs)) b2"
    "rdv_spec_run cfg (now1, registered (rdv_registrations b1)) xs outs (now2, registered (rdv_registrations b2))"
    "set (registrations_for_peer (rdv_registrations b2)) \<subseteq>
       set (registrations_for_peer (rdv_registrations b1)) \<union> UNIV \<times> set (drawn xs)"
    "\<forall>c S. S \<subseteq> used \<union> set (drawn [x]) \<longrightarrow> cookie_id c \<notin> set (drawn xs) \<longrightarrow> tracks c S (rdv_registrations b1) \<longrightarrow>
       tracks c S (rdv_registrations b2)"
    using Cons.IH [OF step(2) fresh, of now1] by blast
  have "tracks c S (rdv_registrations b2)"
    if "S \<subseteq> used" "cookie_id c \<notin> set (drawn (x # xs))" "tracks c S (rdv_registrations b)" for c S
  proof -
    have "set (drawn [x]) \<inter> S = {}" using that(1) Cons.prems(3) drawn by auto
    then show ?thesis using tracks_step [OF step(4) _ _ that(3)] run(5) that drawn by auto
  qed
  moreover have "set (registrations_for_peer (rdv_registrations b2)) \<subseteq>
      set (registrations_for_peer (rdv_registrations b)) \<union> UNIV \<times> set (drawn (x # xs))"
    using run(4) step(4) drawn by (auto simp: continues_def)
  ultimately show ?case
    using step(1,3) run(1-3) drawn by (auto simp: Un_assoc intro: rdv_spec_run.intros)
qed

lemma discover_request:
  fixes b :: "('pk, 'a, 'c, 'i) rdv_Behaviour"
  assumes inv: "server_inv cfg used b" and fresh: "rnd \<notin> used" and iter: "iter_ok iter" and ok: "\<not> cookie_mismatch ns c"
  shows "\<exists>rs c' b'. rdv_step ready iter (Request p conn (InboundEvent i (DiscoverRequested ns c None)) rnd) (now, b) =
      Some (Queued [NotifyHandler p conn i (InDiscoverResponse rs c'), GenerateEvent (DiscoverServed p rs)], now, b') \<and>
    cookie_id c' = rnd \<and> cookie_namespace c' = ns \<and>
    registrations_for_peer (rdv_registrations b') = registrations_for_peer (rdv_registrations b) \<and>
    seen_by (Some c') (rdv_registrations b') = seen_by c (rdv_registrations b) \<union> live_in ns (rdv_registrations b) \<and>
    (\<exists>is. distinct is \<and> set is = live_in ns (rdv_registrations b) - seen_by c (rdv_registrations b) \<and>
       list_all2 (\<lambda>j r. Mapping.lookup (registrations (rdv_registrations b)) j = Some r) is rs)"
proof -
  let ?s = "rdv_registrations b"
  let ?ids = "discovered_ids iter ns c None ?s"
  have reg: "reg_inv used ?s" using inv by (simp add: server_inv_def)
  obtain rs c' s' where get: "Registrations_get iter rnd ns c None ?s = Some (Inr (rs, c'), s')"
    "cookie_id c' = rnd" "cookie_namespace c' = ns" "s' = ?s\<lparr>cookies := Mapping.update c' (seen_by c ?s \<union> set ?ids) (cookies ?s)\<rparr>"
    "list_all2 (\<lambda>i r. Mapping.lookup (registrations ?s) i = Some r) ?ids rs"
    using Registrations_get_effect [OF reg iter ok, of rnd None] by blast
  have ids: "set ?ids = live_in ns ?s - seen_by c ?s"
    by (rule discovered(3) [OF reg iter refl pairs_bound [OF reg fresh]])
  have "seen_by (Some c') s' = seen_by c ?s \<union> live_in ns ?s"
    unfolding get(4) using ids by (auto simp: seen_by_def)
  moreover define b' :: "('pk, 'a, 'c, 'i) rdv_Behaviour" where
    "b' = \<lparr>rdv_events = rdv_events b @ [NotifyHandler p conn i (InDiscoverResponse rs c'), GenerateEvent (DiscoverServed p rs)],
         rdv_registrations = s'\<rparr>"
  moreover have "rdv_step ready iter (Request p conn (InboundEvent i (DiscoverRequested ns c None)) rnd) (now, b) =
      Some (Queued [NotifyHandler p conn i (InDiscoverResponse rs c'), GenerateEvent (DiscoverServed p rs)], now, b')"
    using get(1) by (simp add: b'_def)
  moreover have "registrations_for_peer s' = registrations_for_peer ?s" by (simp add: get(4))
  moreover have "\<exists>is. distinct is \<and> set is = live_in ns ?s - seen_by c ?s \<and>
      list_all2 (\<lambda>j r. Mapping.lookup (registrations ?s) j = Some r) is rs"
    using get(5) ids discovered(1) [OF reg iter, of ns c None] by blast
  ultimately show ?thesis
    using get(2,3) by (intro exI [of _ rs] exI [of _ c'] exI [of _ b']) simp
qed

section \<open>An example\<close>

definition first_due :: "instant \<Rightarrow> timers \<Rightarrow> nat option" where
  "first_due now ts = position_of (\<lambda>x. fst x \<le> now) ts"

lemma first_due_ok: "ready_ok first_due"
  by (auto simp: ready_ok_def first_due_def position_of_Some position_of_None not_le split: option.splits)

lemma in_order_ok: "iter_ok (\<lambda>xs. xs)"
  by (simp add: iter_ok_def)

definition sample_request :: "(bytes, bytes, unit, unit) rdv_op" where
  "sample_request =
     Request (rec_peer_id sample_record) ()
       (InboundEvent () (RegistrationRequested \<lparr>nr_namespace = Namespace [1], nr_record = sample_record, nr_ttl = None\<rparr>)) 2"

section \<open>Properties\<close>

text \<open>
  C10. In every run of the server in which the random numbers it draws differ, no operation panics and the server
  does what the specification says, step by step: it keeps one registration for each peer and namespace,
  accepts a registration only from the peer it is for and with an admissible time to live, answers every
  request for discovery with registrations that are stored (all that match if there is neither cookie nor limit),
  and reports and removes a registration when, and only when, it has expired; a poll that reports no expiry leaves no
  expired registration behind.
\<close>
theorem rendezvous_server_refines:
  fixes xs :: "('pk, 'a, 'c, 'i) rdv_op list"
  assumes "ready_ok ready" "iter_ok iter" "distinct (drawn xs)"
  shows "\<exists>outs now b. rdv_run ready iter xs (0, rdv_Behaviour_new cfg) = Some (outs, now, b) \<and>
    rdv_spec_run cfg (0, \<lambda>_. None) xs outs (now, registered (rdv_registrations b)) \<and>
    (\<forall>l r t. registered (rdv_registrations b) l = Some (r, t) \<longrightarrow>
       l = (rec_peer_id (reg_record r), reg_namespace r) \<and> cfg_min_ttl cfg \<le> reg_ttl r \<and> reg_ttl r \<le> cfg_max_ttl cfg)"
proof -
  obtain outs now b where run: "rdv_run ready iter xs (0, rdv_Behaviour_new cfg) = Some (outs, now, b)"
    "server_inv cfg ({} \<union> set (drawn xs)) b"
    "rdv_spec_run cfg (0, registered (rdv_registrations (rdv_Behaviour_new cfg :: ('pk, 'a, 'c, 'i) rdv_Behaviour))) xs outs
       (now, registered (rdv_registrations b))"
    using rdv_run_ok [OF assms(1,2) new_server_inv assms(3), of 0 cfg] by blast
  have "registered (rdv_registrations (rdv_Behaviour_new cfg :: ('pk, 'a, 'c, 'i) rdv_Behaviour)) = (\<lambda>_. None)"
    by (simp add: registered_def rdv_Behaviour_new_def Registrations_with_config_def get_by_left_def fun_eq_iff)
  moreover have inv: "reg_inv (set (drawn xs)) (rdv_registrations b)" "min_ttl (rdv_registrations b) = cfg_min_ttl cfg"
    "max_ttl (rdv_registrations b) = cfg_max_ttl cfg" using run(2) by (simp_all add: server_inv_def)
  moreover have "l = (rec_peer_id (reg_record r), reg_namespace r) \<and> cfg_min_ttl cfg \<le> reg_ttl r \<and> reg_ttl r \<le> cfg_max_ttl cfg"
    if at: "registered (rdv_registrations b) l = Some (r, t)" for l r t
  proof -
    obtain j where j: "(l, j) \<in> set (registrations_for_peer (rdv_registrations b))"
      "Mapping.lookup (registrations (rdv_registrations b)) j = Some r" using at registered_iff [OF inv(1), of l r t] by blast
    show ?thesis using pair_of_registration [OF inv(1) j] reg_invD(4) [OF inv(1) j(2)] inv(2,3) by simp
  qed
  ultimately show ?thesis using run(1,3) by auto
qed

theorem rendezvous_server_refines_witness:
  "\<exists>outs now b. rdv_run first_due (\<lambda>xs. xs) [sample_request, Wait 7200, PollServer] (0, rdv_Behaviour_new rdv_Config_default) =
      Some (outs, now, b) \<and>
     rdv_spec_run rdv_Config_default (0, \<lambda>_. None) [sample_request, Wait 7200, PollServer] outs (now, registered (rdv_registrations b))"
  using rendezvous_server_refines [OF first_due_ok in_order_ok, of "[sample_request, Wait 7200, PollServer]" rdv_Config_default]
  by (auto simp: sample_request_def)

text \<open>
  C11. A cookie gives exactly the difference. Let a discovery without limit for some or all namespaces be answered with a cookie, and
  let anything happen after it. A second discovery with this cookie is answered with exactly the
  registrations that are there then and were not there at the time of the first, each of them once.
\<close>
theorem rendezvous_discover_delta:
  fixes xs ys :: "('pk, 'a, 'c, 'i) rdv_op list"
  assumes ready: "ready_ok ready" and iter: "iter_ok iter"
    and dist: "distinct (drawn (xs @ Request p conn (InboundEvent i (DiscoverRequested ns c None)) rnd # ys) @ [rnd'])"
    and run: "rdv_run ready iter xs (0, rdv_Behaviour_new cfg) = Some (outs, now, b1)"
    and ok: "\<not> cookie_mismatch ns c"
  shows "\<exists>rs c' b2 outs' now' b3 rs' c'' b4 is.
    rdv_step ready iter (Request p conn (InboundEvent i (DiscoverRequested ns c None)) rnd) (now, b1) =
      Some (Queued [NotifyHandler p conn i (InDiscoverResponse rs c'), GenerateEvent (DiscoverServed p rs)], now, b2) \<and>
    rdv_run ready iter ys (now, b2) = Some (outs', now', b3) \<and>
    rdv_step ready iter (Request p' conn' (InboundEvent i' (DiscoverRequested ns (Some c') None)) rnd') (now', b3) =
      Some (Queued [NotifyHandler p' conn' i' (InDiscoverResponse rs' c''), GenerateEvent (DiscoverServed p' rs')], now', b4) \<and>
    distinct is \<and> set is = live_in ns (rdv_registrations b3) - live_in ns (rdv_registrations b1) \<and>
    list_all2 (\<lambda>j r. Mapping.lookup (registrations (rdv_registrations b3)) j = Some r) is rs'"
proof -
  have drawn: "drawn (xs @ zs) = drawn xs @ drawn zs" for zs :: "('pk, 'a, 'c, 'i) rdv_op list"
    by (induction xs rule: drawn.induct) simp_all
  have fresh: "distinct (drawn xs)" "rnd \<notin> set (drawn xs)" "distinct (drawn ys)" "rnd \<notin> set (drawn ys)"
    "set (drawn ys) \<inter> insert rnd (set (drawn xs)) = {}" "rnd' \<notin> insert rnd (set (drawn xs)) \<union> set (drawn ys)"
    using dist unfolding drawn by auto
  have inv1: "server_inv cfg (set (drawn xs)) b1"
    using rdv_run_ok [OF ready iter new_server_inv fresh(1), of 0 cfg] run by auto
  obtain rs c' b2 where one: "rdv_step ready iter (Request p conn (InboundEvent i (DiscoverRequested ns c None)) rnd) (now, b1) =
      Some (Queued [NotifyHandler p conn i (InDiscoverResponse rs c'), GenerateEvent (DiscoverServed p rs)], now, b2)"
    "cookie_id c' = rnd" "cookie_namespace c' = ns"
    "registrations_for_peer (rdv_registrations b2) = registrations_for_peer (rdv_registrations b1)"
    "seen_by (Some c') (rdv_registrations b2) = seen_by c (rdv_registrations b1) \<union> live_in ns (rdv_registrations b1)"
    using discover_request [OF inv1 fresh(2) iter ok, of ready p conn i now] by blast
  define S where "S = seen_by c (rdv_registrations b1) \<union> live_in ns (rdv_registrations b1)"
  have inv2: "server_inv cfg (insert rnd (set (drawn xs))) b2"
    using rdv_step_ok [OF inv1 ready iter, of "Request p conn (InboundEvent i (DiscoverRequested ns c None)) rnd" now] one(1) fresh(2)
    by auto
  then have S: "S \<subseteq> insert rnd (set (drawn xs))" using one(5) unfolding S_def server_inv_def by metis
  have "tracks c' S (rdv_registrations b2)" using one(5) by (simp add: tracks_def S_def)
  then obtain outs' now' b3 where mid: "rdv_run ready iter ys (now, b2) = Some (outs', now', b3)"
    "server_inv cfg (insert rnd (set (drawn xs)) \<union> set (drawn ys)) b3" "tracks c' S (rdv_registrations b3)"
    "set (registrations_for_peer (rdv_registrations b3)) \<subseteq> set (registrations_for_peer (rdv_registrations b1)) \<union> UNIV \<times> set (drawn ys)"
    using rdv_run_ok [OF ready iter inv2 fresh(3,5), of now] S one(2,4) fresh(4) by auto
  have "\<not> cookie_mismatch ns (Some c')" using one(3) by (simp add: cookie_mismatch_def split: option.splits)
  from discover_request [OF mid(2) fresh(6) iter this, of ready p' conn' i' now']
  obtain rs' c'' b4 "is" where two:
    "rdv_step ready iter (Request p' conn' (InboundEvent i' (DiscoverRequested ns (Some c') None)) rnd') (now', b3) =
      Some (Queued [NotifyHandler p' conn' i' (InDiscoverResponse rs' c''), GenerateEvent (DiscoverServed p' rs')], now', b4)"
    "distinct is" "set is = live_in ns (rdv_registrations b3) - seen_by (Some c') (rdv_registrations b3)"
    "list_all2 (\<lambda>j r. Mapping.lookup (registrations (rdv_registrations b3)) j = Some r) is rs'" by blast
  have "set is = live_in ns (rdv_registrations b3) - live_in ns (rdv_registrations b1)"
  proof (intro equalityI subsetI)
    fix j
    assume j: "j \<in> set is"
    then have "j \<in> live (rdv_registrations b3)" using two(3) live_in_live by blast
    then show "j \<in> live_in ns (rdv_registrations b3) - live_in ns (rdv_registrations b1)"
      using j two(3) mid(3) unfolding tracks_def S_def by blast
  next
    fix j
    assume j: "j \<in> live_in ns (rdv_registrations b3) - live_in ns (rdv_registrations b1)"
    have "j \<notin> S"
    proof
      assume "j \<in> S"
      then have "j \<notin> set (drawn ys)" using S fresh(5) by blast
      then show False using j mid(4) by (auto simp: live_in_def)
    qed
    then show "j \<in> set is" using j two(3) mid(3) unfolding tracks_def by blast
  qed
  then show ?thesis using one(1) mid(1) two(1,2,4) by blast
qed

theorem rendezvous_discover_delta_witness:
  "\<exists>rs c' b2 outs' now' b3 rs' c'' b4 is.
    rdv_step first_due (\<lambda>xs. xs) (Request (rec_peer_id sample_record) () (InboundEvent () (DiscoverRequested None None None)) 1)
      (0, rdv_Behaviour_new rdv_Config_default) =
      Some (Queued [NotifyHandler (rec_peer_id sample_record) () () (InDiscoverResponse rs c'),
                    GenerateEvent (DiscoverServed (rec_peer_id sample_record) rs)], 0, b2) \<and>
    rdv_run first_due (\<lambda>xs. xs) [sample_request] (0, b2) = Some (outs', now', b3) \<and>
    rdv_step first_due (\<lambda>xs. xs) (Request (rec_peer_id sample_record) () (InboundEvent () (DiscoverRequested None (Some c') None)) 3)
      (now', b3) =
      Some (Queued [NotifyHandler (rec_peer_id sample_record) () () (InDiscoverResponse rs' c''),
                    GenerateEvent (DiscoverServed (rec_peer_id sample_record) rs')], now', b4) \<and>
    distinct is \<and> set is = live_in None (rdv_registrations b3) \<and>
    list_all2 (\<lambda>j r. Mapping.lookup (registrations (rdv_registrations b3)) j = Some r) is rs'"
  using rendezvous_discover_delta [OF first_due_ok in_order_ok, of "[]" "rec_peer_id sample_record" "()" "()" None None 1
      "[sample_request]" 3 rdv_Config_default "[]" 0 "rdv_Behaviour_new rdv_Config_default" "rec_peer_id sample_record" "()" "()"]
  by (simp add: sample_request_def cookie_mismatch_def rdv_Behaviour_new_def Registrations_with_config_def live_in_def
      del: rdv_step.simps)

end
