(* ===== verification/Spec2Isabelle.thy ===== *)
theory Spec2Isabelle
  imports Kad_Table Kad_Query Kad_Store Mplex_Streams Multistream_Select Swarm_Registry Swarm_PoolEvents
    Relay_RateLimiter Relay_Circuit Gossip_TimeCache Gossip_MessageCache Gossip_Backoff
    Gossip_Subscriptions Rendezvous_Server
begin

text \<open>
  Verification of the deterministic core of rust-libp2p. File names are relative to \<open>src/\<close>.

  \<^bold>\<open>The program.\<close> A libp2p node is a swarm: it dials and accepts connections through transports,
  upgrades them (protocol negotiation by multistream-select, encryption, multiplexing), keeps them
  in a connection pool, and runs network behaviours (Kademlia, gossipsub, relay and others) on the
  streams of the multiplexed connections. The parts that hold state and make decisions are modelled,
  each in its own theory; what connects them to sockets, timers and cryptography is a parameter.

  \<^bold>\<open>Conventions.\<close> Structs are records, enums are datatypes, machine integers are words where
  their width matters. A panic (failed \<open>expect\<close>, failed assertion, index out of range, arithmetic overflow of
  a checked build) is \<open>None\<close> of the option type, an error is \<open>Inl\<close>, a poll result is of type \<open>poll\<close>.
  The clock, random bits, hashes and the iteration order of a hash map are arguments. A loop whose end is not structural is a
  partial function; that it ends is then part of the theorems, so no fuel is used anywhere.

  \<^bold>\<open>Theories shared by the components.\<close>
  \<^item> Prelude: integer types, checked arithmetic, bounded vectors, sorting, list and word lemmas.
  \<^item> BTreeMap: the ordered map of the standard library as a sorted association list.
  \<^item> Async_Io: poll results and I/O errors.
  \<^item> Varint: the laws of the \<open>unsigned-varint\<close> crate, which is a parameter of both wire formats.
  \<^item> Core_Connection: endpoint roles and connection points (\<open>core/src/connection.rs\<close>).
  \<^item> Core_PeerRecord: peer ids, signed envelopes and peer records (\<open>core/src/peer_id.rs\<close>, \<open>signed_envelope.rs\<close>, \<open>peer_record.rs\<close>) over
    parameters for keys, signatures, multihashes and the protobuf encoding; a record that is accepted was signed by its peer.

  \<^bold>\<open>Kademlia\<close> (\<open>protocols/kad/src\<close>).
  \<^item> Kad_Key (\<open>kbucket/key.rs\<close>, \<open>BucketIndex\<close> of \<open>kbucket.rs\<close>): 256-bit keys, the XOR metric, bucket ranges.
  \<^item> Kad_Bucket (\<open>kbucket/bucket.rs\<close>): a bucket with its pending node. The locale \<open>bucket_contract\<close> states the
    least-recently-used specification; it is interpreted on the operations of the bucket.
  \<^item> Kad_Table (\<open>kbucket.rs\<close>, \<open>kbucket/entry.rs\<close>): the routing table and the entry API, the order in which the buckets are
    visited, and the closest-key iterators, proved once in the locale \<open>bucket_projection\<close> for both of them.
  \<^item> Kad_Peers, Kad_Closest, Kad_Disjoint (\<open>query/peers.rs\<close> and below): the three peer iterators. The locale \<open>peers_iter\<close>
    is their common contract (no panic, no peer contacted twice, one result per peer), interpreted on
    each; on top of it come the correctness and the termination of a lookup.
  \<^item> Kad_Query (\<open>query.rs\<close>): queries, their statistics and the pool, on top of the three iterators.
  \<^item> Kad_Store (\<open>record.rs\<close>, \<open>record/store/memory.rs\<close>): the record store, its limits and its index of provided keys.

  \<^bold>\<open>Protocol negotiation\<close> (\<open>misc/multistream-select/src\<close>).
  \<^item> Multistream_Framing (\<open>length_delimited.rs\<close>), Multistream_Message (\<open>protocol.rs\<close>): frames over an arbitrary byte transport that
    splits and delays data, messages and their encoding.
  \<^item> Multistream_Select (\<open>dialer_select.rs\<close>, \<open>listener_select.rs\<close>, \<open>negotiated.rs\<close>): the futures of both sides as one turn of their loops each, and
    their interleavings as a step relation. Both sides agree, and every run ends.

  \<^bold>\<open>Mplex\<close> (\<open>muxers/mplex/src\<close>).
  \<^item> Mplex_Codec (\<open>codec.rs\<close>): frames, the incremental decoder and the encoder.
  \<^item> Mplex_Io (\<open>io.rs\<close>, \<open>config.rs\<close>, \<open>lib.rs\<close>): the multiplexer over any framed I/O resource, with its wakers.
  \<^item> Mplex_IoSafety: every operation is a path of steps of the core of the state, keeps the bounds, does
    not panic and returns. Mplex_Streams: runs; the order of what is read; the protocol of
    what is sent; and that dropping a blocking stream blocks the connection for good.

  \<^bold>\<open>Swarm\<close> (\<open>swarm/src\<close>).
  \<^item> Swarm_Registry (\<open>registry.rs\<close>): the scored collection of external addresses.
  \<^item> Swarm_Pool (\<open>connection/pool.rs\<close>, \<open>connection/pool/task.rs\<close>): the connection pool, its counters and limits, and the background tasks
    of pending and established connections, running concurrently with it over channels.
  \<^item> Swarm_PoolSafety: in every interleaving nothing panics, counters are exact and limits hold.
    Swarm_PoolEvents: the events reported about a connection are in the documented order.

  \<^bold>\<open>Relay\<close> (\<open>protocols/relay/src/v2\<close>).
  \<^item> Relay_RateLimiter (\<open>relay/rate_limiter.rs\<close>): the token buckets; what is admitted is bounded, and a patient caller is admitted.
  \<^item> Relay_Circuit (\<open>copy_future.rs\<close>): the forwarding of a circuit between any two substreams; every poll ends, data keeps its order, the limit
    holds up to two buffers.

  \<^bold>\<open>Gossipsub\<close> (\<open>protocols/gossipsub/src\<close>).
  \<^item> Gossip_TimeCache, Gossip_MessageCache (\<open>time_cache.rs\<close>, \<open>mcache.rs\<close>): the duplicate cache as a refinement of a map with
    expiry times, the message cache with its history windows.
  \<^item> Gossip_Backoff (\<open>backoff.rs\<close>): the backoffs with their ring of heartbeats; each is respected with its slack and forgotten afterwards.
  \<^item> Gossip_Subscriptions (\<open>subscription_filter.rs\<close>): the filters of subscriptions and their limits, which a combined filter ignores.

  \<^bold>\<open>Rendezvous\<close> (\<open>protocols/rendezvous/src\<close>).
  \<^item> Rendezvous_Codec (\<open>codec.rs\<close>): messages, cookies, namespaces and their conversion from and to the wire types.
  \<^item> Rendezvous_Server (\<open>server.rs\<close>): the server behaviour with its registrations as a refinement of a map from peers and namespaces to
    registrations; a cookie gives exactly what was registered since it was issued.

  \<^bold>\<open>Bounds.\<close> Runs of the pool and of the multiplexer are assumed to allocate fewer than \<open>2 ^ 64\<close>
  ids, since the code adds one to a 64-bit counter; counters of \<open>u32\<close> have the corresponding bound where the code would
  overflow, and the byte limit of a relayed circuit is two buffers below \<open>2 ^ 64\<close>. Everything else holds for runs of any length.

  \<^bold>\<open>Not modelled.\<close> Transports and their combinators, the event loop of the swarm and most network
  behaviours: they are generic over traits the user implements and do asynchronous I/O. Key pairs and
  noise: calls of cryptographic libraries. The protobuf encoders: generated code. Gossipsub scoring: floating-point
  arithmetic. Logging, metrics, formatting and the procedural macro have no effect on the state modelled here.
\<close>

end
